(* ===== verification/Prelude.thy ===== *)
theory Prelude
  imports Main "HOL-Library.Word"
begin

text \<open>
  Shared vocabulary of the development: machine integers, the outcome of a kernel
  routine, its sequential composition, arrays as functions, and the generic lemmas on
  words and lists that the component theories use.
\<close>

unbundle bit_operations_syntax

section \<open>Machine types\<close>

text \<open>The typedefs of \<^verbatim>\<open>types.h\<close>: \<open>uchar\<close>/\<open>uint8\<close>, \<open>uint\<close>/\<open>uint32\<close>
  and \<open>uint64\<close> (also the type of a pointer).\<close>

type_synonym uint8 = "8 word"
type_synonym uint = "32 word"
type_synonym uint64 = "64 word"

text \<open>A disk block or a byte array: the byte at each index. Only the indices below the
  array's size are ever read or written.\<close>

type_synonym bytes = "nat \<Rightarrow> uint8"

section \<open>Outcomes of kernel routines\<close>

text \<open>
  A kernel routine takes the state and ends in one of five ways. \<open>Ok x s\<close>: it returns
  \<open>x\<close> in state \<open>s\<close>. \<open>Panic m\<close>: it calls \<^verbatim>\<open>panic(m)\<close>, which never returns.
  \<open>Swtch s\<close>: the calling process gives up the CPU inside \<^verbatim>\<open>sched()\<close>, \<open>s\<close> being the
  state the scheduler resumes in. \<open>Fault\<close>: the C code dereferences a null pointer or
  indexes an array out of its bounds. \<open>Diverge\<close>: a loop over a linked structure used
  more iterations than a well-formed structure has elements, or a loop that never ends.
\<close>

datatype ('s, 'a) outcome =
    Ok 'a 's
  | Panic string
  | Swtch 's
  | Fault
  | Diverge

fun andthen :: "('s, 'a) outcome \<Rightarrow> ('a \<Rightarrow> 's \<Rightarrow> ('s, 'b) outcome) \<Rightarrow> ('s, 'b) outcome" where
  "andthen (Ok x s) f = f x s"
| "andthen (Panic m) f = Panic m"
| "andthen (Swtch s) f = Swtch s"
| "andthen Fault f = Fault"
| "andthen Diverge f = Diverge"

lemma andthen_cong [fundef_cong]:
  "m = m' \<Longrightarrow> (\<And>x s. m' = Ok x s \<Longrightarrow> f x s = g x s) \<Longrightarrow> andthen m f = andthen m' g"
  by (cases m') auto

lemma andthen_Ok_iff:
  "andthen m f = Ok y t \<longleftrightarrow> (\<exists>x s. m = Ok x s \<and> f x s = Ok y t)"
  by (cases m) auto

lemma andthen_assoc:
  "andthen (andthen m f) g = andthen m (\<lambda>x s. andthen (f x s) g)"
  by (cases m) auto

section \<open>Words\<close>

text \<open>The masks of the source: \<open>w & 0x1F\<close>, \<open>w & 0xFF\<close>, \<open>w & 0xFFFF\<close>.\<close>

lemma and_mask_take_bit:
  fixes w :: "'a::len word"
  shows "w AND 0x1F = take_bit 5 w" "w AND 0xFF = take_bit 8 w" "w AND 0xFFFF = take_bit 16 w"
  by (simp_all add: take_bit_eq_mask mask_eq_exp_minus_1)

text \<open>Conversions between words and natural numbers.\<close>

lemma unat_of_nat_uint [simp]: "n < 2 ^ 32 \<Longrightarrow> unat (of_nat n :: uint) = n"
  by (simp add: unat_of_nat)
lemma unat_of_nat_uint64 [simp]: "n < 2 ^ 64 \<Longrightarrow> unat (of_nat n :: uint64) = n"
  by (simp add: unat_of_nat)
lemma of_nat_uint_inj: "m < 2 ^ 32 \<Longrightarrow> n < 2 ^ 32 \<Longrightarrow> (of_nat m :: uint) = of_nat n \<longleftrightarrow> m = n"
  by (metis unat_of_nat_uint)

lemma scast_of_nat: "n < 2 ^ 31 \<Longrightarrow> scast (of_nat n :: uint) = (of_nat n :: uint64)"
  by (simp add: signed_of_nat signed_take_bit_int_eq_self)

lemma bit_nat_less: "i < 2 ^ m \<Longrightarrow> bit (i :: nat) n \<Longrightarrow> n < m"
  by (metis bit_take_bit_iff take_bit_nat_eq_self)

lemma signed_shift5: "i < 2 ^ 31 \<Longrightarrow> signed_drop_bit 5 (of_nat i :: uint) = of_nat (i div 32)"
proof -
  assume i: "i < 2 ^ 31"
  have "\<not> bit i n" if "31 \<le> n" for n
    using bit_nat_less [OF i, of n] that by auto
  moreover have "i div 32 = drop_bit 5 i" by (simp add: drop_bit_eq_div)
  ultimately show ?thesis
    by (intro bit_word_eqI) (auto simp: bit_simps bit_of_nat_iff)
qed

lemma unat_take_bit: "unat (take_bit n w) = take_bit n (unat w)"
  by (rule unsigned_take_bit_eq)

lemma and31: "unat ((of_nat i :: uint) AND 0x1F) = i mod 32"
  unfolding and_mask_take_bit unat_take_bit
  by (simp add: unat_of_nat take_bit_eq_mod mod_mod_cancel)

end
