(* ===== verification/KString.thy ===== *)
theory KString
  imports Prelude
begin

text \<open>
  The kernel's memory and string routines (\<^verbatim>\<open>lib/string.c\<close>). Memory is a function from
  byte addresses to bytes; a pointer is an address. The routines are loops over pointers,
  written here as tail recursions over the same variables; source and destination may
  overlap, since every store is seen by the loads that follow it.
\<close>

type_synonym memory = "nat \<Rightarrow> uint8"

section \<open>Definitions\<close>

text \<open>\<open>memset\<close>: bytes up to a word boundary, then words of four bytes (stored little
  endian), then the bytes left over.\<close>

function memset_bytes_to_word :: "uint8 \<Rightarrow> int \<Rightarrow> nat \<Rightarrow> memory \<Rightarrow> int \<times> nat \<times> memory" where
  "memset_bytes_to_word c n p m =
     (if n > 0 \<and> p mod 4 \<noteq> 0 then memset_bytes_to_word c (n - 1) (p + 1) (m(p := c)) else (n, p, m))"
  by pat_completeness auto
termination
  by (relation "measure (\<lambda>(c, n, p, m). nat n)") auto

definition store32 :: "nat \<Rightarrow> uint \<Rightarrow> memory \<Rightarrow> memory" where
  "store32 p v m = m(p := ucast v, p + 1 := ucast (drop_bit 8 v),
     p + 2 := ucast (drop_bit 16 v), p + 3 := ucast (drop_bit 24 v))"

function memset_words :: "uint \<Rightarrow> int \<Rightarrow> nat \<Rightarrow> memory \<Rightarrow> int \<times> nat \<times> memory" where
  "memset_words v n p m =
     (if n \<ge> 4 then memset_words v (n - 4) (p + 4) (store32 p v m) else (n, p, m))"
  by pat_completeness auto
termination
  by (relation "measure (\<lambda>(v, n, p, m). nat n)") auto

function memset_leftover :: "uint8 \<Rightarrow> int \<Rightarrow> nat \<Rightarrow> memory \<Rightarrow> memory" where
  "memset_leftover c n p m =
     (if n > 0 then memset_leftover c (n - 1) (p + 1) (m(p := c)) else m)"
  by pat_completeness auto
termination
  by (relation "measure (\<lambda>(c, n, p, m). nat n)") auto

definition memset :: "nat \<Rightarrow> uint \<Rightarrow> int \<Rightarrow> memory \<Rightarrow> memory" where
  "memset dst v n m =
     (let c = ucast (v AND 0xff) :: uint8;
          val = push_bit 24 (ucast c) OR push_bit 16 (ucast c) OR push_bit 8 (ucast c) OR ucast c;
          (n1, p1, m1) = memset_bytes_to_word c n dst m;
          (n2, p2, m2) = memset_words val n1 p1 m1
      in memset_leftover c n2 p2 m2)"

text \<open>\<open>memcmp\<close>: the difference of the first bytes that differ.\<close>

fun memcmp :: "memory \<Rightarrow> nat \<Rightarrow> nat \<Rightarrow> nat \<Rightarrow> int" where
  "memcmp m s1 s2 0 = 0"
| "memcmp m s1 s2 (Suc n) =
     (if m s1 \<noteq> m s2 then uint (m s1) - uint (m s2) else memcmp m (s1 + 1) (s2 + 1) n)"

text \<open>\<open>memmove\<close>: backwards when the destination starts inside the source.\<close>

fun memmove_backward :: "nat \<Rightarrow> nat \<Rightarrow> nat \<Rightarrow> memory \<Rightarrow> memory" where
  "memmove_backward d s 0 m = m"
| "memmove_backward d s (Suc n) m = memmove_backward (d - 1) (s - 1) n (m(d - 1 := m (s - 1)))"

fun memmove_forward :: "nat \<Rightarrow> nat \<Rightarrow> nat \<Rightarrow> memory \<Rightarrow> memory" where
  "memmove_forward d s 0 m = m"
| "memmove_forward d s (Suc n) m = memmove_forward (d + 1) (s + 1) n (m(d := m s))"

definition memmove :: "nat \<Rightarrow> nat \<Rightarrow> nat \<Rightarrow> memory \<Rightarrow> memory" where
  "memmove d s n m =
     (if s < d \<and> s + n > d then memmove_backward (d + n) (s + n) n m
      else memmove_forward d s n m)"

definition memcpy :: "nat \<Rightarrow> nat \<Rightarrow> nat \<Rightarrow> memory \<Rightarrow> memory" where
  "memcpy d s n m = memmove d s n m"

fun strncmp :: "memory \<Rightarrow> nat \<Rightarrow> nat \<Rightarrow> nat \<Rightarrow> int" where
  "strncmp m p q 0 = 0"
| "strncmp m p q (Suc n) =
     (if m p \<noteq> 0 \<and> m p = m q then strncmp m (p + 1) (q + 1) n
      else uint (m p) - uint (m q))"

text \<open>\<open>strncpy\<close>: the first loop copies up to and including the NUL, the second pads.\<close>

function strncpy_copy :: "nat \<Rightarrow> nat \<Rightarrow> int \<Rightarrow> memory \<Rightarrow> int \<times> nat \<times> memory" where
  "strncpy_copy s t n m =
     (if n > 0
      then (if m t \<noteq> 0 then strncpy_copy (s + 1) (t + 1) (n - 1) (m(s := m t))
            else (n - 1, s + 1, m(s := m t)))
      else (n - 1, s, m))"
  by pat_completeness auto
termination
  by (relation "measure (\<lambda>(s, t, n, m). nat n)") auto

function strncpy_pad :: "nat \<Rightarrow> int \<Rightarrow> memory \<Rightarrow> memory" where
  "strncpy_pad s n m = (if n > 0 then strncpy_pad (s + 1) (n - 1) (m(s := 0)) else m)"
  by pat_completeness auto
termination
  by (relation "measure (\<lambda>(s, n, m). nat n)") auto

definition strncpy :: "nat \<Rightarrow> nat \<Rightarrow> int \<Rightarrow> memory \<Rightarrow> memory" where
  "strncpy s t n m = (let (n1, s1, m1) = strncpy_copy s t n m in strncpy_pad s1 n1 m1)"

function safestrcpy_copy :: "nat \<Rightarrow> nat \<Rightarrow> int \<Rightarrow> memory \<Rightarrow> nat \<times> memory" where
  "safestrcpy_copy s t n m =
     (if n - 1 > 0
      then (if m t \<noteq> 0 then safestrcpy_copy (s + 1) (t + 1) (n - 1) (m(s := m t))
            else (s + 1, m(s := m t)))
      else (s, m))"
  by pat_completeness auto
termination
  by (relation "measure (\<lambda>(s, t, n, m). nat n)") auto

definition safestrcpy :: "nat \<Rightarrow> nat \<Rightarrow> int \<Rightarrow> memory \<Rightarrow> memory" where
  "safestrcpy s t n m =
     (if n \<le> 0 then m
      else (let (s1, m1) = safestrcpy_copy s t n m in m1(s1 := 0)))"

text \<open>\<open>strlen\<close> runs until it meets a NUL; it does not return on memory without one.\<close>

partial_function (option) strlen_from :: "memory \<Rightarrow> nat \<Rightarrow> nat \<Rightarrow> nat option" where
  "strlen_from m s n = (if m (s + n) \<noteq> 0 then strlen_from m s (n + 1) else Some n)"

definition strlen :: "memory \<Rightarrow> nat \<Rightarrow> nat option" where
  "strlen m s = strlen_from m s 0"

declare memset_bytes_to_word.simps [simp del] memset_words.simps [simp del]
  memset_leftover.simps [simp del] strncpy_copy.simps [simp del]
  strncpy_pad.simps [simp del] safestrcpy_copy.simps [simp del]

section \<open>Block fills and block copies\<close>

text \<open>The meaning of the routines: \<open>fill\<close> and \<open>blit\<close> change exactly the bytes of the
  destination range; \<open>blit\<close> reads all its bytes from the memory before the call.\<close>

definition fill :: "nat \<Rightarrow> nat \<Rightarrow> uint8 \<Rightarrow> memory \<Rightarrow> memory" where
  "fill d n c m = (\<lambda>a. if d \<le> a \<and> a < d + n then c else m a)"

definition blit :: "nat \<Rightarrow> nat \<Rightarrow> nat \<Rightarrow> memory \<Rightarrow> memory" where
  "blit d s n m = (\<lambda>a. if d \<le> a \<and> a < d + n then m (s + (a - d)) else m a)"

lemma fill_0 [simp]: "fill d 0 c m = m"
  by (auto simp: fill_def fun_eq_iff)

lemma fill_step: "fill (Suc d) n c (m(d := c)) = fill d (Suc n) c m"
  by (rule ext) (auto simp: fill_def)

lemma fill_fill: "fill (d + k) n c (fill d k c m) = fill d (k + n) c m"
  by (rule ext) (auto simp: fill_def)

lemma nat_pred_Suc: "0 < n \<Longrightarrow> Suc (nat (n - 1)) = nat n"
  by simp

lemma memset_leftover_fill: "memset_leftover c n p m = fill p (nat n) c m"
proof (induction c n p m rule: memset_leftover.induct)
  case (1 c n p m)
  show ?case
  proof (cases "n > 0")
    case True
    with 1 have "memset_leftover c n p m = fill (p + 1) (nat (n - 1)) c (m(p := c))"
      by (simp add: memset_leftover.simps [of c n p m] del: fun_upd_apply)
    with True show ?thesis
      by (simp add: fill_step nat_pred_Suc)
  qed (simp add: memset_leftover.simps [of c n p m])
qed

lemma memset_bytes_to_word_fill:
  "\<exists>k. memset_bytes_to_word c n p m = (n - int k, p + k, fill p k c m) \<and> int k \<le> max n 0"
proof (induction c n p m rule: memset_bytes_to_word.induct)
  case (1 c n p m)
  show ?case
  proof (cases "n > 0 \<and> p mod 4 \<noteq> 0")
    case True
    with "1.IH" obtain k where
      "memset_bytes_to_word c n p m = (n - 1 - int k, p + 1 + k, fill (Suc p) k c (m(p := c)))"
      and "int k \<le> n - 1"
      by (auto simp: memset_bytes_to_word.simps [of c n p m] simp del: fun_upd_apply)
    then show ?thesis
      using True by (intro exI [of _ "Suc k"]) (simp add: fill_step)
  next
    case False
    then show ?thesis
      by (intro exI [of _ 0]) (auto simp: memset_bytes_to_word.simps [of c n p m])
  qed
qed

text \<open>The word \<open>memset\<close> stores holds the fill byte in each of its four bytes.\<close>

definition repeat_byte :: "uint8 \<Rightarrow> uint" where
  "repeat_byte c = push_bit 24 (ucast c) OR push_bit 16 (ucast c) OR push_bit 8 (ucast c) OR ucast c"

lemma store32_repeat_byte: "store32 p (repeat_byte c) m = fill p 4 c m"
proof -
  have "ucast (repeat_byte c) = c"
    by (rule bit_word_eqI) (auto simp: repeat_byte_def bit_simps)
  moreover have "ucast (drop_bit 8 (repeat_byte c)) = c"
    by (rule bit_word_eqI) (auto simp: repeat_byte_def bit_simps dest: bit_imp_le_length)
  moreover have "ucast (drop_bit 16 (repeat_byte c)) = c"
    by (rule bit_word_eqI) (auto simp: repeat_byte_def bit_simps dest: bit_imp_le_length)
  moreover have "ucast (drop_bit 24 (repeat_byte c)) = c"
    by (rule bit_word_eqI) (auto simp: repeat_byte_def bit_simps dest: bit_imp_le_length)
  ultimately show ?thesis
    by (auto simp: store32_def fill_def fun_eq_iff)
qed

lemma memset_words_fill:
  "\<exists>k. memset_words (repeat_byte c) n p m = (n - int k, p + k, fill p k c m) \<and> int k \<le> max n 0"
proof (induction "repeat_byte c" n p m rule: memset_words.induct)
  case (1 n p m)
  show ?case
  proof (cases "n \<ge> 4")
    case True
    with "1.hyps" obtain k where
      "memset_words (repeat_byte c) n p m = (n - 4 - int k, p + 4 + k, fill (p + 4) k c (fill p 4 c m))"
      and "int k \<le> n - 4"
      by (auto simp: memset_words.simps [of _ n p m] store32_repeat_byte)
    then show ?thesis
      using True by (intro exI [of _ "4 + k"]) (simp add: fill_fill)
  next
    case False
    then show ?thesis
      by (intro exI [of _ 0]) (auto simp: memset_words.simps [of _ n p m])
  qed
qed

lemma memmove_forward_blit:
  "d \<le> s \<or> s + n \<le> d \<Longrightarrow> memmove_forward d s n m = blit d s n m"
proof (induction n arbitrary: d s m)
  case (Suc n)
  then have "memmove_forward d s (Suc n) m = blit (d + 1) (s + 1) n (m(d := m s))"
    by (auto simp del: fun_upd_apply)
  also have "\<dots> = blit d s (Suc n) m"
    using Suc.prems by (auto simp: blit_def fun_eq_iff intro!: arg_cong [of _ _ m])
  finally show ?case .
qed (auto simp: blit_def fun_eq_iff)

lemma memmove_backward_blit:
  "s \<le> d \<Longrightarrow> memmove_backward (d + n) (s + n) n m = blit d s n m"
proof (induction n arbitrary: m)
  case (Suc n)
  then have "memmove_backward (d + Suc n) (s + Suc n) (Suc n) m
      = blit d s n (m(d + n := m (s + n)))"
    by (auto simp del: fun_upd_apply)
  also have "\<dots> = blit d s (Suc n) m"
    using Suc.prems by (auto simp: blit_def fun_eq_iff)
  finally show ?case .
qed (auto simp: blit_def fun_eq_iff)

section \<open>Correctness of the routines\<close>

text \<open>C39: \<open>memset\<close>, with its three loops and word-sized stores, sets exactly the \<open>n\<close> bytes
  from \<open>dst\<close> to the low byte of \<open>v\<close>, for every alignment, and nothing if \<open>n\<close> is not
  positive.\<close>

theorem memset_fills: "memset dst v n m = fill dst (nat n) (ucast v) m"
proof -
  let ?c = "ucast v :: uint8"
  have c: "ucast (v AND 0xff) = ?c"
    by (rule bit_word_eqI) (auto simp: and_mask_take_bit bit_simps)
  obtain k1 where k1: "memset_bytes_to_word ?c n dst m = (n - int k1, dst + k1, fill dst k1 ?c m)"
    and "int k1 \<le> max n 0"
    using memset_bytes_to_word_fill by blast
  obtain k2 where k2: "memset_words (repeat_byte ?c) (n - int k1) (dst + k1) (fill dst k1 ?c m)
      = (n - int k1 - int k2, dst + k1 + k2, fill (dst + k1) k2 ?c (fill dst k1 ?c m))"
    and "int k2 \<le> max (n - int k1) 0"
    using memset_words_fill by blast
  have "memset dst v n m
      = fill (dst + (k1 + k2)) (nat (n - int k1 - int k2)) ?c (fill dst (k1 + k2) ?c m)"
    by (simp add: memset_def c k1 k2 repeat_byte_def [symmetric] memset_leftover_fill fill_fill
        add.assoc)
  also have "\<dots> = fill dst (k1 + k2 + nat (n - int k1 - int k2)) ?c m"
    by (rule fill_fill)
  also have "fill dst (k1 + k2 + nat (n - int k1 - int k2)) ?c m = fill dst (nat n) ?c m"
  proof (cases "n \<ge> 0")
    case True
    with \<open>int k1 \<le> max n 0\<close> \<open>int k2 \<le> max (n - int k1) 0\<close>
    have "k1 + k2 + nat (n - int k1 - int k2) = nat n" by auto
    then show ?thesis by simp
  next
    case False
    with \<open>int k1 \<le> max n 0\<close> \<open>int k2 \<le> max (n - int k1) 0\<close> show ?thesis by simp
  qed
  finally show ?thesis .
qed

text \<open>C38: \<open>memmove\<close> copies the source range as it was before the call, also when source and
  destination overlap either way, and changes no other byte.\<close>

theorem memmove_copies: "memmove d s n m = blit d s n m"
  using memmove_backward_blit [of s d n m] memmove_forward_blit [of d s n m]
  by (cases "s < d \<and> s + n > d") (auto simp: memmove_def)

lemma strncpy_pad_fill: "strncpy_pad s n m = fill s (nat n) 0 m"
proof (induction s n m rule: strncpy_pad.induct)
  case (1 s n m)
  show ?case
  proof (cases "n > 0")
    case True
    with 1 have "strncpy_pad s n m = fill (Suc s) (nat (n - 1)) 0 (m(s := 0))"
      by (simp add: strncpy_pad.simps [of s n m] del: fun_upd_apply)
    with True show ?thesis
      by (simp add: fill_step nat_pred_Suc)
  qed (simp add: strncpy_pad.simps [of s n m])
qed

lemma strncpy_0: "strncpy s t 0 m = m"
  by (simp add: strncpy_def strncpy_copy.simps [of s t 0 m] strncpy_pad.simps)

lemma strncpy_Suc:
  "strncpy s t (int (Suc n)) m =
     (if m t \<noteq> 0 then strncpy (s + 1) (t + 1) (int n) (m(s := m t))
      else fill (s + 1) n 0 (m(s := 0)))"
  by (simp add: strncpy_def strncpy_copy.simps [of s t "int (Suc n)" m]
      strncpy_copy.simps [of s t "1 + int n" m] strncpy_pad_fill del: fun_upd_apply)

text \<open>\<open>strncpy\<close> on a source that does not overlap the \<open>n\<close> destination bytes copies the
  string and fills the rest of the \<open>n\<close> bytes with NULs; no other byte changes.\<close>

theorem strncpy_copies_and_pads:
  assumes "t + n \<le> s \<or> s + n \<le> t"
  shows "strncpy s t (int n) m =
    (\<lambda>a. if s \<le> a \<and> a < s + n
          then (if \<exists>j\<le>a - s. m (t + j) = 0 then 0 else m (t + (a - s))) else m a)"
  using assms
proof (induction n arbitrary: s t m)
  case (Suc n)
  show ?case
  proof (cases "m t = 0")
    case True
    then show ?thesis
      by (auto simp: strncpy_Suc fill_def fun_eq_iff simp del: of_nat_Suc)
  next
    case False
    let ?m = "m(s := m t)"
    have old: "?m (Suc t + j) = m (t + Suc j)" if "j < n" for j
      using Suc.prems that by auto
    have "strncpy s t (int (Suc n)) m = strncpy (s + 1) (t + 1) (int n) ?m"
      using False by (simp add: strncpy_Suc del: of_nat_Suc fun_upd_apply)
    also have "\<dots> = (\<lambda>a. if s + 1 \<le> a \<and> a < s + 1 + n
          then (if \<exists>j\<le>a - (s + 1). ?m (t + 1 + j) = 0 then 0 else ?m (t + 1 + (a - (s + 1)))) else ?m a)"
      using Suc.prems by (intro Suc.IH) auto
    also have "\<dots> = (\<lambda>a. if s \<le> a \<and> a < s + Suc n
          then (if \<exists>j\<le>a - s. m (t + j) = 0 then 0 else m (t + (a - s))) else m a)"
    proof (rule ext)
      fix a
      consider "a < s" | "a = s" | k where "a = s + Suc k" "k < n" | "s + Suc n \<le> a"
        by (metis add_Suc_right less_imp_Suc_add linorder_neqE_nat not_le_imp_less add_less_cancel_left Suc_less_eq)
      then show "(if s + 1 \<le> a \<and> a < s + 1 + n
          then (if \<exists>j\<le>a - (s + 1). ?m (t + 1 + j) = 0 then 0 else ?m (t + 1 + (a - (s + 1)))) else ?m a)
        = (if s \<le> a \<and> a < s + Suc n
          then (if \<exists>j\<le>a - s. m (t + j) = 0 then 0 else m (t + (a - s))) else m a)"
      proof cases
        case (3 k)
        have "(\<exists>j\<le>k. ?m (Suc t + j) = 0) \<longleftrightarrow> (\<exists>j\<le>k. m (t + Suc j) = 0)"
          using old 3(2) by (metis le_less_trans)
        also have "\<dots> \<longleftrightarrow> (\<exists>j\<le>Suc k. m (t + j) = 0)"
          using False by (metis Suc_le_mono add.right_neutral not0_implies_Suc)
        finally show ?thesis
          using 3 old [of k] by (auto simp del: fun_upd_apply)
      qed (use False in auto)
    qed
    finally show ?thesis .
  qed
qed (auto simp: strncpy_0 fun_eq_iff)

lemma safestrcpy_copy_step:
  "safestrcpy_copy s t (int (Suc n)) m =
     (case n of 0 \<Rightarrow> (s, m)
      | Suc k \<Rightarrow> if m t \<noteq> 0 then safestrcpy_copy (s + 1) (t + 1) (int (Suc k)) (m(s := m t))
                else (s + 1, m(s := m t)))"
  by (cases n) (simp_all add: safestrcpy_copy.simps [of s t _ m] algebra_simps del: fun_upd_apply)

lemma safestrcpy_copy_spec:
  assumes "t + Suc n \<le> s \<or> s + Suc n \<le> t"
  shows "\<exists>k\<le>n. \<exists>e m'. safestrcpy_copy s t (int (Suc n)) m = (s + e, m')
     \<and> (\<forall>i<k. m' (s + i) = m (t + i) \<and> m (t + i) \<noteq> 0)
     \<and> (k = n \<and> e = k \<or> m (t + k) = 0 \<and> e = Suc k \<and> k < n \<and> m' (s + k) = 0)
     \<and> (\<forall>a. a < s \<or> s + e \<le> a \<longrightarrow> m' a = m a)"
  using assms
proof (induction n arbitrary: s t m)
  case (Suc n)
  show ?case
  proof (cases "m t = 0")
    case True
    then show ?thesis
      by (intro exI [of _ 0] conjI exI [of _ "Suc 0"] exI [of _ "m(s := 0)"])
        (auto simp: safestrcpy_copy_step [of s t "Suc n" m] simp del: of_nat_Suc)
  next
    case False
    let ?m = "m(s := m t)"
    have old: "?m (Suc t + j) = m (t + Suc j)" if "j \<le> n" for j
      using Suc.prems that by auto
    from Suc.prems have "t + 1 + Suc n \<le> s + 1 \<or> s + 1 + Suc n \<le> t + 1"
      by auto
    from Suc.IH [OF this, of ?m] obtain k e m' where
      k: "k \<le> n" "safestrcpy_copy (s + 1) (t + 1) (int (Suc n)) ?m = (s + 1 + e, m')"
      and pre: "\<forall>i<k. m' (s + 1 + i) = ?m (t + 1 + i) \<and> ?m (t + 1 + i) \<noteq> 0"
      and fin: "k = n \<and> e = k \<or> ?m (t + 1 + k) = 0 \<and> e = Suc k \<and> k < n \<and> m' (s + 1 + k) = 0"
      and frame: "\<forall>a. a < s + 1 \<or> s + 1 + e \<le> a \<longrightarrow> m' a = ?m a"
      by blast
    have "m' (s + i) = m (t + i) \<and> m (t + i) \<noteq> 0" if "i < Suc k" for i
    proof (cases i)
      case 0
      with frame False show ?thesis by simp
    next
      case (Suc j)
      with that pre have "m' (s + 1 + j) = ?m (t + 1 + j) \<and> ?m (t + 1 + j) \<noteq> 0" by simp
      with that k(1) Suc old [of j] show ?thesis by (simp del: fun_upd_apply)
    qed
    moreover have "m' a = m a" if "a < s \<or> s + Suc e \<le> a" for a
      using frame that by auto
    ultimately show ?thesis
      using False k fin old [of k] safestrcpy_copy_step [of s t "Suc n" m]
      by (intro exI [of _ "Suc k"] conjI exI [of _ "Suc e"] exI [of _ m'])
        (auto simp del: of_nat_Suc fun_upd_apply)
  qed
qed (simp add: safestrcpy_copy_step [of _ _ 0] del: of_nat_Suc)

text \<open>\<open>safestrcpy\<close> with a positive size copies the longest prefix of the source string
  that leaves room for the terminator, always NUL-terminates within the \<open>n\<close> bytes, and
  changes no byte outside them.\<close>

theorem safestrcpy_terminates_string:
  assumes "0 < n" and "t + n \<le> s \<or> s + n \<le> t"
  shows "\<exists>k<n. safestrcpy s t (int n) m (s + k) = 0
     \<and> (\<forall>i<k. safestrcpy s t (int n) m (s + i) = m (t + i) \<and> m (t + i) \<noteq> 0)
     \<and> (k = n - 1 \<or> m (t + k) = 0)
     \<and> (\<forall>a. a < s \<or> s + n \<le> a \<longrightarrow> safestrcpy s t (int n) m a = m a)"
proof -
  from assms(1) obtain n' where n: "n = Suc n'" by (cases n) auto
  from safestrcpy_copy_spec [of t n' s m] assms(2) obtain k e m' where
    k: "k \<le> n'" "safestrcpy_copy s t (int (Suc n')) m = (s + e, m')"
    and pre: "\<forall>i<k. m' (s + i) = m (t + i) \<and> m (t + i) \<noteq> 0"
    and fin: "k = n' \<and> e = k \<or> m (t + k) = 0 \<and> e = Suc k \<and> k < n' \<and> m' (s + k) = 0"
    and frame: "\<forall>a. a < s \<or> s + e \<le> a \<longrightarrow> m' a = m a"
    unfolding n by blast
  have "safestrcpy s t (int n) m = m'(s + e := 0)"
    using k(2) by (simp add: safestrcpy_def n del: of_nat_Suc)
  then show ?thesis
    using k(1) pre fin frame by (intro exI [of _ k]) (auto simp: n)
qed

text \<open>A memory that holds the string of twenty bytes \<open>A\<close> at address 0.\<close>

definition sample_memory :: memory where
  "sample_memory a = (if a < 20 then 65 else 0)"

theorem safestrcpy_terminates_string_witness:
  "\<exists>k<16. safestrcpy 100 0 (int 16) sample_memory (100 + k) = 0
     \<and> (\<forall>i<k. safestrcpy 100 0 (int 16) sample_memory (100 + i) = sample_memory (0 + i)
            \<and> sample_memory (0 + i) \<noteq> 0)
     \<and> (k = 16 - 1 \<or> sample_memory (0 + k) = 0)
     \<and> (\<forall>a. a < 100 \<or> 100 + 16 \<le> a \<longrightarrow> safestrcpy 100 0 (int 16) sample_memory a = sample_memory a)"
  by (rule safestrcpy_terminates_string [of 16 0 100 sample_memory]) simp_all

theorem strncpy_copies_and_pads_witness:
  "strncpy 100 0 (int 14) sample_memory =
    (\<lambda>a. if 100 \<le> a \<and> a < 100 + 14
          then (if \<exists>j\<le>a - 100. sample_memory (0 + j) = 0 then 0 else sample_memory (0 + (a - 100)))
          else sample_memory a)"
  by (rule strncpy_copies_and_pads [of 0 14 100 sample_memory]) simp

text \<open>\<open>strncmp\<close> returns 0 exactly when the two strings agree on their first \<open>n\<close> bytes, up
  to and including a common NUL.\<close>

theorem strncmp_zero_iff:
  "strncmp m p q n = 0 \<longleftrightarrow> (\<forall>i<n. (\<forall>j<i. m (p + j) \<noteq> 0) \<longrightarrow> m (p + i) = m (q + i))"
proof (induction n arbitrary: p q)
  case (Suc n)
  have eq0: "uint (m p) - uint (m q) = 0 \<longleftrightarrow> m p = m q"
    by (simp add: word_uint_eq_iff)
  have shift: "(\<forall>j<Suc i. m (p + j) \<noteq> 0) \<longleftrightarrow> m p \<noteq> 0 \<and> (\<forall>j<i. m (Suc p + j) \<noteq> 0)" for i
    by (simp add: All_less_Suc2)
  have "(\<forall>i<Suc n. (\<forall>j<i. m (p + j) \<noteq> 0) \<longrightarrow> m (p + i) = m (q + i))
      \<longleftrightarrow> m p = m q \<and> (\<forall>i<n. (\<forall>j<Suc i. m (p + j) \<noteq> 0) \<longrightarrow> m (p + Suc i) = m (q + Suc i))"
    by (subst All_less_Suc2) simp
  also have "\<dots> \<longleftrightarrow> m p = m q \<and> (m p \<noteq> 0 \<longrightarrow> strncmp m (p + 1) (q + 1) n = 0)"
    unfolding shift using Suc.IH [of "p + 1" "q + 1"] by auto
  also have "\<dots> \<longleftrightarrow> strncmp m p q (Suc n) = 0"
    using eq0 by auto
  finally show ?case by simp
qed simp

text \<open>\<open>strlen\<close> returns on every NUL-terminated string, with the index of the first
  NUL.\<close>

theorem strlen_first_nul:
  assumes "m (s + k) = 0" and "\<forall>i<k. m (s + i) \<noteq> 0"
  shows "strlen m s = Some k"
proof -
  have "strlen_from m s n = Some k" if "n \<le> k" for n
    using that
  proof (induction "k - n" arbitrary: n)
    case 0
    with assms(1) show ?case by (simp add: strlen_from.simps [of m s n])
  next
    case (Suc d)
    then have "strlen_from m s (n + 1) = Some k" by simp
    with Suc.hyps(2) assms(2) show ?case by (simp add: strlen_from.simps [of m s n])
  qed
  then show ?thesis by (simp add: strlen_def)
qed

theorem strlen_first_nul_witness: "strlen sample_memory 10 = Some 10"
  by (rule strlen_first_nul) (simp_all add: sample_memory_def)

end
