(* ===== verification/Sched.thy ===== *)
theory Sched
  imports Prelude
begin

text \<open>
  The machine and scheduling core of the kernel: interrupt masking (\<^verbatim>\<open>arm.c\<close>), spin locks
  on the single CPU (\<^verbatim>\<open>spinlock.c\<close>), the process table and the scheduling half of
  \<^verbatim>\<open>proc.c\<close> (scheduler, sched, yield, sleep, wakeup, kill), and \<^verbatim>\<open>switchuvm\<close> of
  \<^verbatim>\<open>vm.c\<close>. The state record \<open>kcore\<close> is extended by the records of the other components,
  so every routine here works on any extension of it.
\<close>

section \<open>State\<close>

definition NPROC :: nat where "NPROC = 64"
definition KERNBASE :: uint64 where "KERNBASE = 0xFFFFFFFF00000000"

text \<open>The spin locks of the kernel, and the addresses processes sleep on.\<close>

datatype lock =
    Lk_ptable | Lk_kmem | Lk_kpt | Lk_bcache | Lk_log | Lk_icache | Lk_ftable
  | Lk_cons | Lk_input | Lk_ticks | Lk_pipe uint64

datatype chan =
    Ch_proc nat | Ch_buf nat | Ch_log | Ch_inode nat | Ch_nread uint64 | Ch_nwrite uint64
  | Ch_ticks | Ch_input_r

datatype procstate = UNUSED | EMBRYO | SLEEPING | RUNNABLE | RUNNING | ZOMBIE

text \<open>The trap frame and the switch context: named registers and the general ones by
  number.\<close>

record trapframe =
  tf_sp :: uint64
  tf_pc :: uint64
  tf_spsr :: uint64
  tf_r :: "nat \<Rightarrow> uint64"

record kcontext =
  ctx_r :: "nat \<Rightarrow> uint64"
  ctx_lr :: uint64

text \<open>\<open>struct proc\<close>. Table slots stand for the pointers to processes, open files and
  inodes. \<open>p_intena\<close> is the local variable \<open>intena\<close> of the process's \<open>sched()\<close> frame,
  which lives on its kernel stack while it is switched out.\<close>

record proc =
  p_sz :: uint64
  p_pgdir :: uint64
  p_kstack :: uint64
  p_state :: procstate
  p_pid :: int
  p_parent :: "nat option"
  p_tf :: trapframe
  p_context :: kcontext
  p_chan :: "chan option"
  p_killed :: bool
  p_ofile :: "nat \<Rightarrow> nat option"
  p_cwd :: "nat option"
  p_name :: "uint8 list"
  p_intena :: bool

text \<open>\<open>ncli\<close> and \<open>intena\<close> of \<open>struct cpu\<close>; \<open>irq\<close> is the unmasked state of DAIF.I;
  \<open>ttbr0\<close> the user page table register; \<open>cproc\<close> the global \<open>proc\<close>.\<close>

record kcore =
  ncli :: int
  intena :: bool
  irq :: bool
  ttbr0 :: uint64
  locked :: "lock \<Rightarrow> bool"
  ptable :: "nat \<Rightarrow> proc"
  cproc :: "nat option"
  initproc :: "nat option"
  nextpid :: int

definition upd_proc :: "nat \<Rightarrow> (proc \<Rightarrow> proc) \<Rightarrow> 'z kcore_scheme \<Rightarrow> 'z kcore_scheme" where
  "upd_proc p f s = s\<lparr>ptable := (ptable s)(p := f (ptable s p))\<rparr>"

section \<open>Interrupt masking and locks\<close>

definition cli :: "'z kcore_scheme \<Rightarrow> 'z kcore_scheme" where
  "cli s = s\<lparr>irq := False\<rparr>"

definition sti :: "'z kcore_scheme \<Rightarrow> 'z kcore_scheme" where
  "sti s = s\<lparr>irq := True\<rparr>"

definition int_enabled :: "'z kcore_scheme \<Rightarrow> bool" where
  "int_enabled s = irq s"

definition pushcli :: "'z kcore_scheme \<Rightarrow> 'z kcore_scheme" where
  "pushcli s =
     (let enabled = int_enabled s; s1 = cli s; n = ncli s1; s2 = s1\<lparr>ncli := n + 1\<rparr>
      in if n = 0 then s2\<lparr>intena := enabled\<rparr> else s2)"

definition popcli :: "'z kcore_scheme \<Rightarrow> ('z kcore_scheme, unit) outcome" where
  "popcli s =
     (if int_enabled s then Panic ''popcli - interruptible''
      else (let s1 = s\<lparr>ncli := ncli s - 1\<rparr>
            in if ncli s1 < 0 then Panic ''popcli -- ncli < 0''
               else if ncli s1 = 0 \<and> intena s1 then Ok () (sti s1) else Ok () s1))"

definition initlock :: "lock \<Rightarrow> 'z kcore_scheme \<Rightarrow> 'z kcore_scheme" where
  "initlock lk s = s\<lparr>locked := (locked s)(lk := False)\<rparr>"

definition acquire :: "lock \<Rightarrow> 'z kcore_scheme \<Rightarrow> 'z kcore_scheme" where
  "acquire lk s = (let s1 = pushcli s in s1\<lparr>locked := (locked s1)(lk := True)\<rparr>)"

definition release :: "lock \<Rightarrow> 'z kcore_scheme \<Rightarrow> ('z kcore_scheme, unit) outcome" where
  "release lk s = popcli (s\<lparr>locked := (locked s)(lk := False)\<rparr>)"

definition holding :: "lock \<Rightarrow> 'z kcore_scheme \<Rightarrow> bool" where
  "holding lk s = locked s lk"

section \<open>Scheduling\<close>

text \<open>\<open>sched\<close> ends in \<open>Swtch\<close>: the CPU is with the scheduler. \<open>sched_resume\<close> is what the
  process executes in \<open>sched\<close> when it is switched to again.\<close>

definition sched :: "'z kcore_scheme \<Rightarrow> ('z kcore_scheme, unit) outcome" where
  "sched s =
     (if \<not> holding Lk_ptable s then Panic ''sched ptable.lock''
      else if ncli s \<noteq> 1 then Panic ''sched locks''
      else (case cproc s of None \<Rightarrow> Fault
       | Some p \<Rightarrow>
           if p_state (ptable s p) = RUNNING then Panic ''sched running''
           else if int_enabled s then Panic ''sched interruptible''
           else Swtch (upd_proc p (\<lambda>q. q\<lparr>p_intena := intena s\<rparr>) s)))"

definition sched_resume :: "'z kcore_scheme \<Rightarrow> ('z kcore_scheme, unit) outcome" where
  "sched_resume s =
     (case cproc s of None \<Rightarrow> Fault
      | Some p \<Rightarrow> Ok () (s\<lparr>intena := p_intena (ptable s p)\<rparr>))"

definition yield :: "'z kcore_scheme \<Rightarrow> ('z kcore_scheme, unit) outcome" where
  "yield s =
     (let s1 = acquire Lk_ptable s
      in case cproc s1 of None \<Rightarrow> Fault
         | Some p \<Rightarrow> sched (upd_proc p (\<lambda>q. q\<lparr>p_state := RUNNABLE\<rparr>) s1))"

definition yield_resume :: "'z kcore_scheme \<Rightarrow> ('z kcore_scheme, unit) outcome" where
  "yield_resume s = andthen (sched_resume s) (\<lambda>_ s1. release Lk_ptable s1)"

text \<open>
  \<open>sleep chan lk\<close> up to the switch, and the part after the process is woken. Between two
  statements an interrupt handler \<open>h\<close> may run whenever interrupts are enabled;
  \<open>sleep\<close> is the run in which none arrives.
\<close>

definition interrupt :: "('z kcore_scheme \<Rightarrow> ('z kcore_scheme, unit) outcome) \<Rightarrow> 'z kcore_scheme \<Rightarrow> ('z kcore_scheme, unit) outcome" where
  "interrupt h s = (if irq s then h s else Ok () s)"

definition sleep_with :: "('z kcore_scheme \<Rightarrow> ('z kcore_scheme, unit) outcome) \<Rightarrow> chan \<Rightarrow> lock option
    \<Rightarrow> 'z kcore_scheme \<Rightarrow> ('z kcore_scheme, unit) outcome" where
  "sleep_with h ch lk s =
     (case cproc s of None \<Rightarrow> Panic ''sleep''
      | Some p \<Rightarrow>
          (case lk of None \<Rightarrow> Panic ''sleep without lk''
           | Some l \<Rightarrow>
               andthen (interrupt h s) (\<lambda>_ s.
               andthen (if l \<noteq> Lk_ptable
                        then andthen (interrupt h (acquire Lk_ptable s)) (\<lambda>_ s1.
                             andthen (release l s1) (\<lambda>_ s2. interrupt h s2))
                        else Ok () s) (\<lambda>_ s1.
               andthen (interrupt h (upd_proc p (\<lambda>q. q\<lparr>p_chan := Some ch\<rparr>) s1)) (\<lambda>_ s2.
               andthen (interrupt h (upd_proc p (\<lambda>q. q\<lparr>p_state := SLEEPING\<rparr>) s2)) (\<lambda>_ s3. sched s3))))))"

definition sleep :: "chan \<Rightarrow> lock option \<Rightarrow> 'z kcore_scheme \<Rightarrow> ('z kcore_scheme, unit) outcome" where
  "sleep ch lk s = sleep_with (\<lambda>s. Ok () s) ch lk s"

definition sleep_resume :: "lock \<Rightarrow> 'z kcore_scheme \<Rightarrow> ('z kcore_scheme, unit) outcome" where
  "sleep_resume l s =
     andthen (sched_resume s) (\<lambda>_ s1.
       case cproc s1 of None \<Rightarrow> Fault
       | Some p \<Rightarrow>
           (let s2 = upd_proc p (\<lambda>q. q\<lparr>p_chan := None\<rparr>) s1
            in if l \<noteq> Lk_ptable
               then andthen (release Lk_ptable s2) (\<lambda>_ s3. Ok () (acquire l s3))
               else Ok () s2))"

definition wakeup1 :: "chan option \<Rightarrow> 'z kcore_scheme \<Rightarrow> 'z kcore_scheme" where
  "wakeup1 ch s =
     fold (\<lambda>p t. if p_state (ptable t p) = SLEEPING \<and> p_chan (ptable t p) = ch
                  then upd_proc p (\<lambda>q. q\<lparr>p_state := RUNNABLE\<rparr>) t else t) [0..<NPROC] s"

definition wakeup :: "chan \<Rightarrow> 'z kcore_scheme \<Rightarrow> ('z kcore_scheme, unit) outcome" where
  "wakeup ch s = release Lk_ptable (wakeup1 (Some ch) (acquire Lk_ptable s))"

definition kill :: "int \<Rightarrow> 'z kcore_scheme \<Rightarrow> ('z kcore_scheme, int) outcome" where
  "kill pid s =
     (let s1 = acquire Lk_ptable s
      in case List.find (\<lambda>p. p_pid (ptable s1 p) = pid) [0..<NPROC] of
           Some p \<Rightarrow>
             (let s2 = upd_proc p (\<lambda>q. q\<lparr>p_killed := True\<rparr>) s1;
                  s3 = (if p_state (ptable s2 p) = SLEEPING
                        then upd_proc p (\<lambda>q. q\<lparr>p_state := RUNNABLE\<rparr>) s2 else s2)
              in andthen (release Lk_ptable s3) (\<lambda>_ s4. Ok 0 s4))
         | None \<Rightarrow> andthen (release Lk_ptable s1) (\<lambda>_ s2. Ok (- 1) s2))"

definition switchuvm :: "nat \<Rightarrow> 'z kcore_scheme \<Rightarrow> ('z kcore_scheme, unit) outcome" where
  "switchuvm p s =
     (let s1 = pushcli s
      in if p_pgdir (ptable s1 p) = 0 then Panic ''switchuvm: no pgdir''
         else popcli (s1\<lparr>ttbr0 := p_pgdir (ptable s1 p) - KERNBASE\<rparr>))"

text \<open>
  The scheduler's loop body, one table slot at a time: \<open>scheduler_slot i\<close> either skips slot
  \<open>i\<close> (result \<open>False\<close>) or switches to it (result \<open>True\<close>, the CPU is with the process).
  \<open>scheduler_back\<close> is executed when that process switches back. \<open>scheduler_end\<close> is the end
  of the table, with the \<open>sti\<close> of the next round; \<open>scheduler_begin\<close> takes the lock again.
\<close>

definition scheduler_slot :: "nat \<Rightarrow> 'z kcore_scheme \<Rightarrow> ('z kcore_scheme, bool) outcome" where
  "scheduler_slot i s =
     (if p_state (ptable s i) \<noteq> RUNNABLE then Ok False s
      else andthen (switchuvm i (s\<lparr>cproc := Some i\<rparr>)) (\<lambda>_ s1.
             Ok True (upd_proc i (\<lambda>q. q\<lparr>p_state := RUNNING\<rparr>) s1)))"

definition scheduler_back :: "'z kcore_scheme \<Rightarrow> 'z kcore_scheme" where
  "scheduler_back s = s\<lparr>cproc := None\<rparr>"

definition scheduler_begin :: "'z kcore_scheme \<Rightarrow> 'z kcore_scheme" where
  "scheduler_begin s = acquire Lk_ptable s"

definition scheduler_end :: "'z kcore_scheme \<Rightarrow> ('z kcore_scheme, unit) outcome" where
  "scheduler_end s = andthen (release Lk_ptable s) (\<lambda>_ s1. Ok () (sti s1))"

section \<open>Core lemmas\<close>

text \<open>
  \<open>lock_simps\<close> turns the locking and waking routines into explicit updates of the core
  fields, so that the simplifier sees that no other field changes. \<open>cpu_ok\<close> is the
  condition under which they do not panic: interrupts are off inside critical sections.
\<close>

named_theorems lock_simps \<open>locking and waking as record updates\<close>

definition cpu_ok :: "'z kcore_scheme \<Rightarrow> bool" where
  "cpu_ok s \<longleftrightarrow> 0 \<le> ncli s \<and> (0 < ncli s \<longrightarrow> \<not> irq s)"

lemma acquire_update [lock_simps]:
  "acquire lk s = s\<lparr>ncli := ncli s + 1, intena := (if ncli s = 0 then irq s else intena s),
     irq := False, locked := (locked s)(lk := True)\<rparr>"
  by (simp add: acquire_def pushcli_def cli_def int_enabled_def Let_def)

lemma pushcli_update [lock_simps]:
  "pushcli s = s\<lparr>ncli := ncli s + 1, intena := (if ncli s = 0 then irq s else intena s), irq := False\<rparr>"
  by (simp add: pushcli_def cli_def int_enabled_def Let_def)

lemma popcli_update [lock_simps]:
  "\<not> irq s \<Longrightarrow> 0 < ncli s \<Longrightarrow>
   popcli s = Ok () (s\<lparr>ncli := ncli s - 1, irq := (ncli s = 1 \<and> intena s)\<rparr>)"
  by (simp add: popcli_def int_enabled_def sti_def Let_def)

lemma release_update [lock_simps]:
  "\<not> irq s \<Longrightarrow> 0 < ncli s \<Longrightarrow>
   release lk s = Ok () (s\<lparr>ncli := ncli s - 1, irq := (ncli s = 1 \<and> intena s),
     locked := (locked s)(lk := False)\<rparr>)"
  by (simp add: release_def popcli_update)

definition wake :: "chan option \<Rightarrow> (nat \<Rightarrow> proc) \<Rightarrow> nat \<Rightarrow> proc" where
  "wake ch tab p =
     (if p < NPROC \<and> p_state (tab p) = SLEEPING \<and> p_chan (tab p) = ch
      then (tab p)\<lparr>p_state := RUNNABLE\<rparr> else tab p)"

lemma fold_wakeup:
  "distinct ps \<Longrightarrow>
   fold (\<lambda>p t. if p_state (ptable t p) = SLEEPING \<and> p_chan (ptable t p) = ch
                 then upd_proc p (\<lambda>q. q\<lparr>p_state := RUNNABLE\<rparr>) t else t) ps s
   = s\<lparr>ptable := \<lambda>p. if p \<in> set ps \<and> p_state (ptable s p) = SLEEPING \<and> p_chan (ptable s p) = ch
                      then (ptable s p)\<lparr>p_state := RUNNABLE\<rparr> else ptable s p\<rparr>"
proof (induction ps arbitrary: s)
  case (Cons q ps)
  then show ?case
    by (auto simp: upd_proc_def fun_eq_iff intro!: arg_cong [of _ _ "\<lambda>f. s\<lparr>ptable := f\<rparr>"])
qed simp

lemma wakeup1_update [lock_simps]: "wakeup1 ch s = s\<lparr>ptable := wake ch (ptable s)\<rparr>"
  by (simp add: wakeup1_def fold_wakeup wake_def [abs_def])

lemma wakeup_update [lock_simps]:
  "cpu_ok s \<Longrightarrow> wakeup ch s = Ok () (s\<lparr>irq := (if ncli s = 0 then irq s else False),
     intena := (if ncli s = 0 then irq s else intena s),
     locked := (locked s)(Lk_ptable := False), ptable := wake (Some ch) (ptable s)\<rparr>)"
  by (auto simp: wakeup_def lock_simps cpu_ok_def)

text \<open>The net effect of a critical section on the core fields.\<close>

definition relock :: "lock \<Rightarrow> 'z kcore_scheme \<Rightarrow> 'z kcore_scheme" where
  "relock lk s = s\<lparr>intena := (if ncli s = 0 then irq s else intena s), locked := (locked s)(lk := False)\<rparr>"

lemma release_acquire: "cpu_ok s \<Longrightarrow> release lk (acquire lk s) = Ok () (relock lk s)"
  by (auto simp: cpu_ok_def relock_def lock_simps)

lemma relock_fields [simp]:
  "ncli (relock lk s) = ncli s" "irq (relock lk s) = irq s" "ptable (relock lk s) = ptable s"
  "cproc (relock lk s) = cproc s" "cpu_ok (relock lk s) = cpu_ok s" "kcore.more (relock lk s) = kcore.more s"
  "initproc (relock lk s) = initproc s" "nextpid (relock lk s) = nextpid s" "ttbr0 (relock lk s) = ttbr0 s"
  by (simp_all add: relock_def cpu_ok_def)

lemma cpu_ok_acquire [simp]: "cpu_ok s \<Longrightarrow> cpu_ok (acquire lk s)"
  by (auto simp: cpu_ok_def lock_simps)

lemma cpu_ok_release: "cpu_ok s \<Longrightarrow> release lk s = Ok x t \<Longrightarrow> cpu_ok t"
  by (auto simp: cpu_ok_def release_def popcli_def int_enabled_def sti_def Let_def split: if_splits)

lemma wake_other: "p_state (tab p) \<noteq> SLEEPING \<Longrightarrow> wake ch tab p = tab p"
  by (simp add: wake_def)

section \<open>Nested critical sections\<close>

datatype cli_op = Push | Pop

fun run_cli :: "cli_op list \<Rightarrow> 'z kcore_scheme \<Rightarrow> ('z kcore_scheme, unit) outcome" where
  "run_cli [] s = Ok () s"
| "run_cli (Push # ops) s = run_cli ops (pushcli s)"
| "run_cli (Pop # ops) s = andthen (popcli s) (\<lambda>_ t. run_cli ops t)"

inductive balanced :: "cli_op list \<Rightarrow> bool" where
  balanced_Nil: "balanced []"
| balanced_nest: "balanced ops \<Longrightarrow> balanced (Push # ops @ [Pop])"
| balanced_seq: "balanced ops \<Longrightarrow> balanced ops' \<Longrightarrow> balanced (ops @ ops')"

lemma run_cli_append: "run_cli (ops @ ops') s = andthen (run_cli ops s) (\<lambda>_ t. run_cli ops' t)"
  by (induction ops s rule: run_cli.induct) (auto simp: andthen_assoc intro: andthen_cong)

text \<open>C32: \<open>pushcli\<close> and \<open>popcli\<close> are matched: after any properly nested sequence of them the
  nesting depth and the interrupt enable flag are what they were, so interrupts that were
  off stay off, and no \<open>popcli\<close> panics.\<close>

theorem balanced_cli_restores:
  assumes "balanced ops" and "cpu_ok s"
  shows "\<exists>t. run_cli ops s = Ok () t \<and> ncli t = ncli s \<and> irq t = irq s
    \<and> (0 < ncli s \<longrightarrow> intena t = intena s) \<and> cpu_ok t"
  using assms
proof (induction ops arbitrary: s rule: balanced.induct)
  case (balanced_nest ops)
  have "cpu_ok (pushcli s)"
    using balanced_nest.prems by (auto simp: cpu_ok_def lock_simps)
  from balanced_nest.IH [OF this] obtain t where t: "run_cli ops (pushcli s) = Ok () t"
    "ncli t = ncli s + 1" "\<not> irq t" "intena t = (if ncli s = 0 then irq s else intena s)"
    using balanced_nest.prems by (auto simp: cpu_ok_def lock_simps)
  moreover have "0 < ncli t"
    using t(2) balanced_nest.prems by (auto simp: cpu_ok_def)
  ultimately show ?case
    using balanced_nest.prems by (auto simp: run_cli_append popcli_update cpu_ok_def)
next
  case (balanced_seq ops ops')
  then obtain t where "run_cli ops s = Ok () t" "ncli t = ncli s" "irq t = irq s"
    "0 < ncli s \<longrightarrow> intena t = intena s" "cpu_ok t"
    by blast
  with balanced_seq.IH(2) [of t] show ?case
    by (auto simp: run_cli_append)
qed auto

definition boot_core :: kcore where
  "boot_core = \<lparr>ncli = 0, intena = False, irq = True, ttbr0 = 0, locked = (\<lambda>_. False),
     ptable = (\<lambda>_. \<lparr>p_sz = 0, p_pgdir = 0, p_kstack = 0, p_state = UNUSED, p_pid = 0,
       p_parent = None, p_tf = \<lparr>tf_sp = 0, tf_pc = 0, tf_spsr = 0, tf_r = (\<lambda>_. 0)\<rparr>,
       p_context = \<lparr>ctx_r = (\<lambda>_. 0), ctx_lr = 0\<rparr>, p_chan = None, p_killed = False,
       p_ofile = (\<lambda>_. None), p_cwd = None, p_name = [], p_intena = False\<rparr>),
     cproc = None, initproc = None, nextpid = 1\<rparr>"

theorem balanced_cli_restores_witness:
  "\<exists>t. run_cli [Push, Push, Pop, Pop] boot_core = Ok () t \<and> ncli t = ncli boot_core
    \<and> irq t = irq boot_core \<and> (0 < ncli boot_core \<longrightarrow> intena t = intena boot_core) \<and> cpu_ok t"
proof (rule balanced_cli_restores)
  show "balanced [Push, Push, Pop, Pop]"
    using balanced_nest [OF balanced_nest [OF balanced_Nil]] by simp
qed (simp add: cpu_ok_def boot_core_def)

section \<open>Sleep and wakeup\<close>

text \<open>A process that holds exactly the lock \<open>lk\<close>.\<close>

definition in_section :: "lock \<Rightarrow> nat \<Rightarrow> 'z kcore_scheme \<Rightarrow> bool" where
  "in_section lk p s \<longleftrightarrow> cproc s = Some p \<and> ncli s = 1 \<and> \<not> irq s \<and> locked s lk"

lemma sleep_with_masked:
  assumes "in_section lk p s"
  shows "\<exists>t. (\<forall>h. sleep_with h ch (Some lk) s = Swtch t)
    \<and> ptable t = (ptable s)(p := (ptable s p)\<lparr>p_chan := Some ch, p_state := SLEEPING,
         p_intena := intena s\<rparr>)
    \<and> locked t = (locked s)(lk := False, Lk_ptable := True)
    \<and> ncli t = 1 \<and> \<not> irq t \<and> cproc t = Some p \<and> kcore.more t = kcore.more s"
proof -
  have "sleep_with h ch (Some lk) s = Swtch (s\<lparr>locked := (locked s)(lk := False, Lk_ptable := True),
      ptable := (ptable s)(p := (ptable s p)\<lparr>p_chan := Some ch, p_state := SLEEPING, p_intena := intena s\<rparr>)\<rparr>)" for h
    using assms by (cases "lk = Lk_ptable") (auto simp: sleep_with_def interrupt_def in_section_def lock_simps sched_def
        holding_def upd_proc_def int_enabled_def fun_upd_twist fun_upd_idem)
  then show ?thesis using assms by (auto simp: in_section_def)
qed

lemma sleep_switches:
  assumes "in_section lk p s"
  shows "\<exists>t. sleep ch (Some lk) s = Swtch t
    \<and> ptable t = (ptable s)(p := (ptable s p)\<lparr>p_chan := Some ch, p_state := SLEEPING,
         p_intena := intena s\<rparr>)
    \<and> locked t = (locked s)(lk := False, Lk_ptable := True)
    \<and> ncli t = 1 \<and> \<not> irq t \<and> cproc t = Some p \<and> kcore.more t = kcore.more s"
  using sleep_with_masked [OF assms, of ch] by (auto simp: sleep_def)

lemma sleep_unfold:
  "sleep ch lk s =
     (case cproc s of None \<Rightarrow> Panic ''sleep''
      | Some p \<Rightarrow>
          (case lk of None \<Rightarrow> Panic ''sleep without lk''
           | Some l \<Rightarrow>
               andthen (if l \<noteq> Lk_ptable then release l (acquire Lk_ptable s) else Ok () s)
                 (\<lambda>_ s1. sched (upd_proc p (\<lambda>q. q\<lparr>p_chan := Some ch, p_state := SLEEPING\<rparr>) s1))))"
  by (auto simp: sleep_def sleep_with_def interrupt_def upd_proc_def andthen_assoc split: option.split intro: andthen_cong)

text \<open>C16: \<open>sleep\<close> never loses a wakeup. When a process that holds \<open>lk\<close> sleeps on \<open>ch\<close>, no
  interrupt handler gets to run between its test under \<open>lk\<close> and the switch: whatever the
  handler would do, the CPU goes to the scheduler in the same state, with the process marked
  SLEEPING on \<open>ch\<close>, \<open>lk\<close> free, and \<open>ptable.lock\<close> held with interrupts off. In every later state
  that left the slot of the process alone, \<open>wakeup\<close> on \<open>ch\<close> makes it RUNNABLE.\<close>

theorem sleep_no_lost_wakeup:
  fixes s :: "'z kcore_scheme"
  assumes "in_section lk p s" and "lk \<noteq> Lk_ptable" and "p < NPROC"
  shows "\<exists>t. (\<forall>h. sleep_with h ch (Some lk) s = Swtch t) \<and> sleep ch (Some lk) s = Swtch t
    \<and> p_state (ptable t p) = SLEEPING
    \<and> p_chan (ptable t p) = Some ch \<and> \<not> locked t lk \<and> locked t Lk_ptable \<and> \<not> irq t \<and> ncli t = 1
    \<and> (\<forall>u :: 'z kcore_scheme. cpu_ok u \<longrightarrow> ptable u p = ptable t p \<longrightarrow>
         (\<exists>v. wakeup ch u = Ok () v \<and> ptable v p = (ptable t p)\<lparr>p_state := RUNNABLE\<rparr>))"
proof -
  from sleep_with_masked [OF assms(1), of ch] obtain t where t: "\<forall>h. sleep_with h ch (Some lk) s = Swtch t"
    "ptable t = (ptable s)(p := (ptable s p)\<lparr>p_chan := Some ch, p_state := SLEEPING, p_intena := intena s\<rparr>)"
    "locked t = (locked s)(lk := False, Lk_ptable := True)" "ncli t = 1" "\<not> irq t"
    by blast
  then show ?thesis using assms(2,3) by (intro exI [of _ t]) (auto simp: sleep_def wakeup_update wake_def)
qed

theorem sleep_no_lost_wakeup_witness:
  "\<exists>t. (\<forall>h. sleep_with h Ch_log (Some Lk_log) (acquire Lk_log (boot_core\<lparr>cproc := Some 3\<rparr>)) = Swtch t)
    \<and> sleep Ch_log (Some Lk_log) (acquire Lk_log (boot_core\<lparr>cproc := Some 3\<rparr>)) = Swtch t
    \<and> p_state (ptable t 3) = SLEEPING \<and> p_chan (ptable t 3) = Some Ch_log
    \<and> \<not> locked t Lk_log \<and> locked t Lk_ptable \<and> \<not> irq t \<and> ncli t = 1
    \<and> (\<forall>u :: kcore. cpu_ok u \<longrightarrow> ptable u 3 = ptable t 3 \<longrightarrow>
         (\<exists>v. wakeup Ch_log u = Ok () v \<and> ptable v 3 = (ptable t 3)\<lparr>p_state := RUNNABLE\<rparr>))"
proof -
  let ?s = "acquire Lk_log (boot_core\<lparr>cproc := Some 3\<rparr>)"
  have "in_section Lk_log 3 ?s"
    by (simp add: in_section_def lock_simps boot_core_def)
  from sleep_no_lost_wakeup [OF this, of Ch_log] show ?thesis
    by (simp add: NPROC_def)
qed

text \<open>\<open>wakeup\<close> makes exactly the processes sleeping on the channel runnable, and changes
  no other process.\<close>

theorem wakeup_exact:
  assumes "cpu_ok s"
  shows "\<exists>t. wakeup ch s = Ok () t \<and> ncli t = ncli s \<and> irq t = irq s
    \<and> (\<forall>p<NPROC. ptable t p =
         (if p_state (ptable s p) = SLEEPING \<and> p_chan (ptable s p) = Some ch
          then (ptable s p)\<lparr>p_state := RUNNABLE\<rparr> else ptable s p))"
  using assms by (auto simp: wakeup_update wake_def cpu_ok_def)

theorem wakeup_exact_witness:
  "\<exists>t. wakeup Ch_ticks boot_core = Ok () t \<and> ncli t = ncli boot_core \<and> irq t = irq boot_core
    \<and> (\<forall>p<NPROC. ptable t p =
         (if p_state (ptable boot_core p) = SLEEPING \<and> p_chan (ptable boot_core p) = Some Ch_ticks
          then (ptable boot_core p)\<lparr>p_state := RUNNABLE\<rparr> else ptable boot_core p))"
  by (rule wakeup_exact) (simp add: cpu_ok_def boot_core_def)

lemma kill_update:
  assumes "cpu_ok s"
  shows "kill pid s =
    (let u = s\<lparr>irq := (if ncli s = 0 then irq s else False),
          intena := (if ncli s = 0 then irq s else intena s), locked := (locked s)(Lk_ptable := False)\<rparr>
     in case List.find (\<lambda>p. p_pid (ptable s p) = pid) [0..<NPROC] of
          None \<Rightarrow> Ok (- 1) u
        | Some p \<Rightarrow> Ok 0 (u\<lparr>ptable := (ptable s)(p := (ptable s p)\<lparr>p_killed := True,
            p_state := (if p_state (ptable s p) = SLEEPING then RUNNABLE else p_state (ptable s p))\<rparr>)\<rparr>))"
  using assms
  by (auto simp: kill_def lock_simps cpu_ok_def upd_proc_def Let_def split: option.split)

text \<open>\<open>kill\<close> marks the first table slot with the given pid as killed, wakes it if it
  sleeps, and returns 0; without such a slot it returns -1 and changes no process.\<close>

theorem kill_effect:
  assumes "cpu_ok s"
  shows "\<exists>r t. kill pid s = Ok r t \<and> ncli t = ncli s \<and> irq t = irq s \<and>
    (if \<exists>p<NPROC. p_pid (ptable s p) = pid
     then r = 0 \<and> (let p = LEAST p. p < NPROC \<and> p_pid (ptable s p) = pid
       in ptable t = (ptable s)(p := (ptable s p)\<lparr>p_killed := True,
            p_state := (if p_state (ptable s p) = SLEEPING then RUNNABLE else p_state (ptable s p))\<rparr>))
     else r = - 1 \<and> ptable t = ptable s)"
proof (cases "List.find (\<lambda>p. p_pid (ptable s p) = pid) [0..<NPROC]")
  case None
  then have "\<not> (\<exists>p<NPROC. p_pid (ptable s p) = pid)"
    by (auto simp: find_None_iff)
  with None assms show ?thesis
    by (auto simp: kill_update cpu_ok_def)
next
  case (Some q)
  then have q: "q < NPROC" "p_pid (ptable s q) = pid"
    and first: "\<And>p. p < q \<Longrightarrow> p_pid (ptable s p) \<noteq> pid"
    by (auto simp: find_Some_iff)
  have least: "(LEAST p. p < NPROC \<and> p_pid (ptable s p) = pid) = q"
    using q first by (intro Least_equality) (auto intro: leI)
  from q have ex: "\<exists>p<NPROC. p_pid (ptable s p) = pid" by blast
  from Some assms obtain t where "kill pid s = Ok 0 t \<and> ncli t = ncli s \<and> irq t = irq s \<and>
      ptable t = (ptable s)(q := (ptable s q)\<lparr>p_killed := True,
            p_state := (if p_state (ptable s q) = SLEEPING then RUNNABLE else p_state (ptable s q))\<rparr>)"
    using kill_update [OF assms, of pid] by (auto simp: cpu_ok_def Let_def)
  then show ?thesis
    by (intro exI [of _ 0] exI [of _ t]) (simp only: ex least Let_def if_True simp_thms)
qed

theorem kill_effect_witness:
  "\<exists>r t. kill 7 boot_core = Ok r t \<and> ncli t = ncli boot_core \<and> irq t = irq boot_core \<and>
    (if \<exists>p<NPROC. p_pid (ptable boot_core p) = 7
     then r = 0 \<and> (let p = LEAST p. p < NPROC \<and> p_pid (ptable boot_core p) = 7
       in ptable t = (ptable boot_core)(p := (ptable boot_core p)\<lparr>p_killed := True,
            p_state := (if p_state (ptable boot_core p) = SLEEPING then RUNNABLE
                        else p_state (ptable boot_core p))\<rparr>))
     else r = - 1 \<and> ptable t = ptable boot_core)"
  by (rule kill_effect) (simp add: cpu_ok_def boot_core_def)

end
