(* ===== verification/Links.thy ===== *)
theory Links
  imports Prelude
begin

text \<open>
  Doubly linked lists, for the free lists of the buddy allocator (16-bit indices, ended by
  NIL) and the LRU list of the buffer cache (pointers, closed through a head node). Nodes
  are linked by two functions, \<open>nxt\<close> and \<open>prv\<close>, into pointers; \<open>r\<close> maps a node to the
  pointer to it.
\<close>

section \<open>Segments\<close>

text \<open>\<open>seg r nxt prv p x as q y\<close>: the nodes \<open>as\<close> are linked in this order, \<open>x\<close> points to the
  first of them and \<open>p\<close> is its back pointer, \<open>y\<close> is the forward pointer of the last and
  \<open>q\<close> points to it.\<close>

primrec seg :: "('n \<Rightarrow> 'p) \<Rightarrow> ('n \<Rightarrow> 'p) \<Rightarrow> ('n \<Rightarrow> 'p) \<Rightarrow> 'p \<Rightarrow> 'p \<Rightarrow> 'n list \<Rightarrow> 'p \<Rightarrow> 'p \<Rightarrow> bool" where
  "seg r nxt prv p x [] q y \<longleftrightarrow> q = p \<and> y = x"
| "seg r nxt prv p x (a # as) q y \<longleftrightarrow> x = r a \<and> prv a = p \<and> seg r nxt prv (r a) (nxt a) as q y"

lemma seg_append:
  "seg r nxt prv p x (as @ bs) q y \<longleftrightarrow>
     (\<exists>p' x'. seg r nxt prv p x as p' x' \<and> seg r nxt prv p' x' bs q y)"
  by (induction as arbitrary: p x) auto

lemma seg_cong:
  "(\<And>a. a \<in> set as \<Longrightarrow> nxt a = nxt' a \<and> prv a = prv' a) \<Longrightarrow>
   seg r nxt prv p x as q y = seg r nxt' prv' p x as q y"
  by (induction as arbitrary: p x) auto

lemma seg_first: "seg r nxt prv p x as q y \<Longrightarrow> x = (if as = [] then y else r (hd as))"
  by (cases as) auto

lemma seg_last: "seg r nxt prv p x as q y \<Longrightarrow> q = (if as = [] then p else r (last as))"
  by (induction as arbitrary: p x) auto

lemma seg_middle:
  assumes "seg r nxt prv p x (as @ a # bs) q y"
  shows "prv a = (if as = [] then p else r (last as))" "nxt a = (if bs = [] then y else r (hd bs))"
proof -
  from assms obtain p' where *: "seg r nxt prv p x as p' (r a)" "prv a = p'"
    "seg r nxt prv (r a) (nxt a) bs q y"
    by (auto simp: seg_append)
  from seg_last [OF *(1)] *(2) show "prv a = (if as = [] then p else r (last as))" by simp
  from seg_first [OF *(3)] show "nxt a = (if bs = [] then y else r (hd bs))" .
qed

text \<open>A segment read backwards is one with the two links exchanged.\<close>

lemma seg_rev: "seg r nxt prv p x as q y \<Longrightarrow> seg r prv nxt y q (rev as) x p"
proof (induction as arbitrary: p x)
  case (Cons a as)
  then have "seg r prv nxt y q (rev as) (nxt a) (r a)" by simp
  with Cons.prems show ?case by (auto simp: seg_append)
qed simp

text \<open>Redirecting the two ends of a segment.\<close>

lemma seg_relink_last:
  assumes "seg r nxt prv p x as p' x'"
    and "\<And>b. b \<in> set as \<Longrightarrow> prv' b = prv b"
    and "\<And>b. b \<in> set (butlast as) \<Longrightarrow> nxt' b = nxt b"
    and "as \<noteq> [] \<Longrightarrow> nxt' (last as) = z"
  shows "seg r nxt' prv' p (if as = [] then z else x) as p' z"
  using assms
proof (induction as arbitrary: p x)
  case (Cons a as)
  then show ?case by (cases as) auto
qed simp

lemma seg_relink_first:
  assumes "seg r nxt prv p x as q y"
    and "\<And>b. b \<in> set as \<Longrightarrow> nxt' b = nxt b"
    and "\<And>b. b \<in> set (tl as) \<Longrightarrow> prv' b = prv b"
    and "as \<noteq> [] \<Longrightarrow> prv' (hd as) = p'"
  shows "seg r nxt' prv' p' x as (if as = [] then p' else q) y"
proof (cases as)
  case (Cons a bs)
  have "seg r nxt prv (r a) (nxt a) bs q y = seg r nxt' prv' (r a) (nxt a) bs q y"
    using assms(2,3) Cons by (intro seg_cong) auto
  with assms Cons show ?thesis by auto
qed (use assms in simp)

section \<open>Unlinking and linking a node\<close>

text \<open>Unlinking \<open>a\<close>: its predecessor is linked to its successor and back.\<close>

lemma seg_unlink:
  assumes seg: "seg r nxt prv p x (as @ a # bs) q y" and dist: "distinct (as @ a # bs)"
    and nxt': "\<And>b. b \<in> set (as @ bs) \<Longrightarrow> nxt' b = (if as \<noteq> [] \<and> b = last as then nxt a else nxt b)"
    and prv': "\<And>b. b \<in> set (as @ bs) \<Longrightarrow> prv' b = (if bs \<noteq> [] \<and> b = hd bs then prv a else prv b)"
  shows "seg r nxt' prv' p (if as = [] then nxt a else x) (as @ bs) (if bs = [] then prv a else q) y"
proof -
  from seg have 1: "seg r nxt prv p x as (prv a) (r a)"
    and 2: "seg r nxt prv (r a) (nxt a) bs q y"
    by (auto simp: seg_append)
  have "seg r nxt' prv' p (if as = [] then nxt a else x) as (prv a) (nxt a)"
  proof (rule seg_relink_last [OF 1])
    show "prv' b = prv b" if "b \<in> set as" for b
      using that prv' [of b] dist by (cases bs) auto
    show "nxt' b = nxt b" if "b \<in> set (butlast as)" for b
    proof -
      from that dist have "b \<noteq> last as"
        by (cases as rule: rev_cases) auto
      with that nxt' [of b] show ?thesis by (auto dest: in_set_butlastD)
    qed
    show "nxt' (last as) = nxt a" if "as \<noteq> []"
      using that nxt' [of "last as"] by simp
  qed
  moreover have "seg r nxt' prv' (prv a) (nxt a) bs (if bs = [] then prv a else q) y"
  proof (rule seg_relink_first [OF 2])
    show "nxt' b = nxt b" if "b \<in> set bs" for b
      using that nxt' [of b] dist by (cases as rule: rev_cases) auto
    show "prv' b = prv b" if "b \<in> set (tl bs)" for b
      using that prv' [of b] dist by (cases bs) auto
    show "prv' (hd bs) = prv a" if "bs \<noteq> []"
      using that prv' [of "hd bs"] by simp
  qed
  ultimately show ?thesis
    unfolding seg_append by blast
qed

text \<open>Linking a fresh node \<open>a\<close> in front.\<close>

lemma seg_link_front:
  assumes seg: "seg r nxt prv p x as q y" and fresh: "a \<notin> set as" and dist: "distinct as"
    and nxt': "\<And>b. b \<in> set (a # as) \<Longrightarrow> nxt' b = (if b = a then x else nxt b)"
    and prv': "\<And>b. b \<in> set (a # as) \<Longrightarrow> prv' b = (if b = a then p else if b = hd as then r a else prv b)"
  shows "seg r nxt' prv' p (r a) (a # as) (if as = [] then r a else q) y"
proof -
  have "seg r nxt' prv' (r a) x as (if as = [] then r a else q) y"
  proof (rule seg_relink_first [OF seg])
    show "nxt' b = nxt b" if "b \<in> set as" for b
      using that nxt' [of b] fresh by auto
    show "prv' b = prv b" if "b \<in> set (tl as)" for b
      using that prv' [of b] fresh dist by (cases as) auto
    show "prv' (hd as) = r a" if "as \<noteq> []"
      using that prv' [of "hd as"] fresh by (cases as) auto
  qed
  with nxt' [of a] prv' [of a] show ?thesis by simp
qed

end
