(* ===== verification/Buddy_Spec.thy ===== *)
theory Buddy_Spec
  imports Prelude
begin

text \<open>
  The abstract view of the buddy allocator: a set of free blocks \<open>(k, i)\<close>, block \<open>i\<close> of
  order \<open>k\<close> standing for the bytes \<open>i * 2 ^ k\<close> up to \<open>(i + 1) * 2 ^ k\<close> of the heap. Freeing
  merges a block with its buddy as long as the buddy is free; what a client sees is only
  the set of free bytes. The last section states the contract of a block allocator as a
  locale and derives what its clients rely on.
\<close>

section \<open>Blocks and the bytes they cover\<close>

definition blk_range :: "nat \<Rightarrow> nat \<Rightarrow> nat set" where
  "blk_range k i = {i * 2 ^ k ..< (i + 1) * 2 ^ k}"

text \<open>The buddy of block \<open>i\<close> of the same order: the index with its last bit flipped.\<close>

definition buddy :: "nat \<Rightarrow> nat" where
  "buddy i = (if even i then i + 1 else i - 1)"

definition free_bytes :: "(nat \<times> nat) set \<Rightarrow> nat set" where
  "free_bytes F = (\<Union>(k, i)\<in>F. blk_range k i)"

text \<open>Every free block lies in a heap of \<open>N\<close> pages, no two overlap, and no block below the
  page order is free together with its buddy.\<close>

definition free_ok :: "nat \<Rightarrow> (nat \<times> nat) set \<Rightarrow> bool" where
  "free_ok N F \<longleftrightarrow>
     (\<forall>k i. (k, i) \<in> F \<longrightarrow> 6 \<le> k \<and> k \<le> 12 \<and> i < N * 2 ^ (12 - k))
     \<and> (\<forall>k i k' i'. (k, i) \<in> F \<longrightarrow> (k', i') \<in> F \<longrightarrow> (k, i) \<noteq> (k', i') \<longrightarrow>
          blk_range k i \<inter> blk_range k' i' = {})
     \<and> (\<forall>k i. (k, i) \<in> F \<longrightarrow> k < 12 \<longrightarrow> (k, buddy i) \<notin> F)"

lemma free_okI:
  assumes "\<And>k i. (k, i) \<in> F \<Longrightarrow> 6 \<le> k \<and> k \<le> 12 \<and> i < N * 2 ^ (12 - k)"
    and "\<And>k i k' i'. (k, i) \<in> F \<Longrightarrow> (k', i') \<in> F \<Longrightarrow> (k, i) \<noteq> (k', i') \<Longrightarrow>
          blk_range k i \<inter> blk_range k' i' = {}"
    and "\<And>k i. (k, i) \<in> F \<Longrightarrow> k < 12 \<Longrightarrow> (k, buddy i) \<notin> F"
  shows "free_ok N F"
  using assms unfolding free_ok_def by blast

lemma free_okD:
  assumes "free_ok N F" and "(k, i) \<in> F"
  shows "6 \<le> k" "k \<le> 12" "i < N * 2 ^ (12 - k)"
    and "(k', i') \<in> F \<Longrightarrow> (k, i) \<noteq> (k', i') \<Longrightarrow> blk_range k i \<inter> blk_range k' i' = {}"
    and "k < 12 \<Longrightarrow> (k, buddy i) \<notin> F"
  using assms unfolding free_ok_def by blast+

function merge_free :: "(nat \<times> nat) set \<Rightarrow> nat \<Rightarrow> nat \<Rightarrow> (nat \<times> nat) set" where
  "merge_free F k i =
     (if (k, buddy i) \<notin> F \<or> 12 \<le> k then insert (k, i) F
      else merge_free (F - {(k, buddy i)}) (k + 1) (i div 2))"
  by pat_completeness auto
termination
  by (relation "measure (\<lambda>(F, k, i). 12 - k)") auto

declare merge_free.simps [simp del]

lemma buddy_cases:
  obtains (even) j where "i = 2 * j" "buddy i = 2 * j + 1" | (odd) j where "i = 2 * j + 1" "buddy i = 2 * j"
proof (cases "even i")
  case True
  then obtain j where "i = 2 * j" by (auto elim: evenE)
  then show ?thesis using even by (simp add: buddy_def)
next
  case False
  then obtain j where "i = 2 * j + 1" by (auto elim: oddE)
  then show ?thesis using odd by (simp add: buddy_def)
qed

lemma buddy_buddy [simp]: "buddy (buddy i) = i"
  by (auto simp: buddy_def)

lemma buddy_div [simp]: "buddy i div 2 = i div 2"
  by (cases i rule: buddy_cases) auto

lemma buddy_neq [simp]: "buddy i \<noteq> i"
  by (cases i rule: buddy_cases) auto

lemma blk_range_nonempty: "blk_range k i \<noteq> {}"
  by (simp add: blk_range_def)

lemma blk_range_double:
  "blk_range (Suc k) j = blk_range k (2 * j) \<union> blk_range k (2 * j + 1)"
  "blk_range k (2 * j) \<inter> blk_range k (2 * j + 1) = {}"
  by (auto simp: blk_range_def algebra_simps)

lemma blk_range_merge:
  "blk_range (Suc k) (i div 2) = blk_range k i \<union> blk_range k (buddy i)"
  "blk_range k i \<inter> blk_range k (buddy i) = {}"
proof -
  show "blk_range (Suc k) (i div 2) = blk_range k i \<union> blk_range k (buddy i)"
    by (cases i rule: buddy_cases) (auto simp: blk_range_double(1))
  show "blk_range k i \<inter> blk_range k (buddy i) = {}"
    using blk_range_double(2) [of k "i div 2"] by (cases i rule: buddy_cases) auto
qed

lemma blk_in_free_bytes: "(k, i) \<in> F \<Longrightarrow> blk_range k i \<subseteq> free_bytes F"
  by (auto simp: free_bytes_def)

lemma not_free_if_disjoint: "blk_range k i \<inter> free_bytes F = {} \<Longrightarrow> (k, i) \<notin> F"
  using blk_in_free_bytes [of k i F] blk_range_nonempty [of k i] by blast

lemma free_bytes_insert: "free_bytes (insert (k, i) F) = blk_range k i \<union> free_bytes F"
  by (auto simp: free_bytes_def)

lemma free_bytes_remove:
  assumes "free_ok N F" and "(k, i) \<in> F"
  shows "free_bytes (F - {(k, i)}) = free_bytes F - blk_range k i"
proof -
  have "blk_range k' i' \<inter> blk_range k i = {}" if "(k', i') \<in> F - {(k, i)}" for k' i'
    using free_okD(4) [OF assms, of k' i'] that by (auto simp: Int_commute)
  then have "free_bytes (F - {(k, i)}) \<inter> blk_range k i = {}"
    unfolding free_bytes_def by blast
  moreover have "free_bytes F = blk_range k i \<union> free_bytes (F - {(k, i)})"
    using assms(2) free_bytes_insert [of k i "F - {(k, i)}"] by (simp add: insert_absorb)
  ultimately show ?thesis by blast
qed

lemma free_ok_remove: "free_ok N F \<Longrightarrow> free_ok N (F - X)"
  by (rule free_okI) (blast dest: free_okD)+

lemma free_ok_insert:
  assumes "free_ok N F" and "6 \<le> k" "k \<le> 12" "i < N * 2 ^ (12 - k)"
    and "blk_range k i \<inter> free_bytes F = {}" and "(k, buddy i) \<notin> F \<or> k = 12"
  shows "free_ok N (insert (k, i) F)"
proof (rule free_okI)
  have dis: "blk_range k i \<inter> blk_range k' i' = {}" if "(k', i') \<in> F" for k' i'
    using assms(5) blk_in_free_bytes [OF that] by blast
  fix a b a' b'
  assume 1: "(a, b) \<in> insert (k, i) F"
  with assms(1-4) show "6 \<le> a \<and> a \<le> 12 \<and> b < N * 2 ^ (12 - a)"
    using free_okD(1-3) [of N F a b] by blast
  show "blk_range a b \<inter> blk_range a' b' = {}"
    if "(a', b') \<in> insert (k, i) F" "(a, b) \<noteq> (a', b')"
    using 1 that dis [of a b] dis [of a' b'] free_okD(4) [OF assms(1), of a b a' b'] by blast
  show "(a, buddy b) \<notin> insert (k, i) F" if "a < 12"
  proof
    assume 2: "(a, buddy b) \<in> insert (k, i) F"
    consider "(a, b) = (k, i)" | "(a, b) \<in> F" "(a, buddy b) = (k, i)" | "(a, b) \<in> F" "(a, buddy b) \<in> F"
      using 1 2 by blast
    then show False
    proof cases
      case 1
      with 2 that assms(6) show False by auto
    next
      case 2
      then have "buddy i = b" using buddy_buddy [of b] by simp
      with 2 that assms(6) show False by auto
    next
      case 3
      with that free_okD(5) [OF assms(1)] show False by blast
    qed
  qed
qed

theorem merge_free_correct:
  assumes "free_ok N F" and "6 \<le> k" "k \<le> 12" "i < N * 2 ^ (12 - k)"
    and "blk_range k i \<inter> free_bytes F = {}"
  shows "free_ok N (merge_free F k i) \<and> free_bytes (merge_free F k i) = free_bytes F \<union> blk_range k i"
  using assms
proof (induction F k i rule: merge_free.induct)
  case (1 F k i)
  show ?case
  proof (cases "(k, buddy i) \<notin> F \<or> 12 \<le> k")
    case True
    with "1.prems" free_ok_insert [of N F k i] show ?thesis
      by (auto simp: merge_free.simps [of F k i] free_bytes_insert)
  next
    case False
    let ?b = "buddy i" and ?F = "F - {(k, buddy i)}"
    from False have b: "(k, ?b) \<in> F" and "k < 12" by auto
    note bytes = free_bytes_remove [OF "1.prems"(1) b]
    have "blk_range (Suc k) (i div 2) \<inter> free_bytes ?F = {}"
      using "1.prems"(5) by (auto simp: bytes blk_range_merge)
    moreover have "i div 2 < N * 2 ^ (12 - Suc k)"
    proof -
      have "(2 :: nat) ^ (12 - k) = 2 * 2 ^ (12 - Suc k)"
        using \<open>k < 12\<close> by (simp flip: power_Suc add: Suc_diff_Suc)
      then show ?thesis using "1.prems"(4) by auto
    qed
    ultimately have "free_ok N (merge_free ?F (k + 1) (i div 2)) \<and>
      free_bytes (merge_free ?F (k + 1) (i div 2)) = free_bytes ?F \<union> blk_range (k + 1) (i div 2)"
      using "1.prems" \<open>k < 12\<close> False by (intro "1.IH") (auto intro: free_ok_remove)
    moreover have "free_bytes ?F \<union> blk_range (k + 1) (i div 2) = free_bytes F \<union> blk_range k i"
      using blk_in_free_bytes [OF b] by (auto simp: bytes blk_range_merge)
    ultimately show ?thesis
      using False by (simp add: merge_free.simps [of F k i])
  qed
qed

section \<open>The contract of a block allocator\<close>

text \<open>The bytes of a block of order \<open>k\<close> at address \<open>a\<close>.\<close>

definition mem_range :: "uint64 \<Rightarrow> nat \<Rightarrow> nat set" where
  "mem_range a k = {unat a ..< unat a + 2 ^ k}"

lemma mem_range_nonempty: "mem_range a k \<noteq> {}"
  by (simp add: mem_range_def)

text \<open>The histories of clients that allocate blocks and free what they hold: \<open>client_run
  alloc free s0 (s, L)\<close> when the blocks \<open>L\<close> are live in \<open>s\<close>.\<close>

inductive client_run ::
  "(nat \<Rightarrow> 's \<Rightarrow> ('s, uint64) outcome) \<Rightarrow> (uint64 \<Rightarrow> nat \<Rightarrow> 's \<Rightarrow> ('s, unit) outcome) \<Rightarrow>
   's \<Rightarrow> 's \<times> (uint64 \<times> nat) set \<Rightarrow> bool" for alloc free s0 where
  run_start: "client_run alloc free s0 (s0, {})"
| run_alloc: "client_run alloc free s0 (s, L) \<Longrightarrow> 6 \<le> k \<Longrightarrow> k \<le> 12 \<Longrightarrow> alloc k s = Ok a t \<Longrightarrow>
    client_run alloc free s0 (t, if a = 0 then L else insert (a, k) L)"
| run_free: "client_run alloc free s0 (s, L) \<Longrightarrow> (a, k) \<in> L \<Longrightarrow> free a k s = Ok () t \<Longrightarrow>
    client_run alloc free s0 (t, L - {(a, k)})"

text \<open>No live block overlaps another or the free bytes, and together they are the bytes that
  were free at the start.\<close>

definition live_ok :: "nat set \<Rightarrow> nat set \<Rightarrow> (uint64 \<times> nat) set \<Rightarrow> bool" where
  "live_ok A0 A L \<longleftrightarrow>
     (\<forall>b \<in> L. \<forall>c \<in> L. b \<noteq> c \<longrightarrow> mem_range (fst b) (snd b) \<inter> mem_range (fst c) (snd c) = {})
     \<and> (\<forall>b \<in> L. mem_range (fst b) (snd b) \<inter> A = {})
     \<and> A \<union> (\<Union>b \<in> L. mem_range (fst b) (snd b)) = A0"

lemma live_ok_apart: "live_ok A0 A L \<Longrightarrow> (a, k) \<in> L \<Longrightarrow> mem_range a k \<inter> A = {}"
  unfolding live_ok_def by force

lemma live_ok_alloc:
  assumes "live_ok A0 A L" "mem_range a k \<subseteq> A"
  shows "live_ok A0 (A - mem_range a k) (insert (a, k) L)"
proof -
  have "mem_range (fst b) (snd b) \<inter> mem_range a k = {}" if "b \<in> L" for b
    using assms that unfolding live_ok_def by blast
  moreover have "mem_range a k \<inter> mem_range (fst b) (snd b) = {}" if "b \<in> L" for b
    using assms that unfolding live_ok_def by blast
  moreover have "A - mem_range a k \<union> (\<Union>b \<in> insert (a, k) L. mem_range (fst b) (snd b)) = A0"
    using assms unfolding live_ok_def by fastforce
  moreover have "mem_range (fst b) (snd b) \<inter> (A - mem_range a k) = {}" if "b \<in> L" for b
    using assms that unfolding live_ok_def by blast
  ultimately show ?thesis
    using assms(1) unfolding live_ok_def by simp
qed

lemma live_ok_free:
  assumes "live_ok A0 A L" "(a, k) \<in> L"
  shows "live_ok A0 (A \<union> mem_range a k) (L - {(a, k)})"
proof -
  have "mem_range (fst b) (snd b) \<inter> mem_range a k = {}" if "b \<in> L - {(a, k)}" for b
    using assms that unfolding live_ok_def by force
  moreover have "(\<Union>b \<in> L. mem_range (fst b) (snd b)) =
      mem_range a k \<union> (\<Union>b \<in> L - {(a, k)}. mem_range (fst b) (snd b))"
    using assms(2) by force
  ultimately show ?thesis
    using assms unfolding live_ok_def by (simp add: Int_Un_distrib Un_assoc)
qed

locale block_allocator =
  fixes inv :: "'s \<Rightarrow> bool"
    and is_block :: "'s \<Rightarrow> uint64 \<Rightarrow> nat \<Rightarrow> bool"
    and avail :: "'s \<Rightarrow> nat set"
    and alloc :: "nat \<Rightarrow> 's \<Rightarrow> ('s, uint64) outcome"
    and free :: "uint64 \<Rightarrow> nat \<Rightarrow> 's \<Rightarrow> ('s, unit) outcome"
  assumes alloc_law: "inv s \<Longrightarrow> 6 \<le> k \<Longrightarrow> k \<le> 12 \<Longrightarrow>
      \<exists>a t. alloc k s = Ok a t \<and> inv t \<and> is_block t = is_block s
        \<and> (if a = 0 then avail t = avail s
           else is_block s a k \<and> mem_range a k \<subseteq> avail s \<and> avail t = avail s - mem_range a k)"
    and free_law: "inv s \<Longrightarrow> is_block s a k \<Longrightarrow> mem_range a k \<inter> avail s = {} \<Longrightarrow>
      \<exists>t. free a k s = Ok () t \<and> inv t \<and> is_block t = is_block s \<and> avail t = avail s \<union> mem_range a k"
begin

lemma run_sound:
  assumes "inv s0" and "client_run alloc free s0 c"
  shows "inv (fst c) \<and> is_block (fst c) = is_block s0 \<and> (\<forall>b \<in> snd c. is_block s0 (fst b) (snd b))
    \<and> live_ok (avail s0) (avail (fst c)) (snd c)"
  using assms(2)
proof induction
  case run_start
  then show ?case using assms(1) by (simp add: live_ok_def)
next
  case (run_alloc s L k a t)
  with alloc_law [of s k] have *: "inv t" "is_block t = is_block s0"
    "if a = 0 then avail t = avail s
     else is_block s0 a k \<and> mem_range a k \<subseteq> avail s \<and> avail t = avail s - mem_range a k" by auto
  with run_alloc show ?case by (auto simp: live_ok_alloc split: if_splits)
next
  case (run_free s L a k t)
  then have "mem_range a k \<inter> avail s = {}" by (intro live_ok_apart) auto
  moreover have "is_block s a k" using run_free by auto
  ultimately have "inv t" "is_block t = is_block s0" "avail t = avail s \<union> mem_range a k"
    using run_free free_law [of s a k] by auto
  with run_free show ?case by (auto simp: live_ok_free)
qed

lemma run_progress:
  assumes "inv s0" and "client_run alloc free s0 (s, L)"
  shows "(6 \<le> k \<longrightarrow> k \<le> 12 \<longrightarrow> (\<exists>a t. alloc k s = Ok a t))
    \<and> ((a, k) \<in> L \<longrightarrow> (\<exists>t. free a k s = Ok () t))"
proof -
  from run_sound [OF assms] have i: "inv s" "is_block s = is_block s0"
    "\<forall>b \<in> L. is_block s0 (fst b) (snd b)" "live_ok (avail s0) (avail s) L" by auto
  have "\<exists>t. free a k s = Ok () t" if "(a, k) \<in> L"
  proof -
    from i that have "is_block s a k" by auto
    moreover from i(4) that have "mem_range a k \<inter> avail s = {}" by (rule live_ok_apart)
    ultimately show ?thesis using free_law [OF i(1)] by blast
  qed
  with alloc_law [OF i(1)] show ?thesis by blast
qed

end

end
