(* ===== verification/Buddy.thy ===== *)
theory Buddy
  imports Sched Links Buddy_Spec
begin

text \<open>
  The buddy memory allocator (\<^verbatim>\<open>buddy.c\<close>): per order a bitmap of free blocks cut into
  marks of 32 blocks, the marks with a free block chained in a doubly linked list of
  16-bit indices. The state record adds \<open>struct kmem\<close> and the array of marks that lives at
  \<open>kmem.start\<close>. Panic messages are written without their trailing newline.
\<close>

section \<open>State\<close>

definition MAX_ORD :: nat where "MAX_ORD = 12"
definition MIN_ORD :: nat where "MIN_ORD = 6"
definition N_ORD :: nat where "N_ORD = MAX_ORD - MIN_ORD + 1"
definition PTE_SHIFT :: nat where "PTE_SHIFT = 12"

record mark =
  lnks :: uint
  bitmap :: uint

record order =
  head :: uint
  offset :: uint

record kmem = kcore +
  km_start :: uint64
  km_start_heap :: uint64
  km_end :: uint64
  orders :: "nat \<Rightarrow> order"
  marks :: "nat \<Rightarrow> mark"

definition PRE_LNK :: "uint \<Rightarrow> uint" where "PRE_LNK l = drop_bit 16 l"
definition NEXT_LNK :: "uint \<Rightarrow> uint" where "NEXT_LNK l = l AND 0xFFFF"
definition LNKS :: "uint \<Rightarrow> uint \<Rightarrow> uint" where
  "LNKS pre nxt = push_bit 16 pre OR (nxt AND 0xFFFF)"
definition NIL :: uint where "NIL = 0xFFFF"

definition align_up :: "uint64 \<Rightarrow> uint64 \<Rightarrow> uint64" where
  "align_up sz al = (sz + al - 1) AND NOT (al - 1)"

section \<open>Operations\<close>

text \<open>\<open>get_mark\<close> is the index of a mark in the array at \<open>kmem.start\<close>. Block ids are C ints,
  kept as 32-bit words; \<open>>>\<close> on them is the arithmetic shift.\<close>

definition ord_of :: "nat \<Rightarrow> 'z kmem_scheme \<Rightarrow> order" where
  "ord_of k s = orders s (k - MIN_ORD)"

definition get_mark :: "nat \<Rightarrow> uint \<Rightarrow> 'z kmem_scheme \<Rightarrow> nat" where
  "get_mark k idx s = unat (offset (ord_of k s) + idx)"

definition blkid2mem :: "nat \<Rightarrow> uint \<Rightarrow> 'z kmem_scheme \<Rightarrow> uint64" where
  "blkid2mem k blkid s = km_start_heap s + scast (push_bit k (1 :: uint) * blkid)"

definition mem2blkid :: "nat \<Rightarrow> uint64 \<Rightarrow> 'z kmem_scheme \<Rightarrow> uint" where
  "mem2blkid k mem s = ucast (drop_bit k (mem - km_start_heap s))"

definition blk_bit :: "uint \<Rightarrow> uint" where
  "blk_bit blk_id = push_bit (unat (blk_id AND 0x1F)) 1"

definition available :: "uint \<Rightarrow> uint \<Rightarrow> bool" where
  "available bm blk_id \<longleftrightarrow> bm AND blk_bit blk_id \<noteq> 0"

definition upd_mark :: "nat \<Rightarrow> (mark \<Rightarrow> mark) \<Rightarrow> 'z kmem_scheme \<Rightarrow> 'z kmem_scheme" where
  "upd_mark m f s = s\<lparr>marks := (marks s)(m := f (marks s m))\<rparr>"

definition set_head :: "nat \<Rightarrow> uint \<Rightarrow> 'z kmem_scheme \<Rightarrow> 'z kmem_scheme" where
  "set_head k h s = s\<lparr>orders := (orders s)(k - MIN_ORD := (ord_of k s)\<lparr>head := h\<rparr>)\<rparr>"

definition set_lnks :: "nat \<Rightarrow> uint \<Rightarrow> uint \<Rightarrow> uint \<Rightarrow> 'z kmem_scheme \<Rightarrow> 'z kmem_scheme" where
  "set_lnks k idx pre nxt s = upd_mark (get_mark k idx s) (\<lambda>m. m\<lparr>lnks := LNKS pre nxt\<rparr>) s"

definition lnks_of :: "nat \<Rightarrow> uint \<Rightarrow> 'z kmem_scheme \<Rightarrow> uint" where
  "lnks_of k idx s = lnks (marks s (get_mark k idx s))"

definition unmark_blk :: "nat \<Rightarrow> uint \<Rightarrow> 'z kmem_scheme \<Rightarrow> ('z kmem_scheme, unit) outcome" where
  "unmark_blk k blk_id s =
     (let mi = signed_drop_bit 5 blk_id; mk = get_mark k mi s
      in if \<not> available (bitmap (marks s mk)) blk_id then Panic ''double alloc''
         else (let s1 = upd_mark mk (\<lambda>m. m\<lparr>bitmap := bitmap m AND NOT (blk_bit blk_id)\<rparr>) s
               in if bitmap (marks s1 mk) = 0
                  then (let prev = PRE_LNK (lnks (marks s1 mk));
                            nxt = NEXT_LNK (lnks (marks s1 mk));
                            s2 = (if prev \<noteq> NIL then set_lnks k prev (PRE_LNK (lnks_of k prev s1)) nxt s1
                                  else if head (ord_of k s1) = mi then set_head k nxt s1 else s1);
                            s3 = (if nxt \<noteq> NIL then set_lnks k nxt prev (NEXT_LNK (lnks_of k nxt s2)) s2 else s2)
                        in Ok () (upd_mark mk (\<lambda>m. m\<lparr>lnks := LNKS NIL NIL\<rparr>) s3))
                  else Ok () s1))"

definition mark_blk :: "nat \<Rightarrow> uint \<Rightarrow> 'z kmem_scheme \<Rightarrow> ('z kmem_scheme, unit) outcome" where
  "mark_blk k blk_id s =
     (let mi = signed_drop_bit 5 blk_id; mk = get_mark k mi s; ins = (bitmap (marks s mk) = 0)
      in if available (bitmap (marks s mk)) blk_id then Panic ''double free''
         else (let s1 = upd_mark mk (\<lambda>m. m\<lparr>bitmap := bitmap m OR blk_bit blk_id\<rparr>) s
               in if ins
                  then (let h = head (ord_of k s1);
                            s2 = upd_mark mk (\<lambda>m. m\<lparr>lnks := LNKS NIL h\<rparr>) s1;
                            s3 = (if h \<noteq> NIL then set_lnks k h mi (NEXT_LNK (lnks_of k h s2)) s2 else s2)
                        in Ok () (set_head k mi s3))
                  else Ok () s1))"

definition get_blk :: "nat \<Rightarrow> 'z kmem_scheme \<Rightarrow> ('z kmem_scheme, uint64) outcome" where
  "get_blk k s =
     (let h = head (ord_of k s); bm = bitmap (marks s (get_mark k h s))
      in if bm = 0 then Panic ''empty mark in the list''
         else (case List.find (\<lambda>i. bm AND push_bit i 1 \<noteq> 0) [0..<32] of
                 Some i \<Rightarrow> (let blk_id = h * 32 + of_nat i
                           in andthen (unmark_blk k blk_id s) (\<lambda>_ s1. Ok (blkid2mem k blk_id s1) s1))
               | None \<Rightarrow> Ok 0 s))"

text \<open>\<open>_kfree\<close> merges upwards; an order outside the array \<open>kmem.orders\<close> is a fault.\<close>

function kfree_rec :: "uint64 \<Rightarrow> nat \<Rightarrow> 'z kmem_scheme \<Rightarrow> ('z kmem_scheme, unit) outcome" where
  "kfree_rec mem k s =
     (if k < MIN_ORD \<or> MAX_ORD < k then Fault
      else (let blk_id = mem2blkid k mem s;
                mk = get_mark k (signed_drop_bit 5 blk_id) s;
                buddy_id = blk_id XOR 1
            in if available (bitmap (marks s mk)) blk_id then Panic ''kfree: double free''
               else if \<not> available (bitmap (marks s mk)) buddy_id \<or> k = MAX_ORD
               then mark_blk k blk_id s
               else andthen (unmark_blk k buddy_id s) (\<lambda>_ s1.
                      kfree_rec (blkid2mem k (blk_id AND NOT 1) s1) (k + 1) s1)))"
  by pat_completeness auto
termination
  by (relation "measure (\<lambda>(mem, k, s). Suc MAX_ORD - k)") auto

function kmalloc_rec :: "nat \<Rightarrow> 'z kmem_scheme \<Rightarrow> ('z kmem_scheme, uint64) outcome" where
  "kmalloc_rec k s =
     (if k < MIN_ORD \<or> MAX_ORD < k then Fault
      else if head (ord_of k s) \<noteq> NIL then get_blk k s
      else if k < MAX_ORD
      then andthen (kmalloc_rec (k + 1) s) (\<lambda>up s1.
             if up \<noteq> 0
             then andthen (kfree_rec (up + push_bit k 1) k s1) (\<lambda>_ s2. Ok up s2)
             else Ok up s1)
      else Ok 0 s)"
  by pat_completeness auto
termination
  by (relation "measure (\<lambda>(k, s). Suc MAX_ORD - k)") auto

declare kfree_rec.simps [simp del] kmalloc_rec.simps [simp del]

definition kmalloc :: "int \<Rightarrow> 'z kmem_scheme \<Rightarrow> ('z kmem_scheme, uint64) outcome" where
  "kmalloc k s =
     (if k > int MAX_ORD \<or> k < int MIN_ORD then Panic ''kmalloc: order out of range''
      else andthen (kmalloc_rec (nat k) (acquire Lk_kmem s)) (\<lambda>up s1.
             andthen (release Lk_kmem s1) (\<lambda>_ s2. Ok up s2)))"

definition kfree :: "uint64 \<Rightarrow> int \<Rightarrow> 'z kmem_scheme \<Rightarrow> ('z kmem_scheme, unit) outcome" where
  "kfree mem k s =
     (if k > int MAX_ORD \<or> k < int MIN_ORD \<or> mem AND (push_bit (nat k) 1 - 1) \<noteq> 0
      then Panic ''kfree: order out of range or memory unaligned''
      else andthen (kfree_rec mem (nat k) (acquire Lk_kmem s)) (\<lambda>_ s1. release Lk_kmem s1))"

definition free_page :: "uint64 \<Rightarrow> 'z kmem_scheme \<Rightarrow> ('z kmem_scheme, unit) outcome" where
  "free_page v s = kfree v (int PTE_SHIFT) s"

definition alloc_page :: "'z kmem_scheme \<Rightarrow> ('z kmem_scheme, uint64) outcome" where
  "alloc_page s = kmalloc (int PTE_SHIFT) s"

definition kmem_init :: "'z kmem_scheme \<Rightarrow> 'z kmem_scheme" where
  "kmem_init s = initlock Lk_kmem s"

text \<open>\<open>kmem_init2\<close>: lay the marks out from the highest order down, then free every page of
  the heap. The loop over pages takes its number of iterations as fuel.\<close>

fun init_orders :: "nat \<Rightarrow> uint64 \<Rightarrow> uint64 \<Rightarrow> 'z kmem_scheme \<Rightarrow> uint64 \<times> 'z kmem_scheme" where
  "init_orders 0 tot n s = (tot, s)"
| "init_orders (Suc i) tot n s =
     (let s1 = s\<lparr>orders := (orders s)(i := \<lparr>head = NIL, offset = ucast tot\<rparr>)\<rparr>;
          s2 = fold (\<lambda>j t. upd_mark (get_mark (i + MIN_ORD) (of_nat j) t)
                 (\<lambda>_. \<lparr>lnks = LNKS NIL NIL, bitmap = 0\<rparr>) t) [0..<unat n] s1
      in init_orders i (tot + n) (push_bit 1 n) s2)"

fun init_pages :: "nat \<Rightarrow> uint64 \<Rightarrow> 'z kmem_scheme \<Rightarrow> ('z kmem_scheme, unit) outcome" where
  "init_pages fuel i s =
     (if i < km_end s
      then (case fuel of 0 \<Rightarrow> Diverge
            | Suc fuel' \<Rightarrow> andthen (kfree i (int MAX_ORD) s) (\<lambda>_ s1.
                 init_pages fuel' (i + push_bit MAX_ORD 1) s1))
      else Ok () s)"

declare init_pages.simps [simp del]

definition kmem_init2 :: "uint64 \<Rightarrow> uint64 \<Rightarrow> 'z kmem_scheme \<Rightarrow> ('z kmem_scheme, unit) outcome" where
  "kmem_init2 vstart vend s =
     (let s1 = s\<lparr>km_start := vstart, km_end := vend\<rparr>;
          len = vend - vstart;
          n = drop_bit (MAX_ORD + 5) len + 1;
          (tot, s2) = init_orders N_ORD 0 n s1;
          s3 = s2\<lparr>km_start_heap := align_up (km_start s2 + tot * 8) (push_bit MAX_ORD 1)\<rparr>
      in init_pages (unat (drop_bit MAX_ORD (km_end s3 - km_start_heap s3)) + 1) (km_start_heap s3) s3)"

text \<open>\<open>get_order\<close>: the bit-smearing round up to a power of two, then the index of its bit.\<close>

definition round_up_pow2 :: "uint \<Rightarrow> uint" where
  "round_up_pow2 v =
     (let v0 = v - 1;
          v1 = v0 OR drop_bit 1 v0;
          v2 = v1 OR drop_bit 2 v1;
          v3 = v2 OR drop_bit 4 v2;
          v4 = v3 OR drop_bit 8 v3;
          v5 = v4 OR drop_bit 16 v4
      in v5 + 1)"

definition get_order :: "uint \<Rightarrow> 's \<Rightarrow> ('s, nat) outcome" where
  "get_order v s =
     (let w = round_up_pow2 v;
          ord = (case List.find (\<lambda>i. w AND push_bit i 1 \<noteq> 0) [0..<32] of Some i \<Rightarrow> i | None \<Rightarrow> 32)
      in if ord < MIN_ORD then Ok MIN_ORD s
         else if ord > MAX_ORD then Panic ''order too big!''
         else Ok ord s)"

end
