(* ===== verification/Bio.thy ===== *)
theory Bio
  imports Buddy Links
begin

text \<open>
  The buffer cache (\<^verbatim>\<open>bio.c\<close>) over the memory disk (\<^verbatim>\<open>memide.c\<close>): a doubly linked LRU
  list of \<open>NBUF\<close> buffers closed through \<open>bcache.head\<close>. A sector is 512 bytes; the unused
  field \<open>qnext\<close> is left out. \<open>disk_writes\<close> is a ghost log of the sectors written, newest
  first, used to state what a crash can leave on the disk.
\<close>

section \<open>State\<close>

definition NBUF :: nat where "NBUF = 10"

datatype bflag = B_BUSY | B_VALID | B_DIRTY

datatype bref = BHead | BufP nat

record buf =
  b_flags :: "bflag set"
  b_dev :: uint
  b_sector :: uint
  b_prev :: bref
  b_next :: bref
  b_data :: bytes

record kbio = kmem +
  bc_buf :: "nat \<Rightarrow> buf"
  bc_head_prev :: bref
  bc_head_next :: bref
  disksize :: nat
  memdisk :: "nat \<Rightarrow> bytes"
  disk_writes :: "(nat \<times> bytes) list"

definition upd_buf :: "nat \<Rightarrow> (buf \<Rightarrow> buf) \<Rightarrow> 'z kbio_scheme \<Rightarrow> 'z kbio_scheme" where
  "upd_buf i f s = s\<lparr>bc_buf := (bc_buf s)(i := f (bc_buf s i))\<rparr>"

definition set_bnext :: "bref \<Rightarrow> bref \<Rightarrow> 'z kbio_scheme \<Rightarrow> 'z kbio_scheme" where
  "set_bnext r v s = (case r of BHead \<Rightarrow> s\<lparr>bc_head_next := v\<rparr> | BufP i \<Rightarrow> upd_buf i (\<lambda>b. b\<lparr>b_next := v\<rparr>) s)"

definition set_bprev :: "bref \<Rightarrow> bref \<Rightarrow> 'z kbio_scheme \<Rightarrow> 'z kbio_scheme" where
  "set_bprev r v s = (case r of BHead \<Rightarrow> s\<lparr>bc_head_prev := v\<rparr> | BufP i \<Rightarrow> upd_buf i (\<lambda>b. b\<lparr>b_prev := v\<rparr>) s)"

section \<open>The memory disk\<close>

text \<open>\<open>ideinit\<close> installs the embedded image: its number of sectors and its contents are
  parameters. The byte offset \<open>sector * 512\<close> is computed in 32 bits.\<close>

definition ideinit :: "nat \<Rightarrow> (nat \<Rightarrow> bytes) \<Rightarrow> 'z kbio_scheme \<Rightarrow> 'z kbio_scheme" where
  "ideinit img_size img s = s\<lparr>memdisk := img, disksize := img_size div 512\<rparr>"

definition disk_index :: "uint \<Rightarrow> nat" where
  "disk_index sec = unat (sec * 512) div 512"

definition iderw :: "nat \<Rightarrow> 'z kbio_scheme \<Rightarrow> ('z kbio_scheme, unit) outcome" where
  "iderw i s =
     (let b = bc_buf s i
      in if B_BUSY \<notin> b_flags b then Panic ''iderw: buf not busy''
         else if B_VALID \<in> b_flags b \<and> B_DIRTY \<notin> b_flags b then Panic ''iderw: nothing to do''
         else if b_dev b \<noteq> 1 then Panic ''iderw: request not for disk 1''
         else if unat (b_sector b) \<ge> disksize s then Panic ''iderw: sector out of range''
         else (let p = disk_index (b_sector b);
                   s1 = (if B_DIRTY \<in> b_flags b
                         then (upd_buf i (\<lambda>b. b\<lparr>b_flags := b_flags b - {B_DIRTY}\<rparr>) s)
                                \<lparr>memdisk := (memdisk s)(p := b_data b),
                                 disk_writes := (p, b_data b) # disk_writes s\<rparr>
                         else upd_buf i (\<lambda>b. b\<lparr>b_data := memdisk s p\<rparr>) s)
               in Ok () (upd_buf i (\<lambda>b. b\<lparr>b_flags := insert B_VALID (b_flags b)\<rparr>) s1)))"

section \<open>The cache\<close>

definition binit_buf :: "nat \<Rightarrow> 'z kbio_scheme \<Rightarrow> 'z kbio_scheme" where
  "binit_buf i s =
     (let s1 = upd_buf i (\<lambda>b. b\<lparr>b_next := bc_head_next s, b_prev := BHead, b_dev := - 1\<rparr>) s;
          s2 = set_bprev (bc_head_next s1) (BufP i) s1
      in s2\<lparr>bc_head_next := BufP i\<rparr>)"

definition binit :: "'z kbio_scheme \<Rightarrow> 'z kbio_scheme" where
  "binit s =
     (let s1 = initlock Lk_bcache s
      in fold binit_buf [0..<NBUF] (s1\<lparr>bc_head_prev := BHead, bc_head_next := BHead\<rparr>))"

text \<open>The two loops of \<open>bget\<close>, forward through \<open>next\<close> and backward through \<open>prev\<close>: the first
  buffer with the test. A list longer than the array of buffers cannot end.\<close>

fun bscan :: "nat \<Rightarrow> (nat \<Rightarrow> bref) \<Rightarrow> (nat \<Rightarrow> bool) \<Rightarrow> bref \<Rightarrow> 's \<Rightarrow> ('s, nat option) outcome" where
  "bscan fuel step test BHead s = Ok None s"
| "bscan 0 step test (BufP i) s = Diverge"
| "bscan (Suc fuel) step test (BufP i) s =
     (if test i then Ok (Some i) s else bscan fuel step test (step i) s)"

text \<open>\<open>sleep\<close> has no outcome \<open>Ok\<close>: a caller that sleeps is resumed by its own \<open>_resume\<close>
  continuation. \<open>blocked\<close> gives the outcome of sleeping the caller's result type.\<close>

definition blocked :: "('s, unit) outcome \<Rightarrow> ('s, 'a) outcome" where
  "blocked m = andthen m (\<lambda>_ _. Fault)"

definition bget_loop :: "uint \<Rightarrow> uint \<Rightarrow> 'z kbio_scheme \<Rightarrow> ('z kbio_scheme, nat) outcome" where
  "bget_loop dev sector s =
     andthen (bscan (NBUF + 1) (\<lambda>i. b_next (bc_buf s i))
                (\<lambda>i. b_dev (bc_buf s i) = dev \<and> b_sector (bc_buf s i) = sector) (bc_head_next s) s)
       (\<lambda>found s1. case found of
          Some i \<Rightarrow>
            if B_BUSY \<notin> b_flags (bc_buf s1 i)
            then andthen (release Lk_bcache (upd_buf i (\<lambda>b. b\<lparr>b_flags := insert B_BUSY (b_flags b)\<rparr>) s1))
                   (\<lambda>_ s2. Ok i s2)
            else blocked (sleep (Ch_buf i) (Some Lk_bcache) s1)
        | None \<Rightarrow>
            andthen (bscan (NBUF + 1) (\<lambda>i. b_prev (bc_buf s1 i))
                       (\<lambda>i. B_BUSY \<notin> b_flags (bc_buf s1 i) \<and> B_DIRTY \<notin> b_flags (bc_buf s1 i))
                       (bc_head_prev s1) s1)
              (\<lambda>victim s2. case victim of
                 Some i \<Rightarrow>
                   andthen (release Lk_bcache
                             (upd_buf i (\<lambda>b. b\<lparr>b_dev := dev, b_sector := sector, b_flags := {B_BUSY}\<rparr>) s2))
                     (\<lambda>_ s3. Ok i s3)
               | None \<Rightarrow> Panic ''bget: no buffers''))"

definition bget :: "uint \<Rightarrow> uint \<Rightarrow> 'z kbio_scheme \<Rightarrow> ('z kbio_scheme, nat) outcome" where
  "bget dev sector s = bget_loop dev sector (acquire Lk_bcache s)"

definition bget_resume :: "uint \<Rightarrow> uint \<Rightarrow> 'z kbio_scheme \<Rightarrow> ('z kbio_scheme, nat) outcome" where
  "bget_resume dev sector s = andthen (sleep_resume Lk_bcache s) (\<lambda>_ s1. bget_loop dev sector s1)"

definition bread :: "uint \<Rightarrow> uint \<Rightarrow> 'z kbio_scheme \<Rightarrow> ('z kbio_scheme, nat) outcome" where
  "bread dev sector s =
     andthen (bget dev sector s) (\<lambda>b s1.
       if B_VALID \<notin> b_flags (bc_buf s1 b) then andthen (iderw b s1) (\<lambda>_ s2. Ok b s2) else Ok b s1)"

definition bwrite :: "nat \<Rightarrow> 'z kbio_scheme \<Rightarrow> ('z kbio_scheme, unit) outcome" where
  "bwrite b s =
     (if B_BUSY \<notin> b_flags (bc_buf s b) then Panic ''bwrite''
      else iderw b (upd_buf b (\<lambda>x. x\<lparr>b_flags := insert B_DIRTY (b_flags x)\<rparr>) s))"

definition brelse :: "nat \<Rightarrow> 'z kbio_scheme \<Rightarrow> ('z kbio_scheme, unit) outcome" where
  "brelse b s =
     (if B_BUSY \<notin> b_flags (bc_buf s b) then Panic ''brelse''
      else (let s1 = acquire Lk_bcache s;
                s2 = set_bprev (b_next (bc_buf s1 b)) (b_prev (bc_buf s1 b)) s1;
                s3 = set_bnext (b_prev (bc_buf s2 b)) (b_next (bc_buf s2 b)) s2;
                s4 = upd_buf b (\<lambda>x. x\<lparr>b_next := bc_head_next s3, b_prev := BHead\<rparr>) s3;
                s5 = set_bprev (bc_head_next s4) (BufP b) s4;
                s6 = s5\<lparr>bc_head_next := BufP b\<rparr>;
                s7 = upd_buf b (\<lambda>x. x\<lparr>b_flags := b_flags x - {B_BUSY}\<rparr>) s6
            in andthen (wakeup (Ch_buf b) s7) (\<lambda>_ s8. release Lk_bcache s8)))"

text \<open>Writing through \<open>b->data\<close> by the owner of a busy buffer.\<close>

definition set_bdata :: "nat \<Rightarrow> bytes \<Rightarrow> 'z kbio_scheme \<Rightarrow> 'z kbio_scheme" where
  "set_bdata b d s = upd_buf b (\<lambda>x. x\<lparr>b_data := d\<rparr>) s"

section \<open>The list of buffers\<close>

lemma buf_fields [simp]:
  "b_next (bc_buf (set_bprev r v s) i) = b_next (bc_buf s i)"
  "b_prev (bc_buf (set_bprev r v s) i) = (if r = BufP i then v else b_prev (bc_buf s i))"
  "b_next (bc_buf (set_bnext r v s) i) = (if r = BufP i then v else b_next (bc_buf s i))"
  "b_prev (bc_buf (set_bnext r v s) i) = b_prev (bc_buf s i)"
  "bc_head_next (set_bprev r v s) = bc_head_next s"
  "bc_head_prev (set_bprev r v s) = (if r = BHead then v else bc_head_prev s)"
  "bc_head_next (set_bnext r v s) = (if r = BHead then v else bc_head_next s)"
  "bc_head_prev (set_bnext r v s) = bc_head_prev s"
  by (auto simp: set_bnext_def set_bprev_def upd_buf_def split: bref.splits)

lemma bc_buf_upd [simp]:
  "bc_buf (upd_buf i f s) j = (if j = i then f (bc_buf s i) else bc_buf s j)"
  "bc_head_next (upd_buf i f s) = bc_head_next s" "bc_head_prev (upd_buf i f s) = bc_head_prev s"
  by (simp_all add: upd_buf_def)

text \<open>\<open>lru xs s\<close>: the buffers in the order \<open>xs\<close>, most recently used first, form the list.\<close>

definition lru :: "nat list \<Rightarrow> 'z kbio_scheme \<Rightarrow> bool" where
  "lru xs s \<longleftrightarrow> distinct xs \<and> set xs = {..<NBUF}
     \<and> seg BufP (\<lambda>i. b_next (bc_buf s i)) (\<lambda>i. b_prev (bc_buf s i)) BHead (bc_head_next s) xs (bc_head_prev s) BHead"

lemma lru_length: "lru xs s \<Longrightarrow> length xs = NBUF"
  unfolding lru_def by (metis card_lessThan distinct_card)

lemma lru_cong:
  assumes "lru xs s" and "\<And>i. i < NBUF \<Longrightarrow> b_next (bc_buf t i) = b_next (bc_buf s i)"
    and "\<And>i. i < NBUF \<Longrightarrow> b_prev (bc_buf t i) = b_prev (bc_buf s i)"
    and "bc_head_next t = bc_head_next s" "bc_head_prev t = bc_head_prev s"
  shows "lru xs t"
proof -
  have "seg BufP (\<lambda>i. b_next (bc_buf t i)) (\<lambda>i. b_prev (bc_buf t i)) p x xs q y =
      seg BufP (\<lambda>i. b_next (bc_buf s i)) (\<lambda>i. b_prev (bc_buf s i)) p x xs q y" for p x q y
    using assms by (intro seg_cong) (auto simp: lru_def)
  with assms show ?thesis by (simp add: lru_def)
qed

lemma bscan_seg:
  "seg BufP nxt prv p x xs q BHead \<Longrightarrow> length xs < fuel \<Longrightarrow> bscan fuel nxt test x s = Ok (List.find test xs) s"
proof (induction xs arbitrary: p x fuel)
  case (Cons a xs)
  then show ?case by (cases fuel) auto
qed simp

lemma bscan_lru:
  assumes "lru xs s"
  shows "bscan (NBUF + 1) (\<lambda>i. b_next (bc_buf s i)) test (bc_head_next s) t = Ok (List.find test xs) t"
    and "bscan (NBUF + 1) (\<lambda>i. b_prev (bc_buf s i)) test (bc_head_prev s) t = Ok (List.find test (rev xs)) t"
proof -
  have sg: "seg BufP (\<lambda>i. b_next (bc_buf s i)) (\<lambda>i. b_prev (bc_buf s i)) BHead (bc_head_next s) xs (bc_head_prev s) BHead"
    using assms by (simp add: lru_def)
  show "bscan (NBUF + 1) (\<lambda>i. b_next (bc_buf s i)) test (bc_head_next s) t = Ok (List.find test xs) t"
    by (rule bscan_seg [OF sg]) (simp add: lru_length [OF assms])
  show "bscan (NBUF + 1) (\<lambda>i. b_prev (bc_buf s i)) test (bc_head_prev s) t = Ok (List.find test (rev xs)) t"
    by (rule bscan_seg [OF seg_rev [OF sg]]) (simp add: lru_length [OF assms])
qed

text \<open>The relinking of \<open>brelse\<close> moves a buffer to the front.\<close>

definition move_front :: "nat \<Rightarrow> 'z kbio_scheme \<Rightarrow> 'z kbio_scheme" where
  "move_front b s1 =
     (let s2 = set_bprev (b_next (bc_buf s1 b)) (b_prev (bc_buf s1 b)) s1;
          s3 = set_bnext (b_prev (bc_buf s2 b)) (b_next (bc_buf s2 b)) s2;
          s4 = upd_buf b (\<lambda>x. x\<lparr>b_next := bc_head_next s3, b_prev := BHead\<rparr>) s3;
          s5 = set_bprev (bc_head_next s4) (BufP b) s4
      in s5\<lparr>bc_head_next := BufP b\<rparr>)"

lemma seg_push_front:
  fixes s :: "'z kbio_scheme"
  assumes sg: "seg BufP (\<lambda>i. b_next (bc_buf s i)) (\<lambda>i. b_prev (bc_buf s i)) BHead (bc_head_next s) xs (bc_head_prev s) BHead"
    and d: "distinct xs" "b \<notin> set xs"
    and t: "t = (let s4 = upd_buf b (\<lambda>x. x\<lparr>b_next := bc_head_next s, b_prev := BHead\<rparr>) s
                 in (set_bprev (bc_head_next s4) (BufP b) s4)\<lparr>bc_head_next := BufP b\<rparr>)"
  shows "seg BufP (\<lambda>i. b_next (bc_buf t i)) (\<lambda>i. b_prev (bc_buf t i)) BHead (bc_head_next t) (b # xs) (bc_head_prev t) BHead"
proof -
  have hd: "bc_head_next s = (if xs = [] then BHead else BufP (hd xs))" by (rule seg_first [OF sg])
  have tl: "xs = [] \<Longrightarrow> bc_head_prev s = BHead" using sg by simp
  have "seg BufP (\<lambda>i. b_next (bc_buf t i)) (\<lambda>i. b_prev (bc_buf t i)) BHead (BufP b) (b # xs)
      (if xs = [] then BufP b else bc_head_prev s) BHead"
    by (rule seg_link_front [OF sg d(2,1)]) (use d hd in \<open>auto simp: t Let_def split: if_splits\<close>)
  moreover have "bc_head_next t = BufP b" "bc_head_prev t = (if xs = [] then BufP b else bc_head_prev s)"
    using hd tl by (auto simp: t Let_def)
  ultimately show ?thesis by simp
qed

lemma lru_move_front:
  assumes "lru (as @ b # bs) s"
  shows "lru (b # as @ bs) (move_front b s)"
proof -
  let ?nx = "\<lambda>s i. b_next (bc_buf s i)" and ?pv = "\<lambda>s i. b_prev (bc_buf s i)"
  from assms have sg: "seg BufP (?nx s) (?pv s) BHead (bc_head_next s) (as @ b # bs) (bc_head_prev s) BHead"
    and d: "distinct (as @ b # bs)" and st: "set (as @ b # bs) = {..<NBUF}" by (auto simp: lru_def)
  define s2 where "s2 = set_bprev (?nx s b) (?pv s b) s"
  define s3 where "s3 = set_bnext (?pv s2 b) (?nx s2 b) s2"
  have pv: "?pv s b = (if as = [] then BHead else BufP (last as))"
    and nx: "?nx s b = (if bs = [] then BHead else BufP (hd bs))" using seg_middle [OF sg] by auto
  have ne: "bs \<noteq> [] \<Longrightarrow> hd bs \<noteq> b" "as \<noteq> [] \<Longrightarrow> last as \<noteq> b" using d by (auto dest: hd_in_set last_in_set)
  have pv2: "?pv s2 b = ?pv s b" "?nx s2 b = ?nx s b" using nx ne by (auto simp: s2_def split: if_splits)
  have "seg BufP (?nx s3) (?pv s3) BHead (if as = [] then ?nx s b else bc_head_next s) (as @ bs)
      (if bs = [] then ?pv s b else bc_head_prev s) BHead"
    by (rule seg_unlink [OF sg d]) (auto simp: s3_def pv2 s2_def pv nx split: if_splits)
  moreover have "bc_head_next s3 = (if as = [] then ?nx s b else bc_head_next s)"
    "bc_head_prev s3 = (if bs = [] then ?pv s b else bc_head_prev s)"
    using pv nx by (auto simp: s3_def pv2) (auto simp: s2_def)
  ultimately have "seg BufP (?nx s3) (?pv s3) BHead (bc_head_next s3) (as @ bs) (bc_head_prev s3) BHead" by simp
  from seg_push_front [OF this, of b "move_front b s"] d st show ?thesis
    by (auto simp: lru_def move_front_def s2_def s3_def Let_def)
qed

end
