(* ===== verification/Bio_Cache.thy ===== *)
theory Bio_Cache
  imports Bio
begin

text \<open>
  What the buffer cache keeps: its invariant (the LRU list, one buffer per sector,
  coherence with the disk), the contents of a sector as the kernel sees them, and the
  effect of every operation on both.
\<close>

section \<open>Invariant and contents\<close>

text \<open>No sector is cached twice; a valid buffer nobody owns that is not marked dirty has the
  disk's contents; a dirty buffer nobody owns is valid.\<close>

definition bunique :: "'z kbio_scheme \<Rightarrow> bool" where
  "bunique s \<longleftrightarrow> (\<forall>i<NBUF. \<forall>j<NBUF. b_dev (bc_buf s i) \<noteq> - 1 \<longrightarrow> b_dev (bc_buf s i) = b_dev (bc_buf s j) \<longrightarrow>
     b_sector (bc_buf s i) = b_sector (bc_buf s j) \<longrightarrow> i = j)"

definition bcoherent :: "'z kbio_scheme \<Rightarrow> buf \<Rightarrow> bool" where
  "bcoherent s b \<longleftrightarrow>
     (B_VALID \<in> b_flags b \<and> B_DIRTY \<notin> b_flags b \<longrightarrow>
        b_dev b = 1 \<and> unat (b_sector b) < disksize s \<and> b_data b = memdisk s (unat (b_sector b)))
     \<and> (B_DIRTY \<in> b_flags b \<longrightarrow> B_VALID \<in> b_flags b)"

definition bio_inv :: "'z kbio_scheme \<Rightarrow> bool" where
  "bio_inv s \<longleftrightarrow> (\<exists>xs. lru xs s) \<and> disksize s \<le> 2 ^ 23 \<and> bunique s
     \<and> (\<forall>i<NBUF. B_BUSY \<notin> b_flags (bc_buf s i) \<longrightarrow> bcoherent s (bc_buf s i))"

text \<open>The contents of a sector as the kernel sees it: the cached data, or the disk's.\<close>

definition cached :: "nat \<Rightarrow> nat \<Rightarrow> 'z kbio_scheme \<Rightarrow> bool" where
  "cached n i s \<longleftrightarrow> i < NBUF \<and> b_dev (bc_buf s i) = 1 \<and> b_sector (bc_buf s i) = of_nat n"

definition blk :: "'z kbio_scheme \<Rightarrow> nat \<Rightarrow> bytes" where
  "blk s n = (case List.find (\<lambda>i. cached n i s \<and> B_VALID \<in> b_flags (bc_buf s i)) [0..<NBUF] of
     Some i \<Rightarrow> b_data (bc_buf s i) | None \<Rightarrow> memdisk s n)"

definition bframe :: "'z kbio_scheme \<Rightarrow> 'z kbio_scheme \<Rightarrow> bool" where
  "bframe s t \<longleftrightarrow> ncli t = ncli s \<and> irq t = irq s \<and> cproc t = cproc s \<and> disksize t = disksize s
     \<and> kbio.more t = kbio.more s"

lemma bframe_refl [simp]: "bframe s s" by (simp add: bframe_def)
lemma bframe_trans: "bframe s t \<Longrightarrow> bframe t u \<Longrightarrow> bframe s u" by (simp add: bframe_def)
lemma bframe_cpu_ok: "bframe s t \<Longrightarrow> cpu_ok s \<Longrightarrow> cpu_ok t" by (simp add: bframe_def cpu_ok_def)

lemma disk_index_of_nat [simp]: "n < 2 ^ 23 \<Longrightarrow> disk_index (of_nat n) = n"
proof -
  assume n: "n < 2 ^ 23"
  have "(of_nat n :: uint) * 512 = of_nat (n * 512)" by simp
  then show ?thesis using n unat_of_nat_uint [of "n * 512"] unfolding disk_index_def by (simp only:) simp
qed

lemma cached_unique:
  assumes "bunique s" "cached n i s" "cached n j s" shows "i = j"
proof -
  have "(1 :: uint) \<noteq> - 1" by simp
  with assms show ?thesis unfolding bunique_def cached_def by metis
qed

lemma find_unique:
  "x \<in> set xs \<Longrightarrow> P x \<Longrightarrow> (\<And>y. y \<in> set xs \<Longrightarrow> P y \<Longrightarrow> y = x) \<Longrightarrow> List.find P xs = Some x"
proof (induction xs)
  case (Cons a xs)
  show ?case
  proof (cases "P a")
    case True
    with Cons.prems(3) [of a] show ?thesis by simp
  next
    case False
    with Cons.prems(1,2) have "x \<in> set xs" by auto
    then have "List.find P xs = Some x"
      using Cons.prems(2) by (rule Cons.IH) (rule Cons.prems(3), simp_all)
    with False show ?thesis by simp
  qed
qed simp

lemma blk_cached:
  assumes "bunique s" "cached n i s" "B_VALID \<in> b_flags (bc_buf s i)"
  shows "blk s n = b_data (bc_buf s i)"
proof -
  have "List.find (\<lambda>i. cached n i s \<and> B_VALID \<in> b_flags (bc_buf s i)) [0..<NBUF] = Some i"
  proof (rule find_unique)
    show "i \<in> set [0..<NBUF]" using assms(2) by (simp add: cached_def)
    show "j = i" if "cached n j s \<and> B_VALID \<in> b_flags (bc_buf s j)" for j
      using that cached_unique [OF assms(1) _ assms(2)] by blast
  qed (use assms in simp)
  then show ?thesis by (simp add: blk_def)
qed

lemma blk_not_cached:
  assumes "\<And>i. cached n i s \<Longrightarrow> B_VALID \<notin> b_flags (bc_buf s i)"
  shows "blk s n = memdisk s n"
proof -
  have "List.find (\<lambda>i. cached n i s \<and> B_VALID \<in> b_flags (bc_buf s i)) [0..<NBUF] = None"
    using assms by (auto simp: find_None_iff)
  then show ?thesis by (simp add: blk_def)
qed

lemma blk_eqI:
  assumes "bunique s" "bunique t"
    and "\<And>i. cached n i t \<Longrightarrow> B_VALID \<in> b_flags (bc_buf t i) \<Longrightarrow> b_data (bc_buf t i) = d"
    and "(\<And>i. cached n i t \<Longrightarrow> B_VALID \<notin> b_flags (bc_buf t i)) \<Longrightarrow> memdisk t n = d"
  shows "blk t n = d"
proof (cases "\<exists>i. cached n i t \<and> B_VALID \<in> b_flags (bc_buf t i)")
  case True
  with blk_cached [OF assms(2)] assms(3) show ?thesis by blast
next
  case False
  with blk_not_cached [of n t] assms(4) show ?thesis by blast
qed

section \<open>The operations\<close>

lemma find_cached:
  assumes inv: "bio_inv s" and xs: "lru xs s" and i: "cached n i s"
  shows "List.find (\<lambda>j. b_dev (bc_buf (acquire lk s) j) = 1 \<and> b_sector (bc_buf (acquire lk s) j) = of_nat n) xs = Some i"
proof (rule find_unique)
  show "i \<in> set xs" using i xs by (simp add: cached_def lru_def)
  show "b_dev (bc_buf (acquire lk s) i) = 1 \<and> b_sector (bc_buf (acquire lk s) i) = of_nat n"
    using i by (simp add: cached_def lock_simps)
  fix j
  assume "j \<in> set xs" "b_dev (bc_buf (acquire lk s) j) = 1 \<and> b_sector (bc_buf (acquire lk s) j) = of_nat n"
  then have "cached n j s" using xs by (simp add: cached_def lru_def lock_simps)
  then show "j = i" using cached_unique [OF _ _ i] inv by (simp add: bio_inv_def)
qed

lemma bget_hit:
  assumes inv: "bio_inv s" "cpu_ok s" and i: "cached n i s" "B_BUSY \<notin> b_flags (bc_buf s i)"
  shows "bget 1 (of_nat n) s =
    Ok i (upd_buf i (\<lambda>b. b\<lparr>b_flags := insert B_BUSY (b_flags b)\<rparr>) (relock Lk_bcache s))"
proof -
  let ?s = "acquire Lk_bcache s"
  from inv obtain xs where xs: "lru xs s" by (auto simp: bio_inv_def)
  have l: "lru xs ?s" using xs by (rule lru_cong) (simp_all add: lock_simps)
  have f: "List.find (\<lambda>i. b_dev (bc_buf ?s i) = 1 \<and> b_sector (bc_buf ?s i) = of_nat n) xs = Some i"
    by (rule find_cached [OF inv(1) xs i(1)])
  show ?thesis
    using i inv(2) unfolding bget_def bget_loop_def bscan_lru [OF l] f andthen.simps option.case
    by (auto simp: lock_simps upd_buf_def relock_def cpu_ok_def)
qed

lemma bget_busy:
  assumes inv: "bio_inv s" and i: "cached n i s" "B_BUSY \<in> b_flags (bc_buf s i)"
  shows "bget 1 (of_nat n) s = blocked (sleep (Ch_buf i) (Some Lk_bcache) (acquire Lk_bcache s))"
proof -
  let ?s = "acquire Lk_bcache s"
  from inv obtain xs where xs: "lru xs s" by (auto simp: bio_inv_def)
  have l: "lru xs ?s" using xs by (rule lru_cong) (simp_all add: lock_simps)
  have f: "List.find (\<lambda>i. b_dev (bc_buf ?s i) = 1 \<and> b_sector (bc_buf ?s i) = of_nat n) xs = Some i"
    by (rule find_cached [OF inv xs i(1)])
  have "B_BUSY \<in> b_flags (bc_buf ?s i)" using i by (simp add: lock_simps)
  then show ?thesis
    unfolding bget_def bget_loop_def bscan_lru [OF l] f andthen.simps option.case by simp
qed

definition victim :: "'z kbio_scheme \<Rightarrow> nat \<Rightarrow> bool" where
  "victim s i \<longleftrightarrow> i < NBUF \<and> B_BUSY \<notin> b_flags (bc_buf s i) \<and> B_DIRTY \<notin> b_flags (bc_buf s i)"

text \<open>A miss recycles the least recently used buffer that is free and clean.\<close>

lemma bget_miss:
  assumes inv: "cpu_ok s" and xs: "lru xs s" and no: "\<And>i. \<not> cached n i s"
  shows "bget 1 (of_nat n) s = (case List.find (victim s) (rev xs) of
      Some i \<Rightarrow> Ok i (upd_buf i (\<lambda>b. b\<lparr>b_dev := 1, b_sector := of_nat n, b_flags := {B_BUSY}\<rparr>) (relock Lk_bcache s))
    | None \<Rightarrow> Panic ''bget: no buffers'')"
proof -
  let ?s = "acquire Lk_bcache s"
  have l: "lru xs ?s" using xs by (rule lru_cong) (simp_all add: lock_simps)
  have f: "List.find (\<lambda>i. b_dev (bc_buf ?s i) = 1 \<and> b_sector (bc_buf ?s i) = of_nat n) xs = None"
    using no xs by (auto simp: find_None_iff lock_simps cached_def lru_def)
  have v: "List.find (\<lambda>i. B_BUSY \<notin> b_flags (bc_buf ?s i) \<and> B_DIRTY \<notin> b_flags (bc_buf ?s i)) (rev xs) = List.find (victim s) (rev xs)"
    by (rule find_cong) (use xs in \<open>auto simp: lock_simps victim_def lru_def\<close>)
  show ?thesis
    using inv unfolding bget_def bget_loop_def bscan_lru [OF l] f andthen.simps option.case v
    by (cases "List.find (victim s) (rev xs)") (auto simp: lock_simps upd_buf_def relock_def cpu_ok_def)
qed
definition readable :: "nat \<Rightarrow> 'z kbio_scheme \<Rightarrow> bool" where
  "readable n s \<longleftrightarrow> (\<exists>i. cached n i s \<and> B_BUSY \<notin> b_flags (bc_buf s i)) \<or> ((\<forall>i. \<not> cached n i s) \<and> (\<exists>i. victim s i))"

text \<open>What \<open>bread\<close> of sector \<open>n\<close> does when it returns buffer \<open>i\<close>.\<close>

definition got :: "nat \<Rightarrow> nat \<Rightarrow> 'z kbio_scheme \<Rightarrow> 'z kbio_scheme \<Rightarrow> bool" where
  "got n i s t \<longleftrightarrow> i < NBUF \<and> B_BUSY \<notin> b_flags (bc_buf s i) \<and> cached n i t
     \<and> b_flags (bc_buf t i) = {B_BUSY, B_VALID} \<union> (b_flags (bc_buf s i) \<inter> {B_DIRTY})
     \<and> b_data (bc_buf t i) = blk s n \<and> (cached n i s \<or> B_DIRTY \<notin> b_flags (bc_buf s i))
     \<and> (\<forall>j. j \<noteq> i \<longrightarrow> bc_buf t j = bc_buf s j)
     \<and> memdisk t = memdisk s \<and> disk_writes t = disk_writes s \<and> ptable t = ptable s \<and> bframe s t
     \<and> (\<forall>xs. lru xs s \<longrightarrow> lru xs t)"

lemma of_nat_sector_inj: "n < 2 ^ 23 \<Longrightarrow> m < 2 ^ 23 \<Longrightarrow> (of_nat n :: uint) = of_nat m \<longleftrightarrow> n = m"
  by (intro of_nat_uint_inj) auto

lemma got_inv:
  assumes inv: "bio_inv s" and g: "got n i s t" and u: "\<And>j. j \<noteq> i \<Longrightarrow> \<not> cached n j s"
  shows "bio_inv t"
proof -
  have lru: "\<exists>xs. lru xs t" using inv g by (auto simp: bio_inv_def got_def)
  have dev: "b_dev (bc_buf t i) = 1" "b_sector (bc_buf t i) = of_nat n" "i < NBUF" using g by (auto simp: got_def cached_def)
  have oth: "bc_buf t j = bc_buf s j" if "j \<noteq> i" for j using g that by (auto simp: got_def)
  have "j = k" if "j < NBUF" "k < NBUF" "b_dev (bc_buf t j) \<noteq> - 1" "b_dev (bc_buf t j) = b_dev (bc_buf t k)"
    "b_sector (bc_buf t j) = b_sector (bc_buf t k)" for j k
  proof (cases "j = i \<or> k = i")
    case True
    then show ?thesis using that u oth dev unfolding cached_def by metis
  next
    case False
    then show ?thesis using that inv oth [of j] oth [of k] by (auto simp: bio_inv_def bunique_def)
  qed
  then have "bunique t" unfolding bunique_def by blast
  moreover have "bcoherent t (bc_buf t j)" if "j < NBUF" "B_BUSY \<notin> b_flags (bc_buf t j)" for j
  proof -
    have "j \<noteq> i" using that g by (auto simp: got_def)
    with oth [OF this] that inv g show ?thesis by (auto simp: bio_inv_def bcoherent_def got_def bframe_def)
  qed
  ultimately show ?thesis using lru inv g by (auto simp: bio_inv_def got_def bframe_def)
qed

lemma got_blk:
  assumes inv: "bio_inv s" and g: "got n i s t" and u: "\<And>j. j \<noteq> i \<Longrightarrow> \<not> cached n j s"
    and n: "n < disksize s" "m < disksize s"
  shows "blk t m = blk s m"
proof (rule blk_eqI)
  show bs: "bunique s" "bunique t" using inv got_inv [OF inv g u] by (auto simp: bio_inv_def)
  have nm: "n < 2 ^ 23" "m < 2 ^ 23" using n inv by (auto simp: bio_inv_def)
  have oth: "bc_buf t j = bc_buf s j" if "j \<noteq> i" for j using g that by (auto simp: got_def)
  have sec: "cached m i t \<Longrightarrow> m = n" using g of_nat_sector_inj nm by (auto simp: got_def cached_def)
  show "b_data (bc_buf t j) = blk s m" if "cached m j t" "B_VALID \<in> b_flags (bc_buf t j)" for j
  proof (cases "j = i")
    case True
    then show ?thesis using sec that g by (auto simp: got_def)
  next
    case False
    then have "cached m j s" "B_VALID \<in> b_flags (bc_buf s j)" using that oth [OF False] by (auto simp: cached_def)
    with blk_cached [OF bs(1)] oth [OF False] show ?thesis by simp
  qed
  assume none: "\<And>j. cached m j t \<Longrightarrow> B_VALID \<notin> b_flags (bc_buf t j)"
  have "m \<noteq> n" using none [of i] g by (auto simp: got_def)
  have "memdisk s m = blk s m"
  proof (cases "\<exists>j. cached m j s \<and> B_VALID \<in> b_flags (bc_buf s j)")
    case True
    then obtain j where j: "cached m j s" "B_VALID \<in> b_flags (bc_buf s j)" by blast
    have "j = i"
    proof (rule ccontr)
      assume "j \<noteq> i"
      with j none [of j] oth [of j] show False by (auto simp: cached_def)
    qed
    moreover have "\<not> cached n i s" using j \<open>j = i\<close> \<open>m \<noteq> n\<close> of_nat_sector_inj nm by (auto simp: cached_def)
    ultimately have "bcoherent s (bc_buf s i)" "B_DIRTY \<notin> b_flags (bc_buf s i)" using g inv by (auto simp: got_def bio_inv_def)
    with j \<open>j = i\<close> nm have "b_data (bc_buf s i) = memdisk s m" by (auto simp: bcoherent_def cached_def)
    with blk_cached [OF bs(1) j] \<open>j = i\<close> show ?thesis by simp
  next
    case False
    with blk_not_cached [of m s] show ?thesis by auto
  qed
  then show "memdisk t m = blk s m" using g by (simp add: got_def)
qed

lemma bflag_setI:
  "(B_BUSY \<in> A \<longleftrightarrow> B_BUSY \<in> B) \<Longrightarrow> (B_VALID \<in> A \<longleftrightarrow> B_VALID \<in> B) \<Longrightarrow> (B_DIRTY \<in> A \<longleftrightarrow> B_DIRTY \<in> B) \<Longrightarrow> A = B"
  by (rule set_eqI) (metis bflag.exhaust)

lemma bio_fields [simp]:
  "memdisk (upd_buf i f s) = memdisk s" "disk_writes (upd_buf i f s) = disk_writes s"
  "disksize (upd_buf i f s) = disksize s" "ptable (upd_buf i f s) = ptable s"
  "bframe s0 (upd_buf i f s) = bframe s0 s"
  "bc_buf (relock lk s) = bc_buf s" "memdisk (relock lk s) = memdisk s" "disk_writes (relock lk s) = disk_writes s"
  "disksize (relock lk s) = disksize s" "bframe s0 (relock lk s) = bframe s0 s"
  "bc_head_next (relock lk s) = bc_head_next s" "bc_head_prev (relock lk s) = bc_head_prev s"
  by (auto simp: upd_buf_def relock_def bframe_def)

lemma iderw_read:
  assumes "B_BUSY \<in> b_flags (bc_buf s i)" "B_VALID \<notin> b_flags (bc_buf s i)" "B_DIRTY \<notin> b_flags (bc_buf s i)"
    and "b_dev (bc_buf s i) = 1" "b_sector (bc_buf s i) = of_nat n" "n < disksize s" "disksize s \<le> 2 ^ 23"
  shows "iderw i s = Ok () (upd_buf i (\<lambda>b. b\<lparr>b_data := memdisk s n, b_flags := insert B_VALID (b_flags b)\<rparr>) s)"
proof -
  have "unat (b_sector (bc_buf s i)) = n" "disk_index (b_sector (bc_buf s i)) = n"
    using assms(5-7) unat_of_nat_uint [of n] by auto
  then show ?thesis using assms(1-4,6) by (simp add: iderw_def upd_buf_def Let_def)
qed

lemma upd_buf_upd_buf: "upd_buf i f (upd_buf i g s) = upd_buf i (\<lambda>b. f (g b)) s"
  by (simp add: upd_buf_def)

lemma upd_buf_eqI: "f (bc_buf s i) = g (bc_buf s i) \<Longrightarrow> upd_buf i f s = upd_buf i g s"
  by (simp add: upd_buf_def)

lemma bread_hit:
  assumes inv: "bio_inv s" "cpu_ok s" and n: "n < disksize s" and i: "cached n i s" "B_BUSY \<notin> b_flags (bc_buf s i)"
  shows "bread 1 (of_nat n) s = Ok i (upd_buf i (\<lambda>b. b\<lparr>b_flags := {B_BUSY, B_VALID} \<union> (b_flags b \<inter> {B_DIRTY}),
      b_data := blk s n\<rparr>) (relock Lk_bcache s))"
proof -
  let ?b = "bc_buf s i"
  have n23: "n < 2 ^ 23" using n inv(1) by (simp add: bio_inv_def)
  have u: "bunique s" using inv(1) by (simp add: bio_inv_def)
  have coh: "bcoherent s ?b" using inv(1) i by (auto simp: bio_inv_def cached_def)
  show ?thesis
  proof (cases "B_VALID \<in> b_flags ?b")
    case True
    have "insert B_BUSY (b_flags ?b) = {B_BUSY, B_VALID} \<union> (b_flags ?b \<inter> {B_DIRTY})"
      using True by (intro bflag_setI) auto
    moreover have "blk s n = b_data ?b" by (rule blk_cached [OF u i(1) True])
    ultimately show ?thesis
      using True unfolding bread_def bget_hit [OF inv i] by (simp add: upd_buf_def)
  next
    case False
    then have "B_DIRTY \<notin> b_flags ?b" using coh by (auto simp: bcoherent_def)
    moreover from this False i(2) have "b_flags ?b = {}" by (intro bflag_setI) auto
    moreover have "blk s n = memdisk s n"
    proof (rule blk_not_cached)
      show "B_VALID \<notin> b_flags (bc_buf s j)" if "cached n j s" for j
        using cached_unique [OF u i(1) that] False by blast
    qed
    moreover have dev: "b_dev ?b = 1" "b_sector ?b = of_nat n" using i(1) by (simp_all add: cached_def)
    let ?s = "upd_buf i (\<lambda>b. b\<lparr>b_flags := insert B_BUSY (b_flags b)\<rparr>) (relock Lk_bcache s)"
    have "iderw i ?s = Ok () (upd_buf i (\<lambda>b. b\<lparr>b_data := memdisk s n, b_flags := insert B_VALID (b_flags b)\<rparr>) ?s)"
      using iderw_read [of ?s i n] \<open>b_flags ?b = {}\<close> dev n inv(1) by (simp add: bio_inv_def)
    ultimately have "bread 1 (of_nat n) s =
        Ok i (upd_buf i (\<lambda>b. b\<lparr>b_data := memdisk s n, b_flags := insert B_VALID (b_flags b)\<rparr>) ?s)"
      unfolding bread_def bget_hit [OF inv i] andthen.simps by simp
    also have "\<dots> = Ok i (upd_buf i (\<lambda>b. b\<lparr>b_flags := {B_BUSY, B_VALID} \<union> (b_flags b \<inter> {B_DIRTY}),
        b_data := blk s n\<rparr>) (relock Lk_bcache s))"
      unfolding upd_buf_upd_buf outcome.inject
      by (rule conjI [OF refl upd_buf_eqI])
        (simp add: \<open>b_flags ?b = {}\<close> \<open>blk s n = memdisk s n\<close> insert_commute)
    finally show ?thesis .
  qed
qed

lemma bread_miss:
  assumes "cpu_ok s" "disksize s \<le> 2 ^ 23" "n < disksize s" "lru xs s" "\<And>j. \<not> cached n j s"
    and "List.find (victim s) (rev xs) = Some i"
  shows "bread 1 (of_nat n) s = Ok i (upd_buf i (\<lambda>b. b\<lparr>b_dev := 1, b_sector := of_nat n,
      b_data := blk s n, b_flags := {B_BUSY, B_VALID} \<union> (b_flags b \<inter> {B_DIRTY})\<rparr>) (relock Lk_bcache s))"
proof -
  have "victim s i" using assms(6) by (auto simp: find_Some_iff)
  then have "b_flags (bc_buf s i) \<inter> {B_DIRTY} = {}" by (auto simp: victim_def)
  moreover have "blk s n = memdisk s n" using assms(5) by (intro blk_not_cached) blast
  ultimately show ?thesis
    using assms(2,3) unfolding bread_def bget_miss [OF assms(1,4,5)] assms(6)
    by (simp add: iderw_def Let_def upd_buf_def insert_commute)
qed

lemma gotI:
  assumes "i < NBUF" "B_BUSY \<notin> b_flags (bc_buf s i)" "cached n i s \<or> B_DIRTY \<notin> b_flags (bc_buf s i)"
    and f: "f (bc_buf s i) = (bc_buf s i)\<lparr>b_dev := 1, b_sector := of_nat n,
      b_data := blk s n, b_flags := {B_BUSY, B_VALID} \<union> (b_flags (bc_buf s i) \<inter> {B_DIRTY})\<rparr>"
  shows "got n i s (upd_buf i f (relock Lk_bcache s))"
proof -
  let ?t = "upd_buf i f (relock Lk_bcache s)"
  have "lru xs ?t" if "lru xs s" for xs using that by (rule lru_cong) (simp_all add: f)
  moreover have "cached n i ?t" using assms(1) by (simp add: cached_def f)
  moreover have "b_flags (bc_buf ?t i) = {B_BUSY, B_VALID} \<union> (b_flags (bc_buf s i) \<inter> {B_DIRTY})"
    "b_data (bc_buf ?t i) = blk s n" by (simp_all add: f)
  ultimately show ?thesis using assms(1-3) unfolding got_def by (simp del: buf.simps)
qed

lemma bread_spec:
  assumes inv: "bio_inv s" "cpu_ok s" and n: "n < disksize s" and r: "readable n s"
  shows "\<exists>i t. bread 1 (of_nat n) s = Ok i t \<and> got n i s t \<and> bio_inv t \<and> (\<forall>m<disksize s. blk t m = blk s m)"
proof -
  have "\<exists>i t. bread 1 (of_nat n) s = Ok i t \<and> got n i s t \<and> (\<forall>j. j \<noteq> i \<longrightarrow> \<not> cached n j s)"
  proof (cases "\<exists>i. cached n i s")
    case True
    with r obtain i where i: "cached n i s" "B_BUSY \<notin> b_flags (bc_buf s i)"
      unfolding readable_def by blast
    have "\<not> cached n j s" if "j \<noteq> i" for j using that cached_unique [OF _ i(1), of j] inv(1) by (auto simp: bio_inv_def)
    moreover have "got n i s (upd_buf i (\<lambda>b. b\<lparr>b_flags := {B_BUSY, B_VALID} \<union> (b_flags b \<inter> {B_DIRTY}),
      b_data := blk s n\<rparr>) (relock Lk_bcache s))"
      using i by (intro gotI) (auto simp: cached_def)
    ultimately show ?thesis using bread_hit [OF inv n i] by blast
  next
    case False
    from inv(1) obtain xs where xs: "lru xs s" "disksize s \<le> 2 ^ 23" by (auto simp: bio_inv_def)
    from False r obtain j where "victim s j" "j \<in> set xs" using xs by (auto simp: readable_def victim_def lru_def)
    then have "List.find (victim s) (rev xs) \<noteq> None" by (auto simp: find_None_iff)
    then obtain i where i: "List.find (victim s) (rev xs) = Some i" by auto
    then have v: "victim s i" by (auto simp: find_Some_iff)
    have "got n i s (upd_buf i (\<lambda>b. b\<lparr>b_dev := 1, b_sector := of_nat n,
      b_data := blk s n, b_flags := {B_BUSY, B_VALID} \<union> (b_flags b \<inter> {B_DIRTY})\<rparr>) (relock Lk_bcache s))"
      using v by (intro gotI) (auto simp: victim_def)
    with bread_miss [OF inv(2) xs(2) n xs(1) _ i] False show ?thesis by blast
  qed
  then show ?thesis using got_inv [OF inv(1)] got_blk [OF inv(1)] n by metis
qed

lemma iderw_write:
  assumes "B_BUSY \<in> b_flags (bc_buf s i)" "B_DIRTY \<in> b_flags (bc_buf s i)"
    and "b_dev (bc_buf s i) = 1" "b_sector (bc_buf s i) = of_nat n" "n < disksize s" "disksize s \<le> 2 ^ 23"
  shows "iderw i s = Ok () ((upd_buf i (\<lambda>b. b\<lparr>b_flags := insert B_VALID (b_flags b - {B_DIRTY})\<rparr>) s)
    \<lparr>memdisk := (memdisk s)(n := b_data (bc_buf s i)), disk_writes := (n, b_data (bc_buf s i)) # disk_writes s\<rparr>)"
proof -
  have "unat (b_sector (bc_buf s i)) = n" "disk_index (b_sector (bc_buf s i)) = n"
    using assms(4-6) unat_of_nat_uint [of n] by auto
  then show ?thesis using assms(1-3,5) by (simp add: iderw_def upd_buf_def Let_def)
qed

text \<open>What \<open>bwrite\<close> of a busy buffer of sector \<open>n\<close> does.\<close>

definition wrote :: "nat \<Rightarrow> nat \<Rightarrow> 'z kbio_scheme \<Rightarrow> 'z kbio_scheme \<Rightarrow> bool" where
  "wrote n i s t \<longleftrightarrow> t = (upd_buf i (\<lambda>b. b\<lparr>b_flags := {B_BUSY, B_VALID}\<rparr>) s)
     \<lparr>memdisk := (memdisk s)(n := b_data (bc_buf s i)), disk_writes := (n, b_data (bc_buf s i)) # disk_writes s\<rparr>"

lemma bwrite_spec:
  assumes "cached n i s" "B_BUSY \<in> b_flags (bc_buf s i)" "n < disksize s" "disksize s \<le> 2 ^ 23"
  shows "\<exists>t. bwrite i s = Ok () t \<and> wrote n i s t"
proof -
  let ?s = "upd_buf i (\<lambda>x. x\<lparr>b_flags := insert B_DIRTY (b_flags x)\<rparr>) s"
  have "insert B_VALID (insert B_DIRTY (b_flags (bc_buf s i)) - {B_DIRTY}) = {B_BUSY, B_VALID}"
    using assms(2) by (intro bflag_setI) auto
  then have "wrote n i s ((upd_buf i (\<lambda>b. b\<lparr>b_flags := insert B_VALID (b_flags b - {B_DIRTY})\<rparr>) ?s)
    \<lparr>memdisk := (memdisk ?s)(n := b_data (bc_buf ?s i)), disk_writes := (n, b_data (bc_buf ?s i)) # disk_writes ?s\<rparr>)"
    unfolding wrote_def upd_buf_upd_buf by (simp add: upd_buf_def)
  with assms iderw_write [of ?s i n] show ?thesis
    by (simp add: bwrite_def cached_def)
qed

lemma wrote_inv:
  assumes "bio_inv s" "cached n i s" "B_BUSY \<in> b_flags (bc_buf s i)" "n < disksize s" "wrote n i s t"
  shows "bio_inv t" "cached n i t" "bframe s t" "memdisk t = (memdisk s)(n := b_data (bc_buf s i))"
    "disk_writes t = (n, b_data (bc_buf s i)) # disk_writes s" "ptable t = ptable s"
    "b_flags (bc_buf t i) = {B_BUSY, B_VALID}" "b_data (bc_buf t i) = b_data (bc_buf s i)"
    "j \<noteq> i \<Longrightarrow> bc_buf t j = bc_buf s j"
proof -
  have t: "t = (upd_buf i (\<lambda>b. b\<lparr>b_flags := {B_BUSY, B_VALID}\<rparr>) s)
     \<lparr>memdisk := (memdisk s)(n := b_data (bc_buf s i)), disk_writes := (n, b_data (bc_buf s i)) # disk_writes s\<rparr>"
    using assms(5) by (simp add: wrote_def)
  show "cached n i t" using assms(2) by (simp add: t cached_def)
  show "bframe s t" by (simp add: t bframe_def upd_buf_def)
  show "memdisk t = (memdisk s)(n := b_data (bc_buf s i))"
    "disk_writes t = (n, b_data (bc_buf s i)) # disk_writes s" "ptable t = ptable s"
    "b_flags (bc_buf t i) = {B_BUSY, B_VALID}" "b_data (bc_buf t i) = b_data (bc_buf s i)"
    by (simp_all add: t)
  show "j \<noteq> i \<Longrightarrow> bc_buf t j = bc_buf s j" by (simp add: t)
  have "\<exists>xs. lru xs t"
  proof -
    from assms(1) obtain xs where "lru xs s" by (auto simp: bio_inv_def)
    then have "lru xs t" by (rule lru_cong) (simp_all add: t)
    then show ?thesis by blast
  qed
  moreover have "bunique t"
  proof -
    have "b_dev (bc_buf t j) = b_dev (bc_buf s j)" "b_sector (bc_buf t j) = b_sector (bc_buf s j)" for j
      by (simp_all add: t)
    then show ?thesis using assms(1) by (simp add: bio_inv_def bunique_def)
  qed
  moreover have "bcoherent t (bc_buf t j)" if "j < NBUF" "B_BUSY \<notin> b_flags (bc_buf t j)" for j
  proof -
    have ji: "j \<noteq> i" using that by (auto simp: t)
    then have b: "bc_buf t j = bc_buf s j" by (simp add: t)
    have c: "bcoherent s (bc_buf s j)" using that b assms(1) by (auto simp: bio_inv_def)
    have "unat (b_sector (bc_buf s j)) \<noteq> n" if "b_dev (bc_buf s j) = 1"
    proof
      assume "unat (b_sector (bc_buf s j)) = n"
      then have "b_sector (bc_buf s j) = of_nat n" by (metis of_nat_unat ucast_id)
      with that \<open>j < NBUF\<close> have "cached n j s" by (simp add: cached_def)
      with cached_unique [OF _ assms(2)] assms(1) ji show False by (auto simp: bio_inv_def)
    qed
    with c show ?thesis unfolding b by (auto simp: bcoherent_def t)
  qed
  ultimately show "bio_inv t" using assms(1) by (simp add: bio_inv_def) (simp add: t)
qed

lemma wrote_blk:
  assumes "bio_inv s" "cached n i s" "B_BUSY \<in> b_flags (bc_buf s i)" "n < disksize s" "m < disksize s" "wrote n i s t"
  shows "blk t m = (if m = n then b_data (bc_buf s i) else blk s m)"
proof (rule blk_eqI)
  note w = wrote_inv [OF assms(1-4,6)]
  show u: "bunique s" "bunique t" using assms(1) w(1) by (auto simp: bio_inv_def)
  have nm: "n < 2 ^ 23" "m < 2 ^ 23" using assms(1,4,5) by (auto simp: bio_inv_def)
  have i: "cached m i t \<longleftrightarrow> m = n" "cached m i s \<longleftrightarrow> m = n"
    using assms(2) w(2) of_nat_sector_inj nm by (auto simp: cached_def)
  have oth: "bc_buf t j = bc_buf s j" if "j \<noteq> i" for j using w(9) that by blast
  show "b_data (bc_buf t j) = (if m = n then b_data (bc_buf s i) else blk s m)"
    if j: "cached m j t" "B_VALID \<in> b_flags (bc_buf t j)" for j
  proof (cases "m = n")
    case True
    with j w(2) have "j = i" using cached_unique [OF u(2)] by blast
    with True w(8) show ?thesis by simp
  next
    case False
    with i j have "j \<noteq> i" by auto
    with oth [OF this] j have "cached m j s" "B_VALID \<in> b_flags (bc_buf s j)" by (auto simp: cached_def)
    with blk_cached [OF u(1)] oth [OF \<open>j \<noteq> i\<close>] False show ?thesis by simp
  qed
  assume none: "\<And>j. cached m j t \<Longrightarrow> B_VALID \<notin> b_flags (bc_buf t j)"
  have "m \<noteq> n" using none [of i] w(2,7) by auto
  have "B_VALID \<notin> b_flags (bc_buf s j)" if "cached m j s" for j
  proof -
    have "j \<noteq> i" using that i \<open>m \<noteq> n\<close> by auto
    with none [of j] oth [of j] that show ?thesis by (auto simp: cached_def)
  qed
  then have "blk s m = memdisk s m" by (rule blk_not_cached)
  with \<open>m \<noteq> n\<close> w(4) show "memdisk t m = (if m = n then b_data (bc_buf s i) else blk s m)" by simp
qed

text \<open>What \<open>brelse\<close> does: only the flag, the list and the sleepers on the buffer change.\<close>

definition same_buf :: "buf \<Rightarrow> buf \<Rightarrow> bool" where
  "same_buf b c \<longleftrightarrow> b_flags b = b_flags c \<and> b_dev b = b_dev c \<and> b_sector b = b_sector c \<and> b_data b = b_data c"

definition same_cache :: "'z kbio_scheme \<Rightarrow> 'z kbio_scheme \<Rightarrow> bool" where
  "same_cache s t \<longleftrightarrow> t\<lparr>bc_buf := bc_buf s, bc_head_prev := bc_head_prev s, bc_head_next := bc_head_next s\<rparr> = s
     \<and> (\<forall>j. same_buf (bc_buf t j) (bc_buf s j))"

lemma same_cache_intros:
  "same_cache s s"
  "same_cache s t \<Longrightarrow> same_cache s (set_bprev r v t)"
  "same_cache s t \<Longrightarrow> same_cache s (set_bnext r v t)"
  "same_cache s t \<Longrightarrow> same_cache s (upd_buf i (\<lambda>b. b\<lparr>b_next := x, b_prev := y\<rparr>) t)"
  "same_cache s t \<Longrightarrow> same_cache s (t\<lparr>bc_head_next := z\<rparr>)"
  by (cases s, cases t, auto simp: same_cache_def same_buf_def set_bprev_def set_bnext_def upd_buf_def split: bref.splits)+

lemma same_cache_move_front: "same_cache s (move_front b s)"
  unfolding move_front_def Let_def by (intro same_cache_intros)

lemma same_cache_fields:
  assumes "same_cache s t"
  shows "ncli t = ncli s" "irq t = irq s" "intena t = intena s" "locked t = locked s" "ptable t = ptable s"
    "cproc t = cproc s" "disksize t = disksize s" "memdisk t = memdisk s" "disk_writes t = disk_writes s"
    "kbio.more t = kbio.more s" "same_buf (bc_buf t j) (bc_buf s j)"
  using assms unfolding same_cache_def by (cases s, cases t, simp)+

definition released :: "nat \<Rightarrow> 'z kbio_scheme \<Rightarrow> 'z kbio_scheme \<Rightarrow> bool" where
  "released i s t \<longleftrightarrow> (\<forall>j. same_buf (bc_buf t j)
       (if j = i then (bc_buf s i)\<lparr>b_flags := b_flags (bc_buf s i) - {B_BUSY}\<rparr> else bc_buf s j))
     \<and> memdisk t = memdisk s \<and> disk_writes t = disk_writes s \<and> bframe s t
     \<and> ptable t = wake (Some (Ch_buf i)) (ptable s)
     \<and> (\<forall>as bs. lru (as @ i # bs) s \<longrightarrow> lru (i # as @ bs) t)"

lemma brelse_spec:
  assumes "cpu_ok s" "B_BUSY \<in> b_flags (bc_buf s i)"
  shows "\<exists>t. brelse i s = Ok () t \<and> released i s t"
proof -
  let ?s1 = "acquire Lk_bcache s"
  define u where "u = upd_buf i (\<lambda>x. x\<lparr>b_flags := b_flags x - {B_BUSY}\<rparr>) (move_front i ?s1)"
  note f = same_cache_fields [OF same_cache_move_front [of ?s1 i]]
  have u: "ncli u = ncli s + 1" "\<not> irq u" "ptable u = ptable s" "cproc u = cproc s" "disksize u = disksize s"
    "memdisk u = memdisk s" "disk_writes u = disk_writes s" "kbio.more u = kbio.more s"
    "intena u = (if ncli s = 0 then irq s else intena s)"
    using f by (simp_all add: u_def upd_buf_def lock_simps)
  have "cpu_ok u" using u assms(1) by (auto simp: cpu_ok_def)
  have eq: "brelse i s = andthen (wakeup (Ch_buf i) u) (\<lambda>_ s8. release Lk_bcache s8)"
    using assms(2) by (simp add: brelse_def move_front_def u_def Let_def)
  let ?t = "u\<lparr>ncli := ncli s, irq := irq s, locked := (locked u)(Lk_ptable := False, Lk_bcache := False),
    intena := (if ncli s = 0 then irq s else intena s), ptable := wake (Some (Ch_buf i)) (ptable s)\<rparr>"
  have "brelse i s = Ok () ?t"
    using u assms(1) unfolding eq wakeup_update [OF \<open>cpu_ok u\<close>] by (auto simp: lock_simps cpu_ok_def)
  moreover have "lru (i # as @ bs) ?t" if "lru (as @ i # bs) s" for as bs
  proof -
    have "lru (as @ i # bs) ?s1" using that by (rule lru_cong) (simp_all add: lock_simps)
    from lru_move_front [OF this] show ?thesis by (rule lru_cong) (simp_all add: u_def)
  qed
  moreover have "same_buf (bc_buf ?t j) (if j = i then (bc_buf s i)\<lparr>b_flags := b_flags (bc_buf s i) - {B_BUSY}\<rparr> else bc_buf s j)" for j
    using f(11) by (auto simp: u_def same_buf_def lock_simps)
  ultimately show ?thesis using u by (auto simp: released_def bframe_def)
qed

lemma released_fields:
  assumes "released i s t"
  shows "b_dev (bc_buf t j) = b_dev (bc_buf s j)" "b_sector (bc_buf t j) = b_sector (bc_buf s j)"
    "b_data (bc_buf t j) = b_data (bc_buf s j)"
    "b_flags (bc_buf t j) = (if j = i then b_flags (bc_buf s i) - {B_BUSY} else b_flags (bc_buf s j))"
    "memdisk t = memdisk s" "disk_writes t = disk_writes s" "bframe s t"
proof -
  have "same_buf (bc_buf t j) (if j = i then (bc_buf s i)\<lparr>b_flags := b_flags (bc_buf s i) - {B_BUSY}\<rparr> else bc_buf s j)"
    using assms by (simp add: released_def)
  then show "b_dev (bc_buf t j) = b_dev (bc_buf s j)" "b_sector (bc_buf t j) = b_sector (bc_buf s j)"
    "b_data (bc_buf t j) = b_data (bc_buf s j)"
    "b_flags (bc_buf t j) = (if j = i then b_flags (bc_buf s i) - {B_BUSY} else b_flags (bc_buf s j))"
    by (auto simp: same_buf_def split: if_splits)
qed (use assms in \<open>auto simp: released_def\<close>)

lemma released_inv:
  assumes "bio_inv s" "i < NBUF" "bcoherent s (bc_buf s i)" "released i s t"
  shows "bio_inv t"
proof -
  note f = released_fields [OF assms(4)]
  from assms(1) obtain xs where xs: "lru xs s" by (auto simp: bio_inv_def)
  with assms(2) have "i \<in> set xs" by (auto simp: lru_def)
  then obtain as bs where "xs = as @ i # bs" by (auto dest: split_list)
  with xs assms(4) have "lru (i # as @ bs) t" by (auto simp: released_def)
  moreover have "bunique t" using assms(1) by (simp add: bio_inv_def bunique_def f)
  moreover have "bcoherent t (bc_buf t j)" if "j < NBUF" "B_BUSY \<notin> b_flags (bc_buf t j)" for j
    using that assms(1,3) f(7) by (auto simp: bio_inv_def bcoherent_def f bframe_def split: if_splits)
  moreover have "disksize t \<le> 2 ^ 23" using assms(1) f(7) by (simp add: bio_inv_def bframe_def)
  ultimately show ?thesis unfolding bio_inv_def by blast
qed

lemma released_blk: "released i s t \<Longrightarrow> blk t n = blk s n"
proof -
  assume r: "released i s t"
  note f = released_fields [OF r]
  have "B_VALID \<in> b_flags (bc_buf t j) \<longleftrightarrow> B_VALID \<in> b_flags (bc_buf s j)" for j by (simp add: f)
  then show ?thesis by (simp add: blk_def cached_def f split: option.split)
qed

text \<open>The owner of a busy buffer changes its data.\<close>

lemma set_bdata_fields [simp]:
  "bc_buf (set_bdata i d s) j = (if j = i then (bc_buf s i)\<lparr>b_data := d\<rparr> else bc_buf s j)"
  "memdisk (set_bdata i d s) = memdisk s" "disk_writes (set_bdata i d s) = disk_writes s"
  "disksize (set_bdata i d s) = disksize s" "bframe s0 (set_bdata i d s) = bframe s0 s"
  "cached n j (set_bdata i d s) = cached n j s" "ptable (set_bdata i d s) = ptable s"
  by (auto simp: set_bdata_def cached_def)

lemma bunique_cong:
  assumes "\<And>j. b_dev (bc_buf t j) = b_dev (bc_buf s j)" "\<And>j. b_sector (bc_buf t j) = b_sector (bc_buf s j)"
  shows "bunique t = bunique s"
  unfolding bunique_def by (simp only: assms)

lemma set_bdata_inv:
  assumes "bio_inv s" "B_BUSY \<in> b_flags (bc_buf s i)"
  shows "bio_inv (set_bdata i d s)"
proof -
  let ?t = "set_bdata i d s"
  from assms(1) obtain xs where "lru xs s" by (auto simp: bio_inv_def)
  then have "lru xs ?t" by (rule lru_cong) (simp_all add: set_bdata_def)
  moreover have "bunique ?t = bunique s" by (rule bunique_cong) (simp_all add: set_bdata_def)
  then have "bunique ?t" using assms(1) by (simp add: bio_inv_def)
  moreover have "bcoherent ?t (bc_buf ?t j)" if "j < NBUF" "B_BUSY \<notin> b_flags (bc_buf ?t j)" for j
  proof -
    have "j \<noteq> i" using that assms(2) by auto
    with that have "bcoherent s (bc_buf s j)" using assms(1) by (simp add: bio_inv_def)
    with \<open>j \<noteq> i\<close> show ?thesis by (simp add: bcoherent_def)
  qed
  ultimately show ?thesis using assms(1) unfolding bio_inv_def set_bdata_fields(4) by blast
qed

lemma set_bdata_blk:
  assumes inv: "bio_inv s" and i: "cached n i s" "B_BUSY \<in> b_flags (bc_buf s i)" "B_VALID \<in> b_flags (bc_buf s i)"
    and "n < disksize s" "m < disksize s"
  shows "blk (set_bdata i d s) m = (if m = n then d else blk s m)"
proof (rule blk_eqI)
  let ?t = "set_bdata i d s"
  show u: "bunique s" "bunique ?t" using inv set_bdata_inv [OF inv i(2)] by (auto simp: bio_inv_def)
  have nm: "n < 2 ^ 23" "m < 2 ^ 23" using assms by (auto simp: bio_inv_def)
  have i': "cached m i s \<longleftrightarrow> m = n" using i(1) of_nat_sector_inj nm by (auto simp: cached_def)
  show "b_data (bc_buf ?t j) = (if m = n then d else blk s m)"
    if j: "cached m j ?t" "B_VALID \<in> b_flags (bc_buf ?t j)" for j
  proof (cases "j = i")
    case True
    with j i' show ?thesis by simp
  next
    case False
    with j have j': "cached m j s" "B_VALID \<in> b_flags (bc_buf s j)" by simp_all
    then have "m \<noteq> n" using cached_unique [OF u(1) i(1), of j] False by blast
    with False blk_cached [OF u(1) j'] show ?thesis by simp
  qed
  assume none: "\<And>j. cached m j ?t \<Longrightarrow> B_VALID \<notin> b_flags (bc_buf ?t j)"
  have "m \<noteq> n" using none [of i] i by auto
  moreover have "blk s m = memdisk s m"
  proof (rule blk_not_cached)
    show "B_VALID \<notin> b_flags (bc_buf s j)" if "cached m j s" for j
      using none [of j] that i' \<open>m \<noteq> n\<close> by (cases "j = i") simp_all
  qed
  ultimately show "memdisk ?t m = (if m = n then d else blk s m)" by simp
qed

section \<open>Initialisation\<close>

text \<open>After \<open>k\<close> rounds of the loop of \<open>binit\<close> the first \<open>k\<close> buffers are linked.\<close>

definition binit_ok :: "nat \<Rightarrow> 'z kbio_scheme \<Rightarrow> 'z kbio_scheme \<Rightarrow> bool" where
  "binit_ok k s t \<longleftrightarrow>
     seg BufP (\<lambda>i. b_next (bc_buf t i)) (\<lambda>i. b_prev (bc_buf t i)) BHead (bc_head_next t) (rev [0..<k]) (bc_head_prev t) BHead
     \<and> (\<forall>i. b_dev (bc_buf t i) = (if i < k then - 1 else b_dev (bc_buf s i)) \<and> b_flags (bc_buf t i) = b_flags (bc_buf s i))
     \<and> memdisk t = memdisk s \<and> bframe s t"

lemma binit_buf_ok:
  assumes "binit_ok k s u"
  shows "binit_ok (Suc k) s (binit_buf k u)"
proof -
  let ?t = "binit_buf k u"
  let ?s4 = "upd_buf k (\<lambda>x. x\<lparr>b_next := bc_head_next u, b_prev := BHead\<rparr>) u"
  let ?w = "(set_bprev (bc_head_next ?s4) (BufP k) ?s4)\<lparr>bc_head_next := BufP k\<rparr>"
  have sg: "seg BufP (\<lambda>i. b_next (bc_buf u i)) (\<lambda>i. b_prev (bc_buf u i)) BHead (bc_head_next u) (rev [0..<k]) (bc_head_prev u) BHead"
    using assms by (simp add: binit_ok_def)
  have "seg BufP (\<lambda>i. b_next (bc_buf ?w i)) (\<lambda>i. b_prev (bc_buf ?w i)) BHead (bc_head_next ?w) (k # rev [0..<k]) (bc_head_prev ?w) BHead"
    by (rule seg_push_front [OF sg]) (simp_all add: Let_def)
  moreover have "(\<lambda>i. b_next (bc_buf ?w i)) = (\<lambda>i. b_next (bc_buf ?t i))" "(\<lambda>i. b_prev (bc_buf ?w i)) = (\<lambda>i. b_prev (bc_buf ?t i))"
    by (intro ext; simp add: binit_buf_def Let_def)+
  moreover have "bc_head_next ?w = bc_head_next ?t" "bc_head_prev ?w = bc_head_prev ?t"
    by (simp_all add: binit_buf_def Let_def)
  moreover have "rev [0..<Suc k] = k # rev [0..<k]" by simp
  ultimately have "seg BufP (\<lambda>i. b_next (bc_buf ?t i)) (\<lambda>i. b_prev (bc_buf ?t i)) BHead (bc_head_next ?t)
      (rev [0..<Suc k]) (bc_head_prev ?t) BHead"
    by (simp only:)
  moreover have "b_dev (bc_buf ?t i) = (if i = k then - 1 else b_dev (bc_buf u i))"
    "b_flags (bc_buf ?t i) = b_flags (bc_buf u i)" for i
    by (simp_all add: binit_buf_def Let_def set_bprev_def split: bref.split)
  moreover have "memdisk ?t = memdisk u" "bframe u ?t"
    by (auto simp: binit_buf_def set_bprev_def upd_buf_def Let_def bframe_def split: bref.splits)
  ultimately show ?thesis using assms bframe_trans by (auto simp: binit_ok_def less_Suc_eq)
qed

lemma binit_fold: "binit_ok k s (fold binit_buf [0..<k] (s\<lparr>bc_head_prev := BHead, bc_head_next := BHead\<rparr>))"
proof (induction k)
  case 0
  show ?case by (simp add: binit_ok_def bframe_def)
qed (simp add: binit_buf_ok)

lemma binit_spec:
  assumes "\<forall>i<NBUF. b_flags (bc_buf s i) = {}" "disksize s \<le> 2 ^ 23"
  shows "lru (rev [0..<NBUF]) (binit s)" "bio_inv (binit s)" "memdisk (binit s) = memdisk s" "bframe s (binit s)"
    "\<forall>i<NBUF. b_flags (bc_buf (binit s) i) = {} \<and> b_dev (bc_buf (binit s) i) = - 1"
proof -
  let ?s = "initlock Lk_bcache s"
  have b: "binit_ok NBUF ?s (binit s)" unfolding binit_def Let_def by (rule binit_fold)
  have s: "bc_buf ?s = bc_buf s" "memdisk ?s = memdisk s" "bframe s ?s" by (simp_all add: initlock_def bframe_def)
  show l: "lru (rev [0..<NBUF]) (binit s)" using b by (auto simp: lru_def binit_ok_def)
  show "memdisk (binit s) = memdisk s" "bframe s (binit s)" using b s by (auto simp: binit_ok_def intro: bframe_trans)
  show f: "\<forall>i<NBUF. b_flags (bc_buf (binit s) i) = {} \<and> b_dev (bc_buf (binit s) i) = - 1"
    using b assms(1) s by (auto simp: binit_ok_def)
  have "bunique (binit s)" using f by (auto simp: bunique_def)
  moreover have "bcoherent (binit s) (bc_buf (binit s) i)" if "i < NBUF" for i using f that by (auto simp: bcoherent_def)
  ultimately show "bio_inv (binit s)" using l assms(2) \<open>bframe s (binit s)\<close> by (auto simp: bio_inv_def bframe_def)
qed

section \<open>Properties\<close>

text \<open>A boot state with a disk of 1024 sectors, for the witnesses.\<close>

definition boot_bio :: kbio where
  "boot_bio = kmem.extend (kcore.extend (boot_core\<lparr>cproc := Some 0\<rparr>) \<lparr>km_start = 0, km_start_heap = 0, km_end = 0,
       orders = (\<lambda>_. \<lparr>head = 0, offset = 0\<rparr>), marks = (\<lambda>_. \<lparr>lnks = 0, bitmap = 0\<rparr>)\<rparr>)
     \<lparr>bc_buf = (\<lambda>_. \<lparr>b_flags = {}, b_dev = 0, b_sector = 0, b_prev = BHead, b_next = BHead, b_data = (\<lambda>_. 0)\<rparr>),
      bc_head_prev = BHead, bc_head_next = BHead, disksize = 1024, memdisk = (\<lambda>_ _. 0), disk_writes = []\<rparr>"

lemma boot_bio_fields:
  "cpu_ok boot_bio" "disksize boot_bio = 1024" "b_flags (bc_buf boot_bio i) = {}" "memdisk boot_bio = (\<lambda>_ _. 0)"
  "cproc boot_bio = Some 0" "ncli boot_bio = 0"
  by (simp_all add: boot_bio_def boot_core_def cpu_ok_def kcore.defs kmem.defs)

lemma boot_cache:
  "bio_inv (binit boot_bio)" "cpu_ok (binit boot_bio)" "disksize (binit boot_bio) = 1024" "readable n (binit boot_bio)"
  "lru (rev [0..<NBUF]) (binit boot_bio)" "\<not> cached n i (binit boot_bio)" "victim (binit boot_bio) 0"
proof -
  note b = binit_spec [of boot_bio, OF _ , simplified boot_bio_fields, simplified]
  show "bio_inv (binit boot_bio)" "lru (rev [0..<NBUF]) (binit boot_bio)" using b by auto
  show "cpu_ok (binit boot_bio)" using bframe_cpu_ok [OF b(4)] boot_bio_fields by blast
  show "disksize (binit boot_bio) = 1024" using b(4) by (simp add: bframe_def boot_bio_fields)
  show "\<not> cached n i (binit boot_bio)" for i using b(5) by (auto simp: cached_def)
  show v: "victim (binit boot_bio) 0" using b(5) by (auto simp: victim_def NBUF_def)
  show "readable n (binit boot_bio)" using b(5) v by (auto simp: readable_def cached_def)
qed

text \<open>C22: \<open>bread\<close> returns a busy, valid buffer with the contents of the sector, and recycling a
  buffer for it never changes what any sector contains nor the disk.\<close>

theorem bread_returns_contents:
  assumes "bio_inv s" "cpu_ok s" "n < disksize s" "readable n s"
  shows "\<exists>i t. bread 1 (of_nat n) s = Ok i t \<and> {B_BUSY, B_VALID} \<subseteq> b_flags (bc_buf t i)
    \<and> cached n i t \<and> b_data (bc_buf t i) = blk s n \<and> bio_inv t
    \<and> memdisk t = memdisk s \<and> (\<forall>m<disksize s. blk t m = blk s m)"
  using bread_spec [OF assms] by (auto simp: got_def)

theorem bread_returns_contents_witness:
  "\<exists>i t. bread 1 (of_nat 5) (binit boot_bio) = Ok i t \<and> {B_BUSY, B_VALID} \<subseteq> b_flags (bc_buf t i)
    \<and> cached 5 i t \<and> b_data (bc_buf t i) = blk (binit boot_bio) 5 \<and> bio_inv t
    \<and> memdisk t = memdisk (binit boot_bio) \<and> (\<forall>m<disksize (binit boot_bio). blk t m = blk (binit boot_bio) m)"
  using bread_returns_contents [of "binit boot_bio" 5] by (simp add: boot_cache)

lemma update_block:
  assumes inv: "bio_inv s" "cpu_ok s" "n < disksize s" "readable n s"
  shows "\<exists>i t u v. bread 1 (of_nat n) s = Ok i t \<and> bwrite i (set_bdata i d t) = Ok () u \<and> brelse i u = Ok () v
    \<and> got n i s t \<and> wrote n i (set_bdata i d t) u \<and> released i u v
    \<and> bio_inv v \<and> bframe s v \<and> memdisk v = (memdisk s)(n := d) \<and> disk_writes v = (n, d) # disk_writes s
    \<and> (\<forall>m<disksize s. blk v m = (if m = n then d else blk s m))"
proof -
  from bread_spec [OF inv] obtain i t where t: "bread 1 (of_nat n) s = Ok i t" "got n i s t" "bio_inv t"
    "\<forall>m<disksize s. blk t m = blk s m" by blast
  let ?t = "set_bdata i d t"
  have ci: "cached n i t" "B_BUSY \<in> b_flags (bc_buf t i)" "B_VALID \<in> b_flags (bc_buf t i)" "bframe s t"
    "memdisk t = memdisk s" "disk_writes t = disk_writes s" "i < NBUF"
    using t(2) by (auto simp: got_def)
  have ds: "disksize t = disksize s" "disksize t \<le> 2 ^ 23" using ci(4) t(3) by (auto simp: bframe_def bio_inv_def)
  have b: "cached n i ?t" "B_BUSY \<in> b_flags (bc_buf ?t i)" "n < disksize ?t" "disksize ?t \<le> 2 ^ 23"
    using ci ds inv(3) by auto
  from bwrite_spec [OF b] obtain u where u: "bwrite i ?t = Ok () u" "wrote n i ?t u" by blast
  note it = set_bdata_inv [OF t(3) ci(2), of d]
  note w = wrote_inv [OF it b(1,2,3) u(2)]
  have fu: "bframe s u" using w(3) ci(4) bframe_trans [of s ?t u] by simp
  have cu: "cpu_ok u" "B_BUSY \<in> b_flags (bc_buf u i)" using bframe_cpu_ok [OF fu inv(2)] w(7) by auto
  from brelse_spec [OF cu] obtain v where v: "brelse i u = Ok () v" "released i u v" by blast
  have "unat (of_nat n :: uint) = n" using b(3,4) unat_of_nat_uint [of n] by simp
  then have "bcoherent u (bc_buf u i)"
    using w(2,4,7,8) b(3) w(3) by (auto simp: bcoherent_def cached_def bframe_def)
  with released_inv [OF w(1) ci(7) _ v(2)] have iv: "bio_inv v" by blast
  have "blk v m = (if m = n then d else blk s m)" if "m < disksize s" for m
    using released_blk [OF v(2)] wrote_blk [OF it b(1,2,3) _ u(2), of m] that ds
      set_bdata_blk [OF t(3) ci(1-3), of m d] inv(3) t(4) by auto
  then show ?thesis
    using t u v iv w released_fields [OF v(2)] bframe_trans [OF fu] ci(5,6) by fastforce
qed

text \<open>C18: reading a sector, changing the buffer, writing and releasing it changes exactly that
  sector, on the disk and in the cache, by one disk write, and keeps the invariant.\<close>

theorem block_update:
  assumes "bio_inv s" "cpu_ok s" "n < disksize s" "readable n s"
  shows "\<exists>i t u v. bread 1 (of_nat n) s = Ok i t \<and> bwrite i (set_bdata i d t) = Ok () u \<and> brelse i u = Ok () v
    \<and> bio_inv v \<and> memdisk v = (memdisk s)(n := d) \<and> disk_writes v = (n, d) # disk_writes s
    \<and> (\<forall>m<disksize s. blk v m = (if m = n then d else blk s m))"
  using update_block [OF assms, of d] by blast

theorem block_update_witness:
  "\<exists>i t u v. bread 1 (of_nat 7) (binit boot_bio) = Ok i t \<and> bwrite i (set_bdata i (\<lambda>_. 3) t) = Ok () u
    \<and> brelse i u = Ok () v \<and> bio_inv v \<and> memdisk v = (memdisk (binit boot_bio))(7 := (\<lambda>_. 3))"
  using block_update [of "binit boot_bio" 7 "\<lambda>_. 3"] boot_cache by auto

lemma find_split:
  "List.find P ys = Some x \<Longrightarrow> \<exists>as bs. ys = as @ x # bs \<and> P x \<and> (\<forall>y\<in>set as. \<not> P y)"
proof (induction ys)
  case (Cons y ys)
  show ?case
  proof (cases "P y")
    case True
    with Cons.prems show ?thesis by (intro exI [of _ "[]"] exI [of _ ys]) simp
  next
    case False
    with Cons obtain as bs where "ys = as @ x # bs" "P x" "\<forall>y\<in>set as. \<not> P y" by auto
    with False show ?thesis by (intro exI [of _ "y # as"] exI [of _ bs]) simp
  qed
qed simp

text \<open>C31: replacement is least recently used: with the buffers in the order \<open>xs\<close>, most recent
  first, a miss takes the last buffer of \<open>xs\<close> that is neither busy nor dirty, panics if
  there is none, and \<open>brelse\<close> then makes that buffer the first of the list.\<close>

theorem lru_replacement:
  assumes "cpu_ok s" "lru xs s" "\<forall>i. \<not> cached n i s"
  shows "if \<forall>i\<in>set xs. \<not> victim s i then bget 1 (of_nat n) s = Panic ''bget: no buffers''
     else \<exists>as i bs t u. xs = as @ i # bs \<and> victim s i \<and> (\<forall>j\<in>set bs. \<not> victim s j)
       \<and> bget 1 (of_nat n) s = Ok i t \<and> lru xs t \<and> cached n i t
       \<and> brelse i t = Ok () u \<and> lru (i # as @ bs) u"
proof (cases "List.find (victim s) (rev xs)")
  case None
  then have "\<forall>i\<in>set xs. \<not> victim s i" by (auto simp: find_None_iff)
  with None bget_miss [OF assms(1,2), of n] assms(3) show ?thesis by simp
next
  case (Some i)
  from find_split [OF this] obtain cs ds where cd: "rev xs = cs @ i # ds" "victim s i" "\<forall>j\<in>set cs. \<not> victim s j"
    by blast
  then have xs: "xs = rev ds @ i # rev cs" by (metis append.assoc append_Cons append_Nil rev.simps(2) rev_append rev_rev_ident)
  let ?f = "\<lambda>b. b\<lparr>b_dev := 1, b_sector := of_nat n, b_flags := {B_BUSY}\<rparr>"
  let ?t = "upd_buf i ?f (relock Lk_bcache s)"
  have get: "bget 1 (of_nat n) s = Ok i ?t" using Some bget_miss [OF assms(1,2), of n] assms(3) by simp
  have l: "lru xs ?t" using assms(2) by (rule lru_cong) simp_all
  have "cpu_ok ?t" using assms(1) by (simp add: upd_buf_def cpu_ok_def)
  then obtain u where u: "brelse i ?t = Ok () u" "released i ?t u" using brelse_spec [of ?t i] by auto
  have "lru (i # rev ds @ rev cs) u" using u(2) l unfolding xs by (auto simp: released_def)
  moreover have "cached n i ?t" using cd(2) by (simp add: cached_def victim_def)
  moreover have "\<not> (\<forall>i\<in>set xs. \<not> victim s i)" using cd(2) xs by auto
  ultimately show ?thesis
    using cd(2,3) get l u(1) unfolding if_not_P [OF \<open>\<not> (\<forall>i\<in>set xs. \<not> victim s i)\<close>]
    by (intro exI [of _ "rev ds"] exI [of _ i] exI [of _ "rev cs"] exI [of _ ?t] exI [of _ u]) (simp add: xs)
qed

theorem lru_replacement_witness:
  "\<exists>as i bs t u. rev [0..<NBUF] = as @ i # bs \<and> victim (binit boot_bio) i
     \<and> (\<forall>j\<in>set bs. \<not> victim (binit boot_bio) j)
     \<and> bget 1 (of_nat 4) (binit boot_bio) = Ok i t \<and> lru (rev [0..<NBUF]) t \<and> cached 4 i t
     \<and> brelse i t = Ok () u \<and> lru (i # as @ bs) u"
proof -
  have "\<not> (\<forall>i\<in>set (rev [0..<NBUF]). \<not> victim (binit boot_bio) i)"
    using boot_cache(7) by (auto simp: NBUF_def)
  with lru_replacement [OF boot_cache(2,5), of 4] boot_cache(6) show ?thesis by (simp only: if_False) blast
qed

text \<open>C30: a process that needs a busy buffer goes to sleep on it, and when the owner releases
  the buffer the process is made runnable again.\<close>

theorem busy_buffer_wait:
  fixes s :: "'z kbio_scheme"
  assumes "bio_inv s" "cached n i s" "B_BUSY \<in> b_flags (bc_buf s i)"
    and "cproc s = Some p" "p < NPROC" "ncli s = 0"
  shows "\<exists>t. bget 1 (of_nat n) s = Swtch t \<and> p_state (ptable t p) = SLEEPING \<and> \<not> locked t Lk_bcache
    \<and> (\<forall>u :: 'z kbio_scheme. cpu_ok u \<longrightarrow> B_BUSY \<in> b_flags (bc_buf u i) \<longrightarrow> ptable u p = ptable t p \<longrightarrow>
        (\<exists>v. brelse i u = Ok () v \<and> p_state (ptable v p) = RUNNABLE \<and> B_BUSY \<notin> b_flags (bc_buf v i)))"
proof -
  have "in_section Lk_bcache p (acquire Lk_bcache s)" using assms by (simp add: in_section_def lock_simps)
  from sleep_switches [OF this, of "Ch_buf i"] obtain t where
    t: "sleep (Ch_buf i) (Some Lk_bcache) (acquire Lk_bcache s) = Swtch t" "p_state (ptable t p) = SLEEPING"
    "p_chan (ptable t p) = Some (Ch_buf i)" "\<not> locked t Lk_bcache" by auto
  have "\<exists>v. brelse i u = Ok () v \<and> p_state (ptable v p) = RUNNABLE \<and> B_BUSY \<notin> b_flags (bc_buf v i)"
    if u: "cpu_ok u" "B_BUSY \<in> b_flags (bc_buf u i)" "ptable u p = ptable t p" for u :: "'z kbio_scheme"
  proof -
    from brelse_spec [OF u(1,2)] obtain v where v: "brelse i u = Ok () v" "released i u v" by blast
    then have "ptable v p = wake (Some (Ch_buf i)) (ptable u) p" by (simp add: released_def)
    with u(3) t(2,3) assms(5) have "p_state (ptable v p) = RUNNABLE" by (simp add: wake_def)
    with v released_fields(4) [OF v(2), of i] show ?thesis by auto
  qed
  with t bget_busy [OF assms(1-3)] show ?thesis by (auto simp: blocked_def)
qed

theorem busy_buffer_wait_witness:
  "\<exists>(s :: kbio) i t. bget 1 (of_nat 5) s = Swtch t \<and> p_state (ptable t 0) = SLEEPING \<and> \<not> locked t Lk_bcache
    \<and> (\<forall>u :: kbio. cpu_ok u \<longrightarrow> B_BUSY \<in> b_flags (bc_buf u i) \<longrightarrow> ptable u 0 = ptable t 0 \<longrightarrow>
        (\<exists>v. brelse i u = Ok () v \<and> p_state (ptable v 0) = RUNNABLE \<and> B_BUSY \<notin> b_flags (bc_buf v i)))"
proof -
  from bread_spec [of "binit boot_bio" 5] boot_cache obtain i s where
    s: "got 5 i (binit boot_bio) s" "bio_inv s" by auto
  have "bframe boot_bio (binit boot_bio)" by (rule binit_spec(4)) (simp_all add: boot_bio_fields)
  with s(1) have "cproc s = Some 0" "ncli s = 0" by (auto simp: got_def bframe_def boot_bio_fields)
  moreover have "cached 5 i s" "B_BUSY \<in> b_flags (bc_buf s i)" using s(1) by (auto simp: got_def)
  ultimately have "\<exists>t. bget 1 (of_nat 5) s = Swtch t \<and> p_state (ptable t 0) = SLEEPING \<and> \<not> locked t Lk_bcache
    \<and> (\<forall>u :: kbio. cpu_ok u \<longrightarrow> B_BUSY \<in> b_flags (bc_buf u i) \<longrightarrow> ptable u 0 = ptable t 0 \<longrightarrow>
        (\<exists>v. brelse i u = Ok () v \<and> p_state (ptable v 0) = RUNNABLE \<and> B_BUSY \<notin> b_flags (bc_buf v i)))"
    by (intro busy_buffer_wait [OF s(2)]) (simp_all add: NPROC_def)
  then show ?thesis by blast
qed

text \<open>C40: \<open>binit\<close> links all buffers into the list and establishes the invariant.\<close>

theorem binit_establishes:
  assumes "\<forall>i<NBUF. b_flags (bc_buf s i) = {}" "disksize s \<le> 2 ^ 23"
  shows "lru (rev [0..<NBUF]) (binit s) \<and> bio_inv (binit s) \<and> (\<forall>n. blk (binit s) n = memdisk s n)"
proof -
  note b = binit_spec [OF assms]
  have "blk (binit s) n = memdisk (binit s) n" for n
    by (rule blk_not_cached) (use b(5) in \<open>auto simp: cached_def\<close>)
  with b show ?thesis by simp
qed

theorem binit_establishes_witness:
  "lru (rev [0..<NBUF]) (binit boot_bio) \<and> bio_inv (binit boot_bio) \<and> (\<forall>n. blk (binit boot_bio) n = memdisk boot_bio n)"
  by (rule binit_establishes) (simp_all add: boot_bio_fields)

end
