(* ===== verification/Layout.thy ===== *)
theory Layout
  imports Prelude
begin

text \<open>
  The on-disk format (\<^verbatim>\<open>fs.h\<close>): little endian halfwords and words at byte offsets of a
  512-byte block, the super block, the on-disk inode and the directory entry, with the
  round trips of reading what was written.
\<close>

section \<open>Halfwords and words in a block\<close>

type_synonym uint16 = "16 word"

definition get16 :: "bytes \<Rightarrow> nat \<Rightarrow> uint16" where
  "get16 d p = ucast (d p) OR push_bit 8 (ucast (d (p + 1)))"

definition put16 :: "nat \<Rightarrow> uint16 \<Rightarrow> bytes \<Rightarrow> bytes" where
  "put16 p v d = d(p := ucast v, p + 1 := ucast (drop_bit 8 v))"

definition get32 :: "bytes \<Rightarrow> nat \<Rightarrow> uint" where
  "get32 d p = ucast (d p) OR push_bit 8 (ucast (d (p + 1))) OR push_bit 16 (ucast (d (p + 2)))
     OR push_bit 24 (ucast (d (p + 3)))"

definition put32 :: "nat \<Rightarrow> uint \<Rightarrow> bytes \<Rightarrow> bytes" where
  "put32 p v d = d(p := ucast v, p + 1 := ucast (drop_bit 8 v), p + 2 := ucast (drop_bit 16 v),
     p + 3 := ucast (drop_bit 24 v))"

text \<open>An array of words: the first \<open>n\<close> entries of \<open>f\<close> from offset \<open>p\<close> on.\<close>

definition put_words :: "nat \<Rightarrow> nat \<Rightarrow> (nat \<Rightarrow> uint) \<Rightarrow> bytes \<Rightarrow> bytes" where
  "put_words p n f d = fold (\<lambda>i. put32 (p + 4 * i) (f i)) [0..<n] d"

lemma get16_put16 [simp]: "get16 (put16 p v d) p = v"
proof (rule bit_word_eqI)
  fix n :: nat assume n: "n < LENGTH(16)"
  consider "n < 8" | "8 \<le> n" by linarith
  then show "bit (get16 (put16 p v d) p) n = bit v n"
    by cases (use n in \<open>auto simp: get16_def put16_def bit_simps\<close>)
qed

lemma get32_put32 [simp]: "get32 (put32 p v d) p = v"
proof (rule bit_word_eqI)
  fix n :: nat assume n: "n < LENGTH(32)"
  consider "n < 8" | "8 \<le> n" "n < 16" | "16 \<le> n" "n < 24" | "24 \<le> n" by linarith
  then show "bit (get32 (put32 p v d) p) n = bit v n"
    by cases (use n in \<open>auto simp: get32_def put32_def bit_simps\<close>)
qed

lemma put_byte_other:
  "q < p \<or> p + 2 \<le> q \<Longrightarrow> put16 p v d q = d q"
  "q < p \<or> p + 4 \<le> q \<Longrightarrow> put32 p w d q = d q"
  by (auto simp: put16_def put32_def)

lemma get_other:
  "p + 2 \<le> q \<or> q + 2 \<le> p \<Longrightarrow> get16 (put16 q v d) p = get16 d p"
  "p + 2 \<le> q \<or> q + 4 \<le> p \<Longrightarrow> get16 (put32 q w d) p = get16 d p"
  "p + 4 \<le> q \<or> q + 2 \<le> p \<Longrightarrow> get32 (put16 q v d) p = get32 d p"
  "p + 4 \<le> q \<or> q + 4 \<le> p \<Longrightarrow> get32 (put32 q w d) p = get32 d p"
  by (auto simp: get16_def get32_def put_byte_other)

lemma get_words:
  "i < n \<Longrightarrow> get32 (put_words p n f d) (p + 4 * i) = f i"
  "q + 4 \<le> p \<or> p + 4 * n \<le> q \<Longrightarrow> get32 (put_words p n f d) q = get32 d q"
  "q + 2 \<le> p \<or> p + 4 * n \<le> q \<Longrightarrow> get16 (put_words p n f d) q = get16 d q"
  "q < p \<or> p + 4 * n \<le> q \<Longrightarrow> put_words p n f d q = d q"
proof -
  have step: "put_words p (Suc n) f d = put32 (p + 4 * n) (f n) (put_words p n f d)" for n
    by (simp add: put_words_def)
  show "i < n \<Longrightarrow> get32 (put_words p n f d) (p + 4 * i) = f i"
  proof (induction n)
    case (Suc n)
    then show ?case by (cases "i = n") (auto simp: step get_other)
  qed simp
  show "q + 4 \<le> p \<or> p + 4 * n \<le> q \<Longrightarrow> get32 (put_words p n f d) q = get32 d q"
    by (induction n) (auto simp: step get_other put_words_def [of _ 0])
  show "q + 2 \<le> p \<or> p + 4 * n \<le> q \<Longrightarrow> get16 (put_words p n f d) q = get16 d q"
    by (induction n) (auto simp: step get_other put_words_def [of _ 0])
  show "q < p \<or> p + 4 * n \<le> q \<Longrightarrow> put_words p n f d q = d q"
    by (induction n) (auto simp: step put_byte_other put_words_def [of _ 0])
qed

section \<open>The structures of the file system\<close>

definition ROOTINO :: uint where "ROOTINO = 1"
definition BSIZE :: nat where "BSIZE = 512"
definition NDIRECT :: nat where "NDIRECT = 12"
definition NINDIRECT :: nat where "NINDIRECT = BSIZE div 4"
definition MAXFILE :: nat where "MAXFILE = NDIRECT + NINDIRECT"
definition BPB :: nat where "BPB = BSIZE * 8"
definition DIRSIZ :: nat where "DIRSIZ = 14"

record superblock =
  sb_size :: uint
  sb_nblocks :: uint
  sb_ninodes :: uint
  sb_nlog :: uint

definition get_superblock :: "bytes \<Rightarrow> superblock" where
  "get_superblock d = \<lparr>sb_size = get32 d 0, sb_nblocks = get32 d 4, sb_ninodes = get32 d 8, sb_nlog = get32 d 12\<rparr>"

record dinode =
  di_type :: uint16
  di_major :: uint16
  di_minor :: uint16
  di_nlink :: uint16
  di_size :: uint
  di_addrs :: "nat \<Rightarrow> uint"

definition sizeof_dinode :: nat where "sizeof_dinode = 4 * 2 + 4 + 4 * (NDIRECT + 1)"
definition IPB :: nat where "IPB = BSIZE div sizeof_dinode"

definition get_dinode :: "nat \<Rightarrow> bytes \<Rightarrow> dinode" where
  "get_dinode p d = \<lparr>di_type = get16 d p, di_major = get16 d (p + 2), di_minor = get16 d (p + 4),
     di_nlink = get16 d (p + 6), di_size = get32 d (p + 8),
     di_addrs = (\<lambda>i. if i < NDIRECT + 1 then get32 d (p + 12 + 4 * i) else 0)\<rparr>"

definition put_dinode :: "nat \<Rightarrow> dinode \<Rightarrow> bytes \<Rightarrow> bytes" where
  "put_dinode p di d =
     put_words (p + 12) (NDIRECT + 1) (di_addrs di) (put32 (p + 8) (di_size di)
       (put16 (p + 6) (di_nlink di) (put16 (p + 4) (di_minor di)
         (put16 (p + 2) (di_major di) (put16 p (di_type di) d)))))"

text \<open>\<open>IBLOCK\<close> and \<open>BBLOCK\<close>: where an inode and the bitmap bit of a block live.\<close>

definition IBLOCK :: "uint \<Rightarrow> uint" where
  "IBLOCK i = i div of_nat IPB + 2"

definition BBLOCK :: "uint \<Rightarrow> uint \<Rightarrow> uint" where
  "BBLOCK b ninodes = b div of_nat BPB + ninodes div of_nat IPB + 3"

text \<open>A directory entry: the inode number and a name padded with NUL.\<close>

record dirent =
  de_inum :: uint16
  de_name :: bytes

definition sizeof_dirent :: nat where "sizeof_dirent = 2 + DIRSIZ"

definition get_dirent :: "bytes \<Rightarrow> dirent" where
  "get_dirent d = \<lparr>de_inum = get16 d 0, de_name = (\<lambda>i. if i < DIRSIZ then d (2 + i) else 0)\<rparr>"

definition put_dirent :: "dirent \<Rightarrow> bytes" where
  "put_dirent de = put16 0 (de_inum de) (\<lambda>i. if 2 \<le> i \<and> i < 2 + DIRSIZ then de_name de (i - 2) else 0)"

lemma layout_numbers: "sizeof_dinode = 64" "IPB = 8" "sizeof_dirent = 16" "NINDIRECT = 128" "MAXFILE = 140" "BPB = 4096"
  by (simp_all add: sizeof_dinode_def IPB_def sizeof_dirent_def NINDIRECT_def MAXFILE_def BPB_def BSIZE_def NDIRECT_def
      DIRSIZ_def)

text \<open>Reading an on-disk inode back gives what was written, and writing one leaves every
  other inode of the block alone.\<close>

lemma dinode_roundtrip:
  "get_dinode (64 * i) (put_dinode (64 * i) di d) = di\<lparr>di_addrs := \<lambda>k. if k < NDIRECT + 1 then di_addrs di k else 0\<rparr>
   \<and> (i \<noteq> j \<longrightarrow> get_dinode (64 * j) (put_dinode (64 * i) di d) = get_dinode (64 * j) d)"
proof
  show "get_dinode (64 * i) (put_dinode (64 * i) di d) = di\<lparr>di_addrs := \<lambda>k. if k < NDIRECT + 1 then di_addrs di k else 0\<rparr>"
    by (cases di) (simp add: get_dinode_def put_dinode_def get_words get_other cong: if_cong)
  show "i \<noteq> j \<longrightarrow> get_dinode (64 * j) (put_dinode (64 * i) di d) = get_dinode (64 * j) d"
  proof
    assume "i \<noteq> j"
    then have "64 * j + 64 \<le> 64 * i \<or> 64 * i + 64 \<le> 64 * j" by auto
    then show "get_dinode (64 * j) (put_dinode (64 * i) di d) = get_dinode (64 * j) d"
      by (auto simp: get_dinode_def put_dinode_def get_words get_other NDIRECT_def fun_eq_iff)
  qed
qed

lemma dirent_roundtrip:
  "get_dirent (put_dirent de) = de\<lparr>de_name := \<lambda>i. if i < DIRSIZ then de_name de i else 0\<rparr>"
  by (simp add: get_dirent_def put_dirent_def put_byte_other fun_eq_iff)

lemma get_dirent_cong: "(\<And>i. i < sizeof_dirent \<Longrightarrow> a i = b i) \<Longrightarrow> get_dirent a = get_dirent b"
  by (simp add: get_dirent_def get16_def sizeof_dirent_def DIRSIZ_def fun_eq_iff)

end
