(* ===== verification/Log.thy ===== *)
theory Log
  imports Bio_Cache Layout
begin

text \<open>
  The write-ahead log (\<^verbatim>\<open>log.c\<close>): one transaction at a time; \<open>log_write\<close> copies a modified
  block to the log area and pins it in the cache, \<open>commit_trans\<close> writes the header (the
  commit point), installs the blocks at home and clears the header; \<open>recover_from_log\<close>
  replays a committed log after a crash. Also \<open>readsb\<close> of \<^verbatim>\<open>fs.c\<close>, which \<open>initlog\<close> calls.
  C ints are integers; they are converted to 32-bit words where the code does.
\<close>

section \<open>State\<close>

definition LOGSIZE :: nat where "LOGSIZE = 10"
definition ROOTDEV :: int where "ROOTDEV = 1"

record klog = kbio +
  log_start :: int
  log_size :: int
  log_busy :: bool
  log_dev :: int
  lh_n :: int
  lh_sector :: "nat \<Rightarrow> int"

text \<open>The header block: \<open>int n; int sector[LOGSIZE]\<close>.\<close>

definition sizeof_logheader :: nat where "sizeof_logheader = 4 + 4 * LOGSIZE"

definition hb_n :: "bytes \<Rightarrow> int" where "hb_n d = sint (get32 d 0)"
definition hb_sector :: "bytes \<Rightarrow> nat \<Rightarrow> int" where "hb_sector d i = sint (get32 d (4 + 4 * i))"

section \<open>Operations\<close>

definition readsb :: "int \<Rightarrow> 'z kbio_scheme \<Rightarrow> ('z kbio_scheme, superblock) outcome" where
  "readsb dev s =
     andthen (bread (word_of_int dev) 1 s) (\<lambda>bp s1.
       let sb = get_superblock (b_data (bc_buf s1 bp))
       in andthen (brelse bp s1) (\<lambda>_ s2. Ok sb s2))"

text \<open>\<open>install_trans\<close>: the loop over \<open>tail\<close>. The header array has \<open>LOGSIZE\<close> entries; an index
  beyond it is a fault.\<close>

fun install_loop :: "nat list \<Rightarrow> 'z klog_scheme \<Rightarrow> ('z klog_scheme, unit) outcome" where
  "install_loop [] s = Ok () s"
| "install_loop (tail # ts) s =
     andthen (bread (word_of_int (log_dev s)) (word_of_int (log_start s + int tail + 1)) s) (\<lambda>lbuf s1.
       if LOGSIZE \<le> tail then Fault
       else andthen (bread (word_of_int (log_dev s1)) (word_of_int (lh_sector s1 tail)) s1) (\<lambda>dbuf s2.
         let s3 = set_bdata dbuf (b_data (bc_buf s2 lbuf)) s2
         in andthen (bwrite dbuf s3) (\<lambda>_ s4.
            andthen (brelse lbuf s4) (\<lambda>_ s5.
            andthen (brelse dbuf s5) (\<lambda>_ s6. install_loop ts s6)))))"

definition install_trans :: "'z klog_scheme \<Rightarrow> ('z klog_scheme, unit) outcome" where
  "install_trans s = install_loop [0..<nat (lh_n s)] s"

definition read_head :: "'z klog_scheme \<Rightarrow> ('z klog_scheme, unit) outcome" where
  "read_head s =
     andthen (bread (word_of_int (log_dev s)) (word_of_int (log_start s)) s) (\<lambda>buf s1.
       let lh = b_data (bc_buf s1 buf); n = hb_n lh
       in if n > int LOGSIZE then Fault
          else (let s2 = s1\<lparr>lh_n := n,
                  lh_sector := fold (\<lambda>i f. f(i := hb_sector lh i)) [0..<nat n] (lh_sector s1)\<rparr>
                in brelse buf s2))"

definition write_head :: "'z klog_scheme \<Rightarrow> ('z klog_scheme, unit) outcome" where
  "write_head s =
     andthen (bread (word_of_int (log_dev s)) (word_of_int (log_start s)) s) (\<lambda>buf s1.
       if lh_n s1 > int LOGSIZE then Fault
       else (let hb = put_words 4 (nat (lh_n s1)) (\<lambda>i. word_of_int (lh_sector s1 i))
                        (put32 0 (word_of_int (lh_n s1)) (b_data (bc_buf s1 buf)))
             in andthen (bwrite buf (set_bdata buf hb s1)) (\<lambda>_ s2. brelse buf s2)))"

definition recover_from_log :: "'z klog_scheme \<Rightarrow> ('z klog_scheme, unit) outcome" where
  "recover_from_log s =
     andthen (read_head s) (\<lambda>_ s1.
     andthen (install_trans s1) (\<lambda>_ s2. write_head (s2\<lparr>lh_n := 0\<rparr>)))"

definition initlog :: "'z klog_scheme \<Rightarrow> ('z klog_scheme, unit) outcome" where
  "initlog s =
     (if sizeof_logheader \<ge> BSIZE then Panic ''initlog: too big logheader''
      else andthen (readsb ROOTDEV (initlock Lk_log s)) (\<lambda>sb s1.
        recover_from_log (s1\<lparr>log_start := sint (sb_size sb - sb_nlog sb), log_size := sint (sb_nlog sb),
          log_dev := ROOTDEV\<rparr>)))"

text \<open>\<open>begin_trans\<close> sleeps while another transaction is active.\<close>

definition begin_loop :: "'z klog_scheme \<Rightarrow> ('z klog_scheme, unit) outcome" where
  "begin_loop s =
     (if log_busy s then blocked (sleep Ch_log (Some Lk_log) s)
      else release Lk_log (s\<lparr>log_busy := True\<rparr>))"

definition begin_trans :: "'z klog_scheme \<Rightarrow> ('z klog_scheme, unit) outcome" where
  "begin_trans s = begin_loop (acquire Lk_log s)"

definition begin_trans_resume :: "'z klog_scheme \<Rightarrow> ('z klog_scheme, unit) outcome" where
  "begin_trans_resume s = andthen (sleep_resume Lk_log s) (\<lambda>_ s1. begin_loop s1)"

definition commit_trans :: "'z klog_scheme \<Rightarrow> ('z klog_scheme, unit) outcome" where
  "commit_trans s =
     andthen (if lh_n s > 0
              then andthen (write_head s) (\<lambda>_ s1.
                   andthen (install_trans s1) (\<lambda>_ s2. write_head (s2\<lparr>lh_n := 0\<rparr>)))
              else Ok () s) (\<lambda>_ s3.
       andthen (wakeup Ch_log ((acquire Lk_log s3)\<lparr>log_busy := False\<rparr>)) (\<lambda>_ s4. release Lk_log s4))"

definition log_write :: "nat \<Rightarrow> 'z klog_scheme \<Rightarrow> ('z klog_scheme, unit) outcome" where
  "log_write b s =
     (if lh_n s \<ge> int LOGSIZE \<or> lh_n s \<ge> log_size s - 1 then Panic ''too big a transaction''
      else if \<not> log_busy s then Panic ''write outside of trans''
      else (let i = (case List.find (\<lambda>i. word_of_int (lh_sector s i) = b_sector (bc_buf s b)) [0..<nat (lh_n s)] of
                       Some i \<Rightarrow> i | None \<Rightarrow> nat (lh_n s));
                s1 = s\<lparr>lh_sector := (lh_sector s)(i := sint (b_sector (bc_buf s b)))\<rparr>
            in andthen (bread (b_dev (bc_buf s1 b)) (word_of_int (log_start s1 + int i + 1)) s1) (\<lambda>lbuf s2.
               andthen (bwrite lbuf (set_bdata lbuf (b_data (bc_buf s2 b)) s2)) (\<lambda>_ s3.
               andthen (brelse lbuf s3) (\<lambda>_ s4.
                 let s5 = (if int i = lh_n s4 then s4\<lparr>lh_n := lh_n s4 + 1\<rparr> else s4)
                 in Ok () (upd_buf b (\<lambda>x. x\<lparr>b_flags := insert B_DIRTY (b_flags x)\<rparr>) s5))))))"

end
