(* ===== verification/Inode.thy ===== *)
theory Inode
  imports Log
begin

text \<open>
  The lower half of the file system (\<^verbatim>\<open>fs.c\<close>): the block allocator on the free bitmap, the
  inode cache, inodes on disk, and the block map of a file. An inode pointer is an index of
  \<open>icache.inode\<close>, so there is no null pointer to test for. A routine whose callee waits ends in \<open>Swtch\<close>; \<open>ilock_resume\<close> is what a
  process executes in \<open>ilock\<close> when it is woken.
\<close>

section \<open>State\<close>

definition NINODE :: nat where "NINODE = 50"

definition T_DIR :: uint16 where "T_DIR = 1"
definition T_FILE :: uint16 where "T_FILE = 2"
definition T_DEV :: uint16 where "T_DEV = 3"

datatype iflag = I_BUSY | I_VALID

record inode =
  i_dev :: uint
  i_inum :: uint
  i_ref :: int
  i_flags :: "iflag set"
  i_type :: uint16
  i_major :: uint16
  i_minor :: uint16
  i_nlink :: uint16
  i_size :: uint
  i_addrs :: "nat \<Rightarrow> uint"

record kinode = klog +
  icache :: "nat \<Rightarrow> inode"

definition upd_inode :: "nat \<Rightarrow> (inode \<Rightarrow> inode) \<Rightarrow> 'z kinode_scheme \<Rightarrow> 'z kinode_scheme" where
  "upd_inode i f s = s\<lparr>icache := (icache s)(i := f (icache s i))\<rparr>"

text \<open>\<open>struct stat\<close>.\<close>

record fstat =
  st_type :: uint16
  st_dev :: uint
  st_ino :: uint
  st_nlink :: uint16
  st_size :: uint

section \<open>Blocks\<close>

definition bzero :: "uint \<Rightarrow> uint \<Rightarrow> 'z klog_scheme \<Rightarrow> ('z klog_scheme, unit) outcome" where
  "bzero dev bno s =
     andthen (bread dev bno s) (\<lambda>bp s1.
       let d = b_data (bc_buf s1 bp); s2 = set_bdata bp (\<lambda>i. if i < BSIZE then 0 else d i) s1
       in andthen (log_write bp s2) (\<lambda>_ s3. brelse bp s3))"

text \<open>The bit \<open>1 << (bi % 8)\<close> of byte \<open>bi / 8\<close> of a bitmap block.\<close>

definition bm_mask :: "nat \<Rightarrow> uint8" where "bm_mask bi = push_bit (bi mod 8) 1"

definition bm_free :: "bytes \<Rightarrow> nat \<Rightarrow> bool" where
  "bm_free d bi \<longleftrightarrow> d (bi div 8) AND bm_mask bi = 0"

definition bm_set :: "nat \<Rightarrow> bytes \<Rightarrow> bytes" where
  "bm_set bi d = d(bi div 8 := d (bi div 8) OR bm_mask bi)"

definition bm_clear :: "nat \<Rightarrow> bytes \<Rightarrow> bytes" where
  "bm_clear bi d = d(bi div 8 := d (bi div 8) AND NOT (bm_mask bi))"

text \<open>The loops of \<open>balloc\<close>: \<open>b\<close> runs over the multiples of \<open>BPB\<close> below \<open>sb.size\<close>, \<open>bi\<close> over the
  bits of one bitmap block.\<close>

fun balloc_loop :: "uint \<Rightarrow> superblock \<Rightarrow> nat list \<Rightarrow> 'z klog_scheme \<Rightarrow> ('z klog_scheme, uint) outcome" where
  "balloc_loop dev sb [] s = Panic ''balloc: out of blocks''"
| "balloc_loop dev sb (b # bs) s =
     andthen (bread dev (BBLOCK (of_nat b) (sb_ninodes sb)) s) (\<lambda>bp s1.
       case List.find (\<lambda>bi. bm_free (b_data (bc_buf s1 bp)) bi) [0..<min BPB (unat (sb_size sb) - b)] of
         Some bi \<Rightarrow>
           andthen (log_write bp (set_bdata bp (bm_set bi (b_data (bc_buf s1 bp))) s1)) (\<lambda>_ s2.
           andthen (brelse bp s2) (\<lambda>_ s3.
           andthen (bzero dev (of_nat (b + bi)) s3) (\<lambda>_ s4. Ok (of_nat (b + bi)) s4)))
       | None \<Rightarrow> andthen (brelse bp s1) (\<lambda>_ s2. balloc_loop dev sb bs s2))"

definition bm_blocks :: "uint \<Rightarrow> nat list" where
  "bm_blocks sz = map (\<lambda>k. k * BPB) [0..<(unat sz + BPB - 1) div BPB]"

definition balloc :: "uint \<Rightarrow> 'z klog_scheme \<Rightarrow> ('z klog_scheme, uint) outcome" where
  "balloc dev s = andthen (readsb (sint dev) s) (\<lambda>sb s1. balloc_loop dev sb (bm_blocks (sb_size sb)) s1)"

definition bfree :: "uint \<Rightarrow> uint \<Rightarrow> 'z klog_scheme \<Rightarrow> ('z klog_scheme, unit) outcome" where
  "bfree dev b s =
     andthen (readsb (sint dev) s) (\<lambda>sb s1.
     andthen (bread dev (BBLOCK b (sb_ninodes sb)) s1) (\<lambda>bp s2.
       let bi = unat b mod BPB; d = b_data (bc_buf s2 bp)
       in if bm_free d bi then Panic ''freeing free block''
          else andthen (log_write bp (set_bdata bp (bm_clear bi d) s2)) (\<lambda>_ s3. brelse bp s3)))"

section \<open>Inodes\<close>

definition iinit :: "'z kinode_scheme \<Rightarrow> 'z kinode_scheme" where
  "iinit s = initlock Lk_icache s"

text \<open>\<open>iget\<close>: the entry that caches \<open>(dev, inum)\<close>, or else the first unused one.\<close>

definition iget :: "uint \<Rightarrow> uint \<Rightarrow> 'z kinode_scheme \<Rightarrow> ('z kinode_scheme, nat) outcome" where
  "iget dev inum s =
     (let s1 = acquire Lk_icache s
      in case List.find (\<lambda>i. i_ref (icache s1 i) > 0 \<and> i_dev (icache s1 i) = dev \<and> i_inum (icache s1 i) = inum) [0..<NINODE] of
           Some ip \<Rightarrow> andthen (release Lk_icache (upd_inode ip (\<lambda>n. n\<lparr>i_ref := i_ref n + 1\<rparr>) s1)) (\<lambda>_ s2. Ok ip s2)
         | None \<Rightarrow>
             (case List.find (\<lambda>i. i_ref (icache s1 i) = 0) [0..<NINODE] of
                None \<Rightarrow> Panic ''iget: no inodes''
              | Some ip \<Rightarrow>
                  andthen (release Lk_icache
                    (upd_inode ip (\<lambda>n. n\<lparr>i_dev := dev, i_inum := inum, i_ref := 1, i_flags := {}\<rparr>) s1)) (\<lambda>_ s2. Ok ip s2)))"

definition inode_off :: "uint \<Rightarrow> nat" where
  "inode_off inum = sizeof_dinode * (unat inum mod IPB)"

definition zero_dinode :: dinode where
  "zero_dinode = \<lparr>di_type = 0, di_major = 0, di_minor = 0, di_nlink = 0, di_size = 0, di_addrs = (\<lambda>_. 0)\<rparr>"

fun ialloc_loop :: "uint \<Rightarrow> uint16 \<Rightarrow> nat list \<Rightarrow> 'z kinode_scheme \<Rightarrow> ('z kinode_scheme, nat) outcome" where
  "ialloc_loop dev type [] s = Panic ''ialloc: no inodes''"
| "ialloc_loop dev type (inum # is) s =
     andthen (bread dev (IBLOCK (of_nat inum)) s) (\<lambda>bp s1.
       let d = b_data (bc_buf s1 bp); p = inode_off (of_nat inum)
       in if di_type (get_dinode p d) = 0
          then andthen (log_write bp (set_bdata bp (put_dinode p (zero_dinode\<lparr>di_type := type\<rparr>) d) s1)) (\<lambda>_ s2.
               andthen (brelse bp s2) (\<lambda>_ s3. iget dev (of_nat inum) s3))
          else andthen (brelse bp s1) (\<lambda>_ s2. ialloc_loop dev type is s2))"

definition ialloc :: "uint \<Rightarrow> uint16 \<Rightarrow> 'z kinode_scheme \<Rightarrow> ('z kinode_scheme, nat) outcome" where
  "ialloc dev type s =
     andthen (readsb (sint dev) s) (\<lambda>sb s1. ialloc_loop dev type [1..<unat (sb_ninodes sb)] s1)"

definition inode_img :: "inode \<Rightarrow> dinode" where
  "inode_img n = \<lparr>di_type = i_type n, di_major = i_major n, di_minor = i_minor n, di_nlink = i_nlink n,
     di_size = i_size n, di_addrs = i_addrs n\<rparr>"

definition iupdate :: "nat \<Rightarrow> 'z kinode_scheme \<Rightarrow> ('z kinode_scheme, unit) outcome" where
  "iupdate ip s =
     andthen (bread (i_dev (icache s ip)) (IBLOCK (i_inum (icache s ip))) s) (\<lambda>bp s1.
       let n = icache s1 ip; d = b_data (bc_buf s1 bp)
       in andthen (log_write bp (set_bdata bp (put_dinode (inode_off (i_inum n)) (inode_img n) d) s1)) (\<lambda>_ s2. brelse bp s2))"

definition idup :: "nat \<Rightarrow> 'z kinode_scheme \<Rightarrow> ('z kinode_scheme, nat) outcome" where
  "idup ip s =
     andthen (release Lk_icache (upd_inode ip (\<lambda>n. n\<lparr>i_ref := i_ref n + 1\<rparr>) (acquire Lk_icache s))) (\<lambda>_ s1. Ok ip s1)"

definition load_inode :: "dinode \<Rightarrow> inode \<Rightarrow> inode" where
  "load_inode di n = n\<lparr>i_type := di_type di, i_major := di_major di, i_minor := di_minor di, i_nlink := di_nlink di,
     i_size := di_size di, i_addrs := di_addrs di\<rparr>"

definition ilock_load :: "nat \<Rightarrow> 'z kinode_scheme \<Rightarrow> ('z kinode_scheme, unit) outcome" where
  "ilock_load ip s =
     (if I_VALID \<in> i_flags (icache s ip) then Ok () s
      else andthen (bread (i_dev (icache s ip)) (IBLOCK (i_inum (icache s ip))) s) (\<lambda>bp s1.
        let di = get_dinode (inode_off (i_inum (icache s1 ip))) (b_data (bc_buf s1 bp));
            s2 = upd_inode ip (load_inode di) s1
        in andthen (brelse bp s2) (\<lambda>_ s3.
             let s4 = upd_inode ip (\<lambda>n. n\<lparr>i_flags := insert I_VALID (i_flags n)\<rparr>) s3
             in if i_type (icache s4 ip) = 0 then Panic ''ilock: no type'' else Ok () s4)))"

definition ilock_loop :: "nat \<Rightarrow> 'z kinode_scheme \<Rightarrow> ('z kinode_scheme, unit) outcome" where
  "ilock_loop ip s =
     (if I_BUSY \<in> i_flags (icache s ip) then blocked (sleep (Ch_inode ip) (Some Lk_icache) s)
      else andthen (release Lk_icache (upd_inode ip (\<lambda>n. n\<lparr>i_flags := insert I_BUSY (i_flags n)\<rparr>) s))
             (\<lambda>_ s1. ilock_load ip s1))"

definition ilock :: "nat \<Rightarrow> 'z kinode_scheme \<Rightarrow> ('z kinode_scheme, unit) outcome" where
  "ilock ip s = (if i_ref (icache s ip) < 1 then Panic ''ilock'' else ilock_loop ip (acquire Lk_icache s))"

definition ilock_resume :: "nat \<Rightarrow> 'z kinode_scheme \<Rightarrow> ('z kinode_scheme, unit) outcome" where
  "ilock_resume ip s = andthen (sleep_resume Lk_icache s) (\<lambda>_ s1. ilock_loop ip s1)"

definition iunlock :: "nat \<Rightarrow> 'z kinode_scheme \<Rightarrow> ('z kinode_scheme, unit) outcome" where
  "iunlock ip s =
     (if I_BUSY \<notin> i_flags (icache s ip) \<or> i_ref (icache s ip) < 1 then Panic ''iunlock''
      else (let s1 = upd_inode ip (\<lambda>n. n\<lparr>i_flags := i_flags n - {I_BUSY}\<rparr>) (acquire Lk_icache s)
            in andthen (wakeup (Ch_inode ip) s1) (\<lambda>_ s2. release Lk_icache s2)))"

section \<open>Inode content\<close>

definition bmap :: "nat \<Rightarrow> nat \<Rightarrow> 'z kinode_scheme \<Rightarrow> ('z kinode_scheme, uint) outcome" where
  "bmap ip bn s =
     (if bn < NDIRECT
      then (if i_addrs (icache s ip) bn \<noteq> 0 then Ok (i_addrs (icache s ip) bn) s
            else andthen (balloc (i_dev (icache s ip)) s) (\<lambda>addr s1.
                   Ok addr (upd_inode ip (\<lambda>n. n\<lparr>i_addrs := (i_addrs n)(bn := addr)\<rparr>) s1)))
      else (let bn' = bn - NDIRECT
            in if bn' < NINDIRECT
               then andthen (if i_addrs (icache s ip) NDIRECT \<noteq> 0 then Ok (i_addrs (icache s ip) NDIRECT) s
                             else andthen (balloc (i_dev (icache s ip)) s) (\<lambda>addr s1.
                                    Ok addr (upd_inode ip (\<lambda>n. n\<lparr>i_addrs := (i_addrs n)(NDIRECT := addr)\<rparr>) s1))) (\<lambda>ind s2.
                    andthen (bread (i_dev (icache s2 ip)) ind s2) (\<lambda>bp s3.
                      let addr = get32 (b_data (bc_buf s3 bp)) (4 * bn')
                      in andthen (if addr \<noteq> 0 then Ok addr s3
                                  else andthen (balloc (i_dev (icache s3 ip)) s3) (\<lambda>addr' s4.
                                       andthen (log_write bp (set_bdata bp (put32 (4 * bn') addr' (b_data (bc_buf s4 bp))) s4)) (\<lambda>_ s5.
                                         Ok addr' s5))) (\<lambda>addr' s6.
                         andthen (brelse bp s6) (\<lambda>_ s7. Ok addr' s7))))
               else Panic ''bmap: out of range''))"

fun itrunc_direct :: "nat \<Rightarrow> nat list \<Rightarrow> 'z kinode_scheme \<Rightarrow> ('z kinode_scheme, unit) outcome" where
  "itrunc_direct ip [] s = Ok () s"
| "itrunc_direct ip (i # is) s =
     (if i_addrs (icache s ip) i \<noteq> 0
      then andthen (bfree (i_dev (icache s ip)) (i_addrs (icache s ip) i) s) (\<lambda>_ s1.
             itrunc_direct ip is (upd_inode ip (\<lambda>n. n\<lparr>i_addrs := (i_addrs n)(i := 0)\<rparr>) s1))
      else itrunc_direct ip is s)"

text \<open>The entries of the indirect block, which the caller holds, in buffer \<open>bp\<close>.\<close>

fun itrunc_indirect :: "nat \<Rightarrow> nat \<Rightarrow> nat list \<Rightarrow> 'z kinode_scheme \<Rightarrow> ('z kinode_scheme, unit) outcome" where
  "itrunc_indirect ip bp [] s = Ok () s"
| "itrunc_indirect ip bp (j # js) s =
     (let a = get32 (b_data (bc_buf s bp)) (4 * j)
      in if a \<noteq> 0 then andthen (bfree (i_dev (icache s ip)) a s) (\<lambda>_ s1. itrunc_indirect ip bp js s1)
         else itrunc_indirect ip bp js s)"

definition itrunc :: "nat \<Rightarrow> 'z kinode_scheme \<Rightarrow> ('z kinode_scheme, unit) outcome" where
  "itrunc ip s =
     andthen (itrunc_direct ip [0..<NDIRECT] s) (\<lambda>_ s1.
     andthen (if i_addrs (icache s1 ip) NDIRECT \<noteq> 0
              then andthen (bread (i_dev (icache s1 ip)) (i_addrs (icache s1 ip) NDIRECT) s1) (\<lambda>bp s2.
                   andthen (itrunc_indirect ip bp [0..<NINDIRECT] s2) (\<lambda>_ s3.
                   andthen (brelse bp s3) (\<lambda>_ s4.
                   andthen (bfree (i_dev (icache s4 ip)) (i_addrs (icache s4 ip) NDIRECT) s4) (\<lambda>_ s5.
                     Ok () (upd_inode ip (\<lambda>n. n\<lparr>i_addrs := (i_addrs n)(NDIRECT := 0)\<rparr>) s5)))))
              else Ok () s1) (\<lambda>_ s6.
       iupdate ip (upd_inode ip (\<lambda>n. n\<lparr>i_size := 0\<rparr>) s6)))"

definition iput :: "nat \<Rightarrow> 'z kinode_scheme \<Rightarrow> ('z kinode_scheme, unit) outcome" where
  "iput ip s =
     (let s1 = acquire Lk_icache s; n = icache s1 ip
      in andthen
           (if i_ref n = 1 \<and> I_VALID \<in> i_flags n \<and> i_nlink n = 0
            then (if I_BUSY \<in> i_flags n then Panic ''iput busy''
                  else andthen (release Lk_icache (upd_inode ip (\<lambda>n. n\<lparr>i_flags := insert I_BUSY (i_flags n)\<rparr>) s1)) (\<lambda>_ s2.
                       andthen (itrunc ip s2) (\<lambda>_ s3.
                       andthen (iupdate ip (upd_inode ip (\<lambda>n. n\<lparr>i_type := 0\<rparr>) s3)) (\<lambda>_ s4.
                         wakeup (Ch_inode ip) (upd_inode ip (\<lambda>n. n\<lparr>i_flags := {}\<rparr>) (acquire Lk_icache s4))))))
            else Ok () s1)
           (\<lambda>_ s5. release Lk_icache (upd_inode ip (\<lambda>n. n\<lparr>i_ref := i_ref n - 1\<rparr>) s5)))"

definition iunlockput :: "nat \<Rightarrow> 'z kinode_scheme \<Rightarrow> ('z kinode_scheme, unit) outcome" where
  "iunlockput ip s = andthen (iunlock ip s) (\<lambda>_ s1. iput ip s1)"

definition stati :: "nat \<Rightarrow> 'z kinode_scheme \<Rightarrow> fstat" where
  "stati ip s = (let n = icache s ip
     in \<lparr>st_type = i_type n, st_dev = i_dev n, st_ino = i_inum n, st_nlink = i_nlink n, st_size = i_size n\<rparr>)"

end
