(* ===== verification/Console.thy ===== *)
theory Console
  imports Inode
begin

text \<open>
  The console (\<^verbatim>\<open>console.c\<close>) on the UART (\<^verbatim>\<open>device/uart.c\<close>): formatted kernel output, the
  line-edited input buffer, and the device read and write routines that \<open>devsw\<close> names for
  the inode layer. The UART is its two character streams: \<open>uart_tx\<close> what has been sent,
  \<open>uart_rx\<close> what has been received and not yet read. \<open>call_pcs\<close> stands for the return
  addresses that \<open>getcallerpcs\<close> finds on the stack.
\<close>

section \<open>State\<close>

definition INPUT_BUF :: nat where "INPUT_BUF = 512"
definition NDEV :: nat where "NDEV = 10"
definition CONSOLE :: nat where "CONSOLE = 1"
definition BACKSPACE :: int where "BACKSPACE = 0x100"
definition N_CALLSTK :: nat where "N_CALLSTK = 15"

text \<open>The functions a \<open>struct devsw\<close> can hold: only the console registers any.\<close>

datatype devfun = Dev_console

record kcons = kinode +
  cons_locking :: bool
  panicked :: bool
  in_buf :: bytes
  in_r :: uint
  in_w :: uint
  in_e :: uint
  uart_rx :: "uint8 list"
  uart_tx :: "uint8 list"
  devsw_read :: "nat \<Rightarrow> devfun option"
  devsw_write :: "nat \<Rightarrow> devfun option"
  call_pcs :: "nat \<Rightarrow> uint64"

section \<open>Output\<close>

definition uartputc :: "int \<Rightarrow> 'z kcons_scheme \<Rightarrow> 'z kcons_scheme" where
  "uartputc c s = s\<lparr>uart_tx := uart_tx s @ [word_of_int c]\<rparr>"

text \<open>After a panic every other CPU stops in \<open>consputc\<close>.\<close>

definition consputc :: "int \<Rightarrow> 'z kcons_scheme \<Rightarrow> ('z kcons_scheme, unit) outcome" where
  "consputc c s =
     (if panicked s then Diverge
      else if c = BACKSPACE then Ok () (uartputc 8 (uartputc 32 (uartputc 8 s)))
      else Ok () (uartputc c s))"

fun consputs :: "uint8 list \<Rightarrow> 'z kcons_scheme \<Rightarrow> ('z kcons_scheme, unit) outcome" where
  "consputs [] s = Ok () s"
| "consputs (c # cs) s = andthen (consputc (uint c) s) (\<lambda>_ s1. consputs cs s1)"

text \<open>\<open>printint\<close>: the digits, least significant first, as the \<open>do\<close> loop stores them in
  \<open>buf\<close>. The test \<open>xx < 0\<close> is on an unsigned argument. More than 16 characters are stored
  out of the bounds of \<open>buf\<close>.\<close>

definition digits :: "nat \<Rightarrow> uint8" where
  "digits d = of_char (''0123456789abcdef'' ! d)"

function pi_digits :: "nat \<Rightarrow> nat \<Rightarrow> nat list" where
  "pi_digits base x = (x mod base) # (if base < 2 \<or> x div base = 0 then [] else pi_digits base (x div base))"
  by auto

termination
proof (relation "measure snd")
  fix base x :: nat
  assume "\<not> (base < 2 \<or> x div base = 0)"
  then have "1 < base" "0 < x" by (auto intro: gr0I)
  then show "((base, x div base), base, x) \<in> measure snd" by simp
qed simp

definition printint :: "uint64 \<Rightarrow> nat \<Rightarrow> bool \<Rightarrow> 'z kcons_scheme \<Rightarrow> ('z kcons_scheme, unit) outcome" where
  "printint xx base sign s =
     (let neg = (sign \<and> xx < 0); x = (if neg then - xx else xx);
          buf = map digits (pi_digits base (unat x)) @ (if neg then [45] else [])
      in if 16 < length buf then Fault else consputs (rev buf) s)"

text \<open>Arguments of \<open>cprintf\<close>: a number, or a string up to its NUL (\<open>None\<close> is the null pointer).\<close>

datatype carg = ANum uint64 | AStr "uint8 list option"

text \<open>An \<open>int\<close> passed for \<open>%d\<close> fills the low half of its register; the high half is zero.\<close>

definition int_arg :: "int \<Rightarrow> uint64" where "int_arg i = ucast (word_of_int i :: uint)"

definition ascii :: "string \<Rightarrow> uint8 list" where "ascii cs = map of_char cs"

fun cprintf_loop :: "string \<Rightarrow> carg list \<Rightarrow> 'z kcons_scheme \<Rightarrow> ('z kcons_scheme, unit) outcome" where
  "cprintf_loop [] args s = Ok () s"
| "cprintf_loop (c # cs) args s =
     (if c \<noteq> CHR ''%'' then andthen (consputc (of_char c) s) (\<lambda>_ s1. cprintf_loop cs args s1)
      else (case cs of [] \<Rightarrow> Ok () s
            | d # ds \<Rightarrow>
                if d = CHR ''d'' then
                  (case args of ANum x # as \<Rightarrow> andthen (printint x 10 True s) (\<lambda>_ s1. cprintf_loop ds as s1) | _ \<Rightarrow> Fault)
                else if d = CHR ''x'' \<or> d = CHR ''p'' then
                  (case args of ANum x # as \<Rightarrow> andthen (printint x 16 False s) (\<lambda>_ s1. cprintf_loop ds as s1) | _ \<Rightarrow> Fault)
                else if d = CHR ''s'' then
                  (case args of AStr str # as \<Rightarrow>
                       andthen (consputs (case str of None \<Rightarrow> ascii ''(null)'' | Some cs \<Rightarrow> cs) s) (\<lambda>_ s1. cprintf_loop ds as s1)
                   | _ \<Rightarrow> Fault)
                else if d = CHR ''%'' then andthen (consputc (of_char d) s) (\<lambda>_ s1. cprintf_loop ds args s1)
                else andthen (consputc 37 s) (\<lambda>_ s1. andthen (consputc (of_char d) s1) (\<lambda>_ s2. cprintf_loop ds args s2))))"

definition cprintf :: "string \<Rightarrow> carg list \<Rightarrow> 'z kcons_scheme \<Rightarrow> ('z kcons_scheme, unit) outcome" where
  "cprintf fmt args s =
     (let locking = cons_locking s
      in andthen (cprintf_loop fmt args (if locking then acquire Lk_cons s else s)) (\<lambda>_ s1.
           if locking then release Lk_cons s1 else Ok () s1))"

fun callstk_loop :: "nat list \<Rightarrow> 'z kcons_scheme \<Rightarrow> ('z kcons_scheme, unit) outcome" where
  "callstk_loop [] s = Ok () s"
| "callstk_loop (i # is) s =
     andthen (cprintf (''%d: 0x%x'' @ [CHR 0x0A]) [ANum (of_nat (i + 1)), ANum (call_pcs s i)] s) (\<lambda>_ s1. callstk_loop is s1)"

definition show_callstk :: "string \<Rightarrow> 'z kcons_scheme \<Rightarrow> ('z kcons_scheme, unit) outcome" where
  "show_callstk str s =
     andthen (cprintf (''%s'' @ [CHR 0x0A]) [AStr (Some (ascii str))] s) (\<lambda>_ s1. callstk_loop (rev [0..<N_CALLSTK]) s1)"

definition state_name :: "procstate \<Rightarrow> string" where
  "state_name st = (case st of UNUSED \<Rightarrow> ''unused'' | EMBRYO \<Rightarrow> ''embryo'' | SLEEPING \<Rightarrow> ''sleep ''
     | RUNNABLE \<Rightarrow> ''runble'' | RUNNING \<Rightarrow> ''run   '' | ZOMBIE \<Rightarrow> ''zombie'')"

fun procdump_loop :: "nat list \<Rightarrow> 'z kcons_scheme \<Rightarrow> ('z kcons_scheme, unit) outcome" where
  "procdump_loop [] s = Ok () s"
| "procdump_loop (p # ps) s =
     (let q = ptable s p
      in if p_state q = UNUSED then procdump_loop ps s
         else andthen (cprintf (''%d %s %s'' @ [CHR 0x0A])
                [ANum (int_arg (p_pid q)), AStr (Some (ascii (state_name (p_state q)))), AStr (Some (p_name q))] s)
              (\<lambda>_ s1. procdump_loop ps s1))"

definition procdump :: "'z kcons_scheme \<Rightarrow> ('z kcons_scheme, unit) outcome" where
  "procdump s = andthen (procdump_loop [0..<NPROC] s) (\<lambda>_ s1. show_callstk (''procdump: '' @ [CHR 0x0A]) s1)"

section \<open>Input\<close>

definition in_idx :: "uint \<Rightarrow> nat" where "in_idx i = unat (i mod of_nat INPUT_BUF)"

text \<open>\<open>C('U')\<close>: erase back to the start of the line or the last committed character.\<close>

function kill_line :: "'z kcons_scheme \<Rightarrow> ('z kcons_scheme, unit) outcome" where
  "kill_line s =
     (if in_e s \<noteq> in_w s \<and> in_buf s (in_idx (in_e s - 1)) \<noteq> 10
      then andthen (consputc BACKSPACE (s\<lparr>in_e := in_e s - 1\<rparr>)) (\<lambda>_ s1. kill_line s1)
      else Ok () s)"
  by auto

termination
proof (relation "measure (\<lambda>s. unat (in_e s - in_w s))")
  fix s :: "'z kcons_scheme" and x t
  assume c: "in_e s \<noteq> in_w s \<and> in_buf s (in_idx (in_e s - 1)) \<noteq> 10"
    and "consputc BACKSPACE (s\<lparr>in_e := in_e s - 1\<rparr>) = Ok x t"
  then have "in_e t = in_e s - 1" "in_w t = in_w s"
    by (auto simp: consputc_def uartputc_def split: if_splits)
  moreover have "unat (in_e s - 1 - in_w s) < unat (in_e s - in_w s)"
  proof -
    have "in_e s - in_w s \<noteq> 0" using c by simp
    then have "unat (in_e s - in_w s - 1) = unat (in_e s - in_w s) - 1" by (simp add: unat_minus_one)
    moreover have "0 < unat (in_e s - in_w s)" using \<open>in_e s - in_w s \<noteq> 0\<close> by (simp add: unat_gt_0)
    ultimately show ?thesis by (simp add: algebra_simps)
  qed
  ultimately show "(t, s) \<in> measure (\<lambda>s. unat (in_e s - in_w s))" by simp
qed simp

lemma consputc_fields:
  "consputc c s = Ok () t \<Longrightarrow> t = s\<lparr>uart_tx := uart_tx t\<rparr>"
  by (auto simp: consputc_def uartputc_def split: if_splits)

definition consoleintr_char :: "uint8 \<Rightarrow> 'z kcons_scheme \<Rightarrow> ('z kcons_scheme, unit) outcome" where
  "consoleintr_char c s =
     (if c = 0x10 then procdump s
      else if c = 0x15 then kill_line s
      else if c = 0x08 \<or> c = 0x7F
      then (if in_e s \<noteq> in_w s then consputc BACKSPACE (s\<lparr>in_e := in_e s - 1\<rparr>) else Ok () s)
      else if c \<noteq> 0 \<and> in_e s - in_r s < of_nat INPUT_BUF
      then (let c' = (if c = 13 then 10 else c);
                s1 = s\<lparr>in_buf := (in_buf s)(in_idx (in_e s) := c'), in_e := in_e s + 1\<rparr>
            in andthen (consputc (uint c') s1) (\<lambda>_ s2.
                 if c' = 10 \<or> c' = 4 \<or> in_e s2 = in_r s2 + of_nat INPUT_BUF
                 then wakeup Ch_input_r (s2\<lparr>in_w := in_e s2\<rparr>) else Ok () s2))
      else Ok () s)"

text \<open>The loop over the characters that \<open>uartgetc\<close> delivers until the receive FIFO is empty.\<close>

fun consoleintr_loop :: "uint8 list \<Rightarrow> 'z kcons_scheme \<Rightarrow> ('z kcons_scheme, unit) outcome" where
  "consoleintr_loop [] s = Ok () s"
| "consoleintr_loop (c # cs) s = andthen (consoleintr_char c (s\<lparr>uart_rx := cs\<rparr>)) (\<lambda>_ s1. consoleintr_loop cs s1)"

definition consoleintr :: "'z kcons_scheme \<Rightarrow> ('z kcons_scheme, unit) outcome" where
  "consoleintr s =
     andthen (consoleintr_loop (uart_rx s) (acquire Lk_input s)) (\<lambda>_ s1. release Lk_input s1)"

section \<open>The console as a device\<close>

text \<open>\<open>consoleread\<close>: the bytes stored through \<open>dst\<close> are part of the result. It leaves the inode
  unlocked while it waits; \<open>consoleread_resume\<close> continues a reader that was woken.\<close>

definition consoleread_end :: "nat \<Rightarrow> nat \<Rightarrow> uint8 list \<Rightarrow> 'z kcons_scheme \<Rightarrow> ('z kcons_scheme, int \<times> uint8 list) outcome" where
  "consoleread_end ip cnt acc s =
     andthen (release Lk_input s) (\<lambda>_ s1. andthen (ilock ip s1) (\<lambda>_ s2. Ok (int cnt, acc) s2))"

fun consoleread_loop :: "nat \<Rightarrow> nat \<Rightarrow> nat \<Rightarrow> uint8 list \<Rightarrow> 'z kcons_scheme \<Rightarrow> ('z kcons_scheme, int \<times> uint8 list) outcome" where
  "consoleread_loop ip target 0 acc s = consoleread_end ip target acc s"
| "consoleread_loop ip target (Suc n) acc s =
     (if in_r s = in_w s
      then (case cproc s of None \<Rightarrow> Fault
            | Some p \<Rightarrow>
                if p_killed (ptable s p)
                then andthen (release Lk_input s) (\<lambda>_ s1. andthen (ilock ip s1) (\<lambda>_ s2. Ok (- 1, acc) s2))
                else blocked (sleep Ch_input_r (Some Lk_input) s))
      else (let c = in_buf s (in_idx (in_r s)); s1 = s\<lparr>in_r := in_r s + 1\<rparr>
            in if c = 4
               then consoleread_end ip (target - Suc n) acc (if Suc n < target then s1\<lparr>in_r := in_r s1 - 1\<rparr> else s1)
               else if c = 10 then consoleread_end ip (target - n) (acc @ [c]) s1
               else consoleread_loop ip target n (acc @ [c]) s1))"

definition consoleread :: "nat \<Rightarrow> int \<Rightarrow> 'z kcons_scheme \<Rightarrow> ('z kcons_scheme, int \<times> uint8 list) outcome" where
  "consoleread ip n s =
     andthen (iunlock ip s) (\<lambda>_ s1. consoleread_loop ip (nat n) (nat n) [] (acquire Lk_input s1))"

definition consoleread_resume :: "nat \<Rightarrow> nat \<Rightarrow> nat \<Rightarrow> uint8 list \<Rightarrow> 'z kcons_scheme \<Rightarrow> ('z kcons_scheme, int \<times> uint8 list) outcome" where
  "consoleread_resume ip target n acc s = andthen (sleep_resume Lk_input s) (\<lambda>_ s1. consoleread_loop ip target n acc s1)"

definition consolewrite :: "nat \<Rightarrow> (nat \<Rightarrow> uint8) \<Rightarrow> int \<Rightarrow> 'z kcons_scheme \<Rightarrow> ('z kcons_scheme, int) outcome" where
  "consolewrite ip buf n s =
     andthen (iunlock ip s) (\<lambda>_ s1.
     andthen (consputs (map buf [0..<nat n]) (acquire Lk_cons s1)) (\<lambda>_ s2.
     andthen (release Lk_cons s2) (\<lambda>_ s3.
     andthen (ilock ip s3) (\<lambda>_ s4. Ok n s4))))"

definition consoleinit :: "'z kcons_scheme \<Rightarrow> 'z kcons_scheme" where
  "consoleinit s =
     (initlock Lk_input (initlock Lk_cons s))\<lparr>
        devsw_write := (devsw_write s)(CONSOLE := Some Dev_console),
        devsw_read := (devsw_read s)(CONSOLE := Some Dev_console), cons_locking := True\<rparr>"

end
