(* ===== verification/Fs.thy ===== *)
theory Fs
  imports Console KString
begin

text \<open>
  The upper half of the file system (\<^verbatim>\<open>fs.c\<close>): reading and writing inode contents,
  directories and path names. What a routine stores through a destination pointer is part of
  its result. A path is the list of its bytes before the NUL; a name is an array of
  \<open>DIRSIZ\<close> bytes.
\<close>

section \<open>Reading and writing\<close>

definition dev_ok :: "(nat \<Rightarrow> devfun option) \<Rightarrow> uint16 \<Rightarrow> bool" where
  "dev_ok tab major \<longleftrightarrow> \<not> (sint major < 0 \<or> sint major \<ge> int NDEV \<or> tab (unat major) = None)"

definition chunk :: "nat \<Rightarrow> nat \<Rightarrow> nat" where
  "chunk off rem = min rem (BSIZE - off mod BSIZE)"

lemma chunk_pos: "0 < rem \<Longrightarrow> 0 < chunk off rem"
  by (simp add: chunk_def BSIZE_def)

text \<open>The copy loops, with \<open>rem = n - tot\<close> bytes to go from offset \<open>off\<close> on.\<close>

function readi_loop :: "nat \<Rightarrow> nat \<Rightarrow> nat \<Rightarrow> uint8 list \<Rightarrow> 'z kcons_scheme \<Rightarrow> ('z kcons_scheme, uint8 list) outcome" where
  "readi_loop ip off rem acc s =
     (if rem = 0 then Ok acc s
      else andthen (bmap ip (off div BSIZE) s) (\<lambda>addr s1.
           andthen (bread (i_dev (icache s1 ip)) addr s1) (\<lambda>bp s2.
             let m = chunk off rem; d = b_data (bc_buf s2 bp)
             in andthen (brelse bp s2) (\<lambda>_ s3.
                  readi_loop ip (off + m) (rem - m) (acc @ map (\<lambda>i. d (off mod BSIZE + i)) [0..<m]) s3))))"
  by auto

termination
  by (relation "measure (\<lambda>(ip, off, rem, acc, s). rem)") (auto simp: chunk_pos)

definition dev_read :: "nat \<Rightarrow> uint \<Rightarrow> 'z kcons_scheme \<Rightarrow> ('z kcons_scheme, int \<times> uint8 list) outcome" where
  "dev_read ip n s = (case devsw_read s (unat (i_major (icache s ip))) of
     None \<Rightarrow> Fault | Some Dev_console \<Rightarrow> consoleread ip (sint n) s)"

definition readi :: "nat \<Rightarrow> uint \<Rightarrow> uint \<Rightarrow> 'z kcons_scheme \<Rightarrow> ('z kcons_scheme, int \<times> uint8 list) outcome" where
  "readi ip off n s =
     (let nd = icache s ip
      in if i_type nd = T_DEV
         then (if dev_ok (devsw_read s) (i_major nd) then dev_read ip n s else Ok (- 1, []) s)
         else if off > i_size nd \<or> off + n < off then Ok (- 1, []) s
         else (let n' = (if off + n > i_size nd then i_size nd - off else n)
               in andthen (readi_loop ip (unat off) (unat n') [] s) (\<lambda>data s1. Ok (sint n', data) s1)))"

function writei_loop :: "nat \<Rightarrow> (nat \<Rightarrow> uint8) \<Rightarrow> nat \<Rightarrow> nat \<Rightarrow> nat \<Rightarrow> 'z kcons_scheme \<Rightarrow> ('z kcons_scheme, unit) outcome" where
  "writei_loop ip src pos off rem s =
     (if rem = 0 then Ok () s
      else andthen (bmap ip (off div BSIZE) s) (\<lambda>addr s1.
           andthen (bread (i_dev (icache s1 ip)) addr s1) (\<lambda>bp s2.
             let m = chunk off rem; o1 = off mod BSIZE;
                 d = (\<lambda>i. if o1 \<le> i \<and> i < o1 + m then src (pos + (i - o1)) else b_data (bc_buf s2 bp) i)
             in andthen (log_write bp (set_bdata bp d s2)) (\<lambda>_ s3.
                andthen (brelse bp s3) (\<lambda>_ s4. writei_loop ip src (pos + m) (off + m) (rem - m) s4)))))"
  by auto

termination
  by (relation "measure (\<lambda>(ip, src, pos, off, rem, s). rem)") (auto simp: chunk_pos)

definition dev_write :: "nat \<Rightarrow> (nat \<Rightarrow> uint8) \<Rightarrow> uint \<Rightarrow> 'z kcons_scheme \<Rightarrow> ('z kcons_scheme, int) outcome" where
  "dev_write ip src n s = (case devsw_write s (unat (i_major (icache s ip))) of
     None \<Rightarrow> Fault | Some Dev_console \<Rightarrow> consolewrite ip src (sint n) s)"

definition writei :: "nat \<Rightarrow> (nat \<Rightarrow> uint8) \<Rightarrow> uint \<Rightarrow> uint \<Rightarrow> 'z kcons_scheme \<Rightarrow> ('z kcons_scheme, int) outcome" where
  "writei ip src off n s =
     (let nd = icache s ip
      in if i_type nd = T_DEV
         then (if dev_ok (devsw_write s) (i_major nd) then dev_write ip src n s else Ok (- 1) s)
         else if off > i_size nd \<or> off + n < off then Ok (- 1) s
         else if unat (off + n) > MAXFILE * BSIZE then Ok (- 1) s
         else andthen (writei_loop ip src 0 (unat off) (unat n) s) (\<lambda>_ s1.
              andthen (if n > 0 \<and> off + n > i_size (icache s1 ip)
                       then iupdate ip (upd_inode ip (\<lambda>x. x\<lparr>i_size := off + n\<rparr>) s1) else Ok () s1) (\<lambda>_ s2.
                Ok (sint n) s2)))"

section \<open>Directories\<close>

text \<open>\<open>strncmp\<close> and \<open>strncpy\<close> on two arrays of \<open>DIRSIZ\<close> bytes, laid out one after the other.\<close>

definition two_names :: "bytes \<Rightarrow> bytes \<Rightarrow> bytes" where
  "two_names s t = (\<lambda>a. if a < DIRSIZ then s a else t (a - DIRSIZ))"

definition namecmp :: "bytes \<Rightarrow> bytes \<Rightarrow> int" where
  "namecmp s t = strncmp (two_names s t) 0 DIRSIZ DIRSIZ"

definition name_copy :: "bytes \<Rightarrow> bytes \<Rightarrow> bytes" where
  "name_copy dst name = (\<lambda>i. strncpy DIRSIZ 0 (int DIRSIZ) (two_names name dst) (DIRSIZ + i))"

text \<open>The offsets \<open>0, sizeof(de), ...\<close> below the size of a directory.\<close>

definition dir_offs :: "uint \<Rightarrow> nat list" where
  "dir_offs sz = map (\<lambda>k. sizeof_dirent * k) [0..<(unat sz + (sizeof_dirent - 1)) div sizeof_dirent]"

definition read_dirent :: "string \<Rightarrow> nat \<Rightarrow> nat \<Rightarrow> 'z kcons_scheme \<Rightarrow> ('z kcons_scheme, dirent) outcome" where
  "read_dirent msg dp off s =
     andthen (readi dp (of_nat off) (of_nat sizeof_dirent) s) (\<lambda>(r, data) s1.
       if r \<noteq> int sizeof_dirent then Panic msg else Ok (get_dirent (\<lambda>i. if i < length data then data ! i else 0)) s1)"

fun dirlookup_loop :: "nat \<Rightarrow> bytes \<Rightarrow> nat list \<Rightarrow> 'z kcons_scheme \<Rightarrow> ('z kcons_scheme, (nat \<times> uint) option) outcome" where
  "dirlookup_loop dp name [] s = Ok None s"
| "dirlookup_loop dp name (off # offs) s =
     andthen (read_dirent ''dirlink read'' dp off s) (\<lambda>de s1.
       if de_inum de \<noteq> 0 \<and> namecmp name (de_name de) = 0
       then andthen (iget (i_dev (icache s1 dp)) (ucast (de_inum de)) s1) (\<lambda>ip s2. Ok (Some (ip, of_nat off)) s2)
       else dirlookup_loop dp name offs s1)"

definition dirlookup :: "nat \<Rightarrow> bytes \<Rightarrow> 'z kcons_scheme \<Rightarrow> ('z kcons_scheme, (nat \<times> uint) option) outcome" where
  "dirlookup dp name s =
     (if i_type (icache s dp) \<noteq> T_DIR then Panic ''dirlookup not DIR''
      else dirlookup_loop dp name (dir_offs (i_size (icache s dp))) s)"

text \<open>The search of \<open>dirlink\<close> for an empty entry: its offset, or where the loop ends.\<close>

fun dirlink_find :: "nat \<Rightarrow> nat list \<Rightarrow> nat \<Rightarrow> 'z kcons_scheme \<Rightarrow> ('z kcons_scheme, nat) outcome" where
  "dirlink_find dp [] stop s = Ok stop s"
| "dirlink_find dp (off # offs) stop s =
     andthen (read_dirent ''dirlink read'' dp off s) (\<lambda>de s1.
       if de_inum de = 0 then Ok off s1 else dirlink_find dp offs stop s1)"

definition dirlink :: "nat \<Rightarrow> bytes \<Rightarrow> uint \<Rightarrow> 'z kcons_scheme \<Rightarrow> ('z kcons_scheme, int) outcome" where
  "dirlink dp name inum s =
     andthen (dirlookup dp name s) (\<lambda>found s1.
       case found of
         Some (ip, _) \<Rightarrow> andthen (iput ip s1) (\<lambda>_ s2. Ok (- 1) s2)
       | None \<Rightarrow>
           (let offs = dir_offs (i_size (icache s1 dp))
            in andthen (dirlink_find dp offs (sizeof_dirent * length offs) s1) (\<lambda>off s2.
                 let de = \<lparr>de_inum = ucast inum, de_name = name_copy (\<lambda>_. 0) name\<rparr>
                 in andthen (writei dp (put_dirent de) (of_nat off) (of_nat sizeof_dirent) s2) (\<lambda>r s3.
                      if r \<noteq> int sizeof_dirent then Panic ''dirlink'' else Ok 0 s3))))"

section \<open>Paths\<close>

text \<open>\<open>skipelem\<close>: the rest of the path and the name buffer after the copy, or no element.\<close>

definition skipelem :: "uint8 list \<Rightarrow> bytes \<Rightarrow> (uint8 list \<times> bytes) option" where
  "skipelem path name =
     (let p = dropWhile (\<lambda>c. c = 47) path
      in if p = [] then None
         else (let s = takeWhile (\<lambda>c. c \<noteq> 47) p; len = length s; p2 = dropWhile (\<lambda>c. c \<noteq> 47) p;
                   name' = (if DIRSIZ \<le> len then (\<lambda>i. if i < DIRSIZ then s ! i else name i)
                            else (\<lambda>i. if i < len then s ! i else if i = len then 0 else name i))
               in Some (dropWhile (\<lambda>c. c = 47) p2, name')))"

lemma skipelem_shorter: "skipelem path name = Some (path', name') \<Longrightarrow> length path' < length path"
proof -
  assume s: "skipelem path name = Some (path', name')"
  let ?p = "dropWhile (\<lambda>c. c = 47) path"
  have p: "?p \<noteq> []" "path' = dropWhile (\<lambda>c. c = 47) (dropWhile (\<lambda>c. c \<noteq> 47) ?p)"
    using s by (auto simp: skipelem_def Let_def split: if_splits)
  then have "hd ?p \<noteq> 47" using hd_dropWhile by blast
  then have "length (dropWhile (\<lambda>c. c \<noteq> 47) ?p) < length ?p"
    using p(1) length_dropWhile_le [of _ "tl ?p"] by (cases ?p) (auto simp: less_Suc_eq_le)
  moreover have "length path' \<le> length (dropWhile (\<lambda>c. c \<noteq> 47) ?p)" unfolding p(2) by (rule length_dropWhile_le)
  moreover have "length ?p \<le> length path" by (rule length_dropWhile_le)
  ultimately show ?thesis by linarith
qed

function namex_loop :: "bool \<Rightarrow> uint8 list \<Rightarrow> bytes \<Rightarrow> nat \<Rightarrow> 'z kcons_scheme \<Rightarrow> ('z kcons_scheme, nat option \<times> bytes) outcome" where
  "namex_loop nameiparent path name ip s =
     (case skipelem path name of
        None \<Rightarrow> if nameiparent then andthen (iput ip s) (\<lambda>_ s1. Ok (None, name) s1) else Ok (Some ip, name) s
      | Some (path', name') \<Rightarrow>
          andthen (ilock ip s) (\<lambda>_ s1.
            if i_type (icache s1 ip) \<noteq> T_DIR
            then andthen (iunlockput ip s1) (\<lambda>_ s2. Ok (None, name') s2)
            else if nameiparent \<and> path' = []
            then andthen (iunlock ip s1) (\<lambda>_ s2. Ok (Some ip, name') s2)
            else andthen (dirlookup ip name' s1) (\<lambda>found s2.
                   andthen (iunlockput ip s2) (\<lambda>_ s3.
                     case found of None \<Rightarrow> Ok (None, name') s3
                     | Some (next, _) \<Rightarrow> namex_loop nameiparent path' name' next s3))))"
  by auto

termination
  by (relation "measure (\<lambda>(np, path, name, ip, s). length path)") (auto simp: skipelem_shorter)

definition namex :: "uint8 list \<Rightarrow> bool \<Rightarrow> bytes \<Rightarrow> 'z kcons_scheme \<Rightarrow> ('z kcons_scheme, nat option \<times> bytes) outcome" where
  "namex path nameiparent name s =
     andthen (if path \<noteq> [] \<and> hd path = 47 then iget (word_of_int ROOTDEV) ROOTINO s
              else (case cproc s of None \<Rightarrow> Fault
                    | Some p \<Rightarrow> (case p_cwd (ptable s p) of None \<Rightarrow> Fault | Some cwd \<Rightarrow> idup cwd s)))
       (\<lambda>ip s1. namex_loop nameiparent path name ip s1)"

definition namei :: "uint8 list \<Rightarrow> 'z kcons_scheme \<Rightarrow> ('z kcons_scheme, nat option) outcome" where
  "namei path s = andthen (namex path False (\<lambda>_. 0) s) (\<lambda>(ip, _) s1. Ok ip s1)"

definition nameiparent :: "uint8 list \<Rightarrow> 'z kcons_scheme \<Rightarrow> ('z kcons_scheme, nat option \<times> bytes) outcome" where
  "nameiparent path s = namex path True (\<lambda>_. 0) s"

end
