(* ===== verification/File.thy ===== *)
theory File
  imports Fs
begin

text \<open>
  Open files (\<^verbatim>\<open>file.c\<close>) and pipes (\<^verbatim>\<open>pipe.c\<close>). A \<open>struct file\<close> pointer is an index of
  \<open>ftable.file\<close>; a pipe is found by the address that \<open>kmalloc\<close> returned for it. Bytes stored
  through a buffer address are part of the result, bytes read from one are given as a
  function. The \<open>_resume\<close> definitions continue a process that waited.
\<close>

section \<open>State\<close>

definition NFILE :: nat where "NFILE = 100"
definition PIPESIZE :: nat where "PIPESIZE = 512"

datatype ftype = FD_NONE | FD_PIPE | FD_INODE

record file_t =
  f_type :: ftype
  f_ref :: int
  f_readable :: bool
  f_writable :: bool
  f_pipe :: uint64
  f_ip :: nat
  f_off :: uint

record pipe =
  pp_data :: bytes
  pp_nread :: uint
  pp_nwrite :: uint
  pp_readopen :: bool
  pp_writeopen :: bool

record kfile = kcons +
  ftable :: "nat \<Rightarrow> file_t"
  pipes :: "uint64 \<Rightarrow> pipe"

definition upd_file :: "nat \<Rightarrow> (file_t \<Rightarrow> file_t) \<Rightarrow> 'z kfile_scheme \<Rightarrow> 'z kfile_scheme" where
  "upd_file f g s = s\<lparr>ftable := (ftable s)(f := g (ftable s f))\<rparr>"

definition upd_pipe :: "uint64 \<Rightarrow> (pipe \<Rightarrow> pipe) \<Rightarrow> 'z kfile_scheme \<Rightarrow> 'z kfile_scheme" where
  "upd_pipe p g s = s\<lparr>pipes := (pipes s)(p := g (pipes s p))\<rparr>"

text \<open>\<open>sizeof(struct pipe)\<close>: the lock (64 bytes), the data and four 32-bit fields.\<close>

definition sizeof_pipe :: uint where "sizeof_pipe = 64 + of_nat PIPESIZE + 4 * 4"

section \<open>The file table\<close>

definition fileinit :: "'z kfile_scheme \<Rightarrow> 'z kfile_scheme" where
  "fileinit s = initlock Lk_ftable s"

definition filealloc :: "'z kfile_scheme \<Rightarrow> ('z kfile_scheme, nat option) outcome" where
  "filealloc s =
     (let s1 = acquire Lk_ftable s
      in case List.find (\<lambda>f. f_ref (ftable s1 f) = 0) [0..<NFILE] of
           Some f \<Rightarrow> andthen (release Lk_ftable (upd_file f (\<lambda>x. x\<lparr>f_ref := 1\<rparr>) s1)) (\<lambda>_ s2. Ok (Some f) s2)
         | None \<Rightarrow> andthen (release Lk_ftable s1) (\<lambda>_ s2. Ok None s2))"

definition filedup :: "nat \<Rightarrow> 'z kfile_scheme \<Rightarrow> ('z kfile_scheme, nat) outcome" where
  "filedup f s =
     (let s1 = acquire Lk_ftable s
      in if f_ref (ftable s1 f) < 1 then Panic ''filedup''
         else andthen (release Lk_ftable (upd_file f (\<lambda>x. x\<lparr>f_ref := f_ref x + 1\<rparr>) s1)) (\<lambda>_ s2. Ok f s2))"

definition pipeclose :: "uint64 \<Rightarrow> bool \<Rightarrow> 'z kfile_scheme \<Rightarrow> ('z kfile_scheme, unit) outcome" where
  "pipeclose p writable s =
     (let s1 = acquire (Lk_pipe p) s
      in andthen (if writable then wakeup (Ch_nread p) (upd_pipe p (\<lambda>x. x\<lparr>pp_writeopen := False\<rparr>) s1)
                  else wakeup (Ch_nwrite p) (upd_pipe p (\<lambda>x. x\<lparr>pp_readopen := False\<rparr>) s1)) (\<lambda>_ s2.
           if \<not> pp_readopen (pipes s2 p) \<and> \<not> pp_writeopen (pipes s2 p)
           then andthen (release (Lk_pipe p) s2) (\<lambda>_ s3.
                andthen (get_order sizeof_pipe s3) (\<lambda>k s4. kfree p (int k) s4))
           else release (Lk_pipe p) s2))"

definition fileclose :: "nat \<Rightarrow> 'z kfile_scheme \<Rightarrow> ('z kfile_scheme, unit) outcome" where
  "fileclose f s =
     (let s1 = acquire Lk_ftable s
      in if f_ref (ftable s1 f) < 1 then Panic ''fileclose''
         else (let s2 = upd_file f (\<lambda>x. x\<lparr>f_ref := f_ref x - 1\<rparr>) s1
               in if f_ref (ftable s2 f) > 0 then release Lk_ftable s2
                  else (let ff = ftable s2 f
                        in andthen (release Lk_ftable (upd_file f (\<lambda>x. x\<lparr>f_ref := 0, f_type := FD_NONE\<rparr>) s2)) (\<lambda>_ s3.
                             case f_type ff of
                               FD_PIPE \<Rightarrow> pipeclose (f_pipe ff) (f_writable ff) s3
                             | FD_INODE \<Rightarrow>
                                 andthen (begin_trans s3) (\<lambda>_ s4.
                                 andthen (iput (f_ip ff) s4) (\<lambda>_ s5. commit_trans s5))
                             | FD_NONE \<Rightarrow> Ok () s3))))"

section \<open>Pipes\<close>

definition pipealloc_bad :: "nat option \<Rightarrow> nat option \<Rightarrow> 'z kfile_scheme \<Rightarrow> ('z kfile_scheme, (nat \<times> nat) option) outcome" where
  "pipealloc_bad f0 f1 s =
     andthen (case f0 of Some f \<Rightarrow> fileclose f s | None \<Rightarrow> Ok () s) (\<lambda>_ s1.
     andthen (case f1 of Some f \<Rightarrow> fileclose f s1 | None \<Rightarrow> Ok () s1) (\<lambda>_ s2. Ok None s2))"

definition pipealloc :: "'z kfile_scheme \<Rightarrow> ('z kfile_scheme, (nat \<times> nat) option) outcome" where
  "pipealloc s =
     andthen (filealloc s) (\<lambda>f0 s1. case f0 of None \<Rightarrow> pipealloc_bad None None s1 | Some r \<Rightarrow>
     andthen (filealloc s1) (\<lambda>f1 s2. case f1 of None \<Rightarrow> pipealloc_bad (Some r) None s2 | Some w \<Rightarrow>
     andthen (get_order sizeof_pipe s2) (\<lambda>k s3.
     andthen (kmalloc (int k) s3) (\<lambda>p s4.
       if p = 0 then pipealloc_bad (Some r) (Some w) s4
       else (let s5 = upd_pipe p (\<lambda>x. x\<lparr>pp_readopen := True, pp_writeopen := True, pp_nwrite := 0, pp_nread := 0\<rparr>) s4;
                 s6 = initlock (Lk_pipe p) s5;
                 s7 = upd_file r (\<lambda>x. x\<lparr>f_type := FD_PIPE, f_readable := True, f_writable := False, f_pipe := p\<rparr>) s6;
                 s8 = upd_file w (\<lambda>x. x\<lparr>f_type := FD_PIPE, f_readable := False, f_writable := True, f_pipe := p\<rparr>) s7
             in Ok (Some (r, w)) s8)))))"

definition pipe_idx :: "uint \<Rightarrow> nat" where "pipe_idx i = unat (i mod of_nat PIPESIZE)"

fun pipewrite_loop :: "uint64 \<Rightarrow> int \<Rightarrow> uint8 list \<Rightarrow> 'z kfile_scheme \<Rightarrow> ('z kfile_scheme, int) outcome" where
  "pipewrite_loop p n [] s =
     andthen (wakeup (Ch_nread p) s) (\<lambda>_ s1. andthen (release (Lk_pipe p) s1) (\<lambda>_ s2. Ok n s2))"
| "pipewrite_loop p n (c # cs) s =
     (let x = pipes s p
      in if pp_nwrite x = pp_nread x + of_nat PIPESIZE
         then (if \<not> pp_readopen x then andthen (release (Lk_pipe p) s) (\<lambda>_ s1. Ok (- 1) s1)
               else andthen (wakeup (Ch_nread p) s) (\<lambda>_ s1. blocked (sleep (Ch_nwrite p) (Some (Lk_pipe p)) s1)))
         else pipewrite_loop p n cs
                (upd_pipe p (\<lambda>x. x\<lparr>pp_data := (pp_data x)(pipe_idx (pp_nwrite x) := c), pp_nwrite := pp_nwrite x + 1\<rparr>) s))"

definition pipewrite :: "uint64 \<Rightarrow> (nat \<Rightarrow> uint8) \<Rightarrow> int \<Rightarrow> 'z kfile_scheme \<Rightarrow> ('z kfile_scheme, int) outcome" where
  "pipewrite p addr n s = pipewrite_loop p n (map addr [0..<nat n]) (acquire (Lk_pipe p) s)"

definition pipewrite_resume :: "uint64 \<Rightarrow> int \<Rightarrow> uint8 list \<Rightarrow> 'z kfile_scheme \<Rightarrow> ('z kfile_scheme, int) outcome" where
  "pipewrite_resume p n cs s = andthen (sleep_resume (Lk_pipe p) s) (\<lambda>_ s1. pipewrite_loop p n cs s1)"

fun piperead_copy :: "uint64 \<Rightarrow> nat \<Rightarrow> uint8 list \<Rightarrow> 'z kfile_scheme \<Rightarrow> uint8 list \<times> 'z kfile_scheme" where
  "piperead_copy p 0 acc s = (acc, s)"
| "piperead_copy p (Suc n) acc s =
     (let x = pipes s p
      in if pp_nread x = pp_nwrite x then (acc, s)
         else piperead_copy p n (acc @ [pp_data x (pipe_idx (pp_nread x))]) (upd_pipe p (\<lambda>x. x\<lparr>pp_nread := pp_nread x + 1\<rparr>) s))"

definition piperead_loop :: "uint64 \<Rightarrow> int \<Rightarrow> 'z kfile_scheme \<Rightarrow> ('z kfile_scheme, int \<times> uint8 list) outcome" where
  "piperead_loop p n s =
     (let x = pipes s p
      in if pp_nread x = pp_nwrite x \<and> pp_writeopen x
         then (case cproc s of None \<Rightarrow> Fault
               | Some q \<Rightarrow> if p_killed (ptable s q) then andthen (release (Lk_pipe p) s) (\<lambda>_ s1. Ok (- 1, []) s1)
                           else blocked (sleep (Ch_nread p) (Some (Lk_pipe p)) s))
         else (let (data, s1) = piperead_copy p (nat n) [] s
               in andthen (wakeup (Ch_nwrite p) s1) (\<lambda>_ s2.
                  andthen (release (Lk_pipe p) s2) (\<lambda>_ s3. Ok (int (length data), data) s3))))"

definition piperead :: "uint64 \<Rightarrow> int \<Rightarrow> 'z kfile_scheme \<Rightarrow> ('z kfile_scheme, int \<times> uint8 list) outcome" where
  "piperead p n s = piperead_loop p n (acquire (Lk_pipe p) s)"

definition piperead_resume :: "uint64 \<Rightarrow> int \<Rightarrow> 'z kfile_scheme \<Rightarrow> ('z kfile_scheme, int \<times> uint8 list) outcome" where
  "piperead_resume p n s = andthen (sleep_resume (Lk_pipe p) s) (\<lambda>_ s1. piperead_loop p n s1)"

section \<open>Reading and writing open files\<close>

definition filestat :: "nat \<Rightarrow> 'z kfile_scheme \<Rightarrow> ('z kfile_scheme, fstat option) outcome" where
  "filestat f s =
     (if f_type (ftable s f) = FD_INODE
      then (let ip = f_ip (ftable s f)
            in andthen (ilock ip s) (\<lambda>_ s1. let st = stati ip s1 in andthen (iunlock ip s1) (\<lambda>_ s2. Ok (Some st) s2)))
      else Ok None s)"

definition fileread :: "nat \<Rightarrow> int \<Rightarrow> 'z kfile_scheme \<Rightarrow> ('z kfile_scheme, int \<times> uint8 list) outcome" where
  "fileread f n s =
     (if \<not> f_readable (ftable s f) then Ok (- 1, []) s
      else (case f_type (ftable s f) of
              FD_PIPE \<Rightarrow> piperead (f_pipe (ftable s f)) n s
            | FD_INODE \<Rightarrow>
                (let ip = f_ip (ftable s f)
                 in andthen (ilock ip s) (\<lambda>_ s1.
                    andthen (readi ip (f_off (ftable s1 f)) (word_of_int n) s1) (\<lambda>(r, data) s2.
                      let s3 = (if r > 0 then upd_file f (\<lambda>x. x\<lparr>f_off := f_off x + word_of_int r\<rparr>) s2 else s2)
                      in andthen (iunlock ip s3) (\<lambda>_ s4. Ok (r, data) s4))))
            | FD_NONE \<Rightarrow> Panic ''fileread''))"

text \<open>The number of bytes one transaction of \<open>filewrite\<close> writes at most.\<close>

definition write_max :: nat where "write_max = ((LOGSIZE - 1 - 1 - 2) div 2) * 512"

lemma write_max_pos: "0 < write_max"
  by (simp add: write_max_def LOGSIZE_def)

function filewrite_loop :: "nat \<Rightarrow> (nat \<Rightarrow> uint8) \<Rightarrow> nat \<Rightarrow> nat \<Rightarrow> 'z kfile_scheme \<Rightarrow> ('z kfile_scheme, bool) outcome" where
  "filewrite_loop f addr i rem s =
     (if rem = 0 then Ok True s
      else (let n1 = min rem write_max; ip = f_ip (ftable s f)
            in andthen (begin_trans s) (\<lambda>_ s1.
               andthen (ilock ip s1) (\<lambda>_ s2.
               andthen (writei ip (\<lambda>j. addr (i + j)) (f_off (ftable s2 f)) (of_nat n1) s2) (\<lambda>r s3.
                 let s4 = (if r > 0 then upd_file f (\<lambda>x. x\<lparr>f_off := f_off x + word_of_int r\<rparr>) s3 else s3)
                 in andthen (iunlock ip s4) (\<lambda>_ s5.
                    andthen (commit_trans s5) (\<lambda>_ s6.
                      if r < 0 then Ok False s6
                      else if r \<noteq> int n1 then Panic ''short filewrite''
                      else filewrite_loop f addr (i + n1) (rem - n1) s6)))))))"
  by auto

termination
  by (relation "measure (\<lambda>(f, addr, i, rem, s). rem)") (auto simp: write_max_pos)

definition filewrite :: "nat \<Rightarrow> (nat \<Rightarrow> uint8) \<Rightarrow> int \<Rightarrow> 'z kfile_scheme \<Rightarrow> ('z kfile_scheme, int) outcome" where
  "filewrite f addr n s =
     (if \<not> f_writable (ftable s f) then Ok (- 1) s
      else (case f_type (ftable s f) of
              FD_PIPE \<Rightarrow> pipewrite (f_pipe (ftable s f)) addr n s
            | FD_INODE \<Rightarrow>
                andthen (filewrite_loop f addr 0 (nat n) s) (\<lambda>all s1. Ok (if all \<and> 0 \<le> n then n else - 1) s1)
            | FD_NONE \<Rightarrow> Panic ''filewrite''))"

end
