(* ===== verification/Vm.thy ===== *)
theory Vm
  imports File
begin

text \<open>
  Virtual memory (\<^verbatim>\<open>vm.c\<close>, \<^verbatim>\<open>mmu.h\<close>, \<^verbatim>\<open>memlayout.h\<close>): page table pages, the three-level walk,
  user address spaces and copying into them. \<open>kdata\<close> is the contents of physical memory by
  kernel virtual address, byte by byte; page tables, user pages and the free list of page
  table pages live there. The TLB is not modelled, so \<open>flush_tlb\<close> has no effect.
\<close>

section \<open>State and memory access\<close>

record kvm = kfile +
  kdata :: "uint64 \<Rightarrow> uint8"
  kpt_freelist :: uint64
  ticks :: uint

definition ld64 :: "(uint64 \<Rightarrow> uint8) \<Rightarrow> uint64 \<Rightarrow> uint64" where
  "ld64 m a = foldr (\<lambda>i w. ucast (m (a + of_nat i)) OR push_bit 8 w) [0..<8] 0"

definition st64 :: "uint64 \<Rightarrow> uint64 \<Rightarrow> (uint64 \<Rightarrow> uint8) \<Rightarrow> uint64 \<Rightarrow> uint8" where
  "st64 a v m = (\<lambda>x. if unat (x - a) < 8 then ucast (drop_bit (8 * unat (x - a)) v) else m x)"

text \<open>\<open>memset\<close> and \<open>memmove\<close> on kernel memory.\<close>

definition kfill :: "uint64 \<Rightarrow> nat \<Rightarrow> uint8 \<Rightarrow> (uint64 \<Rightarrow> uint8) \<Rightarrow> uint64 \<Rightarrow> uint8" where
  "kfill a n c m = (\<lambda>x. if unat (x - a) < n then c else m x)"

definition kput :: "uint64 \<Rightarrow> nat \<Rightarrow> (nat \<Rightarrow> uint8) \<Rightarrow> (uint64 \<Rightarrow> uint8) \<Rightarrow> uint64 \<Rightarrow> uint8" where
  "kput a n f m = (\<lambda>x. if unat (x - a) < n then f (unat (x - a)) else m x)"

definition kcopy :: "uint64 \<Rightarrow> uint64 \<Rightarrow> nat \<Rightarrow> (uint64 \<Rightarrow> uint8) \<Rightarrow> uint64 \<Rightarrow> uint8" where
  "kcopy dst src n m = kput dst n (\<lambda>i. m (src + of_nat i)) m"

definition PHY_START :: uint64 where "PHY_START = 0x40000000"
definition v2p :: "uint64 \<Rightarrow> uint64" where "v2p a = a - KERNBASE"
definition p2v :: "uint64 \<Rightarrow> uint64" where "p2v a = a + KERNBASE"

definition INIT_KERNMAP :: uint64 where "INIT_KERNMAP = 0x200000 + 0x40000000"

definition PTE_SZ :: nat where "PTE_SZ = 2 ^ PTE_SHIFT"
definition PMD_SZ :: nat where "PMD_SZ = 2 ^ 21"
definition UADDR_SZ :: nat where "UADDR_SZ = 2 ^ 28"
definition PTRS_PER_PGD :: nat where "PTRS_PER_PGD = 4"
definition PTRS_PER_PMD :: nat where "PTRS_PER_PMD = 512"
definition PT_SZ :: nat where "PT_SZ = 512 * 8"
definition PT_ORDER :: int where "PT_ORDER = 10"

definition PG_ADDR_MASK :: uint64 where "PG_ADDR_MASK = 0xFFFFFFFFF000"
definition PGD_IDX :: "uint64 \<Rightarrow> uint64" where "PGD_IDX v = drop_bit 30 v AND 3"
definition PMD_IDX :: "uint64 \<Rightarrow> uint64" where "PMD_IDX v = drop_bit 21 v AND 511"
definition PTE_IDX :: "uint64 \<Rightarrow> uint64" where "PTE_IDX v = drop_bit 12 v AND 511"
definition align_dn :: "uint64 \<Rightarrow> uint64" where "align_dn v = v AND NOT 0xFFF"
definition align_up :: "nat \<Rightarrow> nat \<Rightarrow> nat" where "align_up v al = (v + al - 1) div al * al"
definition PTE_ADDR :: "uint64 \<Rightarrow> uint64" where "PTE_ADDR v = align_dn v"
definition AP_RW_1 :: uint64 where "AP_RW_1 = 0"
definition AP_RW_1_0 :: uint64 where "AP_RW_1_0 = 0x40"
definition PTE_AP :: "uint64 \<Rightarrow> uint64" where "PTE_AP pte = pte AND 0xC0"

text \<open>\<open>ENTRY_TABLE | ENTRY_VALID\<close>, the same bits as \<open>ENTRY_PAGE | ENTRY_VALID\<close>.\<close>

definition present :: "uint64 \<Rightarrow> bool" where "present e \<longleftrightarrow> e AND 3 \<noteq> 0"

text \<open>The attributes \<open>mappages\<close> sets: access flag, inner shareable, non-secure, memory
  attribute 4, page, valid.\<close>

definition pte_flags :: uint64 where "pte_flags = 0x733"

section \<open>Page table pages\<close>

definition init_vmm :: "'z kvm_scheme \<Rightarrow> 'z kvm_scheme" where
  "init_vmm s = (initlock Lk_kpt s)\<lparr>kpt_freelist := 0\<rparr>"

definition kpt_free1 :: "uint64 \<Rightarrow> 'z kvm_scheme \<Rightarrow> 'z kvm_scheme" where
  "kpt_free1 v s = s\<lparr>kdata := st64 v (kpt_freelist s) (kdata s), kpt_freelist := v\<rparr>"

definition kpt_free :: "uint64 \<Rightarrow> 'z kvm_scheme \<Rightarrow> ('z kvm_scheme, unit) outcome" where
  "kpt_free v s =
     (if v \<ge> p2v INIT_KERNMAP then kfree v PT_ORDER s
      else release Lk_kpt (kpt_free1 v (acquire Lk_kpt s)))"

text \<open>\<open>kpt_freerange\<close>: the addresses \<open>low, low + PT_SZ, ...\<close> below \<open>hi\<close>.\<close>

definition kpt_freerange :: "uint64 \<Rightarrow> uint64 \<Rightarrow> 'z kvm_scheme \<Rightarrow> 'z kvm_scheme" where
  "kpt_freerange low hi s =
     fold (\<lambda>k. kpt_free1 (low + of_nat (k * PT_SZ))) [0..<(unat hi - unat low + PT_SZ - 1) div PT_SZ] s"

definition kpt_alloc :: "'z kvm_scheme \<Rightarrow> ('z kvm_scheme, uint64) outcome" where
  "kpt_alloc s =
     (let s1 = acquire Lk_kpt s; r = kpt_freelist s1;
          s2 = (if r \<noteq> 0 then s1\<lparr>kpt_freelist := ld64 (kdata s1) r\<rparr> else s1)
      in andthen (release Lk_kpt s2) (\<lambda>_ s3.
         andthen (if r = 0 then kmalloc PT_ORDER s3 else Ok r s3) (\<lambda>r s4.
           if r = 0 then Panic ''oom: kpt_alloc''
           else Ok r (s4\<lparr>kdata := kfill r PT_SZ 0 (kdata s4)\<rparr>))))"

text \<open>One level of the walk: the table that entry \<open>e\<close> of a table points to, allocated on demand.\<close>

definition walk_level :: "uint64 \<Rightarrow> bool \<Rightarrow> 'z kvm_scheme \<Rightarrow> ('z kvm_scheme, uint64 option) outcome" where
  "walk_level e alloc s =
     (let v = ld64 (kdata s) e
      in if present v then Ok (Some (p2v (v AND PG_ADDR_MASK))) s
         else if \<not> alloc then Ok None s
         else andthen (kpt_alloc s) (\<lambda>t s1.
                Ok (Some t) (s1\<lparr>kdata := st64 e (v2p t OR 3) (kfill t PT_SZ 0 (kdata s1))\<rparr>)))"

definition walkpgdir :: "uint64 \<Rightarrow> uint64 \<Rightarrow> bool \<Rightarrow> 'z kvm_scheme \<Rightarrow> ('z kvm_scheme, uint64 option) outcome" where
  "walkpgdir pgdbase va alloc s =
     andthen (walk_level (pgdbase + 8 * PGD_IDX va) alloc s) (\<lambda>pmdbase s1.
       case pmdbase of None \<Rightarrow> Ok None s1
       | Some pmd \<Rightarrow>
           andthen (walk_level (pmd + 8 * PMD_IDX va) alloc s1) (\<lambda>ptebase s2.
             case ptebase of None \<Rightarrow> Ok None s2 | Some pte \<Rightarrow> Ok (Some (pte + 8 * PTE_IDX va)) s2))"

text \<open>\<open>mappages\<close>: \<open>k\<close> more pages follow the one at \<open>a\<close>.\<close>

fun mappages_loop :: "uint64 \<Rightarrow> nat \<Rightarrow> uint64 \<Rightarrow> uint \<Rightarrow> uint64 \<Rightarrow> 'z kvm_scheme \<Rightarrow> ('z kvm_scheme, int) outcome" where
  "mappages_loop pgdir k a pa ap s =
     andthen (walkpgdir pgdir a True s) (\<lambda>pte s1.
       case pte of None \<Rightarrow> Ok (- 1) s1
       | Some pte \<Rightarrow>
           if present (ld64 (kdata s1) pte) then Panic ''remap''
           else (let s2 = s1\<lparr>kdata := st64 pte (ucast pa OR pte_flags OR ap) (kdata s1)\<rparr>
                 in case k of 0 \<Rightarrow> Ok 0 s2
                    | Suc k' \<Rightarrow> mappages_loop pgdir k' (a + of_nat PTE_SZ) (pa + of_nat PTE_SZ) ap s2))"

definition mappages :: "uint64 \<Rightarrow> uint64 \<Rightarrow> uint \<Rightarrow> uint \<Rightarrow> uint64 \<Rightarrow> 'z kvm_scheme \<Rightarrow> ('z kvm_scheme, int) outcome" where
  "mappages pgdir va sz pa ap s =
     (let a = align_dn va; last = align_dn (va + ucast sz - 1)
      in mappages_loop pgdir (unat (last - a) div PTE_SZ) a pa ap s)"

definition paging_init :: "uint64 \<Rightarrow> uint64 \<Rightarrow> uint64 \<Rightarrow> 'z kvm_scheme \<Rightarrow> ('z kvm_scheme, unit) outcome" where
  "paging_init kernel_pgtbl phy_low phy_hi s =
     andthen (mappages (p2v kernel_pgtbl) (p2v phy_low) (ucast (phy_hi - phy_low)) (ucast phy_low) AP_RW_1_0 s) (\<lambda>_ s1. Ok () s1)"

section \<open>User address spaces\<close>

definition inituvm :: "uint64 \<Rightarrow> (nat \<Rightarrow> uint8) \<Rightarrow> uint \<Rightarrow> 'z kvm_scheme \<Rightarrow> ('z kvm_scheme, unit) outcome" where
  "inituvm pgdir ini sz s =
     (if PTE_SZ \<le> unat sz then Panic ''inituvm: more than a page''
      else andthen (alloc_page s) (\<lambda>mem s1.
           if mem = 0 then Fault
           else andthen (mappages pgdir 0 (of_nat PTE_SZ) (ucast (v2p mem)) AP_RW_1_0
                           (s1\<lparr>kdata := kfill mem PTE_SZ 0 (kdata s1)\<rparr>)) (\<lambda>_ s2.
                  Ok () (s2\<lparr>kdata := kput mem (unat sz) ini (kdata s2)\<rparr>))))"

fun loaduvm_loop :: "uint64 \<Rightarrow> uint64 \<Rightarrow> nat \<Rightarrow> uint \<Rightarrow> nat \<Rightarrow> nat list \<Rightarrow> 'z kvm_scheme \<Rightarrow> ('z kvm_scheme, int) outcome" where
  "loaduvm_loop pgdir addr ip foff sz [] s = Ok 0 s"
| "loaduvm_loop pgdir addr ip foff sz (i # is) s =
     andthen (walkpgdir pgdir (addr + of_nat i) False s) (\<lambda>pte s1.
       case pte of None \<Rightarrow> Panic ''loaduvm: address should exist''
       | Some pte \<Rightarrow>
           (let pa = (ucast (PTE_ADDR (ld64 (kdata s1) pte)) :: uint); n = min PTE_SZ (sz - i)
            in andthen (readi ip (foff + of_nat i) (of_nat n) s1) (\<lambda>(r, data) s2.
                 let s3 = s2\<lparr>kdata := kput (p2v (ucast pa)) (length data) (\<lambda>j. data ! j) (kdata s2)\<rparr>
                 in if r \<noteq> int n then Ok (- 1) s3 else loaduvm_loop pgdir addr ip foff sz is s3)))"

definition page_offs :: "nat \<Rightarrow> nat list" where
  "page_offs sz = map (\<lambda>k. k * PTE_SZ) [0..<(sz + PTE_SZ - 1) div PTE_SZ]"

definition loaduvm :: "uint64 \<Rightarrow> uint64 \<Rightarrow> nat \<Rightarrow> uint \<Rightarrow> uint \<Rightarrow> 'z kvm_scheme \<Rightarrow> ('z kvm_scheme, int) outcome" where
  "loaduvm pgdir addr ip foff sz s =
     (if unat addr mod PTE_SZ \<noteq> 0 then Panic ''loaduvm: addr must be page aligned''
      else loaduvm_loop pgdir addr ip foff (unat sz) (page_offs (unat sz)) s)"

text \<open>\<open>deallocuvm\<close>: the loop over \<open>a\<close>. An address without a page table is rounded up to the next
  \<open>PMD_SZ\<close>, and then the loop still adds \<open>PTE_SZ\<close>.\<close>

lemma align_up_ge: "0 < al \<Longrightarrow> v \<le> align_up v al"
  using mod_less_divisor [of al "v + al - 1"] div_mult_mod_eq [of "v + al - 1" al]
  unfolding align_up_def by linarith

function deallocuvm_loop :: "uint64 \<Rightarrow> nat \<Rightarrow> nat \<Rightarrow> 'z kvm_scheme \<Rightarrow> ('z kvm_scheme, unit) outcome" where
  "deallocuvm_loop pgdir a oldsz s =
     (if a \<ge> oldsz then Ok () s
      else andthen (walkpgdir pgdir (of_nat a) False s) (\<lambda>pte s1.
           case pte of
             None \<Rightarrow> deallocuvm_loop pgdir (align_up a PMD_SZ + PTE_SZ) oldsz s1
           | Some pte \<Rightarrow>
               if present (ld64 (kdata s1) pte)
               then (let pa = (ucast (PTE_ADDR (ld64 (kdata s1) pte)) :: uint)
                     in if pa = 0 then Panic ''deallocuvm''
                        else andthen (free_page (p2v (ucast pa)) s1) (\<lambda>_ s2.
                               deallocuvm_loop pgdir (a + PTE_SZ) oldsz (s2\<lparr>kdata := st64 pte 0 (kdata s2)\<rparr>)))
               else deallocuvm_loop pgdir (a + PTE_SZ) oldsz s1))"
  by auto

termination
proof (relation "measure (\<lambda>(pgdir, a, oldsz, s). oldsz - a)", goal_cases)
  case (2 pgdir a oldsz s pte s1)
  have "a \<le> align_up a PMD_SZ" by (rule align_up_ge) (simp add: PMD_SZ_def)
  moreover have "0 < PTE_SZ" by (simp add: PTE_SZ_def)
  ultimately have "a < align_up a PMD_SZ + PTE_SZ" by linarith
  then show ?case using 2(1) by simp
qed (auto simp: PTE_SZ_def PTE_SHIFT_def)

lemma dealloc_step: "a < align_up a PMD_SZ + PTE_SZ" "0 < PTE_SZ"
proof -
  have "a \<le> align_up a PMD_SZ" by (rule align_up_ge) (simp add: PMD_SZ_def)
  then show "a < align_up a PMD_SZ + PTE_SZ" "0 < PTE_SZ" by (simp_all add: PTE_SZ_def less_Suc_eq_le order.strict_trans1)
qed

definition deallocuvm :: "uint64 \<Rightarrow> uint \<Rightarrow> uint \<Rightarrow> 'z kvm_scheme \<Rightarrow> ('z kvm_scheme, uint) outcome" where
  "deallocuvm pgdir oldsz newsz s =
     (if newsz \<ge> oldsz then Ok oldsz s
      else andthen (deallocuvm_loop pgdir (align_up (unat newsz) PTE_SZ) (unat oldsz) s) (\<lambda>_ s1. Ok newsz s1))"

function allocuvm_loop :: "uint64 \<Rightarrow> nat \<Rightarrow> uint \<Rightarrow> uint \<Rightarrow> 'z kvm_scheme \<Rightarrow> ('z kvm_scheme, uint) outcome" where
  "allocuvm_loop pgdir a oldsz newsz s =
     (if a \<ge> unat newsz then Ok newsz s
      else andthen (alloc_page s) (\<lambda>mem s1.
           if mem = 0
           then andthen (cprintf (''allocuvm out of memory'' @ [CHR 0x0A]) [] s1) (\<lambda>_ s2.
                andthen (deallocuvm pgdir newsz oldsz s2) (\<lambda>_ s3. Ok 0 s3))
           else andthen (mappages pgdir (of_nat a) (of_nat PTE_SZ) (ucast (v2p mem)) AP_RW_1_0
                           (s1\<lparr>kdata := kfill mem PTE_SZ 0 (kdata s1)\<rparr>)) (\<lambda>_ s2.
                  allocuvm_loop pgdir (a + PTE_SZ) oldsz newsz s2)))"
  by auto

termination
  by (relation "measure (\<lambda>(pgdir, a, oldsz, newsz, s). unat newsz - a)") (auto simp: PTE_SZ_def PTE_SHIFT_def)

definition allocuvm :: "uint64 \<Rightarrow> uint \<Rightarrow> uint \<Rightarrow> 'z kvm_scheme \<Rightarrow> ('z kvm_scheme, uint) outcome" where
  "allocuvm pgdir oldsz newsz s =
     (if unat newsz \<ge> UADDR_SZ then Ok 0 s
      else if newsz < oldsz then Ok oldsz s
      else allocuvm_loop pgdir (align_up (unat oldsz) PTE_SZ) oldsz newsz s)"

fun freevm_pmds :: "uint64 \<Rightarrow> nat list \<Rightarrow> 'z kvm_scheme \<Rightarrow> ('z kvm_scheme, unit) outcome" where
  "freevm_pmds pmdbase [] s = Ok () s"
| "freevm_pmds pmdbase (i # is) s =
     (let e = ld64 (kdata s) (pmdbase + 8 * of_nat i)
      in if present e then andthen (kpt_free (p2v (align_dn e)) s) (\<lambda>_ s1. freevm_pmds pmdbase is s1)
         else freevm_pmds pmdbase is s)"

fun freevm_pgds :: "uint64 \<Rightarrow> nat list \<Rightarrow> 'z kvm_scheme \<Rightarrow> ('z kvm_scheme, unit) outcome" where
  "freevm_pgds pgdir [] s = Ok () s"
| "freevm_pgds pgdir (j # js) s =
     (let e = ld64 (kdata s) (pgdir + 8 * of_nat j)
      in if present e
         then (let pmdbase = p2v (e AND PG_ADDR_MASK)
               in andthen (freevm_pmds pmdbase [0..<PTRS_PER_PMD] s) (\<lambda>_ s1.
                  andthen (kpt_free pmdbase s1) (\<lambda>_ s2. freevm_pgds pgdir js s2)))
         else freevm_pgds pgdir js s)"

definition freevm :: "uint64 \<Rightarrow> 'z kvm_scheme \<Rightarrow> ('z kvm_scheme, unit) outcome" where
  "freevm pgdir s =
     (if pgdir = 0 then Panic ''freevm: no pgdir''
      else andthen (deallocuvm pgdir (of_nat UADDR_SZ) 0 s) (\<lambda>_ s1.
           andthen (freevm_pgds pgdir [0..<PTRS_PER_PGD] s1) (\<lambda>_ s2. kpt_free pgdir s2)))"

definition clearpteu :: "uint64 \<Rightarrow> uint64 \<Rightarrow> 'z kvm_scheme \<Rightarrow> ('z kvm_scheme, unit) outcome" where
  "clearpteu pgdir uva s =
     andthen (walkpgdir pgdir uva False s) (\<lambda>pte s1.
       case pte of None \<Rightarrow> Panic ''clearpteu''
       | Some pte \<Rightarrow> Ok () (s1\<lparr>kdata := st64 pte ((ld64 (kdata s1) pte AND NOT 0xC0) OR AP_RW_1) (kdata s1)\<rparr>))"

text \<open>\<open>copyuvm\<close>: the loop returns whether all pages were copied; if not, the new space is freed.\<close>

fun copyuvm_loop :: "uint64 \<Rightarrow> uint64 \<Rightarrow> nat list \<Rightarrow> 'z kvm_scheme \<Rightarrow> ('z kvm_scheme, bool) outcome" where
  "copyuvm_loop pgdir d [] s = Ok True s"
| "copyuvm_loop pgdir d (i # is) s =
     andthen (walkpgdir pgdir (of_nat i) False s) (\<lambda>pte s1.
       case pte of None \<Rightarrow> Panic ''copyuvm: pte should exist''
       | Some pte \<Rightarrow>
           (let e = ld64 (kdata s1) pte
            in if \<not> present e then Panic ''copyuvm: page not present''
               else andthen (alloc_page s1) (\<lambda>mem s2.
                 if mem = 0 then Ok False s2
                 else andthen (mappages d (of_nat i) (of_nat PTE_SZ) (ucast (v2p mem)) (PTE_AP e)
                                (s2\<lparr>kdata := kcopy mem (p2v (PTE_ADDR e)) PTE_SZ (kdata s2)\<rparr>)) (\<lambda>r s3.
                        if r < 0 then Ok False s3 else copyuvm_loop pgdir d is s3))))"

definition copyuvm :: "uint64 \<Rightarrow> uint \<Rightarrow> 'z kvm_scheme \<Rightarrow> ('z kvm_scheme, uint64) outcome" where
  "copyuvm pgdir sz s =
     andthen (kpt_alloc s) (\<lambda>d s1.
       if d = 0 then Ok 0 s1
       else andthen (copyuvm_loop pgdir d (page_offs (unat sz)) s1) (\<lambda>ok s2.
              if ok then Ok d s2 else andthen (freevm d s2) (\<lambda>_ s3. Ok 0 s3)))"

text \<open>\<open>uva2ka\<close> dereferences the result of the walk without a test.\<close>

definition uva2ka :: "uint64 \<Rightarrow> uint64 \<Rightarrow> 'z kvm_scheme \<Rightarrow> ('z kvm_scheme, uint64) outcome" where
  "uva2ka pgdir uva s =
     andthen (walkpgdir pgdir uva False s) (\<lambda>pte s1.
       case pte of None \<Rightarrow> Fault
       | Some pte \<Rightarrow>
           (let e = ld64 (kdata s1) pte
            in if \<not> present e then Ok 0 s1
               else if PTE_AP e \<noteq> AP_RW_1_0 then Ok 0 s1
               else Ok (p2v (PTE_ADDR e)) s1))"

function copyout_loop :: "uint64 \<Rightarrow> uint \<Rightarrow> (nat \<Rightarrow> uint8) \<Rightarrow> nat \<Rightarrow> nat \<Rightarrow> 'z kvm_scheme \<Rightarrow> ('z kvm_scheme, int) outcome" where
  "copyout_loop pgdir va buf pos len s =
     (if len = 0 then Ok 0 s
      else (let va0 = unat va div PTE_SZ * PTE_SZ; o1 = unat va mod PTE_SZ; n = min len (PTE_SZ - o1)
            in andthen (uva2ka pgdir (of_nat va0) s) (\<lambda>pa0 s1.
                 if pa0 = 0 then Ok (- 1) s1
                 else copyout_loop pgdir (of_nat (va0 + PTE_SZ)) buf (pos + n) (len - n)
                        (s1\<lparr>kdata := kput (pa0 + of_nat o1) n (\<lambda>i. buf (pos + i)) (kdata s1)\<rparr>))))"
  by auto

termination
  by (relation "measure (\<lambda>(pgdir, va, buf, pos, len, s). len)") (auto simp: PTE_SZ_def PTE_SHIFT_def)

definition copyout :: "uint64 \<Rightarrow> uint \<Rightarrow> (nat \<Rightarrow> uint8) \<Rightarrow> uint \<Rightarrow> 'z kvm_scheme \<Rightarrow> ('z kvm_scheme, int) outcome" where
  "copyout pgdir va p len s = copyout_loop pgdir va p 0 (unat len) s"

section \<open>User memory as the kernel sees it\<close>

text \<open>While a process runs, its page table is installed in \<open>ttbr0\<close> and the kernel accesses user
  addresses through it: the hardware walk, and loads and stores of bytes.\<close>

definition hw_walk :: "'z kvm_scheme \<Rightarrow> uint64 \<Rightarrow> uint64 option" where
  "hw_walk s va =
     (let e1 = ld64 (kdata s) (p2v (ttbr0 s) + 8 * PGD_IDX va)
      in if e1 AND 3 \<noteq> 3 then None
         else (let e2 = ld64 (kdata s) (p2v (e1 AND PG_ADDR_MASK) + 8 * PMD_IDX va)
               in if e2 AND 3 \<noteq> 3 then None
                  else (let e3 = ld64 (kdata s) (p2v (e2 AND PG_ADDR_MASK) + 8 * PTE_IDX va)
                        in if e3 AND 3 \<noteq> 3 then None
                           else Some (p2v (e3 AND PG_ADDR_MASK) + (va AND 0xFFF)))))"

definition uload8 :: "uint64 \<Rightarrow> 'z kvm_scheme \<Rightarrow> uint8 option" where
  "uload8 va s = map_option (kdata s) (hw_walk s va)"

fun uload :: "uint64 \<Rightarrow> nat \<Rightarrow> 'z kvm_scheme \<Rightarrow> uint8 list option" where
  "uload va 0 s = Some []"
| "uload va (Suc n) s = (case uload8 va s of None \<Rightarrow> None | Some c \<Rightarrow> map_option ((#) c) (uload (va + 1) n s))"

fun ustore :: "uint64 \<Rightarrow> uint8 list \<Rightarrow> 'z kvm_scheme \<Rightarrow> ('z kvm_scheme, unit) outcome" where
  "ustore va [] s = Ok () s"
| "ustore va (c # cs) s =
     (case hw_walk s va of None \<Rightarrow> Fault | Some a \<Rightarrow> ustore (va + 1) cs (s\<lparr>kdata := (kdata s)(a := c)\<rparr>))"

end
