(* ===== verification/Proc.thy ===== *)
theory Proc
  imports Vm
begin

text \<open>
  The life cycle of processes (\<^verbatim>\<open>proc.c\<close>): allocation, the first process, growth, fork, exit
  and wait. \<open>forkret_addr\<close> and \<open>trapret_addr\<close> are the addresses the linker gives to
  \<open>forkret\<close> and \<open>trapret\<close>; \<open>forkret_first\<close> is the static \<open>first\<close> of \<open>forkret\<close>. A process name is
  the bytes before its NUL.
\<close>

record kproc = kvm +
  forkret_first :: bool
  forkret_addr :: uint64
  trapret_addr :: uint64

definition KSTACKSIZE :: nat where "KSTACKSIZE = 4096"
definition NOFILE :: nat where "NOFILE = 16"
definition sizeof_trapframe :: uint64 where "sizeof_trapframe = 34 * 8"

definition pinit :: "'z kcore_scheme \<Rightarrow> 'z kcore_scheme" where
  "pinit s = initlock Lk_ptable s"

text \<open>\<open>safestrcpy(name, str, sizeof(name))\<close> into the 16 bytes of a process name.\<close>

definition set_name :: "uint8 list \<Rightarrow> uint8 list" where "set_name cs = take 15 cs"

definition allocproc :: "'z kproc_scheme \<Rightarrow> ('z kproc_scheme, nat option) outcome" where
  "allocproc s =
     (let s1 = acquire Lk_ptable s
      in case List.find (\<lambda>p. p_state (ptable s1 p) = UNUSED) [0..<NPROC] of
           None \<Rightarrow> andthen (release Lk_ptable s1) (\<lambda>_ s2. Ok None s2)
         | Some p \<Rightarrow>
             (let s2 = (upd_proc p (\<lambda>q. q\<lparr>p_state := EMBRYO, p_pid := nextpid s1\<rparr>) s1)\<lparr>nextpid := nextpid s1 + 1\<rparr>
              in andthen (release Lk_ptable s2) (\<lambda>_ s3.
                 andthen (alloc_page s3) (\<lambda>k s4.
                   let s5 = upd_proc p (\<lambda>q. q\<lparr>p_kstack := k\<rparr>) s4
                   in if k = 0 then Ok None (upd_proc p (\<lambda>q. q\<lparr>p_state := UNUSED\<rparr>) s5)
                      else (let sp = k + of_nat KSTACKSIZE - sizeof_trapframe;
                                s6 = s5\<lparr>kdata := st64 (sp - 16) (k + of_nat KSTACKSIZE) (st64 (sp - 8) (trapret_addr s5) (kdata s5))\<rparr>
                            in Ok (Some p) (upd_proc p (\<lambda>q. q\<lparr>p_context := \<lparr>ctx_r = (\<lambda>_. 0), ctx_lr = forkret_addr s6 + 8\<rparr>\<rparr>) s6))))))"

definition zero_trapframe :: trapframe where
  "zero_trapframe = \<lparr>tf_sp = 0, tf_pc = 0, tf_spsr = 0, tf_r = (\<lambda>_. 0)\<rparr>"

text \<open>\<open>userinit\<close>: the image of \<open>initcode\<close> and its size come from the linker.\<close>

definition userinit :: "(nat \<Rightarrow> uint8) \<Rightarrow> uint \<Rightarrow> 'z kproc_scheme \<Rightarrow> ('z kproc_scheme, unit) outcome" where
  "userinit initcode initcode_size s =
     andthen (allocproc s) (\<lambda>p s1.
       let s2 = s1\<lparr>initproc := p\<rparr>
       in case p of None \<Rightarrow> Fault
          | Some p \<Rightarrow>
              andthen (kpt_alloc s2) (\<lambda>pgdir s3.
                let s4 = upd_proc p (\<lambda>q. q\<lparr>p_pgdir := pgdir\<rparr>) s3
                in if pgdir = 0 then Panic ''userinit: out of memory?''
                   else andthen (inituvm pgdir initcode initcode_size s4) (\<lambda>_ s5.
                     let s6 = upd_proc p (\<lambda>q. q\<lparr>p_sz := of_nat PTE_SZ,
                                 p_tf := zero_trapframe\<lparr>tf_sp := of_nat PTE_SZ\<rparr>,
                                 p_name := set_name (ascii ''initcode'')\<rparr>) s5
                     in andthen (namei [47] s6) (\<lambda>cwd s7.
                          Ok () (upd_proc p (\<lambda>q. q\<lparr>p_cwd := cwd, p_state := RUNNABLE\<rparr>) s7)))))"

definition growproc :: "int \<Rightarrow> 'z kproc_scheme \<Rightarrow> ('z kproc_scheme, int) outcome" where
  "growproc n s =
     (case cproc s of None \<Rightarrow> Fault
      | Some p \<Rightarrow>
          (let q = ptable s p; sz = (ucast (p_sz q) :: uint)
           in andthen (if n > 0 then allocuvm (p_pgdir q) sz (sz + word_of_int n) s
                       else if n < 0 then deallocuvm (p_pgdir q) sz (sz + word_of_int n) s
                       else Ok sz s) (\<lambda>sz' s1.
                if n \<noteq> 0 \<and> sz' = 0 then Ok (- 1) s1
                else andthen (switchuvm p (upd_proc p (\<lambda>q. q\<lparr>p_sz := ucast sz'\<rparr>) s1)) (\<lambda>_ s2. Ok 0 s2))))"

fun fork_files :: "nat \<Rightarrow> nat \<Rightarrow> nat list \<Rightarrow> 'z kproc_scheme \<Rightarrow> ('z kproc_scheme, unit) outcome" where
  "fork_files p np [] s = Ok () s"
| "fork_files p np (i # is) s =
     (case p_ofile (ptable s p) i of
        None \<Rightarrow> fork_files p np is s
      | Some f \<Rightarrow> andthen (filedup f s) (\<lambda>f' s1.
          fork_files p np is (upd_proc np (\<lambda>q. q\<lparr>p_ofile := (p_ofile q)(i := Some f')\<rparr>) s1)))"

definition fork :: "'z kproc_scheme \<Rightarrow> ('z kproc_scheme, int) outcome" where
  "fork s =
     andthen (allocproc s) (\<lambda>np s1.
       case np of None \<Rightarrow> Ok (- 1) s1
       | Some np \<Rightarrow>
           (case cproc s1 of None \<Rightarrow> Fault
            | Some p \<Rightarrow>
                andthen (copyuvm (p_pgdir (ptable s1 p)) (ucast (p_sz (ptable s1 p))) s1) (\<lambda>pgdir s2.
                  let s3 = upd_proc np (\<lambda>q. q\<lparr>p_pgdir := pgdir\<rparr>) s2
                  in if pgdir = 0
                     then andthen (free_page (p_kstack (ptable s3 np)) s3) (\<lambda>_ s4.
                            Ok (- 1) (upd_proc np (\<lambda>q. q\<lparr>p_kstack := 0, p_state := UNUSED\<rparr>) s4))
                     else (let me = ptable s3 p;
                               s4 = upd_proc np (\<lambda>q. q\<lparr>p_sz := p_sz me, p_parent := Some p,
                                      p_tf := (p_tf me)\<lparr>tf_r := (tf_r (p_tf me))(0 := 0)\<rparr>\<rparr>) s3
                           in andthen (fork_files p np [0..<NOFILE] s4) (\<lambda>_ s5.
                              case p_cwd (ptable s5 p) of None \<Rightarrow> Fault
                              | Some cwd \<Rightarrow>
                                  andthen (idup cwd s5) (\<lambda>cwd' s6.
                                    let pid = p_pid (ptable s6 np)
                                    in Ok pid (upd_proc np (\<lambda>q. q\<lparr>p_cwd := Some cwd', p_state := RUNNABLE,
                                         p_name := set_name (p_name (ptable s6 p))\<rparr>) s6)))))))"

fun exit_files :: "nat \<Rightarrow> nat list \<Rightarrow> 'z kproc_scheme \<Rightarrow> ('z kproc_scheme, unit) outcome" where
  "exit_files p [] s = Ok () s"
| "exit_files p (fd # fds) s =
     (case p_ofile (ptable s p) fd of
        None \<Rightarrow> exit_files p fds s
      | Some f \<Rightarrow> andthen (fileclose f s) (\<lambda>_ s1.
          exit_files p fds (upd_proc p (\<lambda>q. q\<lparr>p_ofile := (p_ofile q)(fd := None)\<rparr>) s1)))"

definition exit_reparent :: "nat \<Rightarrow> 'z kcore_scheme \<Rightarrow> 'z kcore_scheme" where
  "exit_reparent me s =
     fold (\<lambda>p t. if p_parent (ptable t p) = Some me
                  then (let t1 = upd_proc p (\<lambda>q. q\<lparr>p_parent := initproc t\<rparr>) t
                        in if p_state (ptable t1 p) = ZOMBIE then wakeup1 (map_option Ch_proc (initproc t1)) t1 else t1)
                  else t) [0..<NPROC] s"

text \<open>The end of \<open>exit\<close>, from \<open>acquire(&ptable.lock)\<close> on, after the files and the directory are closed.\<close>

definition exit_switch :: "nat \<Rightarrow> 'z kcore_scheme \<Rightarrow> ('z kcore_scheme, unit) outcome" where
  "exit_switch me s =
     (let s1 = acquire Lk_ptable s;
          s2 = exit_reparent me (wakeup1 (map_option Ch_proc (p_parent (ptable s1 me))) s1)
      in andthen (sched (upd_proc me (\<lambda>q. q\<lparr>p_state := ZOMBIE\<rparr>) s2)) (\<lambda>_ _. Panic ''zombie exit''))"

definition exit :: "'z kproc_scheme \<Rightarrow> ('z kproc_scheme, unit) outcome" where
  "exit s =
     (case cproc s of None \<Rightarrow> Fault
      | Some me \<Rightarrow>
          if initproc s = Some me then Panic ''init exiting''
          else andthen (exit_files me [0..<NOFILE] s) (\<lambda>_ s1.
               case p_cwd (ptable s1 me) of None \<Rightarrow> Fault
               | Some cwd \<Rightarrow>
                   andthen (iput cwd s1) (\<lambda>_ s2. exit_switch me (upd_proc me (\<lambda>q. q\<lparr>p_cwd := None\<rparr>) s2))))"

text \<open>\<open>wait\<close>: one scan of the table, which ends in a reaped child, in -1, or asleep.\<close>

definition wait_loop :: "'z kproc_scheme \<Rightarrow> ('z kproc_scheme, int) outcome" where
  "wait_loop s =
     (case cproc s of None \<Rightarrow> Fault
      | Some me \<Rightarrow>
          (case List.find (\<lambda>p. p_parent (ptable s p) = Some me \<and> p_state (ptable s p) = ZOMBIE) [0..<NPROC] of
             Some p \<Rightarrow>
               (let pid = p_pid (ptable s p)
                in andthen (free_page (p_kstack (ptable s p)) s) (\<lambda>_ s1.
                   andthen (freevm (p_pgdir (ptable s1 p)) (upd_proc p (\<lambda>q. q\<lparr>p_kstack := 0\<rparr>) s1)) (\<lambda>_ s2.
                   andthen (release Lk_ptable (upd_proc p (\<lambda>q. q\<lparr>p_state := UNUSED, p_pid := 0, p_parent := None,
                              p_name := [], p_killed := False\<rparr>) s2)) (\<lambda>_ s3. Ok pid s3))))
           | None \<Rightarrow>
               if (\<forall>p\<in>set [0..<NPROC]. p_parent (ptable s p) \<noteq> Some me) \<or> p_killed (ptable s me)
               then andthen (release Lk_ptable s) (\<lambda>_ s1. Ok (- 1) s1)
               else blocked (sleep (Ch_proc me) (Some Lk_ptable) s)))"

definition wait :: "'z kproc_scheme \<Rightarrow> ('z kproc_scheme, int) outcome" where
  "wait s = wait_loop (acquire Lk_ptable s)"

definition wait_resume :: "'z kproc_scheme \<Rightarrow> ('z kproc_scheme, int) outcome" where
  "wait_resume s = andthen (sleep_resume Lk_ptable s) (\<lambda>_ s1. wait_loop s1)"

definition forkret :: "'z kproc_scheme \<Rightarrow> ('z kproc_scheme, unit) outcome" where
  "forkret s =
     andthen (release Lk_ptable s) (\<lambda>_ s1.
       if forkret_first s1 then initlog (s1\<lparr>forkret_first := False\<rparr>) else Ok () s1)"

end
