(* ===== verification/Exec.thy ===== *)
theory Exec
  imports Proc
begin

text \<open>
  Loading a program (\<^verbatim>\<open>exec.c\<close>, \<^verbatim>\<open>elf.h\<close>). The arguments are the strings \<open>argv\<close> points to. Reading
  the local variables \<open>elf\<close> or \<open>pgdir\<close> before they are set is a \<open>Fault\<close>.
\<close>

definition get64 :: "bytes \<Rightarrow> nat \<Rightarrow> uint64" where
  "get64 d p = ucast (get32 d p) OR push_bit 32 (ucast (get32 d (p + 4)))"

definition le64 :: "uint64 \<Rightarrow> uint8 list" where
  "le64 v = map (\<lambda>k. ucast (drop_bit (8 * k) v)) [0..<8]"

definition ELF_MAGIC :: uint where "ELF_MAGIC = 0x464C457F"
definition ELF_PROG_LOAD :: uint where "ELF_PROG_LOAD = 1"
definition MAXARG :: nat where "MAXARG = 32"

record elfhdr =
  elf_magic :: uint
  elf_entry :: uint64
  elf_phoff :: uint64
  elf_phnum :: uint16

definition sizeof_elfhdr :: nat where "sizeof_elfhdr = 64"

definition get_elfhdr :: "bytes \<Rightarrow> elfhdr" where
  "get_elfhdr d = \<lparr>elf_magic = get32 d 0, elf_entry = get64 d 24, elf_phoff = get64 d 32, elf_phnum = get16 d 56\<rparr>"

record proghdr =
  ph_type :: uint
  ph_off :: uint64
  ph_vaddr :: uint64
  ph_filesz :: uint64
  ph_memsz :: uint64

definition sizeof_proghdr :: nat where "sizeof_proghdr = 56"

definition get_proghdr :: "bytes \<Rightarrow> proghdr" where
  "get_proghdr d = \<lparr>ph_type = get32 d 0, ph_off = get64 d 8, ph_vaddr = get64 d 16, ph_filesz = get64 d 32, ph_memsz = get64 d 40\<rparr>"

definition list_bytes :: "uint8 list \<Rightarrow> bytes" where
  "list_bytes cs i = (if i < length cs then cs ! i else 0)"

text \<open>The code at \<open>bad\<close>, with and without an inode to release.\<close>

definition exec_bad :: "uint64 \<Rightarrow> nat option \<Rightarrow> 'z kproc_scheme \<Rightarrow> ('z kproc_scheme, int) outcome" where
  "exec_bad pgdir ip s =
     andthen (if pgdir \<noteq> 0 then freevm pgdir s else Ok () s) (\<lambda>_ s1.
     andthen (case ip of None \<Rightarrow> Ok () s1 | Some ip \<Rightarrow> iunlockput ip s1) (\<lambda>_ s2. Ok (- 1) s2))"

text \<open>Load the program segments: the new size, or \<open>None\<close> for a jump to \<open>bad\<close>.\<close>

fun exec_load :: "nat \<Rightarrow> uint64 \<Rightarrow> nat \<Rightarrow> uint \<Rightarrow> uint64 \<Rightarrow> 'z kproc_scheme \<Rightarrow> ('z kproc_scheme, uint64 option) outcome" where
  "exec_load ip pgdir 0 off sz s = Ok (Some sz) s"
| "exec_load ip pgdir (Suc k) off sz s =
     andthen (readi ip off (of_nat sizeof_proghdr) s) (\<lambda>(r, data) s1.
       if r \<noteq> int sizeof_proghdr then Ok None s1
       else (let ph = get_proghdr (list_bytes data)
             in if ph_type ph \<noteq> ELF_PROG_LOAD then exec_load ip pgdir k (off + of_nat sizeof_proghdr) sz s1
                else if ph_memsz ph < ph_filesz ph then Ok None s1
                else andthen (allocuvm pgdir (ucast sz) (ucast (ph_vaddr ph + ph_memsz ph)) s1) (\<lambda>sz' s2.
                  if sz' = 0 then Ok None s2
                  else andthen (loaduvm pgdir (ph_vaddr ph) ip (ucast (ph_off ph)) (ucast (ph_filesz ph)) s2) (\<lambda>r s3.
                    if r < 0 then Ok None s3
                    else exec_load ip pgdir k (off + of_nat sizeof_proghdr) (ucast sz') s3))))"

text \<open>Push the argument strings: the final stack pointer and their addresses.\<close>

fun exec_args :: "uint64 \<Rightarrow> uint8 list list \<Rightarrow> uint64 list \<Rightarrow> uint64 \<Rightarrow> 'z kproc_scheme \<Rightarrow> ('z kproc_scheme, (uint64 \<times> uint64 list) option) outcome" where
  "exec_args pgdir [] us sp s = Ok (Some (sp, us)) s"
| "exec_args pgdir (a # as) us sp s =
     (if length us \<ge> MAXARG then Ok None s
      else (let sp' = (sp - of_nat (length a + 1)) AND NOT 7
            in andthen (copyout pgdir (ucast sp') (list_bytes (a @ [0])) (of_nat (length a + 1)) s) (\<lambda>r s1.
                 if r < 0 then Ok None s1 else exec_args pgdir as (us @ [sp']) sp' s1)))"

definition exec_finish :: "uint64 \<Rightarrow> uint64 \<Rightarrow> uint64 \<Rightarrow> uint64 \<Rightarrow> uint8 list \<Rightarrow> nat \<Rightarrow> 'z kproc_scheme \<Rightarrow> ('z kproc_scheme, int) outcome" where
  "exec_finish pgdir sz sp entry path me s =
     (let oldpgdir = p_pgdir (ptable s me);
          s1 = upd_proc me (\<lambda>q. q\<lparr>p_name := set_name (rev (takeWhile (\<lambda>c. c \<noteq> 47) (rev path))), p_pgdir := pgdir, p_sz := sz,
                 p_tf := (p_tf q)\<lparr>tf_pc := entry, tf_sp := sp\<rparr>\<rparr>) s
      in andthen (switchuvm me s1) (\<lambda>_ s2. andthen (freevm oldpgdir s2) (\<lambda>_ s3. Ok 0 s3)))"

text \<open>The second half, after the inode has been released: the stack and the switch.\<close>

definition exec_stack :: "uint64 \<Rightarrow> uint64 \<Rightarrow> uint64 \<Rightarrow> uint8 list \<Rightarrow> uint8 list list \<Rightarrow> nat \<Rightarrow> 'z kproc_scheme \<Rightarrow> ('z kproc_scheme, int) outcome" where
  "exec_stack pgdir sz0 entry path argv me s =
     (let sz1 = align_up (unat sz0) PTE_SZ
      in andthen (allocuvm pgdir (of_nat sz1) (of_nat (sz1 + 2 * PTE_SZ)) s) (\<lambda>sz s1.
         if sz = 0 then exec_bad pgdir None s1
         else andthen (clearpteu pgdir (ucast sz - 2 * of_nat PTE_SZ) s1) (\<lambda>_ s2.
         andthen (exec_args pgdir argv [] (ucast sz) s2) (\<lambda>res s3.
           case res of None \<Rightarrow> exec_bad pgdir None s3
           | Some (sp, us) \<Rightarrow>
               (let argc = length us; sp' = sp - of_nat ((argc + 1) * 8);
                    s4 = upd_proc me (\<lambda>q. q\<lparr>p_tf := (p_tf q)\<lparr>tf_r := (tf_r (p_tf q))(0 := of_nat argc, 1 := sp')\<rparr>\<rparr>) s3
                in andthen (copyout pgdir (ucast sp') (list_bytes (concat (map le64 (us @ [0])))) (of_nat ((argc + 1) * 8)) s4) (\<lambda>r s5.
                     if r < 0 then exec_bad pgdir None s5
                     else exec_finish pgdir (ucast sz) sp' entry path me s5))))))"

text \<open>The comparison of \<open>readi\<close> with \<open>sizeof(elf)\<close> is unsigned: a short read jumps to \<open>bad\<close>, where \<open>pgdir\<close> is not set, and a
  failed one goes on to \<open>elf.magic\<close>, which is not set.\<close>

definition exec :: "uint8 list \<Rightarrow> uint8 list list \<Rightarrow> 'z kproc_scheme \<Rightarrow> ('z kproc_scheme, int) outcome" where
  "exec path argv s =
     (case cproc s of None \<Rightarrow> Fault
      | Some me \<Rightarrow>
          andthen (namei path s) (\<lambda>ip s1.
            case ip of None \<Rightarrow> Ok (- 1) s1
            | Some ip \<Rightarrow>
                andthen (ilock ip s1) (\<lambda>_ s2.
                andthen (readi ip 0 (of_nat sizeof_elfhdr) s2) (\<lambda>(r, data) s3.
                  let elf = get_elfhdr (list_bytes data)
                  in if r < int sizeof_elfhdr then Fault
                     else if elf_magic elf \<noteq> ELF_MAGIC then Fault
                     else andthen (kpt_alloc s3) (\<lambda>pgdir s4.
                       if pgdir = 0 then exec_bad 0 (Some ip) s4
                       else andthen (exec_load ip pgdir (unat (elf_phnum elf)) (ucast (elf_phoff elf)) 0 s4) (\<lambda>sz s5.
                         case sz of None \<Rightarrow> exec_bad pgdir (Some ip) s5
                         | Some sz \<Rightarrow>
                             andthen (iunlockput ip s5) (\<lambda>_ s6. exec_stack pgdir sz (elf_entry elf) path argv me s6)))))))"

end
