(* ===== verification/Syscall.thy ===== *)
theory Syscall
  imports Exec
begin

text \<open>
  System call arguments (\<^verbatim>\<open>syscall.c\<close>) and the process system calls (\<^verbatim>\<open>sysproc.c\<close>). An output
  parameter is \<open>Some\<close> of its value, \<open>None\<close> stands for the result -1. User addresses are read
  through the page table of the running process; an unmapped one is a \<open>Fault\<close>.
\<close>

text \<open>Conversions of C: a \<open>long\<close> from a register, and a \<open>long\<close> passed as an \<open>int\<close>.\<close>

definition to_int :: "uint64 \<Rightarrow> int" where "to_int w = sint (ucast w :: uint)"

section \<open>Arguments\<close>

definition cur :: "'z kcore_scheme \<Rightarrow> ('z kcore_scheme, nat) outcome" where
  "cur s = (case cproc s of None \<Rightarrow> Fault | Some p \<Rightarrow> Ok p s)"

definition fetchint :: "uint64 \<Rightarrow> 'z kproc_scheme \<Rightarrow> ('z kproc_scheme, uint64 option) outcome" where
  "fetchint addr s =
     andthen (cur s) (\<lambda>p s.
       let sz = p_sz (ptable s p)
       in if sz \<le> addr \<or> sz < addr + 8 then Ok None s
          else (case uload addr 8 s of None \<Rightarrow> Fault | Some cs \<Rightarrow> Ok (Some (get64 (list_bytes cs) 0)) s))"

text \<open>The loop of \<open>fetchstr\<close>, over the bytes left below \<open>ep\<close>: the string before its NUL.\<close>

fun fetchstr_loop :: "nat \<Rightarrow> uint64 \<Rightarrow> uint8 list \<Rightarrow> 'z kproc_scheme \<Rightarrow> ('z kproc_scheme, uint8 list option) outcome" where
  "fetchstr_loop 0 va acc s = Ok None s"
| "fetchstr_loop (Suc k) va acc s =
     (case uload8 va s of None \<Rightarrow> Fault
      | Some c \<Rightarrow> if c = 0 then Ok (Some (rev acc)) s else fetchstr_loop k (va + 1) (c # acc) s)"

definition fetchstr :: "uint64 \<Rightarrow> 'z kproc_scheme \<Rightarrow> ('z kproc_scheme, uint8 list option) outcome" where
  "fetchstr addr s =
     andthen (cur s) (\<lambda>p s.
       let sz = p_sz (ptable s p)
       in if sz \<le> addr then Ok None s else fetchstr_loop (unat (sz - addr)) addr [] s)"

definition argint :: "nat \<Rightarrow> 'z kproc_scheme \<Rightarrow> ('z kproc_scheme, uint64) outcome" where
  "argint n s =
     (if n > 3 then Panic (''too many system call parameters'' @ [CHR 0x0A])
      else andthen (cur s) (\<lambda>p s. Ok (tf_r (p_tf (ptable s p)) (1 + n)) s))"

definition argptr :: "nat \<Rightarrow> int \<Rightarrow> 'z kproc_scheme \<Rightarrow> ('z kproc_scheme, uint64 option) outcome" where
  "argptr n sz s =
     andthen (argint n s) (\<lambda>i s. andthen (cur s) (\<lambda>p s.
       if p_sz (ptable s p) \<le> i \<or> p_sz (ptable s p) < i + word_of_int sz then Ok None s else Ok (Some i) s))"

definition argstr :: "nat \<Rightarrow> 'z kproc_scheme \<Rightarrow> ('z kproc_scheme, uint8 list option) outcome" where
  "argstr n s = andthen (argint n s) (\<lambda>addr s. fetchstr addr s)"

section \<open>Process system calls\<close>

definition sys_fork :: "'z kproc_scheme \<Rightarrow> ('z kproc_scheme, int) outcome" where "sys_fork s = fork s"

definition sys_exit :: "'z kproc_scheme \<Rightarrow> ('z kproc_scheme, int) outcome" where
  "sys_exit s = andthen (exit s) (\<lambda>_ s1. Ok 0 s1)"

definition sys_wait :: "'z kproc_scheme \<Rightarrow> ('z kproc_scheme, int) outcome" where "sys_wait s = wait s"

definition sys_kill :: "'z kproc_scheme \<Rightarrow> ('z kproc_scheme, int) outcome" where
  "sys_kill s = andthen (argint 0 s) (\<lambda>pid s1. kill (to_int pid) s1)"

definition sys_getpid :: "'z kproc_scheme \<Rightarrow> ('z kproc_scheme, int) outcome" where
  "sys_getpid s = andthen (cur s) (\<lambda>p s. Ok (p_pid (ptable s p)) s)"

definition sys_sbrk :: "'z kproc_scheme \<Rightarrow> ('z kproc_scheme, int) outcome" where
  "sys_sbrk s =
     andthen (argint 0 s) (\<lambda>n s. andthen (cur s) (\<lambda>p s.
       let addr = p_sz (ptable s p)
       in andthen (growproc (to_int n) s) (\<lambda>r s1. Ok (if r < 0 then - 1 else to_int addr) s1)))"

definition sys_sleep_loop :: "uint64 \<Rightarrow> uint \<Rightarrow> 'z kproc_scheme \<Rightarrow> ('z kproc_scheme, int) outcome" where
  "sys_sleep_loop n ticks0 s =
     (if uint (ticks s - ticks0) < sint n
      then andthen (cur s) (\<lambda>p s.
             if p_killed (ptable s p) then andthen (release Lk_ticks s) (\<lambda>_ s1. Ok (- 1) s1)
             else blocked (sleep Ch_ticks (Some Lk_ticks) s))
      else andthen (release Lk_ticks s) (\<lambda>_ s1. Ok 0 s1))"

definition sys_sleep :: "'z kproc_scheme \<Rightarrow> ('z kproc_scheme, int) outcome" where
  "sys_sleep s = andthen (argint 0 s) (\<lambda>n s. let s1 = acquire Lk_ticks s in sys_sleep_loop n (ticks s1) s1)"

definition sys_sleep_resume :: "uint64 \<Rightarrow> uint \<Rightarrow> 'z kproc_scheme \<Rightarrow> ('z kproc_scheme, int) outcome" where
  "sys_sleep_resume n ticks0 s = andthen (sleep_resume Lk_ticks s) (\<lambda>_ s1. sys_sleep_loop n ticks0 s1)"

definition sys_uptime :: "'z kproc_scheme \<Rightarrow> ('z kproc_scheme, int) outcome" where
  "sys_uptime s =
     (let s1 = acquire Lk_ticks s; xticks = ticks s1
      in andthen (release Lk_ticks s1) (\<lambda>_ s2. Ok (sint xticks) s2))"

end
