(* ===== verification/Sysfile.thy ===== *)
theory Sysfile
  imports Syscall
begin

text \<open>
  The file system calls (\<^verbatim>\<open>sysfile.c\<close>). A read leaves its data in user memory once \<open>fileread\<close>
  has returned it; a write takes the bytes of its buffer from user memory before
  \<open>filewrite\<close>, so an unmapped byte anywhere in the buffer is a \<open>Fault\<close>.
\<close>

section \<open>Descriptors\<close>

text \<open>The descriptor and the file, or \<open>None\<close> for -1.\<close>

definition argfd :: "nat \<Rightarrow> 'z kproc_scheme \<Rightarrow> ('z kproc_scheme, (nat \<times> nat) option) outcome" where
  "argfd n s =
     andthen (argint n s) (\<lambda>fd s. andthen (cur s) (\<lambda>p s.
       if sint fd < 0 \<or> int NOFILE \<le> sint fd then Ok None s
       else Ok (map_option (\<lambda>f. (unat fd, f)) (p_ofile (ptable s p) (unat fd))) s))"

definition fdalloc :: "nat \<Rightarrow> 'z kproc_scheme \<Rightarrow> ('z kproc_scheme, nat option) outcome" where
  "fdalloc f s =
     andthen (cur s) (\<lambda>p s.
       case List.find (\<lambda>fd. p_ofile (ptable s p) fd = None) [0..<NOFILE] of
         None \<Rightarrow> Ok None s
       | Some fd \<Rightarrow> Ok (Some fd) (upd_proc p (\<lambda>q. q\<lparr>p_ofile := (p_ofile q)(fd := Some f)\<rparr>) s))"

definition clear_fd :: "nat \<Rightarrow> 'z kproc_scheme \<Rightarrow> ('z kproc_scheme, unit) outcome" where
  "clear_fd fd s = andthen (cur s) (\<lambda>p s. Ok () (upd_proc p (\<lambda>q. q\<lparr>p_ofile := (p_ofile q)(fd := None)\<rparr>) s))"

definition sys_dup :: "'z kproc_scheme \<Rightarrow> ('z kproc_scheme, int) outcome" where
  "sys_dup s =
     andthen (argfd 0 s) (\<lambda>r s. case r of None \<Rightarrow> Ok (- 1) s
     | Some (_, f) \<Rightarrow> andthen (fdalloc f s) (\<lambda>fd s. case fd of None \<Rightarrow> Ok (- 1) s
         | Some fd \<Rightarrow> andthen (filedup f s) (\<lambda>_ s1. Ok (int fd) s1)))"

definition sys_read :: "'z kproc_scheme \<Rightarrow> ('z kproc_scheme, int) outcome" where
  "sys_read s =
     andthen (argfd 0 s) (\<lambda>r s. case r of None \<Rightarrow> Ok (- 1) s
     | Some (_, f) \<Rightarrow> andthen (argint 2 s) (\<lambda>n s. andthen (argptr 1 (to_int n) s) (\<lambda>p s. case p of None \<Rightarrow> Ok (- 1) s
         | Some p \<Rightarrow> andthen (fileread f (to_int n) s) (\<lambda>(r, data) s1.
                       andthen (ustore p data s1) (\<lambda>_ s2. Ok r s2)))))"

definition sys_write :: "'z kproc_scheme \<Rightarrow> ('z kproc_scheme, int) outcome" where
  "sys_write s =
     andthen (argfd 0 s) (\<lambda>r s. case r of None \<Rightarrow> Ok (- 1) s
     | Some (_, f) \<Rightarrow> andthen (argint 2 s) (\<lambda>n s. andthen (argptr 1 (to_int n) s) (\<lambda>p s. case p of None \<Rightarrow> Ok (- 1) s
         | Some p \<Rightarrow> (case uload p (nat (to_int n)) s of None \<Rightarrow> Fault
                      | Some cs \<Rightarrow> filewrite f (list_bytes cs) (to_int n) s))))"

definition sys_close :: "'z kproc_scheme \<Rightarrow> ('z kproc_scheme, int) outcome" where
  "sys_close s =
     andthen (argfd 0 s) (\<lambda>r s. case r of None \<Rightarrow> Ok (- 1) s
     | Some (fd, f) \<Rightarrow> andthen (clear_fd fd s) (\<lambda>_ s. andthen (fileclose f s) (\<lambda>_ s1. Ok 0 s1)))"

text \<open>The fields of a \<open>struct stat\<close> at their offsets in user memory.\<close>

definition le16 :: "uint16 \<Rightarrow> uint8 list" where "le16 v = [ucast v, ucast (drop_bit 8 v)]"

definition le32 :: "uint \<Rightarrow> uint8 list" where
  "le32 v = [ucast v, ucast (drop_bit 8 v), ucast (drop_bit 16 v), ucast (drop_bit 24 v)]"

definition sizeof_stat :: int where "sizeof_stat = 20"

definition store_stat :: "uint64 \<Rightarrow> fstat \<Rightarrow> 'z kproc_scheme \<Rightarrow> ('z kproc_scheme, unit) outcome" where
  "store_stat p st s =
     andthen (ustore (p + 4) (le32 (st_dev st)) s) (\<lambda>_ s.
     andthen (ustore (p + 8) (le32 (st_ino st)) s) (\<lambda>_ s.
     andthen (ustore p (le16 (st_type st)) s) (\<lambda>_ s.
     andthen (ustore (p + 12) (le16 (st_nlink st)) s) (\<lambda>_ s.
       ustore (p + 16) (le32 (st_size st)) s))))"

definition sys_fstat :: "'z kproc_scheme \<Rightarrow> ('z kproc_scheme, int) outcome" where
  "sys_fstat s =
     andthen (argfd 0 s) (\<lambda>r s. case r of None \<Rightarrow> Ok (- 1) s
     | Some (_, f) \<Rightarrow> andthen (argptr 1 sizeof_stat s) (\<lambda>p s. case p of None \<Rightarrow> Ok (- 1) s
         | Some p \<Rightarrow> andthen (filestat f s) (\<lambda>st s. case st of None \<Rightarrow> Ok (- 1) s
             | Some st \<Rightarrow> andthen (store_stat p st s) (\<lambda>_ s1. Ok 0 s1))))"

section \<open>Links\<close>

definition sys_link_bad :: "nat \<Rightarrow> 'z kproc_scheme \<Rightarrow> ('z kproc_scheme, int) outcome" where
  "sys_link_bad ip s =
     andthen (ilock ip s) (\<lambda>_ s.
     andthen (iupdate ip (upd_inode ip (\<lambda>i. i\<lparr>i_nlink := i_nlink i - 1\<rparr>) s)) (\<lambda>_ s.
     andthen (iunlockput ip s) (\<lambda>_ s. andthen (commit_trans s) (\<lambda>_ s. Ok (- 1) s))))"

definition sys_link_new :: "nat \<Rightarrow> uint8 list \<Rightarrow> 'z kproc_scheme \<Rightarrow> ('z kproc_scheme, int) outcome" where
  "sys_link_new ip new s =
     andthen (nameiparent new s) (\<lambda>(dp, name) s. case dp of None \<Rightarrow> sys_link_bad ip s
     | Some dp \<Rightarrow> andthen (ilock dp s) (\<lambda>_ s.
         andthen (if i_dev (icache s dp) \<noteq> i_dev (icache s ip) then Ok (- 1) s
                  else dirlink dp name (i_inum (icache s ip)) s) (\<lambda>r s.
           if r < 0 then andthen (iunlockput dp s) (\<lambda>_ s. sys_link_bad ip s)
           else andthen (iunlockput dp s) (\<lambda>_ s. andthen (iput ip s) (\<lambda>_ s.
                andthen (commit_trans s) (\<lambda>_ s. Ok 0 s))))))"

definition sys_link :: "'z kproc_scheme \<Rightarrow> ('z kproc_scheme, int) outcome" where
  "sys_link s =
     andthen (argstr 0 s) (\<lambda>old s. case old of None \<Rightarrow> Ok (- 1) s
     | Some old \<Rightarrow> andthen (argstr 1 s) (\<lambda>new s. case new of None \<Rightarrow> Ok (- 1) s
     | Some new \<Rightarrow> andthen (namei old s) (\<lambda>ip s. case ip of None \<Rightarrow> Ok (- 1) s
     | Some ip \<Rightarrow> andthen (begin_trans s) (\<lambda>_ s. andthen (ilock ip s) (\<lambda>_ s.
         if i_type (icache s ip) = T_DIR
         then andthen (iunlockput ip s) (\<lambda>_ s. andthen (commit_trans s) (\<lambda>_ s. Ok (- 1) s))
         else andthen (iupdate ip (upd_inode ip (\<lambda>i. i\<lparr>i_nlink := i_nlink i + 1\<rparr>) s)) (\<lambda>_ s.
              andthen (iunlock ip s) (\<lambda>_ s. sys_link_new ip new s)))))))"

fun isdirempty_loop :: "nat \<Rightarrow> nat list \<Rightarrow> 'z kproc_scheme \<Rightarrow> ('z kproc_scheme, bool) outcome" where
  "isdirempty_loop dp [] s = Ok True s"
| "isdirempty_loop dp (off # offs) s =
     andthen (read_dirent ''isdirempty: readi'' dp off s) (\<lambda>de s1.
       if de_inum de \<noteq> 0 then Ok False s1 else isdirempty_loop dp offs s1)"

definition isdirempty :: "nat \<Rightarrow> 'z kproc_scheme \<Rightarrow> ('z kproc_scheme, bool) outcome" where
  "isdirempty dp s = isdirempty_loop dp (drop 2 (dir_offs (i_size (icache s dp)))) s"

definition sys_unlink_bad :: "nat \<Rightarrow> 'z kproc_scheme \<Rightarrow> ('z kproc_scheme, int) outcome" where
  "sys_unlink_bad dp s = andthen (iunlockput dp s) (\<lambda>_ s. andthen (commit_trans s) (\<lambda>_ s. Ok (- 1) s))"

definition sys_unlink_entry :: "nat \<Rightarrow> nat \<Rightarrow> uint \<Rightarrow> 'z kproc_scheme \<Rightarrow> ('z kproc_scheme, int) outcome" where
  "sys_unlink_entry dp ip off s =
     andthen (writei dp (\<lambda>_. 0) off (of_nat sizeof_dirent) s) (\<lambda>r s.
       if r \<noteq> int sizeof_dirent then Panic ''unlink: writei''
       else andthen (if i_type (icache s ip) = T_DIR
                     then iupdate dp (upd_inode dp (\<lambda>i. i\<lparr>i_nlink := i_nlink i - 1\<rparr>) s) else Ok () s) (\<lambda>_ s.
            andthen (iunlockput dp s) (\<lambda>_ s.
            andthen (iupdate ip (upd_inode ip (\<lambda>i. i\<lparr>i_nlink := i_nlink i - 1\<rparr>) s)) (\<lambda>_ s.
            andthen (iunlockput ip s) (\<lambda>_ s. andthen (commit_trans s) (\<lambda>_ s. Ok 0 s))))))"

definition sys_unlink :: "'z kproc_scheme \<Rightarrow> ('z kproc_scheme, int) outcome" where
  "sys_unlink s =
     andthen (argstr 0 s) (\<lambda>path s. case path of None \<Rightarrow> Ok (- 1) s
     | Some path \<Rightarrow> andthen (nameiparent path s) (\<lambda>(dp, name) s. case dp of None \<Rightarrow> Ok (- 1) s
     | Some dp \<Rightarrow> andthen (begin_trans s) (\<lambda>_ s. andthen (ilock dp s) (\<lambda>_ s.
         if namecmp name (list_bytes (ascii ''.'')) = 0 \<or> namecmp name (list_bytes (ascii ''..'')) = 0 then sys_unlink_bad dp s
         else andthen (dirlookup dp name s) (\<lambda>found s. case found of None \<Rightarrow> sys_unlink_bad dp s
         | Some (ip, off) \<Rightarrow> andthen (ilock ip s) (\<lambda>_ s.
             if sint (i_nlink (icache s ip)) < 1 then Panic ''unlink: nlink < 1''
             else andthen (if i_type (icache s ip) = T_DIR then isdirempty ip s else Ok True s) (\<lambda>empty s.
               if \<not> empty then andthen (iunlockput ip s) (\<lambda>_ s. sys_unlink_bad dp s)
               else sys_unlink_entry dp ip off s)))))))"

section \<open>Creation\<close>

definition create_dots :: "nat \<Rightarrow> nat \<Rightarrow> 'z kproc_scheme \<Rightarrow> ('z kproc_scheme, unit) outcome" where
  "create_dots dp ip s =
     andthen (iupdate dp (upd_inode dp (\<lambda>i. i\<lparr>i_nlink := i_nlink i + 1\<rparr>) s)) (\<lambda>_ s.
     andthen (dirlink ip (list_bytes (ascii ''.'')) (i_inum (icache s ip)) s) (\<lambda>r s.
       if r < 0 then Panic ''create dots''
       else andthen (dirlink ip (list_bytes (ascii ''..'')) (i_inum (icache s dp)) s) (\<lambda>r s.
              if r < 0 then Panic ''create dots'' else Ok () s)))"

definition create_new :: "nat \<Rightarrow> bytes \<Rightarrow> uint16 \<Rightarrow> uint16 \<Rightarrow> uint16 \<Rightarrow> 'z kproc_scheme \<Rightarrow> ('z kproc_scheme, nat option) outcome" where
  "create_new dp name type major minor s =
     andthen (ialloc (i_dev (icache s dp)) type s) (\<lambda>ip s.
     andthen (ilock ip s) (\<lambda>_ s.
     andthen (iupdate ip (upd_inode ip (\<lambda>i. i\<lparr>i_major := major, i_minor := minor, i_nlink := 1\<rparr>) s)) (\<lambda>_ s.
     andthen (if type = T_DIR then create_dots dp ip s else Ok () s) (\<lambda>_ s.
     andthen (dirlink dp name (i_inum (icache s ip)) s) (\<lambda>r s.
       if r < 0 then Panic ''create: dirlink''
       else andthen (iunlockput dp s) (\<lambda>_ s. Ok (Some ip) s))))))"

definition create :: "uint8 list \<Rightarrow> uint16 \<Rightarrow> uint16 \<Rightarrow> uint16 \<Rightarrow> 'z kproc_scheme \<Rightarrow> ('z kproc_scheme, nat option) outcome" where
  "create path type major minor s =
     andthen (nameiparent path s) (\<lambda>(dp, name) s. case dp of None \<Rightarrow> Ok None s
     | Some dp \<Rightarrow> andthen (ilock dp s) (\<lambda>_ s. andthen (dirlookup dp name s) (\<lambda>found s.
         case found of
           Some (ip, _) \<Rightarrow>
             andthen (iunlockput dp s) (\<lambda>_ s. andthen (ilock ip s) (\<lambda>_ s.
               if type = T_FILE \<and> i_type (icache s ip) = T_FILE then Ok (Some ip) s
               else andthen (iunlockput ip s) (\<lambda>_ s. Ok None s)))
         | None \<Rightarrow> create_new dp name type major minor s)))"

definition O_WRONLY :: uint64 where "O_WRONLY = 0x001"
definition O_RDWR :: uint64 where "O_RDWR = 0x002"
definition O_CREATE :: uint64 where "O_CREATE = 0x200"

text \<open>The inode of \<open>sys_open\<close>, locked, or \<open>None\<close> for a return of -1.\<close>

definition open_inode :: "uint8 list \<Rightarrow> uint64 \<Rightarrow> 'z kproc_scheme \<Rightarrow> ('z kproc_scheme, nat option) outcome" where
  "open_inode path omode s =
     (if omode AND O_CREATE \<noteq> 0
      then andthen (begin_trans s) (\<lambda>_ s. andthen (create path T_FILE 0 0 s) (\<lambda>ip s. andthen (commit_trans s) (\<lambda>_ s. Ok ip s)))
      else andthen (namei path s) (\<lambda>ip s. case ip of None \<Rightarrow> Ok None s
           | Some ip \<Rightarrow> andthen (ilock ip s) (\<lambda>_ s.
               if i_type (icache s ip) = T_DIR \<and> omode \<noteq> 0 then andthen (iunlockput ip s) (\<lambda>_ s. Ok None s)
               else Ok (Some ip) s)))"

definition open_file :: "nat \<Rightarrow> uint64 \<Rightarrow> 'z kproc_scheme \<Rightarrow> ('z kproc_scheme, int) outcome" where
  "open_file ip omode s =
     andthen (filealloc s) (\<lambda>f s. case f of
       None \<Rightarrow> andthen (iunlockput ip s) (\<lambda>_ s. Ok (- 1) s)
     | Some f \<Rightarrow> andthen (fdalloc f s) (\<lambda>fd s. case fd of
         None \<Rightarrow> andthen (fileclose f s) (\<lambda>_ s. andthen (iunlockput ip s) (\<lambda>_ s. Ok (- 1) s))
       | Some fd \<Rightarrow> andthen (iunlock ip s) (\<lambda>_ s.
           Ok (int fd) (upd_file f (\<lambda>x. x\<lparr>f_type := FD_INODE, f_ip := ip, f_off := 0,
             f_readable := (omode AND O_WRONLY = 0), f_writable := (omode AND O_WRONLY \<noteq> 0 \<or> omode AND O_RDWR \<noteq> 0)\<rparr>) s))))"

definition sys_open :: "'z kproc_scheme \<Rightarrow> ('z kproc_scheme, int) outcome" where
  "sys_open s =
     andthen (argstr 0 s) (\<lambda>path s. case path of None \<Rightarrow> Ok (- 1) s
     | Some path \<Rightarrow> andthen (argint 1 s) (\<lambda>omode s. andthen (open_inode path omode s) (\<lambda>ip s.
         case ip of None \<Rightarrow> Ok (- 1) s | Some ip \<Rightarrow> open_file ip omode s)))"

text \<open>The common end of \<open>sys_mkdir\<close> and \<open>sys_mknod\<close>.\<close>

definition made :: "nat option \<Rightarrow> 'z kproc_scheme \<Rightarrow> ('z kproc_scheme, int) outcome" where
  "made ip s =
     (case ip of None \<Rightarrow> andthen (commit_trans s) (\<lambda>_ s. Ok (- 1) s)
      | Some ip \<Rightarrow> andthen (iunlockput ip s) (\<lambda>_ s. andthen (commit_trans s) (\<lambda>_ s. Ok 0 s)))"

definition sys_mkdir :: "'z kproc_scheme \<Rightarrow> ('z kproc_scheme, int) outcome" where
  "sys_mkdir s =
     andthen (begin_trans s) (\<lambda>_ s. andthen (argstr 0 s) (\<lambda>path s. case path of None \<Rightarrow> made None s
     | Some path \<Rightarrow> andthen (create path T_DIR 0 0 s) (\<lambda>ip s. made ip s)))"

definition sys_mknod :: "'z kproc_scheme \<Rightarrow> ('z kproc_scheme, int) outcome" where
  "sys_mknod s =
     andthen (begin_trans s) (\<lambda>_ s. andthen (argstr 0 s) (\<lambda>path s. case path of None \<Rightarrow> made None s
     | Some path \<Rightarrow> andthen (argint 1 s) (\<lambda>major s. andthen (argint 2 s) (\<lambda>minor s.
         andthen (create path T_DEV (ucast major) (ucast minor) s) (\<lambda>ip s. made ip s)))))"

section \<open>The other calls\<close>

definition sys_chdir :: "'z kproc_scheme \<Rightarrow> ('z kproc_scheme, int) outcome" where
  "sys_chdir s =
     andthen (argstr 0 s) (\<lambda>path s. case path of None \<Rightarrow> Ok (- 1) s
     | Some path \<Rightarrow> andthen (namei path s) (\<lambda>ip s. case ip of None \<Rightarrow> Ok (- 1) s
     | Some ip \<Rightarrow> andthen (ilock ip s) (\<lambda>_ s.
         if i_type (icache s ip) \<noteq> T_DIR then andthen (iunlockput ip s) (\<lambda>_ s. Ok (- 1) s)
         else andthen (iunlock ip s) (\<lambda>_ s. andthen (cur s) (\<lambda>p s.
              case p_cwd (ptable s p) of None \<Rightarrow> Fault
              | Some cwd \<Rightarrow> andthen (iput cwd s) (\<lambda>_ s. Ok 0 (upd_proc p (\<lambda>q. q\<lparr>p_cwd := Some ip\<rparr>) s)))))))"

text \<open>The argument vector: \<open>k\<close> slots of \<open>argv\<close> are left, \<open>uargv\<close> is the next user address.\<close>

fun exec_argv :: "nat \<Rightarrow> uint64 \<Rightarrow> 'z kproc_scheme \<Rightarrow> ('z kproc_scheme, uint8 list list option) outcome" where
  "exec_argv 0 uargv s = Ok None s"
| "exec_argv (Suc k) uargv s =
     andthen (fetchint uargv s) (\<lambda>uarg s. case uarg of None \<Rightarrow> Ok None s
     | Some uarg \<Rightarrow> if uarg = 0 then Ok (Some []) s
         else andthen (fetchstr uarg s) (\<lambda>a s. case a of None \<Rightarrow> Ok None s
              | Some a \<Rightarrow> andthen (exec_argv k (uargv + 8) s) (\<lambda>as s. Ok (map_option ((#) a) as) s)))"

definition sys_exec :: "'z kproc_scheme \<Rightarrow> ('z kproc_scheme, int) outcome" where
  "sys_exec s =
     andthen (argstr 0 s) (\<lambda>path s. case path of None \<Rightarrow> Ok (- 1) s
     | Some path \<Rightarrow> andthen (argint 1 s) (\<lambda>uargv s. andthen (exec_argv MAXARG uargv s) (\<lambda>argv s.
         case argv of None \<Rightarrow> Ok (- 1) s | Some argv \<Rightarrow> exec path argv s)))"

definition pipe_fail :: "nat \<Rightarrow> nat \<Rightarrow> 'z kproc_scheme \<Rightarrow> ('z kproc_scheme, int) outcome" where
  "pipe_fail rfl wfl s = andthen (fileclose rfl s) (\<lambda>_ s. andthen (fileclose wfl s) (\<lambda>_ s. Ok (- 1) s))"

definition sys_pipe :: "'z kproc_scheme \<Rightarrow> ('z kproc_scheme, int) outcome" where
  "sys_pipe s =
     andthen (argptr 0 8 s) (\<lambda>p s. case p of None \<Rightarrow> Ok (- 1) s
     | Some p \<Rightarrow> andthen (pipealloc s) (\<lambda>r s. case r of None \<Rightarrow> Ok (- 1) s
     | Some (rfl, wfl) \<Rightarrow> andthen (fdalloc rfl s) (\<lambda>fd0 s. case fd0 of None \<Rightarrow> pipe_fail rfl wfl s
     | Some fd0 \<Rightarrow> andthen (fdalloc wfl s) (\<lambda>fd1 s. case fd1 of
         None \<Rightarrow> andthen (clear_fd fd0 s) (\<lambda>_ s. pipe_fail rfl wfl s)
       | Some fd1 \<Rightarrow> andthen (ustore p (le32 (of_nat fd0)) s) (\<lambda>_ s.
           andthen (ustore (p + 4) (le32 (of_nat fd1)) s) (\<lambda>_ s. Ok 0 s))))))"

end
