(* ===== verification/Gic.thy ===== *)
theory Gic
  imports Proc
begin

text \<open>
  The interrupt controller (\<^verbatim>\<open>device/gic.c\<close>), the timer (\<^verbatim>\<open>device/timer.c\<close>), the UART set-up and
  its interrupt (\<^verbatim>\<open>device/uart.c\<close>), with the board constants of \<^verbatim>\<open>device/arm_virt.h\<close>. Device
  registers are memory: \<open>gic_mem\<close> holds the bytes at each offset from \<open>gic_base\<close>, which the code
  reads and writes eight at a time, \<open>timer0\<close> and \<open>uart_regs\<close> the 32-bit registers by index.
  What a device puts into a register (the acknowledged interrupt, the masked UART status) is
  part of the state.
\<close>

datatype isr = Isr_default | Isr_timer | Isr_uart

record ktrap = kproc +
  gic_mem :: "uint64 \<Rightarrow> uint8"
  isrs :: "nat \<Rightarrow> isr option"
  timer0 :: "nat \<Rightarrow> uint"
  uart_regs :: "nat \<Rightarrow> uint"

section \<open>Registers\<close>

definition PIC_TIMER01 :: nat where "PIC_TIMER01 = 13"
definition PIC_TIMER23 :: nat where "PIC_TIMER23 = 11"
definition PIC_UART0 :: nat where "PIC_UART0 = 1"
definition CLK_HZ :: nat where "CLK_HZ = 1000000"
definition UART_CLK :: nat where "UART_CLK = 24000000"

definition GICD_CTLR :: uint64 where "GICD_CTLR = 0x000"
definition GICD_ISENABLE :: uint64 where "GICD_ISENABLE = 0x100"
definition GICD_ITARGET :: uint64 where "GICD_ITARGET = 0x800"
definition GICD_ICFG :: uint64 where "GICD_ICFG = 0xC00"
definition GICC_CTLR :: uint64 where "GICC_CTLR = 0x000"
definition GICC_PMR :: uint64 where "GICC_PMR = 0x004"
definition GICC_IAR :: uint64 where "GICC_IAR = 0x00C"
definition GICC_EOIR :: uint64 where "GICC_EOIR = 0x010"

definition GICD_REG :: "uint64 \<Rightarrow> 'z ktrap_scheme \<Rightarrow> uint64" where "GICD_REG off s = ld64 (gic_mem s) off"
definition GICC_REG :: "uint64 \<Rightarrow> 'z ktrap_scheme \<Rightarrow> uint64" where "GICC_REG off s = ld64 (gic_mem s) (0x10000 + off)"

definition set_GICD_REG :: "uint64 \<Rightarrow> uint64 \<Rightarrow> 'z ktrap_scheme \<Rightarrow> 'z ktrap_scheme" where
  "set_GICD_REG off v s = s\<lparr>gic_mem := st64 off v (gic_mem s)\<rparr>"

definition set_GICC_REG :: "uint64 \<Rightarrow> uint64 \<Rightarrow> 'z ktrap_scheme \<Rightarrow> 'z ktrap_scheme" where
  "set_GICC_REG off v s = s\<lparr>gic_mem := st64 (0x10000 + off) v (gic_mem s)\<rparr>"

definition rmw_bit :: "nat \<Rightarrow> bool \<Rightarrow> uint64 \<Rightarrow> uint64" where
  "rmw_bit bitpos bval r =
     (let rval = (ucast r :: uint)
      in ucast (if bval then rval OR push_bit bitpos 1 else rval AND NOT (push_bit bitpos 1)))"

definition gicd_set_bit :: "uint64 \<Rightarrow> nat \<Rightarrow> bool \<Rightarrow> 'z ktrap_scheme \<Rightarrow> 'z ktrap_scheme" where
  "gicd_set_bit base idn bval s =
     (let off = base + of_nat (4 * (idn div 32)) in set_GICD_REG off (rmw_bit (idn mod 32) bval (GICD_REG off s)) s)"

definition gicc_set_bit :: "uint64 \<Rightarrow> nat \<Rightarrow> bool \<Rightarrow> 'z ktrap_scheme \<Rightarrow> 'z ktrap_scheme" where
  "gicc_set_bit base idn bval s =
     (let off = base + of_nat (4 * (idn div 32)) in set_GICC_REG off (rmw_bit (idn mod 32) bval (GICC_REG off s)) s)"

definition spi2id :: "nat \<Rightarrow> nat" where "spi2id spi = spi + 32"

definition gd_spi_enable :: "nat \<Rightarrow> 'z ktrap_scheme \<Rightarrow> 'z ktrap_scheme" where
  "gd_spi_enable spi s = gicd_set_bit GICD_ISENABLE (spi2id spi) True s"

definition gd_spi_target0 :: "nat \<Rightarrow> 'z ktrap_scheme \<Rightarrow> 'z ktrap_scheme" where
  "gd_spi_target0 spi s =
     (let idn = spi2id spi; bitpos = (idn mod 4) * 8; off = GICD_ITARGET + of_nat (4 * (idn div 4));
          rval = (ucast (GICD_REG off s) :: uint)
      in set_GICD_REG off (ucast (rval OR push_bit bitpos 1)) s)"

definition gd_spi_setcfg :: "nat \<Rightarrow> bool \<Rightarrow> 'z ktrap_scheme \<Rightarrow> 'z ktrap_scheme" where
  "gd_spi_setcfg spi is_edge s =
     (let idn = spi2id spi; bitpos = (idn mod 16) * 2; off = GICD_ICFG + of_nat (4 * (idn div 16));
          rval = (ucast (GICD_REG off s) :: uint) AND NOT (push_bit bitpos 3)
      in set_GICD_REG off (ucast (if is_edge then rval OR push_bit bitpos 2 else rval)) s)"

definition gic_dist_configure :: "nat \<Rightarrow> 'z ktrap_scheme \<Rightarrow> 'z ktrap_scheme" where
  "gic_dist_configure num s = gd_spi_target0 num (gd_spi_enable num (gd_spi_setcfg num True s))"

definition gic_cpu_init :: "'z ktrap_scheme \<Rightarrow> 'z ktrap_scheme" where "gic_cpu_init s = set_GICC_REG GICC_PMR 0x0f s"

definition gic_enable :: "'z ktrap_scheme \<Rightarrow> 'z ktrap_scheme" where
  "gic_enable s =
     (let s1 = set_GICD_REG GICD_CTLR (GICD_REG GICD_CTLR s OR 1) s
      in set_GICC_REG GICC_CTLR (GICC_REG GICC_CTLR s1 OR 1) s1)"

text \<open>Both writes of \<open>gic_disable\<close> go through \<open>GICD_REG\<close>.\<close>

definition gic_disable :: "'z ktrap_scheme \<Rightarrow> 'z ktrap_scheme" where
  "gic_disable s =
     (let s1 = set_GICD_REG GICD_CTLR (GICD_REG GICD_CTLR s AND 0xFFFFFFFE) s
      in set_GICD_REG GICC_CTLR (GICD_REG GICC_CTLR s1 AND 0xFFFFFFFE) s1)"

definition gic_configure :: "nat \<Rightarrow> 'z ktrap_scheme \<Rightarrow> 'z ktrap_scheme" where
  "gic_configure num s = gic_dist_configure num s"

definition gic_eoi :: "nat \<Rightarrow> 'z ktrap_scheme \<Rightarrow> 'z ktrap_scheme" where
  "gic_eoi intn s = set_GICC_REG GICC_EOIR (of_nat (spi2id intn)) s"

definition gic_getack :: "'z ktrap_scheme \<Rightarrow> int" where
  "gic_getack s = sint (ucast (GICC_REG GICC_IAR s) :: uint)"

section \<open>Service routines\<close>

definition NUM_INTSRC :: nat where "NUM_INTSRC = 32"

definition pic_enable :: "nat \<Rightarrow> isr \<Rightarrow> 'z ktrap_scheme \<Rightarrow> 'z ktrap_scheme" where
  "pic_enable n i s = (if n < NUM_INTSRC then s\<lparr>isrs := (isrs s)(n \<mapsto> i)\<rparr> else s)"

definition isr_init :: "'z ktrap_scheme \<Rightarrow> 'z ktrap_scheme" where
  "isr_init s = s\<lparr>isrs := (\<lambda>i. if i < NUM_INTSRC then Some Isr_default else isrs s i)\<rparr>"

definition gic_init :: "'z ktrap_scheme \<Rightarrow> 'z ktrap_scheme" where
  "gic_init s =
     gic_enable (gic_configure PIC_UART0 (gic_configure PIC_TIMER23 (gic_configure PIC_TIMER01 (isr_init (gic_cpu_init s)))))"

definition TIMER_LOAD :: nat where "TIMER_LOAD = 0"
definition TIMER_CONTROL :: nat where "TIMER_CONTROL = 2"
definition TIMER_INTCLR :: nat where "TIMER_INTCLR = 3"

definition ack_timer :: "'z ktrap_scheme \<Rightarrow> 'z ktrap_scheme" where
  "ack_timer s = s\<lparr>timer0 := (timer0 s)(TIMER_INTCLR := 1)\<rparr>"

definition timer_init :: "nat \<Rightarrow> 'z ktrap_scheme \<Rightarrow> 'z ktrap_scheme" where
  "timer_init hz s =
     (let s1 = initlock Lk_ticks s;
          s2 = s1\<lparr>timer0 := (timer0 s1)(TIMER_LOAD := of_nat (CLK_HZ div hz), TIMER_CONTROL := 0x80 OR 0x40 OR 0x02 OR 0x20)\<rparr>
      in pic_enable PIC_TIMER01 Isr_timer s2)"

definition isr_timer :: "'z ktrap_scheme \<Rightarrow> ('z ktrap_scheme, unit) outcome" where
  "isr_timer s =
     (let s1 = acquire Lk_ticks s
      in andthen (wakeup Ch_ticks (s1\<lparr>ticks := ticks s1 + 1\<rparr>)) (\<lambda>_ s2.
         andthen (release Lk_ticks s2) (\<lambda>_ s3. Ok () (ack_timer s3))))"

definition UART_IBRD :: nat where "UART_IBRD = 9"
definition UART_FBRD :: nat where "UART_FBRD = 10"
definition UART_LCR :: nat where "UART_LCR = 11"
definition UART_CR :: nat where "UART_CR = 12"
definition UART_IMSC :: nat where "UART_IMSC = 14"
definition UART_MIS :: nat where "UART_MIS = 16"
definition UART_ICR :: nat where "UART_ICR = 17"
definition UART_RXI :: uint where "UART_RXI = 0x10"
definition UART_TXI :: uint where "UART_TXI = 0x20"
definition UART_BITRATE :: nat where "UART_BITRATE = 19200"

definition uart_init :: "'z ktrap_scheme \<Rightarrow> 'z ktrap_scheme" where
  "uart_init s =
     (let left = UART_CLK mod (16 * UART_BITRATE); r = uart_regs s
      in s\<lparr>uart_regs := r(UART_IBRD := of_nat (UART_CLK div (16 * UART_BITRATE)),
             UART_FBRD := of_nat ((left * 4 + UART_BITRATE div 2) div UART_BITRATE),
             UART_CR := r UART_CR OR 0x301, UART_LCR := r UART_LCR OR 0x10)\<rparr>)"

definition uart_enable_rx :: "'z ktrap_scheme \<Rightarrow> 'z ktrap_scheme" where
  "uart_enable_rx s = pic_enable PIC_UART0 Isr_uart (s\<lparr>uart_regs := (uart_regs s)(UART_IMSC := UART_RXI)\<rparr>)"

definition isr_uart :: "'z ktrap_scheme \<Rightarrow> ('z ktrap_scheme, unit) outcome" where
  "isr_uart s =
     andthen (if uart_regs s UART_MIS AND UART_RXI \<noteq> 0 then consoleintr s else Ok () s) (\<lambda>_ s1.
       Ok () (s1\<lparr>uart_regs := (uart_regs s1)(UART_ICR := UART_RXI OR UART_TXI)\<rparr>))"

definition default_isr :: "nat \<Rightarrow> 'z ktrap_scheme \<Rightarrow> ('z ktrap_scheme, unit) outcome" where
  "default_isr n s = cprintf (''unhandled interrupt: %d'' @ [CHR 0x0A]) [ANum (of_nat n)] s"

definition run_isr :: "isr \<Rightarrow> nat \<Rightarrow> 'z ktrap_scheme \<Rightarrow> ('z ktrap_scheme, unit) outcome" where
  "run_isr i n s = (case i of Isr_default \<Rightarrow> default_isr n s | Isr_timer \<Rightarrow> isr_timer s | Isr_uart \<Rightarrow> isr_uart s)"

definition pic_dispatch :: "'z ktrap_scheme \<Rightarrow> ('z ktrap_scheme, unit) outcome" where
  "pic_dispatch s =
     (let intn = gic_getack s - 32
      in if intn < 0 \<or> int NUM_INTSRC \<le> intn then Fault
         else (case isrs s (nat intn) of None \<Rightarrow> Fault
               | Some i \<Rightarrow> andthen (run_isr i (nat intn) s) (\<lambda>_ s1. Ok () (gic_eoi (nat intn) s1))))"

end
