(* ===== verification/Trap.thy ===== *)
theory Trap
  imports Sysfile Gic
begin

text \<open>
  The system call dispatcher (\<^verbatim>\<open>syscall.c\<close>), the exception handlers (\<^verbatim>\<open>trap.c\<close>) and the boot
  sequence (\<^verbatim>\<open>main.c\<close>). The fault address register is an argument of \<open>dabort_handler\<close>.
\<close>

section \<open>System calls\<close>

text \<open>The table \<open>syscalls\<close>, by the numbers of \<^verbatim>\<open>syscall.h\<close>: 22 entries, the first one null.\<close>

definition syscalls :: "('z kproc_scheme \<Rightarrow> ('z kproc_scheme, int) outcome) option list" where
  "syscalls = [None, Some sys_fork, Some sys_exit, Some sys_wait, Some sys_pipe, Some sys_read, Some sys_kill,
     Some sys_exec, Some sys_fstat, Some sys_chdir, Some sys_dup, Some sys_getpid, Some sys_sbrk, Some sys_sleep,
     Some sys_uptime, Some sys_open, Some sys_write, Some sys_mknod, Some sys_unlink, Some sys_link, Some sys_mkdir,
     Some sys_close]"

definition SYS_exec :: int where "SYS_exec = 7"

definition set_r0 :: "int \<Rightarrow> 'z kproc_scheme \<Rightarrow> ('z kproc_scheme, unit) outcome" where
  "set_r0 v s =
     andthen (cur s) (\<lambda>p s. Ok () (upd_proc p (\<lambda>q. q\<lparr>p_tf := (p_tf q)\<lparr>tf_r := (tf_r (p_tf q))(0 := word_of_int v)\<rparr>\<rparr>) s))"

text \<open>\<open>num\<close> is compared with the number of entries by \<open><=\<close>, so the last index it lets
  through is past the end of the table.\<close>

definition syscall :: "'z kproc_scheme \<Rightarrow> ('z kproc_scheme, unit) outcome" where
  "syscall s =
     andthen (cur s) (\<lambda>p s.
       let num = to_int (tf_r (p_tf (ptable s p)) 0);
           unknown = andthen (cprintf (''%d %s: unknown sys call %d'' @ [CHR 0x0A])
                       [ANum (int_arg (p_pid (ptable s p))), AStr (Some (p_name (ptable s p))), ANum (int_arg num)] s)
                       (\<lambda>_ s. set_r0 (- 1) s)
       in if num > 0 \<and> num \<le> int (length (syscalls :: ('z kproc_scheme \<Rightarrow> ('z kproc_scheme, int) outcome) option list))
          then if nat num < length (syscalls :: ('z kproc_scheme \<Rightarrow> ('z kproc_scheme, int) outcome) option list)
               then (case syscalls ! nat num of
                       Some f \<Rightarrow> andthen (f s) (\<lambda>ret s. if num \<noteq> SYS_exec then set_r0 ret s else Ok () s)
                     | None \<Rightarrow> unknown)
               else Fault
          else unknown)"

section \<open>Exception handlers\<close>

definition swi_handler :: "trapframe \<Rightarrow> 'z kproc_scheme \<Rightarrow> ('z kproc_scheme, unit) outcome" where
  "swi_handler r s = andthen (cur s) (\<lambda>p s. syscall (upd_proc p (\<lambda>q. q\<lparr>p_tf := r\<rparr>) s))"

definition irq_handler :: "trapframe \<Rightarrow> 'z ktrap_scheme \<Rightarrow> ('z ktrap_scheme, unit) outcome" where
  "irq_handler r s =
     pic_dispatch (case cproc s of None \<Rightarrow> s | Some p \<Rightarrow> upd_proc p (\<lambda>q. q\<lparr>p_tf := r\<rparr>) s)"

definition print_line :: "string \<Rightarrow> carg list \<Rightarrow> 'z kcons_scheme \<Rightarrow> ('z kcons_scheme, unit) outcome" where
  "print_line fmt args s = cprintf (fmt @ [CHR 0x0A]) args s"

definition reg_names :: "string list" where
  "reg_names = [''     r0: '', ''     r1: '', ''     r2: '', ''     r3: '', ''     r4: '', ''     r5: '', ''     r6: '', ''     r7: '',
     ''     r8: '', ''     r9: '', ''    r10: '', ''    r11: '', ''    r12: '', ''    r13: '', ''    r14: '', ''    r15: '',
     ''    r16: '', ''    r17: '', ''    r18: '', ''    r19: '', ''    r20: '', ''    r21: '', ''    r22: '', ''    r23: '',
     ''    r24: '', ''    r25: '', ''    r26: '', ''    r27: '', ''    r28: '', ''    r29: '', ''    r30: '']"

fun dump_lines :: "(string \<times> uint64) list \<Rightarrow> 'z kcons_scheme \<Rightarrow> ('z kcons_scheme, unit) outcome" where
  "dump_lines [] s = Ok () s"
| "dump_lines ((name, v) # rest) s = andthen (print_line (name @ ''0x%x'') [ANum v] s) (\<lambda>_ s. dump_lines rest s)"

definition dump_trapframe :: "trapframe \<Rightarrow> 'z kcons_scheme \<Rightarrow> ('z kcons_scheme, unit) outcome" where
  "dump_trapframe tf s =
     dump_lines ([(''     sp: '', tf_sp tf), (''     pc: '', tf_pc tf), (''   spsr: '', tf_spsr tf)]
       @ zip reg_names (map (tf_r tf) [0..<31])) s"

definition dabort_handler :: "trapframe \<Rightarrow> uint64 \<Rightarrow> 'z kcons_scheme \<Rightarrow> ('z kcons_scheme, unit) outcome" where
  "dabort_handler r fa s =
     andthen (print_line ''data abort: instruction 0x%x, fault addr 0x%x'' [ANum (tf_pc r), ANum fa] (cli s)) (\<lambda>_ s. dump_trapframe r s)"

definition iabort_handler :: "trapframe \<Rightarrow> 'z kcons_scheme \<Rightarrow> ('z kcons_scheme, unit) outcome" where
  "iabort_handler r s = andthen (print_line ''prefetch abort at: 0x%x'' [ANum (tf_pc r)] (cli s)) (\<lambda>_ s. dump_trapframe r s)"

definition reset_handler :: "trapframe \<Rightarrow> 'z kcons_scheme \<Rightarrow> ('z kcons_scheme, unit) outcome" where
  "reset_handler r s = print_line ''reset at: 0x%x '' [ANum (tf_pc r)] (cli s)"

definition und_handler :: "trapframe \<Rightarrow> 'z kcons_scheme \<Rightarrow> ('z kcons_scheme, unit) outcome" where
  "und_handler r s = andthen (print_line ''und at: 0x%x '' [ANum (tf_pc r)] (cli s)) (\<lambda>_ s. dump_trapframe r s)"

definition na_handler :: "trapframe \<Rightarrow> 'z kcons_scheme \<Rightarrow> ('z kcons_scheme, unit) outcome" where
  "na_handler r s = print_line ''n/a at: 0x%x '' [ANum (tf_pc r)] (cli s)"

definition fiq_handler :: "trapframe \<Rightarrow> 'z kcons_scheme \<Rightarrow> ('z kcons_scheme, unit) outcome" where
  "fiq_handler r s = print_line ''fiq at: 0x%x '' [ANum (tf_pc r)] (cli s)"

definition bad_handler :: "'z kcons_scheme \<Rightarrow> ('z kcons_scheme, unit) outcome" where
  "bad_handler s = print_line ''Bad Exception'' [] (cli s)"

definition error_handler :: "'z kcons_scheme \<Rightarrow> ('z kcons_scheme, unit) outcome" where
  "error_handler s = print_line ''Error Exception'' [] (cli s)"

definition default_handler :: "'z kcons_scheme \<Rightarrow> ('z kcons_scheme, unit) outcome" where
  "default_handler s = print_line ''Default Exception'' [] (cli s)"

section \<open>Boot\<close>

text \<open>\<open>kmain\<close> up to the entry of \<open>scheduler\<close>. Its arguments are the linker's \<open>end\<close>, the address of
  the kernel page table of \<^verbatim>\<open>start.c\<close>, the disk image and the image of \<open>initcode\<close>.\<close>

definition PHYSTOP :: uint64 where "PHYSTOP = 0x08000000 + PHY_START"

definition kmain :: "uint64 \<Rightarrow> uint64 \<Rightarrow> nat \<Rightarrow> (nat \<Rightarrow> bytes) \<Rightarrow> (nat \<Rightarrow> uint8) \<Rightarrow> uint \<Rightarrow> 'z ktrap_scheme \<Rightarrow> ('z ktrap_scheme, unit) outcome" where
  "kmain kend kernel_pgtbl img_size img initcode initcode_size s =
     (let s1 = kpt_freerange (of_nat (align_up (unat kend) PT_SZ)) (p2v INIT_KERNMAP) (init_vmm (uart_init s))
      in andthen (paging_init kernel_pgtbl INIT_KERNMAP PHYSTOP s1) (\<lambda>_ s2.
         andthen (kmem_init2 (p2v INIT_KERNMAP) (p2v PHYSTOP) (kmem_init s2)) (\<lambda>_ s3.
           let s4 = consoleinit (uart_enable_rx (gic_init s3));
               s5 = ideinit img_size img (iinit (fileinit (binit (pinit s4))))
           in userinit initcode initcode_size (sti s5))))"

end
