(* ===== verification/Lock_Discipline.thy ===== *)
theory Lock_Discipline
  imports Trap
begin

text \<open>
  The lock discipline of the whole kernel. Every routine gives back the locks it takes, changes the state of no
  running process but by giving up the CPU, and gives it up as \<open>sched\<close> demands: with \<open>ptable.lock\<close> held and no other
  lock. A routine that may sleep is called with no lock held; the others at any depth.
\<close>

section \<open>Running and parked\<close>

text \<open>\<open>running r n t\<close>: the CPU is with the process \<open>r\<close>, or with the scheduler if there is none, inside \<open>n\<close> critical
  sections. \<open>parked r t\<close>: the process \<open>r\<close> has switched to the scheduler.\<close>

definition running :: "nat option \<Rightarrow> nat \<Rightarrow> 'z kcore_scheme \<Rightarrow> bool" where
  "running r n t \<longleftrightarrow> cproc t = r \<and> ncli t = int n \<and> (0 < n \<longrightarrow> \<not> irq t) \<and> (\<forall>q. p_state (ptable t q) = RUNNING \<longleftrightarrow> r = Some q)"

definition parked :: "nat option \<Rightarrow> 'z kcore_scheme \<Rightarrow> bool" where
  "parked r t \<longleftrightarrow> cproc t = r \<and> locked t Lk_ptable \<and> ncli t = 1 \<and> \<not> irq t \<and> (\<forall>q. p_state (ptable t q) \<noteq> RUNNING)"

text \<open>The panics of \<open>sched\<close> and \<open>popcli\<close>.\<close>

definition lock_panic :: "string \<Rightarrow> bool" where
  "lock_panic msg \<longleftrightarrow> msg \<in> set [''sched ptable.lock'', ''sched locks'', ''sched running'', ''sched interruptible'',
     ''popcli - interruptible'', ''popcli -- ncli < 0'']"

definition orderly :: "nat option \<Rightarrow> nat \<Rightarrow> ('z kcore_scheme, 'a) outcome \<Rightarrow> bool" where
  "orderly r n m \<longleftrightarrow> (case m of Ok x t \<Rightarrow> running r n t | Swtch t \<Rightarrow> parked r t | Panic msg \<Rightarrow> \<not> lock_panic msg | _ \<Rightarrow> True)"

declare lock_panic_def [simp]

named_theorems ord \<open>the lock discipline, routine by routine\<close>

lemma orderly_simps [simp]:
  "orderly r n (Ok x t) = running r n t" "orderly r n (Swtch t) = parked r t" "orderly r n (Panic msg) \<longleftrightarrow> \<not> lock_panic msg"
  "orderly r n Fault" "orderly r n Diverge"
  by (simp_all add: orderly_def)

lemma orderly_leaf [ord]:
  "running r n t \<Longrightarrow> orderly r n (Ok x t)" "\<not> lock_panic msg \<Longrightarrow> orderly r n (Panic msg)" "orderly r n Fault" "orderly r n Diverge"
  by simp_all

lemma orderly_andthen [ord]: "orderly r k m \<Longrightarrow> (\<And>x t. running r k t \<Longrightarrow> orderly r n (f x t)) \<Longrightarrow> orderly r n (andthen m f)"
  by (cases m) auto

lemma orderly_cases [ord]:
  "(b \<Longrightarrow> orderly r n m) \<Longrightarrow> (\<not> b \<Longrightarrow> orderly r n m') \<Longrightarrow> orderly r n (if b then m else m')"
  "(y = None \<Longrightarrow> orderly r n m) \<Longrightarrow> (\<And>z. y = Some z \<Longrightarrow> orderly r n (f z)) \<Longrightarrow> orderly r n (case y of None \<Rightarrow> m | Some z \<Rightarrow> f z)"
  "(\<And>a b. w = (a, b) \<Longrightarrow> orderly r n (g a b)) \<Longrightarrow> orderly r n (case w of (a, b) \<Rightarrow> g a b)"
  "(\<And>a b. w = (a, b) \<Longrightarrow> orderly r n (h a b t)) \<Longrightarrow> orderly r n ((case w of (a, b) \<Rightarrow> h a b) t)"
  by (auto split: option.split prod.split)

declare readi_loop.simps [simp del] writei_loop.simps [simp del] namex_loop.simps [simp del] filewrite_loop.simps [simp del]
  mappages_loop.simps [simp del] deallocuvm_loop.simps [simp del] allocuvm_loop.simps [simp del] copyout_loop.simps [simp del]
  kill_line.simps [simp del]

section \<open>State updates\<close>

lemma running_acquire [ord]: "running r n t \<Longrightarrow> running r (Suc n) (acquire l t)"
  by (simp add: running_def lock_simps)

lemma running_pushcli [ord]: "running r n t \<Longrightarrow> running r (Suc n) (pushcli t)"
  by (simp add: running_def lock_simps)

lemma running_if [ord]: "(b \<Longrightarrow> running r n t) \<Longrightarrow> (\<not> b \<Longrightarrow> running r n u) \<Longrightarrow> running r n (if b then t else u)"
  by simp

lemma running_upd_proc [ord]: "(\<And>q. p_state (g q) = p_state q) \<Longrightarrow> running r n t \<Longrightarrow> running r n (upd_proc p g t)"
  by (simp add: running_def upd_proc_def)

lemma running_other_proc: "(\<And>q. p_state (g q) \<noteq> RUNNING) \<Longrightarrow> r \<noteq> Some p \<Longrightarrow> running r n t \<Longrightarrow> running r n (upd_proc p g t)"
  by (auto simp: running_def upd_proc_def)

lemma wake_running [simp]: "p_state (wake ch tab p) = RUNNING \<longleftrightarrow> p_state (tab p) = RUNNING"
  by (auto simp: wake_def)

lemma running_wakeup1 [ord]: "running r n t \<Longrightarrow> running r n (wakeup1 ch t)"
  by (simp add: running_def lock_simps)

lemma running_core [ord]:
  "running r n t \<Longrightarrow> running r n (ttbr0_update f1 t)" "running r n t \<Longrightarrow> running r n (nextpid_update f2 t)"
  "running r n t \<Longrightarrow> running r n (initlock l t)"
  by (simp_all add: running_def initlock_def)

lemma running_mem [ord]:
  "running r n t \<Longrightarrow> running r n (upd_mark o1 f t)" "running r n t \<Longrightarrow> running r n (set_head o1 v t)"
  "running r n t \<Longrightarrow> running r n (set_lnks o1 a b c t)" "running r n t \<Longrightarrow> running r n (orders_update g t)"
  by (simp_all add: running_def upd_mark_def set_head_def set_lnks_def)

lemma running_bio [ord]:
  "running r n t \<Longrightarrow> running r n (upd_buf b f t)" "running r n t \<Longrightarrow> running r n (set_bdata b d t)"
  "running r n t \<Longrightarrow> running r n (set_bnext p q t)" "running r n t \<Longrightarrow> running r n (set_bprev p q t)"
  "running r n t \<Longrightarrow> running r n (memdisk_update f1 t)" "running r n t \<Longrightarrow> running r n (disk_writes_update f2 t)"
  "running r n t \<Longrightarrow> running r n (bc_head_next_update f3 t)" "running r n t \<Longrightarrow> running r n (bc_head_prev_update f4 t)"
  by (auto simp: running_def upd_buf_def set_bdata_def set_bnext_def set_bprev_def split: bref.splits)

lemma running_log [ord]:
  "running r n t \<Longrightarrow> running r n (lh_n_update f1 t)" "running r n t \<Longrightarrow> running r n (lh_sector_update f2 t)"
  "running r n t \<Longrightarrow> running r n (log_busy_update f3 t)" "running r n t \<Longrightarrow> running r n (log_start_update f4 t)"
  "running r n t \<Longrightarrow> running r n (log_size_update f5 t)" "running r n t \<Longrightarrow> running r n (log_dev_update f6 t)"
  by (simp_all add: running_def)

lemma running_files [ord]:
  "running r n t \<Longrightarrow> running r n (upd_inode i f t)" "running r n u \<Longrightarrow> running r n (upd_file i g u)" "running r n u \<Longrightarrow> running r n (upd_pipe p h u)"
  "running r n u \<Longrightarrow> running r n (pipes_update f1 u)"
  by (simp_all add: running_def upd_inode_def upd_file_def upd_pipe_def)

lemma running_cons [ord]:
  "running r n t \<Longrightarrow> running r n (uartputc c t)" "running r n t \<Longrightarrow> running r n (in_buf_update f1 t)" "running r n t \<Longrightarrow> running r n (in_r_update f2 t)"
  "running r n t \<Longrightarrow> running r n (in_w_update f3 t)" "running r n t \<Longrightarrow> running r n (in_e_update f4 t)" "running r n t \<Longrightarrow> running r n (uart_rx_update f5 t)"
  "running r n t \<Longrightarrow> running r n (uart_tx_update f6 t)" "running r n t \<Longrightarrow> running r n (call_pcs_update f7 t)"
  by (simp_all add: running_def uartputc_def)

lemma running_vm [ord]:
  "running r n t \<Longrightarrow> running r n (kdata_update f1 t)" "running r n t \<Longrightarrow> running r n (kpt_freelist_update f2 t)" "running r n t \<Longrightarrow> running r n (ticks_update f3 t)"
  "running r n t \<Longrightarrow> running r n (kpt_free1 v t)" "running r n u \<Longrightarrow> running r n (forkret_first_update f4 u)"
  by (simp_all add: running_def kpt_free1_def)

lemma running_trap [ord]:
  "running r n t \<Longrightarrow> running r n (gic_mem_update f1 t)" "running r n t \<Longrightarrow> running r n (timer0_update f2 t)"
  "running r n t \<Longrightarrow> running r n (uart_regs_update f3 t)" "running r n t \<Longrightarrow> running r n (gic_eoi i t)" "running r n t \<Longrightarrow> running r n (ack_timer t)"
  by (simp_all add: running_def gic_eoi_def set_GICC_REG_def ack_timer_def Let_def)

section \<open>Locks and the scheduler\<close>

lemma popcli_ord [ord]: "running r (Suc n) t \<Longrightarrow> orderly r n (popcli t)"
  by (simp add: running_def lock_simps)

lemma release_ord [ord]: "running r (Suc n) t \<Longrightarrow> orderly r n (release l t)"
  by (simp add: running_def lock_simps)

lemma wakeup_ord [ord]: "running r n t \<Longrightarrow> orderly r n (wakeup ch t)"
  unfolding wakeup_def by (assumption | rule ord)+

lemma sched_ord: "running r (Suc 0) t \<Longrightarrow> locked t Lk_ptable \<Longrightarrow> r = Some p \<Longrightarrow> (\<And>q. p_state (g q) \<noteq> RUNNING) \<Longrightarrow> orderly r n (sched (upd_proc p g t))"
  by (auto simp: sched_def running_def parked_def upd_proc_def holding_def int_enabled_def)

lemma sleep_ord: "running r (Suc 0) t \<Longrightarrow> l \<noteq> Lk_ptable \<or> locked t Lk_ptable \<Longrightarrow> orderly r n (sleep ch (Some l) t)"
proof (cases r)
  case (Some p)
  assume "running r (Suc 0) t" and "l \<noteq> Lk_ptable \<or> locked t Lk_ptable"
  with Some show ?thesis
    by (auto simp: sleep_unfold lock_simps running_def parked_def sched_def upd_proc_def holding_def int_enabled_def)
qed (simp add: running_def sleep_unfold lock_panic_def)

lemma blocked_sleep_ord [ord]: "running r (Suc 0) t \<Longrightarrow> l \<noteq> Lk_ptable \<Longrightarrow> orderly r n (blocked (sleep ch (Some l) t))"
  unfolding blocked_def by (rule orderly_andthen [OF sleep_ord [where n = n]]) (simp_all add: lock_panic_def)

lemma sleep_resume_ord [ord]: "running r (Suc 0) t \<Longrightarrow> l \<noteq> Lk_ptable \<Longrightarrow> orderly r (Suc 0) (sleep_resume l t)"
  by (auto simp: sleep_resume_def sched_resume_def lock_simps running_def upd_proc_def split: option.split)

lemma kill_ord [ord]: "running r n t \<Longrightarrow> orderly r n (kill pid t)"
proof -
  assume t: "running r n t"
  then have "cpu_ok t" by (auto simp: running_def cpu_ok_def)
  then have "case kill pid t of Ok x u \<Rightarrow> cproc u = cproc t \<and> ncli u = ncli t \<and> irq u = irq t
      \<and> (\<forall>p. p_state (ptable u p) = RUNNING \<longleftrightarrow> p_state (ptable t p) = RUNNING) | _ \<Rightarrow> False"
    by (auto simp: kill_update Let_def cpu_ok_def split: option.split)
  with t show ?thesis by (cases "kill pid t") (auto simp: running_def)
qed

lemma switchuvm_ord [ord]: "running r n t \<Longrightarrow> orderly r n (switchuvm p t)"
  unfolding switchuvm_def Let_def by (assumption | rule ord | (simp; fail))+

section \<open>Memory\<close>

lemma running_not: "running r n t \<Longrightarrow> p_state (ptable t p) \<noteq> RUNNING \<Longrightarrow> r \<noteq> Some p"
  by (auto simp: running_def)

lemma unmark_blk_ord [ord]: "running r n t \<Longrightarrow> orderly r n (unmark_blk x1 x2 t)"
  unfolding unmark_blk_def Let_def by (assumption | rule ord | (simp; fail))+

lemma mark_blk_ord [ord]: "running r n t \<Longrightarrow> orderly r n (mark_blk x1 x2 t)"
  unfolding mark_blk_def Let_def by (assumption | rule ord | (simp; fail))+

lemma get_blk_ord [ord]: "running r n t \<Longrightarrow> orderly r n (get_blk x1 t)"
  unfolding get_blk_def Let_def by (assumption | rule ord | (simp; fail))+

lemma kfree_rec_ord [ord]: "running r n t \<Longrightarrow> orderly r n (kfree_rec a k t)"
proof (induction "Suc MAX_ORD - k" arbitrary: a k t rule: less_induct)
  case less
  note less(1) [ord]
  show ?case by (subst kfree_rec.simps, (unfold Let_def)?, insert less(2), (assumption | rule ord | (simp; fail) | linarith)+)
qed

lemma kmalloc_rec_ord [ord]: "running r n t \<Longrightarrow> orderly r n (kmalloc_rec k t)"
proof (induction "Suc MAX_ORD - k" arbitrary: k t rule: less_induct)
  case less
  note less(1) [ord]
  show ?case by (subst kmalloc_rec.simps, (unfold Let_def)?, insert less(2), (assumption | rule ord | (simp; fail) | linarith)+)
qed

lemma kmalloc_ord [ord]: "running r n t \<Longrightarrow> orderly r n (kmalloc x1 t)"
  unfolding kmalloc_def Let_def by (assumption | rule ord | (simp; fail))+

lemma kfree_ord [ord]: "running r n t \<Longrightarrow> orderly r n (kfree x1 x2 t)"
  unfolding kfree_def Let_def by (assumption | rule ord | (simp; fail))+

lemma free_page_ord [ord]: "running r n t \<Longrightarrow> orderly r n (free_page x1 t)"
  unfolding free_page_def Let_def by (assumption | rule ord | (simp; fail))+

lemma alloc_page_ord [ord]: "running r n t \<Longrightarrow> orderly r n (alloc_page t)"
  unfolding alloc_page_def Let_def by (assumption | rule ord | (simp; fail))+

lemma get_order_ord [ord]: "running r n t \<Longrightarrow> orderly r n (get_order x1 t)"
  unfolding get_order_def Let_def by (assumption | rule ord | (simp; fail))+

section \<open>The buffer cache\<close>

lemma iderw_ord [ord]: "running r n t \<Longrightarrow> orderly r n (iderw x1 t)"
  unfolding iderw_def Let_def by (assumption | rule ord | (simp; fail))+

lemma bscan_ord [ord]: "running r n t \<Longrightarrow> orderly r n (bscan k f P b t)"
  by (induction k f P b t rule: bscan.induct) auto

lemma bget_loop_ord [ord]: "running r (Suc 0) t \<Longrightarrow> orderly r 0 (bget_loop x1 x2 t)"
  unfolding bget_loop_def Let_def by (assumption | rule ord | (simp; fail))+

lemma bget_ord [ord]: "running r 0 t \<Longrightarrow> orderly r 0 (bget x1 x2 t)"
  unfolding bget_def Let_def by (assumption | rule ord | (simp; fail))+

lemma bget_resume_ord [ord]: "running r (Suc 0) t \<Longrightarrow> orderly r 0 (bget_resume x1 x2 t)"
  unfolding bget_resume_def Let_def by (assumption | rule ord | (simp; fail))+

lemma bread_ord [ord]: "running r 0 t \<Longrightarrow> orderly r 0 (bread x1 x2 t)"
  unfolding bread_def Let_def by (assumption | rule ord | (simp; fail))+

lemma bwrite_ord [ord]: "running r n t \<Longrightarrow> orderly r n (bwrite x1 t)"
  unfolding bwrite_def Let_def by (assumption | rule ord | (simp; fail))+

lemma brelse_ord [ord]: "running r n t \<Longrightarrow> orderly r n (brelse x1 t)"
  unfolding brelse_def Let_def by (assumption | rule ord | (simp; fail))+

section \<open>The log\<close>

lemma readsb_ord [ord]: "running r 0 t \<Longrightarrow> orderly r 0 (readsb x1 t)"
  unfolding readsb_def Let_def by (assumption | rule ord | (simp; fail))+

lemma install_loop_ord [ord]: "running r 0 t \<Longrightarrow> orderly r 0 (install_loop xs t)"
proof (induction xs arbitrary: t)
  case (Cons y ys)
  note Cons.IH [ord]
  show ?case by (insert Cons.prems, unfold install_loop.simps Let_def, (assumption | rule ord | (simp; fail))+)
qed simp

lemma install_trans_ord [ord]: "running r 0 t \<Longrightarrow> orderly r 0 (install_trans t)"
  unfolding install_trans_def Let_def by (assumption | rule ord | (simp; fail))+

lemma read_head_ord [ord]: "running r 0 t \<Longrightarrow> orderly r 0 (read_head t)"
  unfolding read_head_def Let_def by (assumption | rule ord | (simp; fail))+

lemma write_head_ord [ord]: "running r 0 t \<Longrightarrow> orderly r 0 (write_head t)"
  unfolding write_head_def Let_def by (assumption | rule ord | (simp; fail))+

lemma recover_from_log_ord [ord]: "running r 0 t \<Longrightarrow> orderly r 0 (recover_from_log t)"
  unfolding recover_from_log_def Let_def by (assumption | rule ord | (simp; fail))+

lemma initlog_ord [ord]: "running r 0 t \<Longrightarrow> orderly r 0 (initlog t)"
  unfolding initlog_def Let_def by (assumption | rule ord | (simp; fail))+

lemma begin_loop_ord [ord]: "running r (Suc 0) t \<Longrightarrow> orderly r 0 (begin_loop t)"
  unfolding begin_loop_def Let_def by (assumption | rule ord | (simp; fail))+

lemma begin_trans_ord [ord]: "running r 0 t \<Longrightarrow> orderly r 0 (begin_trans t)"
  unfolding begin_trans_def Let_def by (assumption | rule ord | (simp; fail))+

lemma begin_trans_resume_ord [ord]: "running r (Suc 0) t \<Longrightarrow> orderly r 0 (begin_trans_resume t)"
  unfolding begin_trans_resume_def Let_def by (assumption | rule ord | (simp; fail))+

lemma commit_trans_ord [ord]: "running r 0 t \<Longrightarrow> orderly r 0 (commit_trans t)"
  unfolding commit_trans_def Let_def by (assumption | rule ord | (simp; fail))+

lemma log_write_ord [ord]: "running r 0 t \<Longrightarrow> orderly r 0 (log_write x1 t)"
  unfolding log_write_def Let_def by (assumption | rule ord | (simp; fail))+

section \<open>Inodes\<close>

lemma bzero_ord [ord]: "running r 0 t \<Longrightarrow> orderly r 0 (bzero x1 x2 t)"
  unfolding bzero_def Let_def by (assumption | rule ord | (simp; fail))+

lemma balloc_loop_ord [ord]: "running r 0 t \<Longrightarrow> orderly r 0 (balloc_loop d sb bs t)"
proof (induction bs arbitrary: t)
  case (Cons y ys)
  note Cons.IH [ord]
  show ?case by (insert Cons.prems, unfold balloc_loop.simps Let_def, (assumption | rule ord | (simp; fail))+)
qed simp

lemma balloc_ord [ord]: "running r 0 t \<Longrightarrow> orderly r 0 (balloc x1 t)"
  unfolding balloc_def Let_def by (assumption | rule ord | (simp; fail))+

lemma bfree_ord [ord]: "running r 0 t \<Longrightarrow> orderly r 0 (bfree x1 x2 t)"
  unfolding bfree_def Let_def by (assumption | rule ord | (simp; fail))+

lemma iget_ord [ord]: "running r n t \<Longrightarrow> orderly r n (iget x1 x2 t)"
  unfolding iget_def Let_def by (assumption | rule ord | (simp; fail))+

lemma ialloc_loop_ord [ord]: "running r 0 t \<Longrightarrow> orderly r 0 (ialloc_loop d ty ns t)"
proof (induction ns arbitrary: t)
  case (Cons y ys)
  note Cons.IH [ord]
  show ?case by (insert Cons.prems, unfold ialloc_loop.simps Let_def, (assumption | rule ord | (simp; fail))+)
qed simp

lemma ialloc_ord [ord]: "running r 0 t \<Longrightarrow> orderly r 0 (ialloc x1 x2 t)"
  unfolding ialloc_def Let_def by (assumption | rule ord | (simp; fail))+

lemma iupdate_ord [ord]: "running r 0 t \<Longrightarrow> orderly r 0 (iupdate x1 t)"
  unfolding iupdate_def Let_def by (assumption | rule ord | (simp; fail))+

lemma idup_ord [ord]: "running r n t \<Longrightarrow> orderly r n (idup x1 t)"
  unfolding idup_def Let_def by (assumption | rule ord | (simp; fail))+

lemma ilock_load_ord [ord]: "running r 0 t \<Longrightarrow> orderly r 0 (ilock_load x1 t)"
  unfolding ilock_load_def Let_def by (assumption | rule ord | (simp; fail))+

lemma ilock_loop_ord [ord]: "running r (Suc 0) t \<Longrightarrow> orderly r 0 (ilock_loop x1 t)"
  unfolding ilock_loop_def Let_def by (assumption | rule ord | (simp; fail))+

lemma ilock_ord [ord]: "running r 0 t \<Longrightarrow> orderly r 0 (ilock x1 t)"
  unfolding ilock_def Let_def by (assumption | rule ord | (simp; fail))+

lemma ilock_resume_ord [ord]: "running r (Suc 0) t \<Longrightarrow> orderly r 0 (ilock_resume x1 t)"
  unfolding ilock_resume_def Let_def by (assumption | rule ord | (simp; fail))+

lemma iunlock_ord [ord]: "running r n t \<Longrightarrow> orderly r n (iunlock x1 t)"
  unfolding iunlock_def Let_def by (assumption | rule ord | (simp; fail))+

lemma bmap_ord [ord]: "running r 0 t \<Longrightarrow> orderly r 0 (bmap x1 x2 t)"
  unfolding bmap_def Let_def by (assumption | rule ord | (simp; fail))+

lemma itrunc_direct_ord [ord]: "running r 0 t \<Longrightarrow> orderly r 0 (itrunc_direct ip ns t)"
proof (induction ns arbitrary: t)
  case (Cons y ys)
  note Cons.IH [ord]
  show ?case by (insert Cons.prems, unfold itrunc_direct.simps Let_def, (assumption | rule ord | (simp; fail))+)
qed simp

lemma itrunc_indirect_ord [ord]: "running r 0 t \<Longrightarrow> orderly r 0 (itrunc_indirect ip bp ns t)"
proof (induction ns arbitrary: t)
  case (Cons y ys)
  note Cons.IH [ord]
  show ?case by (insert Cons.prems, unfold itrunc_indirect.simps Let_def, (assumption | rule ord | (simp; fail))+)
qed simp

lemma itrunc_ord [ord]: "running r 0 t \<Longrightarrow> orderly r 0 (itrunc x1 t)"
  unfolding itrunc_def Let_def by (assumption | rule ord | (simp; fail))+

lemma iput_ord [ord]: "running r 0 t \<Longrightarrow> orderly r 0 (iput x1 t)"
  unfolding iput_def Let_def by (assumption | rule ord | (simp; fail))+

lemma iunlockput_ord [ord]: "running r 0 t \<Longrightarrow> orderly r 0 (iunlockput x1 t)"
  unfolding iunlockput_def Let_def by (assumption | rule ord | (simp; fail))+

section \<open>The console\<close>

lemma orderly_case_list:
  "(y = [] \<Longrightarrow> orderly r n m) \<Longrightarrow> (\<And>z zs. y = z # zs \<Longrightarrow> orderly r n (f z zs)) \<Longrightarrow> orderly r n (case y of [] \<Rightarrow> m | z # zs \<Rightarrow> f z zs)"
  by (cases y) auto

lemma orderly_case_carg:
  "(\<And>x. y = ANum x \<Longrightarrow> orderly r n (f x)) \<Longrightarrow> (\<And>cs. y = AStr cs \<Longrightarrow> orderly r n (g cs)) \<Longrightarrow> orderly r n (case y of ANum x \<Rightarrow> f x | AStr cs \<Rightarrow> g cs)"
  by (cases y) auto

lemma consputc_ord [ord]: "running r n t \<Longrightarrow> orderly r n (consputc x1 t)"
  unfolding consputc_def Let_def by (assumption | rule ord | (simp; fail))+

lemma consputs_ord [ord]: "running r n t \<Longrightarrow> orderly r n (consputs cs t)"
proof (induction cs arbitrary: t)
  case (Cons y ys)
  note Cons.IH [ord]
  show ?case by (insert Cons.prems, unfold consputs.simps Let_def, (assumption | rule ord | (simp; fail))+)
qed simp

lemma printint_ord [ord]: "running r n t \<Longrightarrow> orderly r n (printint x1 x2 x3 t)"
  unfolding printint_def Let_def by (assumption | rule ord | (simp; fail))+

lemma cprintf_loop_ord [ord]: "running r n t \<Longrightarrow> orderly r n (cprintf_loop fmt args t)"
proof (induction "length fmt" arbitrary: fmt args t rule: less_induct)
  case less
  note less(1) [ord]
  show ?case
  proof (cases fmt)
    case (Cons c cs)
    show ?thesis unfolding Cons by (insert less.prems, unfold cprintf_loop.simps, (assumption | rule ord orderly_case_list orderly_case_carg | (simp add: Cons; fail))+)
  qed (use less.prems in simp)
qed

lemma cprintf_ord [ord]: "running r n t \<Longrightarrow> orderly r n (cprintf fmt args t)"
proof (cases "cons_locking t")
  case True
  then show "running r n t \<Longrightarrow> ?thesis" unfolding cprintf_def Let_def by (simp only: if_True) (assumption | rule ord | (simp; fail))+
next
  case False
  then show "running r n t \<Longrightarrow> ?thesis" unfolding cprintf_def Let_def by (simp only: if_False) (assumption | rule ord | (simp; fail))+
qed

lemma callstk_loop_ord [ord]: "running r n t \<Longrightarrow> orderly r n (callstk_loop ns t)"
proof (induction ns arbitrary: t)
  case (Cons y ys)
  note Cons.IH [ord]
  show ?case by (insert Cons.prems, unfold callstk_loop.simps Let_def, (assumption | rule ord | (simp; fail))+)
qed simp

lemma show_callstk_ord [ord]: "running r n t \<Longrightarrow> orderly r n (show_callstk x1 t)"
  unfolding show_callstk_def Let_def by (assumption | rule ord | (simp; fail))+

lemma procdump_loop_ord [ord]: "running r n t \<Longrightarrow> orderly r n (procdump_loop ps t)"
proof (induction ps arbitrary: t)
  case (Cons y ys)
  note Cons.IH [ord]
  show ?case by (insert Cons.prems, unfold procdump_loop.simps Let_def, (assumption | rule ord | (simp; fail))+)
qed simp

lemma procdump_ord [ord]: "running r n t \<Longrightarrow> orderly r n (procdump t)"
  unfolding procdump_def Let_def by (assumption | rule ord | (simp; fail))+

lemma kill_line_ord [ord]: "running r n t \<Longrightarrow> orderly r n (kill_line t)"
proof (induction t rule: kill_line.induct)
  case (1 s)
  show ?case
  proof (cases "in_e s \<noteq> in_w s \<and> in_buf s (in_idx (in_e s - 1)) \<noteq> 10")
    case True
    then have "kill_line s = andthen (consputc BACKSPACE (s\<lparr>in_e := in_e s - 1\<rparr>)) (\<lambda>_ s1. kill_line s1)" by (subst kill_line.simps) simp
    moreover have "orderly r n (consputc BACKSPACE (s\<lparr>in_e := in_e s - 1\<rparr>))" by (insert 1(2), (assumption | rule ord | (simp; fail))+)
    ultimately show ?thesis using 1(1) [OF True] by (cases "consputc BACKSPACE (s\<lparr>in_e := in_e s - 1\<rparr>)") auto
  qed (use 1(2) in \<open>subst kill_line.simps, auto\<close>)
qed

lemma consoleintr_char_ord [ord]: "running r n t \<Longrightarrow> orderly r n (consoleintr_char x1 t)"
  unfolding consoleintr_char_def Let_def by (assumption | rule ord | (simp; fail))+

lemma consoleintr_loop_ord [ord]: "running r n t \<Longrightarrow> orderly r n (consoleintr_loop cs t)"
proof (induction cs arbitrary: t)
  case (Cons y ys)
  note Cons.IH [ord]
  show ?case by (insert Cons.prems, unfold consoleintr_loop.simps Let_def, (assumption | rule ord | (simp; fail))+)
qed simp

lemma consoleintr_ord [ord]: "running r n t \<Longrightarrow> orderly r n (consoleintr t)"
  unfolding consoleintr_def Let_def by (assumption | rule ord | (simp; fail))+

lemma consoleread_end_ord [ord]: "running r (Suc 0) t \<Longrightarrow> orderly r 0 (consoleread_end x1 x2 x3 t)"
  unfolding consoleread_end_def Let_def by (assumption | rule ord | (simp; fail))+

lemma consoleread_loop_ord [ord]: "running r (Suc 0) t \<Longrightarrow> orderly r 0 (consoleread_loop ip target k acc t)"
proof (induction k arbitrary: acc t)
  case 0
  then show ?case by (simp add: consoleread_end_ord)
next
  case (Suc k)
  note Suc.IH [ord]
  show ?case by (insert Suc.prems, unfold consoleread_loop.simps Let_def, (assumption | rule ord | (simp; fail))+)
qed

lemma consoleread_ord [ord]: "running r 0 t \<Longrightarrow> orderly r 0 (consoleread x1 x2 t)"
  unfolding consoleread_def Let_def by (assumption | rule ord | (simp; fail))+

lemma consoleread_resume_ord [ord]: "running r (Suc 0) t \<Longrightarrow> orderly r 0 (consoleread_resume x1 x2 x3 x4 t)"
  unfolding consoleread_resume_def Let_def by (assumption | rule ord | (simp; fail))+

lemma consolewrite_ord [ord]: "running r 0 t \<Longrightarrow> orderly r 0 (consolewrite x1 x2 x3 t)"
  unfolding consolewrite_def Let_def by (assumption | rule ord | (simp; fail))+

section \<open>File contents and directories\<close>

lemma readi_loop_ord [ord]: "running r 0 t \<Longrightarrow> orderly r 0 (readi_loop ip off rem acc t)"
proof (induction rem arbitrary: off acc t rule: less_induct)
  case less
  note less(1) [ord]
  show ?case by (subst readi_loop.simps, (unfold Let_def)?, insert less(2), (assumption | rule ord | (simp add: chunk_pos; fail))+)
qed

lemma dev_read_ord [ord]: "running r 0 t \<Longrightarrow> orderly r 0 (dev_read x1 x2 t)"
  unfolding dev_read_def by (auto intro!: ord split: option.split devfun.split)

lemma readi_ord [ord]: "running r 0 t \<Longrightarrow> orderly r 0 (readi x1 x2 x3 t)"
  unfolding readi_def Let_def by (assumption | rule ord | (simp; fail))+

lemma writei_loop_ord [ord]: "running r 0 t \<Longrightarrow> orderly r 0 (writei_loop ip src pos off rem t)"
proof (induction rem arbitrary: pos off t rule: less_induct)
  case less
  note less(1) [ord]
  show ?case by (subst writei_loop.simps, (unfold Let_def)?, insert less(2), (assumption | rule ord | (simp add: chunk_pos; fail))+)
qed

lemma dev_write_ord [ord]: "running r 0 t \<Longrightarrow> orderly r 0 (dev_write x1 x2 x3 t)"
  unfolding dev_write_def by (auto intro!: ord split: option.split devfun.split)

lemma writei_ord [ord]: "running r 0 t \<Longrightarrow> orderly r 0 (writei x1 x2 x3 x4 t)"
  unfolding writei_def Let_def by (assumption | rule ord | (simp; fail))+

lemma read_dirent_ord [ord]: "running r 0 t \<Longrightarrow> \<not> lock_panic msg \<Longrightarrow> orderly r 0 (read_dirent msg x1 x2 t)"
  unfolding read_dirent_def Let_def by (assumption | rule ord | (simp; fail))+

lemma dirlookup_loop_ord [ord]: "running r 0 t \<Longrightarrow> orderly r 0 (dirlookup_loop dp name offs t)"
proof (induction offs arbitrary: t)
  case (Cons y ys)
  note Cons.IH [ord]
  show ?case by (insert Cons.prems, unfold dirlookup_loop.simps Let_def, (assumption | rule ord | (simp; fail))+)
qed simp

lemma dirlookup_ord [ord]: "running r 0 t \<Longrightarrow> orderly r 0 (dirlookup x1 x2 t)"
  unfolding dirlookup_def Let_def by (assumption | rule ord | (simp; fail))+

lemma dirlink_find_ord [ord]: "running r 0 t \<Longrightarrow> orderly r 0 (dirlink_find dp offs stop t)"
proof (induction offs arbitrary: t)
  case (Cons y ys)
  note Cons.IH [ord]
  show ?case by (insert Cons.prems, unfold dirlink_find.simps Let_def, (assumption | rule ord | (simp; fail))+)
qed simp

lemma dirlink_ord [ord]: "running r 0 t \<Longrightarrow> orderly r 0 (dirlink x1 x2 x3 t)"
  unfolding dirlink_def Let_def by (assumption | rule ord | (simp; fail))+

lemma namex_loop_ord [ord]: "running r 0 t \<Longrightarrow> orderly r 0 (namex_loop np path name ip t)"
proof (induction "length path" arbitrary: path name ip t rule: less_induct)
  case less
  note less(1) [ord]
  show ?case by (subst namex_loop.simps, (unfold Let_def)?, insert less(2), (assumption | rule ord | (simp add: skipelem_shorter; fail))+)
qed

lemma namex_ord [ord]: "running r 0 t \<Longrightarrow> orderly r 0 (namex x1 x2 x3 t)"
  unfolding namex_def Let_def by (assumption | rule ord | (simp; fail))+

lemma namei_ord [ord]: "running r 0 t \<Longrightarrow> orderly r 0 (namei x1 t)"
  unfolding namei_def Let_def by (assumption | rule ord | (simp; fail))+

lemma nameiparent_ord [ord]: "running r 0 t \<Longrightarrow> orderly r 0 (nameiparent x1 t)"
  unfolding nameiparent_def Let_def by (assumption | rule ord | (simp; fail))+

section \<open>Files and pipes\<close>

lemma orderly_case_ftype [ord]:
  "orderly r n m1 \<Longrightarrow> orderly r n m2 \<Longrightarrow> orderly r n m3 \<Longrightarrow> orderly r n (case y of FD_NONE \<Rightarrow> m1 | FD_PIPE \<Rightarrow> m2 | FD_INODE \<Rightarrow> m3)"
  by (cases y) auto

lemma filealloc_ord [ord]: "running r n t \<Longrightarrow> orderly r n (filealloc t)"
  unfolding filealloc_def Let_def by (assumption | rule ord | (simp; fail))+

lemma filedup_ord [ord]: "running r n t \<Longrightarrow> orderly r n (filedup x1 t)"
  unfolding filedup_def Let_def by (assumption | rule ord | (simp; fail))+

lemma pipeclose_ord [ord]: "running r n t \<Longrightarrow> orderly r n (pipeclose x1 x2 t)"
  unfolding pipeclose_def Let_def by (assumption | rule ord | (simp; fail))+

lemma fileclose_ord [ord]: "running r 0 t \<Longrightarrow> orderly r 0 (fileclose x1 t)"
  unfolding fileclose_def Let_def by (assumption | rule ord | (simp; fail))+

lemma pipealloc_bad_ord [ord]: "running r 0 t \<Longrightarrow> orderly r 0 (pipealloc_bad x1 x2 t)"
  unfolding pipealloc_bad_def Let_def by (assumption | rule ord | (simp; fail))+

lemma pipealloc_ord [ord]: "running r 0 t \<Longrightarrow> orderly r 0 (pipealloc t)"
  unfolding pipealloc_def Let_def by (assumption | rule ord | (simp; fail))+

lemma pipewrite_loop_ord [ord]: "running r (Suc 0) t \<Longrightarrow> orderly r 0 (pipewrite_loop p k cs t)"
proof (induction cs arbitrary: t)
  case Nil
  show ?case by (insert Nil, unfold pipewrite_loop.simps, (assumption | rule ord | (simp; fail))+)
next
  case (Cons y ys)
  note Cons.IH [ord]
  show ?case by (insert Cons.prems, unfold pipewrite_loop.simps Let_def, (assumption | rule ord | (simp; fail))+)
qed

lemma pipewrite_ord [ord]: "running r 0 t \<Longrightarrow> orderly r 0 (pipewrite x1 x2 x3 t)"
  unfolding pipewrite_def Let_def by (assumption | rule ord | (simp; fail))+

lemma pipewrite_resume_ord [ord]: "running r (Suc 0) t \<Longrightarrow> orderly r 0 (pipewrite_resume x1 x2 x3 t)"
  unfolding pipewrite_resume_def Let_def by (assumption | rule ord | (simp; fail))+

lemma running_piperead_copy [ord]: "running r n t \<Longrightarrow> running r n (snd (piperead_copy p k acc t))"
  by (induction p k acc t rule: piperead_copy.induct) (auto simp: Let_def intro: running_files)

lemma piperead_loop_ord [ord]: "running r (Suc 0) t \<Longrightarrow> orderly r 0 (piperead_loop p k t)"
  unfolding piperead_loop_def Let_def case_prod_beta by (assumption | rule ord | (simp; fail))+

lemma piperead_ord [ord]: "running r 0 t \<Longrightarrow> orderly r 0 (piperead x1 x2 t)"
  unfolding piperead_def Let_def by (assumption | rule ord | (simp; fail))+

lemma piperead_resume_ord [ord]: "running r (Suc 0) t \<Longrightarrow> orderly r 0 (piperead_resume x1 x2 t)"
  unfolding piperead_resume_def Let_def by (assumption | rule ord | (simp; fail))+

lemma filestat_ord [ord]: "running r 0 t \<Longrightarrow> orderly r 0 (filestat x1 t)"
  unfolding filestat_def Let_def by (assumption | rule ord | (simp; fail))+

lemma fileread_ord [ord]: "running r 0 t \<Longrightarrow> orderly r 0 (fileread x1 x2 t)"
  unfolding fileread_def Let_def by (assumption | rule ord | (simp; fail))+

lemma filewrite_loop_ord [ord]: "running r 0 t \<Longrightarrow> orderly r 0 (filewrite_loop f addr i rem t)"
proof (induction rem arbitrary: i t rule: less_induct)
  case less
  note less(1) [ord]
  show ?case by (subst filewrite_loop.simps, (unfold Let_def)?, insert less(2), (assumption | rule ord | (simp add: write_max_pos; fail))+)
qed

lemma filewrite_ord [ord]: "running r 0 t \<Longrightarrow> orderly r 0 (filewrite x1 x2 x3 t)"
  unfolding filewrite_def Let_def by (assumption | rule ord | (simp; fail))+

section \<open>Address spaces\<close>

lemma kpt_free_ord [ord]: "running r n t \<Longrightarrow> orderly r n (kpt_free x1 t)"
  unfolding kpt_free_def Let_def by (assumption | rule ord | (simp; fail))+

lemma kpt_alloc_ord [ord]: "running r n t \<Longrightarrow> orderly r n (kpt_alloc t)"
  unfolding kpt_alloc_def Let_def by (assumption | rule ord | (simp; fail))+

lemma walk_level_ord [ord]: "running r n t \<Longrightarrow> orderly r n (walk_level x1 x2 t)"
  unfolding walk_level_def Let_def by (assumption | rule ord | (simp; fail))+

lemma walkpgdir_ord [ord]: "running r n t \<Longrightarrow> orderly r n (walkpgdir x1 x2 x3 t)"
  unfolding walkpgdir_def Let_def by (assumption | rule ord | (simp; fail))+

lemma mappages_loop_ord [ord]: "running r n t \<Longrightarrow> orderly r n (mappages_loop pg k a pa ap t)"
proof (induction k arbitrary: a pa t)
  case 0
  then show ?case by (subst mappages_loop.simps) (auto simp: Let_def split: option.splits intro!: ord)
next
  case (Suc k)
  note Suc.IH [ord]
  show ?case by (insert Suc.prems, subst mappages_loop.simps, unfold Let_def nat.case, (assumption | rule ord | (simp; fail))+)
qed

lemma mappages_ord [ord]: "running r n t \<Longrightarrow> orderly r n (mappages x1 x2 x3 x4 x5 t)"
  unfolding mappages_def Let_def by (assumption | rule ord | (simp; fail))+

lemma inituvm_ord [ord]: "running r n t \<Longrightarrow> orderly r n (inituvm x1 x2 x3 t)"
  unfolding inituvm_def Let_def by (assumption | rule ord | (simp; fail))+

lemma loaduvm_loop_ord [ord]: "running r 0 t \<Longrightarrow> orderly r 0 (loaduvm_loop pg addr ip foff sz offs t)"
proof (induction offs arbitrary: t)
  case (Cons y ys)
  note Cons.IH [ord]
  show ?case by (insert Cons.prems, unfold loaduvm_loop.simps Let_def, (assumption | rule ord | (simp; fail))+)
qed simp

lemma loaduvm_ord [ord]: "running r 0 t \<Longrightarrow> orderly r 0 (loaduvm x1 x2 x3 x4 x5 t)"
  unfolding loaduvm_def Let_def by (assumption | rule ord | (simp; fail))+

lemma deallocuvm_loop_ord [ord]: "running r n t \<Longrightarrow> orderly r n (deallocuvm_loop pg a old t)"
proof (induction "old - a" arbitrary: a t rule: less_induct)
  case less
  note less(1) [ord]
  show ?case by (subst deallocuvm_loop.simps, (unfold Let_def)?, insert less(2), (assumption | rule ord | (simp add: dealloc_step diff_less_mono2; fail))+)
qed

lemma deallocuvm_ord [ord]: "running r n t \<Longrightarrow> orderly r n (deallocuvm x1 x2 x3 t)"
  unfolding deallocuvm_def Let_def by (assumption | rule ord | (simp; fail))+

lemma allocuvm_loop_ord [ord]: "running r n t \<Longrightarrow> orderly r n (allocuvm_loop pg a old new t)"
proof (induction "unat new - a" arbitrary: a t rule: less_induct)
  case less
  note less(1) [ord]
  show ?case by (subst allocuvm_loop.simps, (unfold Let_def)?, insert less(2), (assumption | rule ord | (simp add: PTE_SZ_def PTE_SHIFT_def diff_less_mono2; fail))+)
qed

lemma allocuvm_ord [ord]: "running r n t \<Longrightarrow> orderly r n (allocuvm x1 x2 x3 t)"
  unfolding allocuvm_def Let_def by (assumption | rule ord | (simp; fail))+

lemma freevm_pmds_ord [ord]: "running r n t \<Longrightarrow> orderly r n (freevm_pmds b ns t)"
proof (induction ns arbitrary: t)
  case (Cons y ys)
  note Cons.IH [ord]
  show ?case by (insert Cons.prems, unfold freevm_pmds.simps Let_def, (assumption | rule ord | (simp; fail))+)
qed simp

lemma freevm_pgds_ord [ord]: "running r n t \<Longrightarrow> orderly r n (freevm_pgds b ns t)"
proof (induction ns arbitrary: t)
  case (Cons y ys)
  note Cons.IH [ord]
  show ?case by (insert Cons.prems, unfold freevm_pgds.simps Let_def, (assumption | rule ord | (simp; fail))+)
qed simp

lemma freevm_ord [ord]: "running r n t \<Longrightarrow> orderly r n (freevm x1 t)"
  unfolding freevm_def Let_def by (assumption | rule ord | (simp; fail))+

lemma clearpteu_ord [ord]: "running r n t \<Longrightarrow> orderly r n (clearpteu x1 x2 t)"
  unfolding clearpteu_def Let_def by (assumption | rule ord | (simp; fail))+

lemma copyuvm_loop_ord [ord]: "running r n t \<Longrightarrow> orderly r n (copyuvm_loop pg d ns t)"
proof (induction ns arbitrary: t)
  case (Cons y ys)
  note Cons.IH [ord]
  show ?case by (insert Cons.prems, unfold copyuvm_loop.simps Let_def, (assumption | rule ord | (simp; fail))+)
qed simp

lemma copyuvm_ord [ord]: "running r n t \<Longrightarrow> orderly r n (copyuvm x1 x2 t)"
  unfolding copyuvm_def Let_def by (assumption | rule ord | (simp; fail))+

lemma uva2ka_ord [ord]: "running r n t \<Longrightarrow> orderly r n (uva2ka x1 x2 t)"
  unfolding uva2ka_def Let_def by (assumption | rule ord | (simp; fail))+

lemma copyout_loop_ord [ord]: "running r n t \<Longrightarrow> orderly r n (copyout_loop pg va buf pos len t)"
proof (induction len arbitrary: va pos t rule: less_induct)
  case less
  note less(1) [ord]
  show ?case by (subst copyout_loop.simps, (unfold Let_def)?, insert less(2), (assumption | rule ord | (simp add: PTE_SZ_def PTE_SHIFT_def; fail))+)
qed

lemma copyout_ord [ord]: "running r n t \<Longrightarrow> orderly r n (copyout x1 x2 x3 x4 t)"
  unfolding copyout_def Let_def by (assumption | rule ord | (simp; fail))+

lemma ustore_ord [ord]: "running r n t \<Longrightarrow> orderly r n (ustore va cs t)"
proof (induction cs arbitrary: va t)
  case (Cons y ys)
  note Cons.IH [ord]
  show ?case by (insert Cons.prems, unfold ustore.simps Let_def, (assumption | rule ord | (simp; fail))+)
qed simp

section \<open>Processes\<close>

lemma allocproc_ord [ord]: "running r n t \<Longrightarrow> orderly r n (allocproc t)"
proof (cases "List.find (\<lambda>p. p_state (ptable (acquire Lk_ptable t) p) = UNUSED) [0..<NPROC]")
  case None
  assume "running r n t"
  then show ?thesis unfolding allocproc_def Let_def None option.case by - (assumption | rule ord | (simp; fail))+
next
  case (Some p)
  assume t: "running r n t"
  from Some have "p_state (ptable t p) = UNUSED" by (auto simp: find_Some_iff lock_simps)
  then have "r \<noteq> Some p" by (intro running_not [OF t]) simp
  with t show ?thesis unfolding allocproc_def Let_def Some option.case
    by - (assumption | rule ord running_other_proc | (simp; fail))+
qed

lemma allocproc_other: "allocproc t = Ok (Some p) u \<Longrightarrow> running r n t \<Longrightarrow> r \<noteq> Some p"
proof -
  assume "allocproc t = Ok (Some p) u" and t: "running r n t"
  then have "List.find (\<lambda>p. p_state (ptable (acquire Lk_ptable t) p) = UNUSED) [0..<NPROC] = Some p"
    by (auto simp: allocproc_def Let_def andthen_Ok_iff split: option.splits if_splits)
  then have "p_state (ptable t p) = UNUSED" by (auto simp: find_Some_iff lock_simps)
  then show ?thesis by (intro running_not [OF t]) simp
qed

lemma orderly_andthen_eq: "orderly r k m \<Longrightarrow> (\<And>x t. m = Ok x t \<Longrightarrow> running r k t \<Longrightarrow> orderly r n (f x t)) \<Longrightarrow> orderly r n (andthen m f)"
  by (cases m) auto

lemma growproc_ord [ord]: "running r n t \<Longrightarrow> orderly r n (growproc x1 t)"
  unfolding growproc_def Let_def by (assumption | rule ord | (simp; fail))+

lemma fork_files_ord [ord]: "running r n t \<Longrightarrow> orderly r n (fork_files p np fds t)"
proof (induction fds arbitrary: t)
  case (Cons y ys)
  note Cons.IH [ord]
  show ?case by (insert Cons.prems, unfold fork_files.simps Let_def, (assumption | rule ord | (simp; fail))+)
qed simp

lemma fork_ord [ord]: "running r n t \<Longrightarrow> orderly r n (fork t)"
  unfolding fork_def
proof (rule orderly_andthen_eq, rule allocproc_ord, assumption, goal_cases)
  case (1 np u)
  show ?case
  proof (cases np)
    case (Some q)
    with 1 have "r \<noteq> Some q" by (auto dest: allocproc_other)
    with 1(3) show ?thesis unfolding Some option.case Let_def by - (assumption | rule ord running_other_proc | (simp; fail))+
  qed (use 1 in simp)
qed

lemma exit_files_ord [ord]: "running r 0 t \<Longrightarrow> orderly r 0 (exit_files p fds t)"
proof (induction fds arbitrary: t)
  case (Cons y ys)
  note Cons.IH [ord]
  show ?case by (insert Cons.prems, unfold exit_files.simps Let_def, (assumption | rule ord | (simp; fail))+)
qed simp

lemma running_fold: "(\<And>p u. running r n u \<Longrightarrow> running r n (f p u)) \<Longrightarrow> running r n t \<Longrightarrow> running r n (fold f ps t)"
  by (induction ps arbitrary: t) auto

lemma running_exit_reparent [ord]: "running r n t \<Longrightarrow> running r n (exit_reparent me t)"
  unfolding exit_reparent_def Let_def by (rule running_fold) (assumption | rule ord | (simp; fail))+

lemma exit_reparent_locked [simp]: "locked (exit_reparent me t) = locked t"
proof -
  have "locked (fold (\<lambda>p t. if p_parent (ptable t p) = Some me
      then (let t1 = upd_proc p (\<lambda>q. q\<lparr>p_parent := initproc t\<rparr>) t
            in if p_state (ptable t1 p) = ZOMBIE then wakeup1 (map_option Ch_proc (initproc t1)) t1 else t1) else t) ps t) = locked t" for ps
    by (induction ps arbitrary: t) (auto simp: Let_def upd_proc_def lock_simps)
  then show ?thesis by (simp add: exit_reparent_def)
qed

lemma exit_switch_ord: "running (Some me) 0 t \<Longrightarrow> orderly (Some me) n (exit_switch me t)"
  unfolding exit_switch_def Let_def
  by (rule orderly_andthen, rule sched_ord, (assumption | rule ord | (simp add: lock_simps; fail))+)

lemma exit_ord [ord]: "running r 0 t \<Longrightarrow> orderly r 0 (exit t)"
proof (cases r)
  case None
  then show "running r 0 t \<Longrightarrow> ?thesis" by (simp add: exit_def running_def)
next
  case (Some me)
  assume t: "running r 0 t"
  then have "cproc t = Some me" using Some by (simp add: running_def)
  then show ?thesis using t unfolding exit_def Some option.case
    by - (simp only: option.case, (assumption | rule ord exit_switch_ord | (simp; fail))+)
qed

text \<open>\<open>wait\<close> sleeps on \<open>ptable.lock\<close> itself.\<close>

lemma wait_loop_ord: "running r (Suc 0) t \<Longrightarrow> locked t Lk_ptable \<Longrightarrow> orderly r 0 (wait_loop t)"
proof -
  assume t: "running r (Suc 0) t" "locked t Lk_ptable"
  have s: "orderly r n (blocked (sleep ch (Some Lk_ptable) t))" for n ch
    unfolding blocked_def using sleep_ord [OF t(1), of Lk_ptable 0 ch] t(2) by (cases "sleep ch (Some Lk_ptable) t") auto
  have z: "r \<noteq> Some p" if "List.find (\<lambda>p. p_parent (ptable t p) = Some me \<and> p_state (ptable t p) = ZOMBIE) [0..<NPROC] = Some p" for me p
    by (rule running_not [OF t(1)]) (use that in \<open>auto simp: find_Some_iff\<close>)
  show ?thesis using t(1) unfolding wait_loop_def Let_def
    by - (assumption | rule ord s running_other_proc | (erule z) | (simp; fail))+
qed

lemma wait_ord [ord]: "running r 0 t \<Longrightarrow> orderly r 0 (wait t)"
  unfolding wait_def by (rule wait_loop_ord) (assumption | rule ord | simp add: lock_simps)+

lemma wait_resume_ord: "running r (Suc 0) t \<Longrightarrow> locked t Lk_ptable \<Longrightarrow> orderly r 0 (wait_resume t)"
proof (cases r)
  case (Some p)
  assume "running r (Suc 0) t" "locked t Lk_ptable"
  with Some show ?thesis
    by (auto simp: wait_resume_def sleep_resume_def sched_resume_def running_def upd_proc_def intro!: wait_loop_ord)
qed (simp add: running_def wait_resume_def sleep_resume_def sched_resume_def)

lemma forkret_ord: "running r (Suc 0) t \<Longrightarrow> orderly r 0 (forkret t)"
  unfolding forkret_def by (assumption | rule ord | (simp; fail))+

section \<open>Programs\<close>

lemma exec_bad_ord [ord]: "running r 0 t \<Longrightarrow> orderly r 0 (exec_bad x1 x2 t)"
  unfolding exec_bad_def Let_def by (assumption | rule ord | (simp; fail))+

lemma exec_load_ord [ord]: "running r 0 t \<Longrightarrow> orderly r 0 (exec_load ip pg k off sz t)"
proof (induction k arbitrary: off sz t)
  case 0
  then show ?case by simp
next
  case (Suc k)
  note Suc.IH [ord]
  show ?case by (insert Suc.prems, unfold exec_load.simps Let_def, (assumption | rule ord | (simp; fail))+)
qed

lemma exec_args_ord [ord]: "running r 0 t \<Longrightarrow> orderly r 0 (exec_args pg as us sp t)"
proof (induction as arbitrary: us sp t)
  case (Cons y ys)
  note Cons.IH [ord]
  show ?case by (insert Cons.prems, unfold exec_args.simps Let_def, (assumption | rule ord | (simp; fail))+)
qed simp

lemma exec_finish_ord [ord]: "running r 0 t \<Longrightarrow> orderly r 0 (exec_finish x1 x2 x3 x4 x5 x6 t)"
  unfolding exec_finish_def Let_def by (assumption | rule ord | (simp; fail))+

lemma exec_stack_ord [ord]: "running r 0 t \<Longrightarrow> orderly r 0 (exec_stack x1 x2 x3 x4 x5 x6 t)"
  unfolding exec_stack_def Let_def by (assumption | rule ord | (simp; fail))+

lemma exec_ord [ord]: "running r 0 t \<Longrightarrow> orderly r 0 (exec x1 x2 t)"
  unfolding exec_def Let_def by (assumption | rule ord | (simp; fail))+

section \<open>System call arguments and processes\<close>

lemma cur_ord [ord]: "running r n t \<Longrightarrow> orderly r n (cur t)"
  unfolding cur_def Let_def by (assumption | rule ord | (simp; fail))+

lemma fetchint_ord [ord]: "running r n t \<Longrightarrow> orderly r n (fetchint x1 t)"
  unfolding fetchint_def Let_def by (assumption | rule ord | (simp; fail))+

lemma fetchstr_loop_ord [ord]: "running r n t \<Longrightarrow> orderly r n (fetchstr_loop k va acc t)"
proof (induction k arbitrary: va acc t)
  case 0
  then show ?case by simp
next
  case (Suc k)
  note Suc.IH [ord]
  show ?case by (insert Suc.prems, unfold fetchstr_loop.simps Let_def, (assumption | rule ord | (simp; fail))+)
qed

lemma fetchstr_ord [ord]: "running r n t \<Longrightarrow> orderly r n (fetchstr x1 t)"
  unfolding fetchstr_def Let_def by (assumption | rule ord | (simp; fail))+

lemma argint_ord [ord]: "running r n t \<Longrightarrow> orderly r n (argint x1 t)"
  unfolding argint_def Let_def by (assumption | rule ord | (simp; fail))+

lemma argptr_ord [ord]: "running r n t \<Longrightarrow> orderly r n (argptr x1 x2 t)"
  unfolding argptr_def Let_def by (assumption | rule ord | (simp; fail))+

lemma argstr_ord [ord]: "running r n t \<Longrightarrow> orderly r n (argstr x1 t)"
  unfolding argstr_def Let_def by (assumption | rule ord | (simp; fail))+

lemma sys_fork_ord [ord]: "running r n t \<Longrightarrow> orderly r n (sys_fork t)"
  unfolding sys_fork_def Let_def by (assumption | rule ord | (simp; fail))+

lemma sys_exit_ord [ord]: "running r 0 t \<Longrightarrow> orderly r 0 (sys_exit t)"
  unfolding sys_exit_def Let_def by (assumption | rule ord | (simp; fail))+

lemma sys_wait_ord [ord]: "running r 0 t \<Longrightarrow> orderly r 0 (sys_wait t)"
  unfolding sys_wait_def Let_def by (assumption | rule ord | (simp; fail))+

lemma sys_kill_ord [ord]: "running r n t \<Longrightarrow> orderly r n (sys_kill t)"
  unfolding sys_kill_def Let_def by (assumption | rule ord | (simp; fail))+

lemma sys_getpid_ord [ord]: "running r n t \<Longrightarrow> orderly r n (sys_getpid t)"
  unfolding sys_getpid_def Let_def by (assumption | rule ord | (simp; fail))+

lemma sys_sbrk_ord [ord]: "running r n t \<Longrightarrow> orderly r n (sys_sbrk t)"
  unfolding sys_sbrk_def Let_def by (assumption | rule ord | (simp; fail))+

lemma sys_sleep_loop_ord [ord]: "running r (Suc 0) t \<Longrightarrow> orderly r 0 (sys_sleep_loop x1 x2 t)"
  unfolding sys_sleep_loop_def Let_def by (assumption | rule ord | (simp; fail))+

lemma sys_sleep_ord [ord]: "running r 0 t \<Longrightarrow> orderly r 0 (sys_sleep t)"
  unfolding sys_sleep_def Let_def by (assumption | rule ord | (simp; fail))+

lemma sys_sleep_resume_ord [ord]: "running r (Suc 0) t \<Longrightarrow> orderly r 0 (sys_sleep_resume x1 x2 t)"
  unfolding sys_sleep_resume_def Let_def by (assumption | rule ord | (simp; fail))+

lemma sys_uptime_ord [ord]: "running r n t \<Longrightarrow> orderly r n (sys_uptime t)"
  unfolding sys_uptime_def Let_def by (assumption | rule ord | (simp; fail))+

section \<open>File system calls\<close>

lemma argfd_ord [ord]: "running r n t \<Longrightarrow> orderly r n (argfd x1 t)"
  unfolding argfd_def Let_def by (assumption | rule ord | (simp; fail))+

lemma fdalloc_ord [ord]: "running r n t \<Longrightarrow> orderly r n (fdalloc x1 t)"
  unfolding fdalloc_def Let_def by (assumption | rule ord | (simp; fail))+

lemma clear_fd_ord [ord]: "running r n t \<Longrightarrow> orderly r n (clear_fd x1 t)"
  unfolding clear_fd_def Let_def by (assumption | rule ord | (simp; fail))+

lemma sys_dup_ord [ord]: "running r n t \<Longrightarrow> orderly r n (sys_dup t)"
  unfolding sys_dup_def Let_def by (assumption | rule ord | (simp; fail))+

lemma sys_read_ord [ord]: "running r 0 t \<Longrightarrow> orderly r 0 (sys_read t)"
  unfolding sys_read_def Let_def by (assumption | rule ord | (simp; fail))+

lemma sys_write_ord [ord]: "running r 0 t \<Longrightarrow> orderly r 0 (sys_write t)"
  unfolding sys_write_def Let_def by (assumption | rule ord | (simp; fail))+

lemma sys_close_ord [ord]: "running r 0 t \<Longrightarrow> orderly r 0 (sys_close t)"
  unfolding sys_close_def Let_def by (assumption | rule ord | (simp; fail))+

lemma store_stat_ord [ord]: "running r n t \<Longrightarrow> orderly r n (store_stat x1 x2 t)"
  unfolding store_stat_def Let_def by (assumption | rule ord | (simp; fail))+

lemma sys_fstat_ord [ord]: "running r 0 t \<Longrightarrow> orderly r 0 (sys_fstat t)"
  unfolding sys_fstat_def Let_def by (assumption | rule ord | (simp; fail))+

lemma sys_link_bad_ord [ord]: "running r 0 t \<Longrightarrow> orderly r 0 (sys_link_bad x1 t)"
  unfolding sys_link_bad_def Let_def by (assumption | rule ord | (simp; fail))+

lemma sys_link_new_ord [ord]: "running r 0 t \<Longrightarrow> orderly r 0 (sys_link_new x1 x2 t)"
  unfolding sys_link_new_def Let_def by (assumption | rule ord | (simp; fail))+

lemma sys_link_ord [ord]: "running r 0 t \<Longrightarrow> orderly r 0 (sys_link t)"
  unfolding sys_link_def Let_def by (assumption | rule ord | (simp; fail))+

lemma isdirempty_loop_ord [ord]: "running r 0 t \<Longrightarrow> orderly r 0 (isdirempty_loop dp offs t)"
proof (induction offs arbitrary: t)
  case (Cons y ys)
  note Cons.IH [ord]
  show ?case by (insert Cons.prems, unfold isdirempty_loop.simps Let_def, (assumption | rule ord | (simp; fail))+)
qed simp

lemma isdirempty_ord [ord]: "running r 0 t \<Longrightarrow> orderly r 0 (isdirempty x1 t)"
  unfolding isdirempty_def Let_def by (assumption | rule ord | (simp; fail))+

lemma sys_unlink_bad_ord [ord]: "running r 0 t \<Longrightarrow> orderly r 0 (sys_unlink_bad x1 t)"
  unfolding sys_unlink_bad_def Let_def by (assumption | rule ord | (simp; fail))+

lemma sys_unlink_entry_ord [ord]: "running r 0 t \<Longrightarrow> orderly r 0 (sys_unlink_entry x1 x2 x3 t)"
  unfolding sys_unlink_entry_def Let_def by (assumption | rule ord | (simp; fail))+

lemma sys_unlink_ord [ord]: "running r 0 t \<Longrightarrow> orderly r 0 (sys_unlink t)"
  unfolding sys_unlink_def Let_def by (assumption | rule ord | (simp; fail))+

lemma create_dots_ord [ord]: "running r 0 t \<Longrightarrow> orderly r 0 (create_dots x1 x2 t)"
  unfolding create_dots_def Let_def by (assumption | rule ord | (simp; fail))+

lemma create_new_ord [ord]: "running r 0 t \<Longrightarrow> orderly r 0 (create_new x1 x2 x3 x4 x5 t)"
  unfolding create_new_def Let_def by (assumption | rule ord | (simp; fail))+

lemma create_ord [ord]: "running r 0 t \<Longrightarrow> orderly r 0 (create x1 x2 x3 x4 t)"
  unfolding create_def Let_def by (assumption | rule ord | (simp; fail))+

lemma open_inode_ord [ord]: "running r 0 t \<Longrightarrow> orderly r 0 (open_inode x1 x2 t)"
  unfolding open_inode_def Let_def by (assumption | rule ord | (simp; fail))+

lemma open_file_ord [ord]: "running r 0 t \<Longrightarrow> orderly r 0 (open_file x1 x2 t)"
  unfolding open_file_def Let_def by (assumption | rule ord | (simp; fail))+

lemma sys_open_ord [ord]: "running r 0 t \<Longrightarrow> orderly r 0 (sys_open t)"
  unfolding sys_open_def Let_def by (assumption | rule ord | (simp; fail))+

lemma made_ord [ord]: "running r 0 t \<Longrightarrow> orderly r 0 (made x1 t)"
  unfolding made_def Let_def by (assumption | rule ord | (simp; fail))+

lemma sys_mkdir_ord [ord]: "running r 0 t \<Longrightarrow> orderly r 0 (sys_mkdir t)"
  unfolding sys_mkdir_def Let_def by (assumption | rule ord | (simp; fail))+

lemma sys_mknod_ord [ord]: "running r 0 t \<Longrightarrow> orderly r 0 (sys_mknod t)"
  unfolding sys_mknod_def Let_def by (assumption | rule ord | (simp; fail))+

lemma sys_chdir_ord [ord]: "running r 0 t \<Longrightarrow> orderly r 0 (sys_chdir t)"
  unfolding sys_chdir_def Let_def by (assumption | rule ord | (simp; fail))+

lemma exec_argv_ord [ord]: "running r n t \<Longrightarrow> orderly r n (exec_argv k uargv t)"
proof (induction k arbitrary: uargv t)
  case 0
  then show ?case by simp
next
  case (Suc k)
  note Suc.IH [ord]
  show ?case by (insert Suc.prems, unfold exec_argv.simps Let_def, (assumption | rule ord | (simp; fail))+)
qed

lemma sys_exec_ord [ord]: "running r 0 t \<Longrightarrow> orderly r 0 (sys_exec t)"
  unfolding sys_exec_def Let_def by (assumption | rule ord | (simp; fail))+

lemma pipe_fail_ord [ord]: "running r 0 t \<Longrightarrow> orderly r 0 (pipe_fail x1 x2 t)"
  unfolding pipe_fail_def Let_def by (assumption | rule ord | (simp; fail))+

lemma sys_pipe_ord [ord]: "running r 0 t \<Longrightarrow> orderly r 0 (sys_pipe t)"
  unfolding sys_pipe_def Let_def by (assumption | rule ord | (simp; fail))+

section \<open>Interrupts\<close>

lemma isr_timer_ord [ord]: "running r n t \<Longrightarrow> orderly r n (isr_timer t)"
  unfolding isr_timer_def Let_def by (assumption | rule ord | (simp; fail))+

lemma isr_uart_ord [ord]: "running r n t \<Longrightarrow> orderly r n (isr_uart t)"
  unfolding isr_uart_def Let_def by (assumption | rule ord | (simp; fail))+

lemma default_isr_ord [ord]: "running r n t \<Longrightarrow> orderly r n (default_isr x1 t)"
  unfolding default_isr_def Let_def by (assumption | rule ord | (simp; fail))+

lemma run_isr_ord [ord]: "running r n t \<Longrightarrow> orderly r n (run_isr x1 x2 t)"
  unfolding run_isr_def by (cases x1) (simp_all add: ord)

lemma pic_dispatch_ord [ord]: "running r n t \<Longrightarrow> orderly r n (pic_dispatch t)"
  unfolding pic_dispatch_def Let_def by (assumption | rule ord | (simp; fail))+

section \<open>System calls\<close>

lemma set_r0_ord [ord]: "running r n t \<Longrightarrow> orderly r n (set_r0 x1 t)"
  unfolding set_r0_def Let_def by (assumption | rule ord | (simp; fail))+

lemma syscalls_ord: "k < length (syscalls :: ('z kproc_scheme \<Rightarrow> ('z kproc_scheme, int) outcome) option list) \<Longrightarrow> syscalls ! k = Some f
  \<Longrightarrow> running r 0 t \<Longrightarrow> orderly r 0 (f t)" for t :: "'z kproc_scheme"
proof -
  assume "k < length (syscalls :: ('z kproc_scheme \<Rightarrow> ('z kproc_scheme, int) outcome) option list)" "syscalls ! k = Some f" and t: "running r 0 t"
  then have "Some f \<in> set syscalls" using nth_mem by metis
  then show ?thesis unfolding syscalls_def by (auto intro!: ord t)
qed

lemma syscall_ord [ord]: "running r 0 t \<Longrightarrow> orderly r 0 (syscall t)"
  unfolding syscall_def Let_def by (assumption | rule ord syscalls_ord | (simp; fail))+

lemma swi_handler_ord [ord]: "running r 0 t \<Longrightarrow> orderly r 0 (swi_handler x1 t)"
  unfolding swi_handler_def Let_def by (assumption | rule ord | (simp; fail))+

lemma irq_handler_ord [ord]: "running r n t \<Longrightarrow> orderly r n (irq_handler x1 t)"
  unfolding irq_handler_def by (rule ord) (auto intro!: ord split: option.split)

lemma print_line_ord [ord]: "running r n t \<Longrightarrow> orderly r n (print_line x1 x2 t)"
  unfolding print_line_def Let_def by (assumption | rule ord | (simp; fail))+

section \<open>Boot\<close>

lemma running_boot [ord]:
  "running r n t \<Longrightarrow> running r n (initproc_update f1 t)" "running r 0 t \<Longrightarrow> running r 0 (sti t)"
  "running r n u \<Longrightarrow> running r n (km_start_update f2 u)" "running r n u \<Longrightarrow> running r n (km_end_update f3 u)"
  "running r n u \<Longrightarrow> running r n (km_start_heap_update f4 u)"
  by (simp_all add: running_def sti_def)

lemma running_init [ord]:
  "running r n t \<Longrightarrow> running r n (init_vmm t)" "running r n u \<Longrightarrow> running r n (kmem_init u)" "running r n v \<Longrightarrow> running r n (pinit v)"
  "running r n w \<Longrightarrow> running r n (consoleinit w)" "running r n x \<Longrightarrow> running r n (iinit x)" "running r n y \<Longrightarrow> running r n (fileinit y)"
  "running r n z \<Longrightarrow> running r n (ideinit sz img z)"
  by (simp_all add: running_def init_vmm_def kmem_init_def pinit_def consoleinit_def iinit_def fileinit_def ideinit_def initlock_def Let_def)

lemma running_gic [ord]:
  "running r n t \<Longrightarrow> running r n (set_GICD_REG off v t)" "running r n t \<Longrightarrow> running r n (set_GICC_REG off v t)"
  "running r n t \<Longrightarrow> running r n (isr_init t)" "running r n t \<Longrightarrow> running r n (pic_enable i k t)"
  by (simp_all add: running_def set_GICD_REG_def set_GICC_REG_def isr_init_def pic_enable_def Let_def)

lemma running_gic_configure [ord]: "running r n t \<Longrightarrow> running r n (gic_configure i t)"
  unfolding gic_configure_def gic_dist_configure_def gd_spi_target0_def gd_spi_enable_def gd_spi_setcfg_def gicd_set_bit_def Let_def
  by (assumption | rule ord)+

lemma running_device [ord]:
  "running r n t \<Longrightarrow> running r n (uart_init t)" "running r n t \<Longrightarrow> running r n (uart_enable_rx t)" "running r n t \<Longrightarrow> running r n (gic_init t)"
  unfolding uart_init_def uart_enable_rx_def gic_init_def gic_enable_def gic_cpu_init_def Let_def by (assumption | rule ord)+

lemma running_kpt_freerange [ord]: "running r n t \<Longrightarrow> running r n (kpt_freerange lo hi t)"
  unfolding kpt_freerange_def by (rule running_fold) (assumption | rule ord)+

lemma running_binit [ord]: "running r n t \<Longrightarrow> running r n (binit t)"
  unfolding binit_def binit_buf_def Let_def by (rule running_fold) (assumption | rule ord)+

lemma running_init_orders [ord]: "running r n t \<Longrightarrow> running r n (snd (init_orders k tot m t))"
proof (induction k arbitrary: tot m t)
  case (Suc k)
  note Suc.IH [ord]
  show ?case by (insert Suc.prems, unfold init_orders.simps Let_def, (assumption | rule ord running_fold)+)
qed simp

lemma init_pages_ord [ord]: "running r n t \<Longrightarrow> orderly r n (init_pages k i t)"
proof (induction k arbitrary: i t)
  case 0
  then show ?case by (simp add: init_pages.simps)
next
  case (Suc k)
  note Suc.IH [ord]
  show ?case by (insert Suc.prems, subst init_pages.simps, unfold nat.case, (assumption | rule ord)+)
qed

lemma kmem_init2_ord [ord]: "running r n t \<Longrightarrow> orderly r n (kmem_init2 lo hi t)"
  unfolding kmem_init2_def Let_def case_prod_beta by (assumption | rule ord)+

lemma paging_init_ord [ord]: "running r n t \<Longrightarrow> orderly r n (paging_init kp lo hi t)"
  unfolding paging_init_def by (assumption | rule ord)+

lemma userinit_ord [ord]: "running None 0 t \<Longrightarrow> orderly None 0 (userinit code sz t)"
  unfolding userinit_def Let_def by (assumption | rule ord running_other_proc | (simp; fail))+

lemma kmain_ord: "running None 0 t \<Longrightarrow> orderly None 0 (kmain kend kp isz img code sz t)"
  unfolding kmain_def Let_def by (assumption | rule ord)+

end
