(* ===== verification/Log_Blocks.thy ===== *)
theory Log_Blocks
  imports Log
begin

text \<open>
  Single-block steps of the log over the buffer cache invariant of \<^verbatim>\<open>Bio_Cache\<close>: reading
  a block, overwriting it and releasing it (\<open>updated\<close>), copying one block to another
  (the body of the \<open>install_trans\<close> loop), and \<open>write_head\<close>. The buffers pinned by
  \<open>B_DIRTY\<close> limit what \<open>bget\<close> can recycle, so the steps carry the number of dirty buffers.
\<close>


section \<open>Quiet states\<close>

text \<open>Between the operations of the log no buffer is held; dirty buffers are the ones the
  current transaction has pinned.\<close>

definition nobusy :: "'z kbio_scheme \<Rightarrow> bool" where
  "nobusy s \<longleftrightarrow> (\<forall>i<NBUF. B_BUSY \<notin> b_flags (bc_buf s i))"

definition dirty :: "'z kbio_scheme \<Rightarrow> nat set" where
  "dirty s = {i. i < NBUF \<and> B_DIRTY \<in> b_flags (bc_buf s i)}"

lemma finite_dirty [simp]: "finite (dirty s)"
  by (simp add: dirty_def)

text \<open>The same buffer caches the same sector in both states.\<close>

definition same_id :: "'z kbio_scheme \<Rightarrow> 'z kbio_scheme \<Rightarrow> nat \<Rightarrow> bool" where
  "same_id s t i \<longleftrightarrow> b_dev (bc_buf t i) = b_dev (bc_buf s i) \<and> b_sector (bc_buf t i) = b_sector (bc_buf s i)"

lemma readable_room:
  assumes "\<And>i. cached n i s \<Longrightarrow> B_BUSY \<notin> b_flags (bc_buf s i)"
    and "\<And>i. i < NBUF \<Longrightarrow> B_BUSY \<in> b_flags (bc_buf s i) \<Longrightarrow> i \<in> X" "card (dirty s \<union> X) < NBUF" "finite X"
  shows "readable n s"
proof (cases "\<exists>i. cached n i s")
  case False
  have "\<not> {..<NBUF} \<subseteq> dirty s \<union> X"
    using card_mono [of "dirty s \<union> X" "{..<NBUF}"] assms(3,4) by auto
  then obtain i where "i < NBUF" "i \<notin> dirty s" "i \<notin> X" by auto
  with assms(2) have "victim s i" by (auto simp: victim_def dirty_def)
  with False show ?thesis by (auto simp: readable_def)
qed (use assms(1) in \<open>auto simp: readable_def\<close>)

lemma got_coherent:
  assumes inv: "bio_inv s" "bio_inv t" and g: "got n i s t" and n: "n < disksize s"
  shows "bcoherent t (bc_buf t i)"
proof -
  have "unat (of_nat n :: uint) = n" using n inv unat_of_nat_uint [of n] by (simp add: bio_inv_def)
  moreover have "blk s n = memdisk s n" if nd: "B_DIRTY \<notin> b_flags (bc_buf s i)"
  proof (cases "\<exists>j. cached n j s \<and> B_VALID \<in> b_flags (bc_buf s j)")
    case True
    then obtain j where j: "cached n j s" "B_VALID \<in> b_flags (bc_buf s j)" by blast
    have "j = i"
    proof (rule ccontr)
      assume "j \<noteq> i"
      then have "cached n j t" using j g by (auto simp: got_def cached_def)
      moreover have "cached n i t" using g by (simp add: got_def)
      ultimately show False using cached_unique [of t n j i] inv(2) \<open>j \<noteq> i\<close> by (simp add: bio_inv_def)
    qed
    then have "bcoherent s (bc_buf s i)" using inv g by (auto simp: bio_inv_def got_def)
    with j nd \<open>j = i\<close> \<open>unat (of_nat n :: uint) = n\<close> have "b_data (bc_buf s i) = memdisk s n"
      by (auto simp: bcoherent_def cached_def)
    with blk_cached [OF _ j] inv \<open>j = i\<close> show ?thesis by (simp add: bio_inv_def)
  next
    case False
    then show ?thesis by (intro blk_not_cached) blast
  qed
  ultimately show ?thesis using g n by (auto simp: bcoherent_def got_def cached_def bframe_def)
qed

text \<open>Replacing the contents of one sector \<open>n\<close> by \<open>d\<close>, on disk and in the cache.\<close>

definition updated :: "nat \<Rightarrow> bytes \<Rightarrow> 'z kbio_scheme \<Rightarrow> 'z kbio_scheme \<Rightarrow> bool" where
  "updated n d s t \<longleftrightarrow> bio_inv t \<and> bframe s t \<and> nobusy t
     \<and> (\<forall>i\<in>dirty t. i \<in> dirty s \<and> same_id s t i \<and> \<not> cached n i t)
     \<and> memdisk t = (memdisk s)(n := d) \<and> disk_writes t = (n, d) # disk_writes s
     \<and> (\<forall>m<disksize s. blk t m = (if m = n then d else blk s m))"

lemma dirty_got: "got n i s t \<Longrightarrow> k \<in> dirty t \<Longrightarrow> k \<in> dirty s \<and> same_id s t k"
proof -
  assume g: "got n i s t" and k: "k \<in> dirty t"
  show "k \<in> dirty s \<and> same_id s t k"
    by (cases "k = i") (use g k in \<open>auto simp: got_def dirty_def same_id_def cached_def\<close>)
qed

lemma update_quiet:
  assumes "bio_inv s" "cpu_ok s" "nobusy s" "card (dirty s) < NBUF" "n < disksize s"
  shows "\<exists>i t u v. bread 1 (of_nat n) s = Ok i t \<and> b_data (bc_buf t i) = blk s n \<and> kbio.more t = kbio.more s
    \<and> bwrite i (set_bdata i d t) = Ok () u \<and> brelse i u = Ok () v \<and> updated n d s v"
proof -
  have "readable n s"
    by (rule readable_room [of n s "{}"]) (use assms(3,4) in \<open>auto simp: nobusy_def cached_def\<close>)
  from update_block [OF assms(1,2,5) this, of d] obtain i t u v where
    b: "bread 1 (of_nat n) s = Ok i t" "bwrite i (set_bdata i d t) = Ok () u" "brelse i u = Ok () v"
    and g: "got n i s t" "wrote n i (set_bdata i d t) u" "released i u v"
    and v: "bio_inv v" "bframe s v" "memdisk v = (memdisk s)(n := d)" "disk_writes v = (n, d) # disk_writes s"
      "\<forall>m<disksize s. blk v m = (if m = n then d else blk s m)" by blast
  note rf = released_fields [OF g(3)]
  have fl: "b_flags (bc_buf v j) = (if j = i then {B_VALID} else b_flags (bc_buf s j))" for j
    using g(1,2) rf(4) [of j] by (auto simp: wrote_def got_def)
  have id: "b_dev (bc_buf v j) = b_dev (bc_buf t j)" "b_sector (bc_buf v j) = b_sector (bc_buf t j)" for j
    using g(2) rf(1,2) [of j] by (auto simp: wrote_def)
  have ij: "b_dev (bc_buf t j) = b_dev (bc_buf s j)" "b_sector (bc_buf t j) = b_sector (bc_buf s j)" if "j \<noteq> i" for j
    using g(1) that by (auto simp: got_def)
  have "nobusy v" using assms(3) by (auto simp: nobusy_def fl)
  moreover have "j \<in> dirty s \<and> same_id s v j \<and> \<not> cached n j v" if "j \<in> dirty v" for j
  proof -
    have "j \<noteq> i" "j \<in> dirty s" using that by (auto simp: dirty_def fl split: if_splits)
    moreover have "cached n i v" using g(1) by (auto simp: cached_def id got_def)
    then have "\<not> cached n j v" using cached_unique [of v n i j] v(1) \<open>j \<noteq> i\<close> by (auto simp: bio_inv_def)
    ultimately show ?thesis by (auto simp: same_id_def id ij)
  qed
  ultimately have "updated n d s v" using v by (simp add: updated_def)
  with b g(1) show ?thesis by (auto simp: got_def bframe_def)
qed

text \<open>Room for two more buffers, or for one if sector \<open>h\<close> is pinned.\<close>

definition copy_room :: "nat \<Rightarrow> 'z kbio_scheme \<Rightarrow> bool" where
  "copy_room h s \<longleftrightarrow> card (dirty s) + 2 \<le> NBUF \<or> (card (dirty s) < NBUF \<and> (\<exists>k\<in>dirty s. cached h k s))"

text \<open>Copying sector \<open>l\<close> to sector \<open>h\<close> with both buffers held, as \<open>install_trans\<close> does.\<close>

lemma copy_read:
  assumes inv: "bio_inv s" "cpu_ok s" "nobusy s" "copy_room h s" and l: "l < disksize s" "h < disksize s" "l \<noteq> h"
  shows "\<exists>i s1 j s2. bread 1 (of_nat l) s = Ok i s1 \<and> bread 1 (of_nat h) s1 = Ok j s2 \<and> got l i s s1 \<and> got h j s1 s2
    \<and> bio_inv s1 \<and> bio_inv s2 \<and> i \<noteq> j \<and> cached l i s2 \<and> (\<forall>m<disksize s. blk s2 m = blk s m)"
proof -
  have "readable l s"
    by (rule readable_room [of l s "{}"]) (use inv(3,4) in \<open>auto simp: nobusy_def cached_def copy_room_def\<close>)
  from bread_spec [OF inv(1,2) l(1) this] obtain i s1 where s1: "bread 1 (of_nat l) s = Ok i s1" "got l i s s1"
    "bio_inv s1" "\<forall>m<disksize s. blk s1 m = blk s m" by blast
  have f1: "bframe s s1" "i < NBUF" "B_BUSY \<in> b_flags (bc_buf s1 i)" using s1(2) by (auto simp: got_def)
  have lh: "cached h k s1 \<Longrightarrow> k \<noteq> i" for k
  proof -
    assume "cached h k s1"
    moreover have "cached l i s1" using s1(2) by (simp add: got_def)
    moreover have "l < 2 ^ 23" "h < 2 ^ 23" using l inv(1) by (auto simp: bio_inv_def)
    ultimately show ?thesis using of_nat_sector_inj l(3) by (auto simp: cached_def)
  qed
  have b1: "B_BUSY \<in> b_flags (bc_buf s1 k) \<longleftrightarrow> k = i" if "k < NBUF" for k
    using s1(2) inv(3) that by (cases "k = i") (auto simp: got_def nobusy_def)
  have d1: "dirty s1 \<subseteq> dirty s" using dirty_got [OF s1(2)] by blast
  have "card (dirty s1 \<union> {i}) \<le> card (dirty s) + 1"
    using card_mono [OF _ d1] card_Un_le [of "dirty s1" "{i}"] by simp
  have "readable h s1"
  proof (cases "card (dirty s) + 2 \<le> NBUF")
    case True
    with \<open>card (dirty s1 \<union> {i}) \<le> card (dirty s) + 1\<close> show ?thesis
      using b1 lh by (intro readable_room [of h s1 "{i}"]) (auto simp: cached_def)
  next
    case False
    with inv(4) obtain k where k: "k \<in> dirty s" "cached h k s" by (auto simp: copy_room_def)
    have "k \<noteq> i"
    proof
      assume "k = i"
      then have "cached l i s" using k s1(2) by (auto simp: got_def dirty_def)
      moreover have "l < 2 ^ 23" "h < 2 ^ 23" using l inv(1) by (auto simp: bio_inv_def)
      ultimately show False using k \<open>k = i\<close> of_nat_sector_inj l(3) by (auto simp: cached_def)
    qed
    then have "bc_buf s1 k = bc_buf s k" using s1(2) by (auto simp: got_def)
    with k inv(3) show ?thesis by (auto simp: readable_def cached_def nobusy_def)
  qed
  moreover have "h < disksize s1" "cpu_ok s1" using l f1(1) bframe_cpu_ok [OF f1(1) inv(2)] by (auto simp: bframe_def)
  ultimately obtain j s2 where s2: "bread 1 (of_nat h) s1 = Ok j s2" "got h j s1 s2" "bio_inv s2"
    "\<forall>m<disksize s1. blk s2 m = blk s1 m" using bread_spec [OF s1(3)] by blast
  have "i \<noteq> j" using s2(2) f1(3) by (auto simp: got_def)
  moreover from this have "cached l i s2" using s1(2) s2(2) by (auto simp: got_def cached_def)
  moreover have "\<forall>m<disksize s. blk s2 m = blk s m" using s1(4) s2(4) f1(1) by (simp add: bframe_def)
  ultimately show ?thesis using s1 s2 by blast
qed

lemma copy_quiet:
  assumes inv: "bio_inv s" "cpu_ok s" "nobusy s" "copy_room h s" and l: "l < disksize s" "h < disksize s" "l \<noteq> h"
  shows "\<exists>i s1 j s2 s4 s5 s6. bread 1 (of_nat l) s = Ok i s1 \<and> bread 1 (of_nat h) s1 = Ok j s2
    \<and> bwrite j (set_bdata j (b_data (bc_buf s2 i)) s2) = Ok () s4 \<and> brelse i s4 = Ok () s5 \<and> brelse j s5 = Ok () s6
    \<and> kbio.more s1 = kbio.more s \<and> updated h (blk s l) s s6"
proof -
  from copy_read [OF assms] obtain i s1 j s2 where r: "bread 1 (of_nat l) s = Ok i s1" "bread 1 (of_nat h) s1 = Ok j s2"
    and g: "got l i s s1" "got h j s1 s2" "bio_inv s1" "bio_inv s2" "i \<noteq> j" "cached l i s2" "\<forall>m<disksize s. blk s2 m = blk s m"
    by blast
  have f: "bframe s s1" "bframe s1 s2" "i < NBUF" "j < NBUF" using g(1,2) by (auto simp: got_def)
  have ds: "disksize s1 = disksize s" "disksize s2 = disksize s" using f by (auto simp: bframe_def)
  have j2: "cached h j s2" "B_BUSY \<in> b_flags (bc_buf s2 j)" "B_VALID \<in> b_flags (bc_buf s2 j)"
    and i2: "B_BUSY \<in> b_flags (bc_buf s2 i)" "b_data (bc_buf s2 i) = blk s l" "bc_buf s2 i = bc_buf s1 i"
    using g(1,2,5) by (auto simp: got_def)
  let ?d = "blk s l"
  let ?s3 = "set_bdata j ?d s2"
  have b3: "cached h j ?s3" "B_BUSY \<in> b_flags (bc_buf ?s3 j)" "h < disksize ?s3" "disksize ?s3 \<le> 2 ^ 23"
    using j2 l ds inv(1) by (auto simp: bio_inv_def)
  from bwrite_spec [OF b3] obtain s4 where s4: "bwrite j ?s3 = Ok () s4" "wrote h j ?s3 s4" by blast
  note i3 = set_bdata_inv [OF g(4) j2(2), of ?d]
  note w = wrote_inv [OF i3 b3(1-3) s4(2)]
  have f4: "bframe s s4" using w(3) f(1,2) bframe_trans [of s s1 s2] bframe_trans [of s ?s3 s4] by simp
  have i4: "bc_buf s4 i = bc_buf s1 i" using w(9) [of i] g(5) i2(3) by simp
  have coh: "bcoherent s4 (bc_buf s4 i)"
  proof -
    have "bcoherent s1 (bc_buf s1 i)" by (rule got_coherent [OF inv(1) g(3,1) l(1)])
    moreover have "unat (b_sector (bc_buf s1 i)) = l"
      using g(1) l(1) inv(1) unat_of_nat_uint [of l] by (simp add: got_def cached_def bio_inv_def)
    moreover have "memdisk s4 l = memdisk s1 l" using w(4) l(3) g(2) by (simp add: got_def)
    ultimately show ?thesis using f4 ds unfolding i4 by (auto simp: bcoherent_def bframe_def)
  qed
  from brelse_spec [of s4 i] bframe_cpu_ok [OF f4 inv(2)] i2(1) i4 i2(3) obtain s5 where s5: "brelse i s4 = Ok () s5" "released i s4 s5"
    by auto
  note inv5 = released_inv [OF w(1) f(3) coh s5(2)]
  note r5 = released_fields [OF s5(2)]
  have f5: "bframe s s5" using bframe_trans [OF f4 r5(7)] .
  have j5: "b_flags (bc_buf s5 j) = {B_BUSY, B_VALID}" using r5(4) [of j] g(5) w(7) by simp
  from brelse_spec [of s5 j] bframe_cpu_ok [OF f5 inv(2)] j5 obtain s6 where s6: "brelse j s5 = Ok () s6" "released j s5 s6"
    by auto
  note r6 = released_fields [OF s6(2)]
  have j5': "b_dev (bc_buf s5 j) = 1" "b_sector (bc_buf s5 j) = of_nat h" "b_data (bc_buf s5 j) = ?d" "memdisk s5 h = ?d"
    using w(2,4,8) r5(1,2,3) [of j] r5(5) by (auto simp: cached_def)
  moreover have "unat (of_nat h :: uint) = h" using l(2) inv(1) unat_of_nat_uint [of h] by (simp add: bio_inv_def)
  ultimately have coh5: "bcoherent s5 (bc_buf s5 j)"
    using j5 f5 l(2) by (auto simp: bcoherent_def bframe_def)
  note inv6 = released_inv [OF inv5 f(4) coh5 s6(2)]
  have f6: "bframe s s6" using bframe_trans [OF f5 r6(7)] .
  have oth: "bc_buf s4 k = bc_buf s k" if "k \<noteq> i" "k \<noteq> j" for k
    using that w(9) [of k] g(1,2) by (auto simp: got_def)
  have fl: "b_flags (bc_buf s6 k) = (if k = j then {B_VALID} else if k = i then {B_VALID} \<union> (b_flags (bc_buf s i) \<inter> {B_DIRTY})
      else b_flags (bc_buf s k))" for k
    using r6(4) [of k] r5(4) [of k] j5 g(1,5) oth [of k] i4 by (auto simp: got_def)
  have "nobusy s6" using inv(3) by (auto simp: nobusy_def fl)
  moreover have "k \<in> dirty s \<and> same_id s s6 k \<and> \<not> cached h k s6" if k: "k \<in> dirty s6" for k
  proof -
    from k have kj: "k \<noteq> j" and kd: "k \<in> dirty s" by (auto simp: dirty_def fl split: if_splits)
    have "cached h j s6" using w(2) r5(1,2) [of j] r6(1,2) [of j] by (simp add: cached_def)
    then have "\<not> cached h k s6" using cached_unique [of s6 h j k] inv6 kj by (auto simp: bio_inv_def)
    moreover have "same_id s s6 k"
    proof (cases "k = i")
      case True
      then have "cached l i s" using kd g(1) by (auto simp: got_def dirty_def)
      then show ?thesis using True g(1) i4 r5(1,2) [of i] r6(1,2) [of i] by (auto simp: same_id_def got_def cached_def)
    next
      case False
      then show ?thesis using oth [OF False kj] r5(1,2) [of k] r6(1,2) [of k] by (auto simp: same_id_def)
    qed
    ultimately show ?thesis using kd by blast
  qed
  moreover have "blk s6 m = (if m = h then ?d else blk s m)" if m: "m < disksize s" for m
    using released_blk [OF s6(2), of m] released_blk [OF s5(2), of m] wrote_blk [OF i3 b3(1-3) _ s4(2), of m]
      set_bdata_blk [OF g(4) j2, of m ?d] g(7) m l(2) ds by simp
  ultimately have "updated h ?d s s6"
    using inv6 f6 r6(5,6) r5(5,6) w(4,5) g(1,2) by (auto simp: updated_def got_def)
  with r s4 s5 s6 i2(2) f(1) show ?thesis by (auto simp: bframe_def)
qed


section \<open>The log\<close>

lemma log_fields:
  "kbio.more t = kbio.more s \<Longrightarrow> log_dev t = log_dev s \<and> log_start t = log_start s \<and> log_size t = log_size s
     \<and> lh_n t = lh_n s \<and> lh_sector t = lh_sector s \<and> log_busy t = log_busy s"
  by (cases s, cases t) simp

lemma bio_cong:
  assumes "bc_buf t = bc_buf s" "bc_head_next t = bc_head_next s" "bc_head_prev t = bc_head_prev s"
    "memdisk t = memdisk s" "disksize t = disksize s"
  shows "bio_inv t = bio_inv s" "blk t = blk s" "nobusy t = nobusy s" "dirty t = dirty s" "cached n i t = cached n i s"
  using assms
  by (simp_all add: bio_inv_def lru_def bunique_def bcoherent_def nobusy_def dirty_def cached_def blk_def fun_eq_iff
      split: option.split)

definition head_img :: "nat \<Rightarrow> (nat \<Rightarrow> int) \<Rightarrow> bytes \<Rightarrow> bytes" where
  "head_img n sec d = put_words 4 n (\<lambda>i. word_of_int (sec i)) (put32 0 (word_of_int (int n)) d)"

lemma sint_of_int_small: "- (2 ^ 31) \<le> x \<Longrightarrow> x < 2 ^ 31 \<Longrightarrow> sint (word_of_int x :: uint) = x"
  by (simp add: signed_take_bit_int_eq_self signed_of_int)

lemma sint_of_nat_small: "n < 2 ^ 31 \<Longrightarrow> sint (of_nat n :: uint) = int n"
  using sint_of_int_small [of "int n"] by simp

lemma head_img_roundtrip:
  assumes "n \<le> LOGSIZE"
  shows "hb_n (head_img n sec d) = int n"
    "k < n \<Longrightarrow> 0 \<le> sec k \<Longrightarrow> sec k < 2 ^ 31 \<Longrightarrow> hb_sector (head_img n sec d) k = sec k"
proof -
  show "hb_n (head_img n sec d) = int n"
    using assms by (simp add: hb_n_def head_img_def get_words sint_of_nat_small LOGSIZE_def)
  show "k < n \<Longrightarrow> 0 \<le> sec k \<Longrightarrow> sec k < 2 ^ 31 \<Longrightarrow> hb_sector (head_img n sec d) k = sec k"
    by (simp add: hb_sector_def head_img_def get_words sint_of_int_small)
qed

definition log_geom :: "nat \<Rightarrow> nat \<Rightarrow> 'z klog_scheme \<Rightarrow> bool" where
  "log_geom S L s \<longleftrightarrow> log_dev s = 1 \<and> log_start s = int S \<and> log_size s = int L \<and> S + L \<le> disksize s"

lemma write_head_spec:
  assumes "bio_inv s" "cpu_ok s" "nobusy s" "card (dirty s) < NBUF" "log_dev s = 1" "log_start s = int S" "S < disksize s"
    and "0 \<le> lh_n s" "lh_n s \<le> int LOGSIZE"
  shows "\<exists>t. write_head s = Ok () t \<and> updated S (head_img (nat (lh_n s)) (lh_sector s) (blk s S)) s t"
proof -
  let ?d = "head_img (nat (lh_n s)) (lh_sector s) (blk s S)"
  from update_quiet [OF assms(1-4,7), of ?d] obtain i t u v where
    t: "bread 1 (of_nat S) s = Ok i t" "b_data (bc_buf t i) = blk s S" "kbio.more t = kbio.more s"
    "bwrite i (set_bdata i ?d t) = Ok () u" "brelse i u = Ok () v" "updated S ?d s v" by blast
  have "put_words 4 (nat (lh_n t)) (\<lambda>i. word_of_int (lh_sector t i)) (put32 0 (word_of_int (lh_n t)) (b_data (bc_buf t i))) = ?d"
    using log_fields [OF t(3)] t(2) assms(8) by (simp add: head_img_def)
  with t log_fields [OF t(3)] assms(5,6,9) show ?thesis
    by (auto simp: write_head_def Let_def)
qed

end
