(* ===== verification/Log_Crash.thy ===== *)
theory Log_Crash
  imports Log_Blocks
begin

text \<open>
  Transactions of the log (\<^verbatim>\<open>log.c\<close>). \<open>log_ok\<close> is the invariant of an open transaction. The
  lemmas follow the block writes of \<open>install_trans\<close>, \<open>write_head\<close>, \<open>read_head\<close>,
  \<open>commit_trans\<close>, \<open>recover_from_log\<close> and \<open>log_write\<close>; \<open>log_holds\<close> is what every disk
  image a crash can leave during a commit or a recovery satisfies.
\<close>


definition apply_writes :: "(nat \<times> bytes) list \<Rightarrow> (nat \<Rightarrow> bytes) \<Rightarrow> nat \<Rightarrow> bytes" where
  "apply_writes ws D = fold (\<lambda>(n, d) D. D(n := d)) ws D"

lemma apply_writes_simps [simp]:
  "apply_writes [] D = D" "apply_writes ((n, d) # ws) D = apply_writes ws (D(n := d))"
  "apply_writes (ws @ vs) D = apply_writes vs (apply_writes ws D)"
  by (simp_all add: apply_writes_def)

lemma apply_writes_notin: "m \<notin> fst ` set ws \<Longrightarrow> apply_writes ws D m = D m"
  by (induction ws arbitrary: D) (auto simp: apply_writes_def)

lemma apply_writes_cong: "D m = E m \<Longrightarrow> apply_writes ws D m = apply_writes ws E m"
proof (induction ws arbitrary: D E)
  case (Cons w ws)
  have "(D(fst w := snd w)) m = (E(fst w := snd w)) m" using Cons.prems by simp
  then have "apply_writes ws (D(fst w := snd w)) m = apply_writes ws (E(fst w := snd w)) m" by (rule Cons.IH)
  then show ?case by (cases w) simp
qed simp

lemma apply_writes_map:
  assumes "distinct (map f ks)" "k \<in> set ks"
  shows "apply_writes (map (\<lambda>k. (f k, g k)) ks) D (f k) = g k"
  using assms
proof (induction ks arbitrary: D)
  case (Cons a ks)
  show ?case
  proof (cases "k = a")
    case True
    with Cons.prems have "f k \<notin> fst ` set (map (\<lambda>k. (f k, g k)) ks)" by force
    with True show ?thesis by (simp add: apply_writes_notin)
  next
    case False
    with Cons show ?thesis by simp
  qed
qed simp

lemma updated_room:
  assumes "copy_room h s" "updated h d s t"
  shows "card (dirty t) + 2 \<le> NBUF"
proof -
  have sub: "dirty t \<subseteq> dirty s" using assms(2) by (auto simp: updated_def)
  show ?thesis
  proof (cases "card (dirty s) + 2 \<le> NBUF")
    case True
    then show ?thesis using card_mono [OF finite_dirty sub] by linarith
  next
    case False
    with assms(1) obtain k where k: "k \<in> dirty s" "cached h k s" "card (dirty s) < NBUF" by (auto simp: copy_room_def)
    have "k \<notin> dirty t" using assms(2) k(2) by (auto simp: updated_def same_id_def cached_def)
    with sub k(1) have "dirty t \<subset> dirty s" by blast
    with psubset_card_mono [OF finite_dirty this] k(3) show ?thesis by linarith
  qed
qed

text \<open>The net effect of a sequence of block writes on a quiet cache.\<close>

definition cpu_same :: "'z kbio_scheme \<Rightarrow> 'z kbio_scheme \<Rightarrow> bool" where
  "cpu_same s t \<longleftrightarrow> ncli t = ncli s \<and> irq t = irq s \<and> cproc t = cproc s \<and> disksize t = disksize s"

definition ran :: "(nat \<times> bytes) list \<Rightarrow> 'z kbio_scheme \<Rightarrow> 'z kbio_scheme \<Rightarrow> bool" where
  "ran ws s t \<longleftrightarrow> bio_inv t \<and> nobusy t \<and> cpu_same s t
     \<and> (\<forall>i\<in>dirty t. i \<in> dirty s \<and> same_id s t i \<and> (\<forall>n\<in>fst ` set ws. \<not> cached n i t))
     \<and> memdisk t = apply_writes ws (memdisk s) \<and> disk_writes t = rev ws @ disk_writes s
     \<and> (\<forall>m<disksize s. blk t m = apply_writes ws (blk s) m)"

lemma ran_updated: "updated n d s t \<Longrightarrow> ran [(n, d)] s t"
  by (auto simp: updated_def ran_def cpu_same_def bframe_def)

lemma ran_Nil: "bio_inv s \<Longrightarrow> nobusy s \<Longrightarrow> ran [] s s"
  by (simp add: ran_def cpu_same_def same_id_def)

lemma ran_trans:
  assumes u: "ran ws s t" and v: "ran vs t u"
  shows "ran (ws @ vs) s u"
proof -
  have "i \<in> dirty s \<and> same_id s u i \<and> (\<forall>n\<in>fst ` set (ws @ vs). \<not> cached n i u)" if i: "i \<in> dirty u" for i
  proof -
    have 1: "i \<in> dirty t" "same_id t u i" "\<forall>n\<in>fst ` set vs. \<not> cached n i u" using v i by (auto simp: ran_def)
    then have "i \<in> dirty s" "same_id s t i" "\<forall>n\<in>fst ` set ws. \<not> cached n i t" using u by (auto simp: ran_def)
    with 1 show ?thesis by (auto simp: same_id_def cached_def)
  qed
  moreover have "blk u m = apply_writes vs (apply_writes ws (blk s)) m" if m: "m < disksize s" for m
  proof -
    have "blk u m = apply_writes vs (blk t) m" using u v m by (simp add: ran_def cpu_same_def)
    also have "\<dots> = apply_writes vs (apply_writes ws (blk s)) m"
      by (rule apply_writes_cong) (use u m in \<open>simp add: ran_def\<close>)
    finally show ?thesis .
  qed
  ultimately show ?thesis using u v by (simp add: ran_def cpu_same_def)
qed

lemma ran_card: "ran ws s t \<Longrightarrow> card (dirty t) \<le> card (dirty s)"
  by (rule card_mono [OF finite_dirty]) (auto simp: ran_def)

lemma ran_cpu_ok: "ran ws s t \<Longrightarrow> cpu_ok s \<Longrightarrow> cpu_ok t"
  by (simp add: ran_def cpu_same_def cpu_ok_def)

lemma ran_lh_n: "ran ws (s\<lparr>lh_n := n\<rparr>) t = ran ws (s :: 'z klog_scheme) t"
  by (simp add: ran_def cpu_same_def same_id_def bio_cong [of "s\<lparr>lh_n := n\<rparr>" s])

lemma ran_lh:
  fixes s t :: "'z klog_scheme"
  shows "ran ws (s\<lparr>lh_n := n, lh_sector := f\<rparr>) t = ran ws s t"
  by (simp add: ran_def cpu_same_def same_id_def bio_cong [of "s\<lparr>lh_n := n, lh_sector := f\<rparr>" s])

text \<open>The blocks \<open>install_trans\<close> writes: log block \<open>S + k + 1\<close> to the \<open>k\<close>-th home sector.\<close>

definition home_writes :: "nat \<Rightarrow> (nat \<Rightarrow> int) \<Rightarrow> (nat \<Rightarrow> bytes) \<Rightarrow> nat list \<Rightarrow> (nat \<times> bytes) list" where
  "home_writes S sec D ks = map (\<lambda>k. (nat (sec k), D (S + k + 1))) ks"

lemma install_loop_spec:
  assumes "bio_inv s" "cpu_ok s" "nobusy s" "log_dev s = 1" "log_start s = int S"
    and "\<forall>k\<in>set ks. k < LOGSIZE \<and> S + k + 1 < disksize s \<and> 0 \<le> lh_sector s k \<and> lh_sector s k < int S"
    and "ks \<noteq> [] \<Longrightarrow> copy_room (nat (lh_sector s (hd ks))) s"
  shows "\<exists>t. install_loop ks s = Ok () t \<and> ran (home_writes S (lh_sector s) (blk s) ks) s t \<and> kbio.more t = kbio.more s \<and> (ks \<noteq> [] \<longrightarrow> card (dirty t) + 2 \<le> NBUF)"
  using assms
proof (induction ks arbitrary: s)
  case Nil
  then show ?case by (simp add: home_writes_def ran_Nil)
next
  case (Cons k ks)
  let ?h = "nat (lh_sector s k)"
  have kk: "k < LOGSIZE" "S + k + 1 < disksize s" "0 \<le> lh_sector s k" "?h < S" using Cons.prems(6) by auto
  have room: "copy_room ?h s" using Cons.prems(7) by simp
  from copy_quiet [OF Cons.prems(1-3) room kk(2)] kk(2,4) obtain i s1 j s2 s4 s5 s6 where
    r: "bread 1 (of_nat (S + k + 1)) s = Ok i s1" "bread 1 (of_nat ?h) s1 = Ok j s2"
    "bwrite j (set_bdata j (b_data (bc_buf s2 i)) s2) = Ok () s4" "brelse i s4 = Ok () s5" "brelse j s5 = Ok () s6"
    "kbio.more s1 = kbio.more s" and u: "updated ?h (blk s (S + k + 1)) s s6" by auto
  note l1 = log_fields [OF r(6)]
  have "(word_of_int (log_start s + int k + 1) :: uint) = of_nat (S + k + 1)" using Cons.prems(5) by simp
  moreover have "(word_of_int (lh_sector s k) :: uint) = of_nat ?h" using kk(3) by (metis int_nat_eq of_int_of_nat_eq)
  ultimately have step: "install_loop (k # ks) s = install_loop ks s6"
    using r l1 Cons.prems(4) kk(1) by (simp add: add_ac)
  have f6: "bframe s s6" "kbio.more s6 = kbio.more s" using u by (auto simp: updated_def bframe_def)
  note l6 = log_fields [OF f6(2)]
  note room6 = updated_room [OF room u]
  have "bio_inv s6" "cpu_ok s6" "nobusy s6" using u bframe_cpu_ok [OF f6(1) Cons.prems(2)] by (auto simp: updated_def)
  moreover have "\<forall>k\<in>set ks. k < LOGSIZE \<and> S + k + 1 < disksize s6 \<and> 0 \<le> lh_sector s6 k \<and> lh_sector s6 k < int S"
    using Cons.prems(6) l6 f6(1) by (auto simp: bframe_def)
  ultimately obtain t where t: "install_loop ks s6 = Ok () t" "ran (home_writes S (lh_sector s6) (blk s6) ks) s6 t"
    "kbio.more t = kbio.more s6"
    using Cons.IH [of s6] l6 Cons.prems(4,5) room6 by (auto simp: copy_room_def)
  have "home_writes S (lh_sector s) (blk s) (k # ks) = [(?h, blk s (S + k + 1))] @ home_writes S (lh_sector s6) (blk s6) ks"
  proof -
    have "blk s6 (S + k' + 1) = blk s (S + k' + 1)" if "k' \<in> set ks" for k'
      using u that Cons.prems(6) kk(4) by (auto simp: updated_def)
    then show ?thesis using l6 by (simp add: home_writes_def)
  qed
  with ran_trans [OF ran_updated [OF u] t(2)] have "ran (home_writes S (lh_sector s) (blk s) (k # ks)) s t" by simp
  moreover have "card (dirty t) + 2 \<le> NBUF" using ran_card [OF t(2)] room6 by linarith
  ultimately show ?case using t(1,3) f6(2) step by auto
qed

lemma home_writes_below:
  "m \<notin> (\<lambda>k. nat (sec k)) ` set ks \<Longrightarrow> apply_writes (home_writes S sec E ks) D m = D m"
  by (rule apply_writes_notin) (auto simp: home_writes_def)

definition clear_writes :: "nat \<Rightarrow> nat \<Rightarrow> (nat \<Rightarrow> int) \<Rightarrow> (nat \<Rightarrow> bytes) \<Rightarrow> (nat \<times> bytes) list" where
  "clear_writes S n sec D = home_writes S sec D [0..<n] @ [(S, head_img 0 sec (D S))]"

lemma install_clear_spec:
  assumes inv: "bio_inv s" "cpu_ok s" "nobusy s" "card (dirty s) < NBUF" and g: "log_dev s = 1" "log_start s = int S"
    and n: "lh_n s = int n" "n \<le> LOGSIZE" "S + n < disksize s" "\<And>k. k < n \<Longrightarrow> 0 \<le> lh_sector s k \<and> lh_sector s k < int S"
    and room: "0 < n \<Longrightarrow> copy_room (nat (lh_sector s 0)) s"
  shows "\<exists>t. andthen (install_trans s) (\<lambda>_ s2. write_head (s2\<lparr>lh_n := 0\<rparr>)) = Ok () t
    \<and> ran (clear_writes S n (lh_sector s) (blk s)) s t \<and> kbio.more t = kbio.more (s\<lparr>lh_n := 0\<rparr>)"
proof -
  let ?hw = "home_writes S (lh_sector s) (blk s) [0..<n]"
  have "\<forall>k\<in>set [0..<n]. k < LOGSIZE \<and> S + k + 1 < disksize s \<and> 0 \<le> lh_sector s k \<and> lh_sector s k < int S"
    using n by auto
  from install_loop_spec [OF inv(1-3) g this] room obtain t where
    t: "install_trans s = Ok () t" "ran ?hw s t" "kbio.more t = kbio.more s"
    using n(1) by (auto simp: install_trans_def hd_upt)
  note l = log_fields [OF t(3)]
  let ?u = "t\<lparr>lh_n := 0\<rparr>"
  have S: "blk t S = blk s S"
  proof -
    have "blk t S = apply_writes ?hw (blk s) S" using t(2) n(3) by (simp add: ran_def)
    also have "\<dots> = blk s S" by (rule home_writes_below) (use n(4) in force)
    finally show ?thesis .
  qed
  have u: "blk ?u = blk t" "bio_inv ?u = bio_inv t" "nobusy ?u = nobusy t" "dirty ?u = dirty t"
    by (simp_all add: bio_cong [of ?u t])
  have "bio_inv ?u" "cpu_ok ?u" "nobusy ?u" "card (dirty ?u) < NBUF" "S < disksize ?u"
    using t(2) ran_cpu_ok [OF t(2) inv(2)] ran_card [OF t(2)] inv(4) n(3)
    by (auto simp: u ran_def cpu_same_def cpu_ok_def)
  from write_head_spec [OF this(1-4) _ _ this(5)] obtain v where
    v: "write_head ?u = Ok () v" "updated S (head_img 0 (lh_sector s) (blk s S)) ?u v"
    using l g by (auto simp: u S)
  have "ran (?hw @ [(S, head_img 0 (lh_sector s) (blk s S))]) s v"
    using ran_trans [OF t(2), of "[(S, head_img 0 (lh_sector s) (blk s S))]" v] ran_updated [OF v(2)] ran_lh_n by blast
  moreover have "kbio.more v = kbio.more (s\<lparr>lh_n := 0\<rparr>)"
    using v(2) t(3) by (cases s, cases t) (simp add: updated_def bframe_def)
  ultimately show ?thesis using t(1) v(1) by (auto simp: clear_writes_def)
qed

text \<open>The state of an open transaction between updates. Every block logged so far has a copy in
  the log and its cached home buffer is pinned; the header on disk still says 0.\<close>

definition log_ok :: "nat \<Rightarrow> nat \<Rightarrow> nat \<Rightarrow> 'z klog_scheme \<Rightarrow> bool" where
  "log_ok S L n s \<longleftrightarrow> bio_inv s \<and> cpu_ok s \<and> nobusy s \<and> log_geom S L s \<and> lh_n s = int n \<and> n < NBUF \<and> n < L
     \<and> (\<forall>k<n. 0 \<le> lh_sector s k \<and> lh_sector s k < int S \<and> memdisk s (S + k + 1) = blk s (nat (lh_sector s k)))
     \<and> inj_on (lh_sector s) {..<n} \<and> hb_n (memdisk s S) = 0
     \<and> (\<forall>i\<in>dirty s. \<exists>k<n. cached (nat (lh_sector s k)) i s)
     \<and> (\<forall>k<n. \<exists>i\<in>dirty s. cached (nat (lh_sector s k)) i s)"

lemma clean_blk:
  assumes "bio_inv s" "nobusy s" "m < disksize s" "\<forall>i\<in>dirty s. \<not> cached m i s"
  shows "blk s m = memdisk s m"
proof (cases "\<exists>j. cached m j s \<and> B_VALID \<in> b_flags (bc_buf s j)")
  case True
  then obtain j where j: "cached m j s" "B_VALID \<in> b_flags (bc_buf s j)" by blast
  then have "j < NBUF" "j \<notin> dirty s" using assms(4) by (auto simp: cached_def)
  then have "bcoherent s (bc_buf s j)" "B_DIRTY \<notin> b_flags (bc_buf s j)" using assms(1,2) by (auto simp: bio_inv_def nobusy_def dirty_def)
  moreover have "unat (of_nat m :: uint) = m" using assms unat_of_nat_uint [of m] by (simp add: bio_inv_def)
  ultimately have "b_data (bc_buf s j) = memdisk s m" using j by (auto simp: bcoherent_def cached_def)
  with blk_cached [OF _ j] assms(1) show ?thesis by (simp add: bio_inv_def)
next
  case False
  then show ?thesis by (intro blk_not_cached) blast
qed

lemma log_ok_card:
  assumes ok: "log_ok S L n s" shows "card (dirty s) \<le> n"
proof -
  have "\<forall>i\<in>dirty s. \<exists>k. k < n \<and> cached (nat (lh_sector s k)) i s" using ok by (auto simp: log_ok_def)
  then obtain f where f: "\<forall>i\<in>dirty s. f i < n \<and> cached (nat (lh_sector s (f i))) i s" by (auto dest: bchoice)
  have "inj_on f (dirty s)"
  proof (rule inj_onI)
    fix i j assume ij: "i \<in> dirty s" "j \<in> dirty s" "f i = f j"
    have "bunique s" using ok by (simp add: log_ok_def bio_inv_def)
    moreover have "cached (nat (lh_sector s (f i))) i s" using f ij(1) by blast
    moreover have "cached (nat (lh_sector s (f i))) j s" using f ij(2,3) by auto
    ultimately show "i = j" by (rule cached_unique)
  qed
  then have "card (dirty s) \<le> card {..<n}" using f by (intro card_inj_on_le) auto
  then show ?thesis by simp
qed

lemma log_ok_pinned:
  assumes ok: "log_ok S L n s" and m: "m < disksize s" "m \<notin> (\<lambda>k. nat (lh_sector s k)) ` {..<n}" and i: "i \<in> dirty s"
  shows "\<not> cached m i s"
proof
  assume c: "cached m i s"
  have g: "S + L \<le> disksize s" "disksize s \<le> 2 ^ 23" using ok by (auto simp: log_ok_def log_geom_def bio_inv_def)
  from i ok obtain k where k: "k < n" "cached (nat (lh_sector s k)) i s" "lh_sector s k < int S" "0 \<le> lh_sector s k"
    by (auto simp: log_ok_def)
  have "(of_nat (nat (lh_sector s k)) :: uint) = of_nat m" using c k(2) by (simp add: cached_def)
  moreover have "nat (lh_sector s k) < 2 ^ 23" "m < 2 ^ 23" using k(3) m(1) g by linarith+
  ultimately have "nat (lh_sector s k) = m" by (simp only: of_nat_sector_inj)
  with k(1) m(2) show False by auto
qed

lemma log_ok_clean:
  assumes "log_ok S L n s" "m < disksize s" "m \<notin> (\<lambda>k. nat (lh_sector s k)) ` {..<n}"
  shows "blk s m = memdisk s m"
  by (rule clean_blk) (use assms log_ok_pinned [OF assms] in \<open>auto simp: log_ok_def\<close>)

lemma log_ok_room:
  assumes ok: "log_ok S L n s" and k: "k < n"
  shows "copy_room (nat (lh_sector s k)) s"
  using log_ok_card [OF ok] ok k by (auto simp: copy_room_def log_ok_def)

lemma copy_room_updated:
  assumes "copy_room h s" "updated S d s t"
  shows "copy_room h t"
proof (cases "card (dirty t) + 2 \<le> NBUF")
  case False
  have sub: "dirty t \<subseteq> dirty s" using assms(2) by (auto simp: updated_def)
  from card_mono [OF finite_dirty sub] False assms(1) obtain k where
    k: "k \<in> dirty s" "cached h k s" "card (dirty s) < NBUF" "card (dirty t) = card (dirty s)" by (auto simp: copy_room_def)
  then have "dirty t = dirty s" using card_subset_eq [OF finite_dirty sub] by blast
  with k assms(2) show ?thesis by (auto simp: copy_room_def updated_def same_id_def cached_def)
qed (simp add: copy_room_def)

definition commit_writes :: "nat \<Rightarrow> nat \<Rightarrow> (nat \<Rightarrow> int) \<Rightarrow> (nat \<Rightarrow> bytes) \<Rightarrow> (nat \<times> bytes) list" where
  "commit_writes S n sec D =
     (S, head_img n sec (D S)) # clear_writes S n sec (D(S := head_img n sec (D S)))"

lemma clear_writes_cong:
  "D S = E S \<Longrightarrow> (\<And>k. k < n \<Longrightarrow> D (S + k + 1) = E (S + k + 1)) \<Longrightarrow> clear_writes S n sec D = clear_writes S n sec E"
  by (simp add: clear_writes_def home_writes_def)

lemma log_ok_log_clean:
  assumes ok: "log_ok S L n s" and k: "k \<le> n"
  shows "blk s (S + k) = memdisk s (S + k)"
proof (rule log_ok_clean [OF ok])
  show "S + k < disksize s" using ok k by (auto simp: log_ok_def log_geom_def)
  show "S + k \<notin> (\<lambda>k. nat (lh_sector s k)) ` {..<n}" using ok by (force simp: log_ok_def)
qed

lemma commit_core:
  assumes ok: "log_ok S L n s"
  shows "\<exists>t. andthen (write_head s) (\<lambda>_ s1. andthen (install_trans s1) (\<lambda>_ s2. write_head (s2\<lparr>lh_n := 0\<rparr>))) = Ok () t
    \<and> ran (commit_writes S n (lh_sector s) (memdisk s)) s t \<and> kbio.more t = kbio.more (s\<lparr>lh_n := 0\<rparr>)"
proof -
  have c: "card (dirty s) < NBUF" using log_ok_card [OF ok] ok by (auto simp: log_ok_def)
  have a: "bio_inv s" "cpu_ok s" "nobusy s" "log_dev s = 1" "log_start s = int S" "S + n < disksize s" "lh_n s = int n" "n < NBUF"
    using ok by (auto simp: log_ok_def log_geom_def)
  let ?H = "head_img n (lh_sector s) (memdisk s S)"
  have S: "blk s S = memdisk s S" using log_ok_log_clean [OF ok, of 0] by simp
  from write_head_spec [OF a(1-3) c a(4,5)] obtain s1 where
    s1: "write_head s = Ok () s1" "updated S ?H s s1"
    using a S by (auto simp: LOGSIZE_def NBUF_def)
  have m1: "kbio.more s1 = kbio.more s" "disksize s1 = disksize s" using s1(2) by (auto simp: updated_def bframe_def)
  note l1 = log_fields [OF m1(1)]
  note r1 = ran_updated [OF s1(2)]
  have "bio_inv s1" "nobusy s1" "card (dirty s1) < NBUF" using r1 ran_card [OF r1] c by (auto simp: ran_def)
  moreover have "0 < n \<Longrightarrow> copy_room (nat (lh_sector s1 0)) s1"
    using copy_room_updated [OF log_ok_room [OF ok, of 0] s1(2)] l1 by simp
  moreover have "\<And>k. k < n \<Longrightarrow> 0 \<le> lh_sector s1 k \<and> lh_sector s1 k < int S" using ok l1 by (auto simp: log_ok_def)
  ultimately obtain t where t: "andthen (install_trans s1) (\<lambda>_ s2. write_head (s2\<lparr>lh_n := 0\<rparr>)) = Ok () t"
    "ran (clear_writes S n (lh_sector s1) (blk s1)) s1 t" "kbio.more t = kbio.more (s1\<lparr>lh_n := 0\<rparr>)"
    using install_clear_spec [of s1 S n] ran_cpu_ok [OF r1 a(2)] l1 a m1(2) by (auto simp: LOGSIZE_def NBUF_def)
  have "clear_writes S n (lh_sector s1) (blk s1) = clear_writes S n (lh_sector s) ((memdisk s)(S := ?H))"
    unfolding l1 [THEN conjunct2, THEN conjunct2, THEN conjunct2, THEN conjunct2, THEN conjunct1]
  proof (rule clear_writes_cong)
    show "blk s1 S = ((memdisk s)(S := ?H)) S" using s1(2) a(6) by (simp add: updated_def)
    show "blk s1 (S + k + 1) = ((memdisk s)(S := ?H)) (S + k + 1)" if "k < n" for k
      using s1(2) a(6) that log_ok_log_clean [OF ok, of "k + 1"] by (simp add: updated_def)
  qed
  with ran_trans [OF r1 t(2)] have "ran (commit_writes S n (lh_sector s) (memdisk s)) s t" by (simp add: commit_writes_def)
  moreover have "kbio.more t = kbio.more (s\<lparr>lh_n := 0\<rparr>)" using t(3) m1(1) by (cases s, cases s1) simp
  ultimately show ?thesis using s1(1) t(1) by auto
qed


section \<open>Crashes and recovery\<close>

text \<open>The disk after a crash: only the first \<open>k\<close> of the block writes issued between \<open>s\<close> and \<open>t\<close>
  have reached it.\<close>

definition crash_disk :: "nat \<Rightarrow> 'z kbio_scheme \<Rightarrow> 'z kbio_scheme \<Rightarrow> nat \<Rightarrow> bytes" where
  "crash_disk k s t =
     apply_writes (take k (rev (take (length (disk_writes t) - length (disk_writes s)) (disk_writes t)))) (memdisk s)"

lemma ran_crash_disk: "ran ws s t \<Longrightarrow> crash_disk k s t = apply_writes (take k ws) (memdisk s)"
  by (simp add: crash_disk_def ran_def)

definition log_cold :: "nat \<Rightarrow> nat \<Rightarrow> 'z klog_scheme \<Rightarrow> bool" where
  "log_cold S L s \<longleftrightarrow> bio_inv s \<and> cpu_ok s \<and> nobusy s \<and> dirty s = {} \<and> log_geom S L s"

text \<open>The log on disk \<open>D\<close> describes, by its header and its log blocks, the home contents \<open>F\<close>.\<close>

definition log_holds :: "nat \<Rightarrow> nat \<Rightarrow> (nat \<Rightarrow> bytes) \<Rightarrow> (nat \<Rightarrow> bytes) \<Rightarrow> bool" where
  "log_holds S L D F \<longleftrightarrow> 0 \<le> hb_n (D S) \<and> hb_n (D S) \<le> int LOGSIZE \<and> hb_n (D S) < int L
     \<and> (\<forall>k<nat (hb_n (D S)). 0 \<le> hb_sector (D S) k \<and> hb_sector (D S) k < int S
          \<and> D (S + k + 1) = F (nat (hb_sector (D S) k)))
     \<and> inj_on (hb_sector (D S)) {..<nat (hb_n (D S))}
     \<and> (\<forall>m<S. m \<notin> (\<lambda>k. nat (hb_sector (D S) k)) ` {..<nat (hb_n (D S))} \<longrightarrow> D m = F m)"

definition recover_writes :: "nat \<Rightarrow> (nat \<Rightarrow> bytes) \<Rightarrow> (nat \<times> bytes) list" where
  "recover_writes S D = clear_writes S (nat (hb_n (D S))) (hb_sector (D S)) D"

lemma take_home_writes: "take j (home_writes S sec D ks) = home_writes S sec D (take j ks)"
  by (simp add: home_writes_def take_map)

lemma home_writes_homes:
  assumes "\<forall>k\<in>set ks. 0 \<le> sec k" "inj_on sec (set ks)" "distinct ks" "k \<in> set ks"
  shows "apply_writes (home_writes S sec D ks) E (nat (sec k)) = D (S + k + 1)"
proof -
  have "inj_on (\<lambda>k. nat (sec k)) (set ks)"
    using assms(1,2) unfolding inj_on_def by (metis eq_nat_nat_iff)
  then show ?thesis unfolding home_writes_def using assms(3,4)
    by (intro apply_writes_map) (simp_all add: distinct_map)
qed

lemma log_holds_installed:
  assumes h: "log_holds S L D F" and m: "m < S"
  shows "apply_writes (home_writes S (hb_sector (D S)) D [0..<nat (hb_n (D S))]) D m = F m"
proof (cases "m \<in> (\<lambda>k. nat (hb_sector (D S) k)) ` {..<nat (hb_n (D S))}")
  case True
  then obtain k where k: "k < nat (hb_n (D S))" "m = nat (hb_sector (D S) k)" by blast
  have "apply_writes (home_writes S (hb_sector (D S)) D [0..<nat (hb_n (D S))]) D (nat (hb_sector (D S) k)) = D (S + k + 1)"
    by (rule home_writes_homes) (use h k in \<open>auto simp: log_holds_def atLeast0LessThan\<close>)
  with k h show ?thesis by (simp add: log_holds_def)
next
  case False
  then show ?thesis using h m home_writes_below [of m "hb_sector (D S)" "[0..<nat (hb_n (D S))]" S D D]
    by (auto simp: log_holds_def atLeast0LessThan)
qed

lemma log_holds_crash:
  assumes h: "log_holds S L D F"
  shows "log_holds S L (apply_writes (take j (recover_writes S D)) D) F"
proof -
  let ?n = "nat (hb_n (D S))" and ?sec = "hb_sector (D S)"
  let ?hw = "home_writes S ?sec D"
  show ?thesis
  proof (cases "j \<le> ?n")
    case True
    let ?D = "apply_writes (?hw (take j [0..<?n])) D"
    have eq: "take j (recover_writes S D) = ?hw (take j [0..<?n])"
      using True by (simp add: recover_writes_def clear_writes_def take_home_writes) (simp add: home_writes_def)
    have low: "k \<in> set (take j [0..<?n]) \<Longrightarrow> k < ?n \<and> 0 \<le> ?sec k \<and> ?sec k < int S" for k
      using h by (auto simp: log_holds_def dest: in_set_takeD)
    have hi: "?D m = D m" if "S \<le> m" for m
      by (rule home_writes_below) (use low that in force)
    have "?D m = D m" if "m \<notin> (\<lambda>k. nat (?sec k)) ` {..<?n}" for m
      by (rule home_writes_below) (use low that in blast)
    then show ?thesis using h unfolding eq by (simp add: log_holds_def hi)
  next
    case False
    let ?D = "apply_writes (recover_writes S D) D"
    have eq: "take j (recover_writes S D) = recover_writes S D"
      using False by (simp add: recover_writes_def clear_writes_def home_writes_def)
    have "hb_n (?D S) = 0" by (simp add: recover_writes_def clear_writes_def head_img_roundtrip)
    moreover have "?D m = F m" if "m < S" for m
      using log_holds_installed [OF h that] that by (simp add: recover_writes_def clear_writes_def)
    moreover have "0 < L" using h by (auto simp: log_holds_def)
    ultimately show ?thesis unfolding eq by (simp add: log_holds_def)
  qed
qed

lemma read_quiet:
  assumes "bio_inv s" "cpu_ok s" "nobusy s" "card (dirty s) < NBUF" "n < disksize s"
  shows "\<exists>i t. bread 1 (of_nat n) s = Ok i t \<and> b_data (bc_buf t i) = blk s n \<and> kbio.more t = kbio.more s
    \<and> got n i s t \<and> bio_inv t \<and> (\<forall>m<disksize s. blk t m = blk s m)"
proof -
  have "readable n s"
    by (rule readable_room [of n s "{}"]) (use assms(3,4) in \<open>auto simp: nobusy_def cached_def\<close>)
  from bread_spec [OF assms(1,2,5) this] show ?thesis by (auto simp: got_def bframe_def)
qed

lemma release_quiet:
  assumes "bio_inv s" "nobusy s" "n < disksize s" "cpu_ok s" and g: "got n i s t" "bio_inv t" "\<forall>m<disksize s. blk t m = blk s m"
    and c: "bc_buf t' = bc_buf t" "bc_head_next t' = bc_head_next t" "bc_head_prev t' = bc_head_prev t"
      "memdisk t' = memdisk t" "disksize t' = disksize t" "disk_writes t' = disk_writes t" "cpu_same t t'"
  shows "\<exists>u. brelse i t' = Ok () u \<and> ran [] s u \<and> kbio.more u = kbio.more t'"
proof -
  note k = bio_cong [OF c(1-5)]
  have i: "i < NBUF" "B_BUSY \<in> b_flags (bc_buf t' i)" "bframe s t" using g(1) c(1) by (auto simp: got_def)
  have ok: "cpu_ok t'" using bframe_cpu_ok [OF i(3) assms(4)] c(7) by (simp add: cpu_same_def cpu_ok_def)
  have coh: "bcoherent t' (bc_buf t' i)" using got_coherent [OF assms(1) g(2,1) assms(3)] c by (simp add: bcoherent_def)
  from brelse_spec [OF ok i(2)] obtain u where u: "brelse i t' = Ok () u" "released i t' u" by blast
  note r = released_fields [OF u(2)]
  have fl: "b_flags (bc_buf u j) = (if j = i then {B_VALID} \<union> (b_flags (bc_buf s i) \<inter> {B_DIRTY}) else b_flags (bc_buf s j))" for j
    using r(4) [of j] g(1) c(1) by (auto simp: got_def)
  have d: "j \<in> dirty s \<and> same_id s u j" if "j \<in> dirty u" for j
  proof -
    have "j \<in> dirty t" using that fl [of j] g(1) by (auto simp: dirty_def got_def split: if_splits)
    from dirty_got [OF g(1) this] show ?thesis using r(1,2) [of j] c(1) by (simp add: same_id_def)
  qed
  have "ran [] s u" unfolding ran_def
  proof (intro conjI)
    show "bio_inv u" by (rule released_inv [OF _ i(1) coh u(2)]) (simp add: k g(2))
    show "nobusy u" using assms(2) by (auto simp: nobusy_def fl)
    show "cpu_same s u" using i(3) c(7) r(7) by (simp add: cpu_same_def bframe_def)
    show "\<forall>i\<in>dirty u. i \<in> dirty s \<and> same_id s u i \<and> (\<forall>n\<in>fst ` set []. \<not> cached n i u)" using d by simp
    show "memdisk u = apply_writes [] (memdisk s)" "disk_writes u = rev [] @ disk_writes s"
      using r(5,6) c(4,6) g(1) by (simp_all add: got_def)
    show "\<forall>m<disksize s. blk u m = apply_writes [] (blk s) m" using released_blk [OF u(2)] g(3) k(2) by simp
  qed
  with u(1) r(7) show ?thesis by (auto simp: bframe_def)
qed

lemma fold_upd: "fold (\<lambda>i f. f(i := g i)) [0..<n] f k = (if k < n then g k else f k)"
  by (induction n) auto

lemma read_head_spec:
  assumes "bio_inv s" "cpu_ok s" "nobusy s" "card (dirty s) < NBUF" "log_dev s = 1" "log_start s = int S" "S < disksize s"
    "hb_n (blk s S) \<le> int LOGSIZE"
  shows "\<exists>t f. read_head s = Ok () t \<and> ran [] s t \<and> kbio.more t = kbio.more (s\<lparr>lh_n := hb_n (blk s S), lh_sector := f\<rparr>)
    \<and> (\<forall>k<nat (hb_n (blk s S)). f k = hb_sector (blk s S) k)"
proof -
  from read_quiet [OF assms(1-4,7)] obtain i t where
    t: "bread 1 (of_nat S) s = Ok i t" "b_data (bc_buf t i) = blk s S" "kbio.more t = kbio.more s"
    "got S i s t" "bio_inv t" "\<forall>m<disksize s. blk t m = blk s m" by blast
  let ?f = "fold (\<lambda>i f. f(i := hb_sector (blk s S) i)) [0..<nat (hb_n (blk s S))] (lh_sector s)"
  let ?t = "t\<lparr>lh_n := hb_n (blk s S), lh_sector := ?f\<rparr>"
  have "cpu_same t ?t" by (simp add: cpu_same_def)
  with release_quiet [OF assms(1,3,7,2) t(4-6), of ?t] obtain u where
    u: "brelse i ?t = Ok () u" "ran [] s u" "kbio.more u = kbio.more ?t" by auto
  have "kbio.more u = kbio.more (s\<lparr>lh_n := hb_n (blk s S), lh_sector := ?f\<rparr>)"
    using u(3) t(3) by (cases s, cases t) simp
  moreover have "read_head s = Ok () u"
    using t u(1) log_fields [OF t(3)] assms(5,6,8) by (simp add: read_head_def Let_def)
  moreover have "\<forall>k<nat (hb_n (blk s S)). ?f k = hb_sector (blk s S) k" by (simp add: fold_upd)
  ultimately show ?thesis using u(2) by blast
qed

lemma cold_blk: "log_cold S L s \<Longrightarrow> m < disksize s \<Longrightarrow> blk s m = memdisk s m"
  by (rule clean_blk) (auto simp: log_cold_def)

lemma clear_writes_sec: "(\<And>k. k < n \<Longrightarrow> f k = g k) \<Longrightarrow> clear_writes S n f D = clear_writes S n g D"
  by (simp add: clear_writes_def home_writes_def head_img_def put_words_def)

lemma recover_spec:
  assumes c: "log_cold S L s" and h: "log_holds S L (memdisk s) F"
  shows "\<exists>t. recover_from_log s = Ok () t \<and> ran (recover_writes S (memdisk s)) s t \<and> lh_n t = 0 \<and> log_cold S L t
    \<and> log_busy t = log_busy s"
proof -
  let ?D = "memdisk s" let ?n = "nat (hb_n (?D S))"
  have a: "bio_inv s" "cpu_ok s" "nobusy s" "card (dirty s) < NBUF" "log_dev s = 1" "log_start s = int S" "S + L \<le> disksize s"
    using c by (auto simp: log_cold_def log_geom_def NBUF_def)
  have S: "blk s S = ?D S" "S < disksize s" using cold_blk [OF c, of S] a(7) h by (auto simp: log_holds_def)
  have hn: "0 \<le> hb_n (?D S)" "hb_n (?D S) \<le> int LOGSIZE" "hb_n (?D S) < int L" using h by (auto simp: log_holds_def)
  from read_head_spec [OF a(1-6) S(2)] hn S obtain s1 f where
    s1: "read_head s = Ok () s1" "ran [] s s1" "kbio.more s1 = kbio.more (s\<lparr>lh_n := hb_n (?D S), lh_sector := f\<rparr>)"
    "\<forall>k<?n. f k = hb_sector (?D S) k" by auto
  have l1: "log_dev s1 = 1" "log_start s1 = int S" "log_size s1 = log_size s" "lh_n s1 = hb_n (?D S)" "lh_sector s1 = f"
    "log_busy s1 = log_busy s" using log_fields [OF s1(3)] a by simp_all
  have d1: "dirty s1 = {}" "disksize s1 = disksize s" using s1(2) c by (auto simp: ran_def log_cold_def cpu_same_def)
  have b1: "blk s1 m = ?D m" if "m < disksize s" for m
    using s1(2) that cold_blk [OF c that] by (simp add: ran_def)
  have "\<And>k. k < ?n \<Longrightarrow> 0 \<le> lh_sector s1 k \<and> lh_sector s1 k < int S" using h s1(4) l1 by (auto simp: log_holds_def)
  moreover have "?n \<le> LOGSIZE" "S + ?n < disksize s1" using hn a(7) d1 by auto
  moreover have "bio_inv s1" "nobusy s1" "copy_room m s1" for m using s1(2) d1 by (auto simp: ran_def copy_room_def NBUF_def)
  ultimately obtain t where t: "andthen (install_trans s1) (\<lambda>_ s2. write_head (s2\<lparr>lh_n := 0\<rparr>)) = Ok () t"
    "ran (clear_writes S ?n f (blk s1)) s1 t" "kbio.more t = kbio.more (s1\<lparr>lh_n := 0\<rparr>)"
    using install_clear_spec [of s1 S ?n] ran_cpu_ok [OF s1(2) a(2)] d1 l1 hn(1) by (auto simp: NBUF_def)
  have "clear_writes S ?n f (blk s1) = clear_writes S ?n f ?D"
    by (rule clear_writes_cong) (use b1 a(7) hn in auto)
  also have "\<dots> = recover_writes S ?D" unfolding recover_writes_def by (rule clear_writes_sec) (use s1(4) in auto)
  finally have r: "ran (recover_writes S ?D) s t" using ran_trans [OF s1(2) t(2)] by simp
  have l: "lh_n t = 0" "log_geom S L t" "log_busy t = log_busy s"
    using log_fields [OF t(3)] l1 r c by (auto simp: log_geom_def log_cold_def ran_def cpu_same_def)
  have "log_cold S L t" using r ran_cpu_ok [OF r] c l by (auto simp: log_cold_def ran_def)
  with r l s1(1) t(1) show ?thesis by (auto simp: recover_from_log_def)
qed

section \<open>Logging a block\<close>

definition log_slot :: "'z klog_scheme \<Rightarrow> uint \<Rightarrow> nat" where
  "log_slot s w = (case List.find (\<lambda>i. word_of_int (lh_sector s i) = w) [0..<nat (lh_n s)] of
     Some i \<Rightarrow> i | None \<Rightarrow> nat (lh_n s))"

lemma sector_word: "0 \<le> x \<Longrightarrow> x < 2 ^ 23 \<Longrightarrow> m < 2 ^ 23 \<Longrightarrow> (word_of_int x :: uint) = of_nat m \<longleftrightarrow> x = int m"
  using of_nat_sector_inj [of "nat x" m] by (cases x) auto

lemma log_slot_cong: "lh_n t = lh_n s \<Longrightarrow> lh_sector t = lh_sector s \<Longrightarrow> log_slot t w = log_slot s w"
  by (simp add: log_slot_def cong: option.case_cong)

lemma log_set_bdata [simp]:
  "lh_n (set_bdata i d s) = lh_n s" "lh_sector (set_bdata i d s) = lh_sector s" "log_busy (set_bdata i d s) = log_busy s"
  "log_size (set_bdata i d s) = log_size s" "log_start (set_bdata i d s) = log_start s" "log_dev (set_bdata i d s) = log_dev s"
  by (simp_all add: set_bdata_def upd_buf_def)

lemma log_slot_spec:
  assumes ok: "log_ok S L n s" and m: "m < S" and k: "k = log_slot s (of_nat m)"
  shows "k \<le> n" "k < n \<Longrightarrow> lh_sector s k = int m" "k = n \<Longrightarrow> \<forall>k'<n. lh_sector s k' \<noteq> int m"
proof -
  have n: "lh_n s = int n" "S < 2 ^ 23" "\<forall>k<n. 0 \<le> lh_sector s k \<and> lh_sector s k < int S"
    using ok by (auto simp: log_ok_def log_geom_def bio_inv_def)
  then have w: "(word_of_int (lh_sector s i) :: uint) = of_nat m \<longleftrightarrow> lh_sector s i = int m" if "i < n" for i
    using that m sector_word [of "lh_sector s i" m] by auto
  have "(k < n \<and> lh_sector s k = int m) \<or> (k = n \<and> (\<forall>k'<n. lh_sector s k' \<noteq> int m))"
  proof (cases "List.find (\<lambda>i. (word_of_int (lh_sector s i) :: uint) = of_nat m) [0..<n]")
    case None
    then have "k = n" using k n(1) by (simp add: log_slot_def)
    with None w show ?thesis by (auto simp: find_None_iff)
  next
    case (Some i)
    then have "k = i" using k n(1) by (simp add: log_slot_def)
    with Some w show ?thesis by (auto simp: find_Some_iff)
  qed
  then show "k \<le> n" "k < n \<Longrightarrow> lh_sector s k = int m" "k = n \<Longrightarrow> \<forall>k'<n. lh_sector s k' \<noteq> int m" by auto
qed

text \<open>The pattern of every file system update: read a block, change it, log it, release it.\<close>

definition logged_write :: "nat \<Rightarrow> bytes \<Rightarrow> 'z klog_scheme \<Rightarrow> ('z klog_scheme, unit) outcome" where
  "logged_write m d s =
     andthen (bread 1 (of_nat m) s) (\<lambda>b s1. andthen (log_write b (set_bdata b d s1)) (\<lambda>_ s2. brelse b s2))"

lemma set_dirty_inv:
  assumes "bio_inv s" "B_BUSY \<in> b_flags (bc_buf s i)"
  shows "bio_inv (upd_buf i (\<lambda>x. x\<lparr>b_flags := insert B_DIRTY (b_flags x)\<rparr>) s)"
proof -
  let ?t = "upd_buf i (\<lambda>x. x\<lparr>b_flags := insert B_DIRTY (b_flags x)\<rparr>) s"
  from assms(1) obtain xs where "lru xs s" by (auto simp: bio_inv_def)
  then have "lru xs ?t" by (rule lru_cong) (simp_all add: upd_buf_def)
  moreover have "bunique ?t = bunique s" by (rule bunique_cong) (simp_all add: upd_buf_def)
  then have "bunique ?t" using assms(1) by (simp add: bio_inv_def)
  ultimately show ?thesis using assms by (auto simp: bio_inv_def upd_buf_def bcoherent_def)
qed

definition logged :: "nat \<Rightarrow> nat \<Rightarrow> bytes \<Rightarrow> 'z klog_scheme \<Rightarrow> 'z klog_scheme \<Rightarrow> bool" where
  "logged l m d s t \<longleftrightarrow> bio_inv t \<and> nobusy t \<and> cpu_same s t
     \<and> (\<exists>b. dirty t = insert b (dirty s) \<and> cached m b t) \<and> (\<forall>i\<in>dirty s. same_id s t i)
     \<and> memdisk t = (memdisk s)(l := d) \<and> disk_writes t = (l, d) # disk_writes s
     \<and> (\<forall>x<disksize s. blk t x = (if x = m \<or> x = l then d else blk s x))"

lemma log_pin:
  assumes inv: "bio_inv s" "cpu_ok s" "b < NBUF" "B_BUSY \<in> b_flags (bc_buf s b)" "B_VALID \<in> b_flags (bc_buf s b)"
    and l: "l < disksize s" "readable l s" "b_data (bc_buf s b) = d"
  shows "\<exists>j s2 s3 s4. bread 1 (of_nat l) s = Ok j s2 \<and> bwrite j (set_bdata j (b_data (bc_buf s2 b)) s2) = Ok () s3
    \<and> brelse j s3 = Ok () s4 \<and> bio_inv s4 \<and> bframe s s4 \<and> bc_buf s2 b = bc_buf s b
    \<and> b_flags (bc_buf s4 b) = b_flags (bc_buf s b)
    \<and> (\<forall>i. i \<noteq> j \<longrightarrow> same_id s s4 i \<and> b_flags (bc_buf s4 i) = b_flags (bc_buf s i))
    \<and> b_flags (bc_buf s4 j) = {B_VALID} \<and> (cached l j s \<or> B_DIRTY \<notin> b_flags (bc_buf s j)) \<and> j \<noteq> b
    \<and> memdisk s4 = (memdisk s)(l := d) \<and> disk_writes s4 = (l, d) # disk_writes s
    \<and> (\<forall>x<disksize s. blk s4 x = (if x = l then d else blk s x))"
proof -
  from update_block [OF inv(1,2) l(1,2), of d] obtain j t u v where
    b: "bread 1 (of_nat l) s = Ok j t" "bwrite j (set_bdata j d t) = Ok () u" "brelse j u = Ok () v"
    and g: "got l j s t" "wrote l j (set_bdata j d t) u" "released j u v"
    and v: "bio_inv v" "bframe s v" "memdisk v = (memdisk s)(l := d)" "disk_writes v = (l, d) # disk_writes s"
      "\<forall>x<disksize s. blk v x = (if x = l then d else blk s x)" by blast
  have jb: "j \<noteq> b" using g(1) inv(4) by (auto simp: got_def)
  then have tb: "bc_buf t b = bc_buf s b" using g(1) by (auto simp: got_def)
  note rf = released_fields [OF g(3)]
  have o: "same_id s v i" "b_flags (bc_buf v i) = b_flags (bc_buf s i)" if "i \<noteq> j" for i
    using g(1,2) rf(1,2,4) [of i] that by (auto simp: wrote_def got_def same_id_def)
  have "b_flags (bc_buf v j) = {B_VALID}" using g(2) rf(4) [of j] by (auto simp: wrote_def)
  moreover have "cached l j s \<or> B_DIRTY \<notin> b_flags (bc_buf s j)" using g(1) by (auto simp: got_def)
  ultimately show ?thesis using b v o jb tb l(3) by (intro exI [of _ j] exI [of _ t] exI [of _ u] exI [of _ v]) auto
qed

lemma got_only_busy:
  assumes "nobusy s" "got n i s t" "k < NBUF"
  shows "B_BUSY \<in> b_flags (bc_buf t k) \<longleftrightarrow> k = i"
  using assms by (cases "k = i") (auto simp: got_def nobusy_def)

lemma log_write_eq:
  assumes "\<not> (lh_n s \<ge> int LOGSIZE \<or> lh_n s \<ge> log_size s - 1)" "log_busy s"
  shows "log_write b s = (let i = log_slot s (b_sector (bc_buf s b)); s1 = s\<lparr>lh_sector := (lh_sector s)(i := sint (b_sector (bc_buf s b)))\<rparr>
    in andthen (bread (b_dev (bc_buf s1 b)) (word_of_int (log_start s1 + int i + 1)) s1) (\<lambda>lbuf s2.
       andthen (bwrite lbuf (set_bdata lbuf (b_data (bc_buf s2 b)) s2)) (\<lambda>_ s3.
       andthen (brelse lbuf s3) (\<lambda>_ s4. Ok () (upd_buf b (\<lambda>x. x\<lparr>b_flags := insert B_DIRTY (b_flags x)\<rparr>)
         (if int i = lh_n s4 then s4\<lparr>lh_n := lh_n s4 + 1\<rparr> else s4))))))"
  using assms by (simp add: log_write_def log_slot_def Let_def del: fun_upd_apply)

lemma more_lh:
  "kbio.more t = kbio.more s \<Longrightarrow> kbio.more (t\<lparr>lh_n := n\<rparr>) = kbio.more (s\<lparr>lh_n := n\<rparr>)"
  "kbio.more t = kbio.more s \<Longrightarrow> kbio.more (t\<lparr>lh_sector := f\<rparr>) = kbio.more (s\<lparr>lh_sector := f\<rparr>)"
  by (cases s, cases t, simp)+

lemma blk_set_dirty: "blk (upd_buf b (\<lambda>x. x\<lparr>b_flags := insert B_DIRTY (b_flags x)\<rparr>) s) m = blk s m"
proof -
  let ?t = "upd_buf b (\<lambda>x. x\<lparr>b_flags := insert B_DIRTY (b_flags x)\<rparr>) s"
  have "cached m i ?t = cached m i s" "B_VALID \<in> b_flags (bc_buf ?t i) \<longleftrightarrow> B_VALID \<in> b_flags (bc_buf s i)"
    "b_data (bc_buf ?t i) = b_data (bc_buf s i)" for i
    by (simp_all add: cached_def upd_buf_def)
  moreover have "memdisk ?t = memdisk s" by (simp add: upd_buf_def)
  ultimately show ?thesis by (simp add: blk_def cong: option.case_cong)
qed

lemma log_room:
  assumes ok: "log_ok S L n s" and m: "m < S" and k: "k = log_slot s (of_nat m)" "k < n \<or> n + 1 < NBUF"
    and g: "got m b s s1" "bio_inv s1"
  shows "card (dirty s1 \<union> {b}) < NBUF"
proof -
  note kk = log_slot_spec [OF ok m k(1)]
  have sub: "dirty s1 \<subseteq> dirty s" using dirty_got [OF g(1)] by blast
  have c: "card (dirty s) \<le> n" "n < NBUF" using log_ok_card [OF ok] ok by (auto simp: log_ok_def)
  show ?thesis
  proof (cases "k < n")
    case True
    then have "\<exists>i\<in>dirty s. cached (nat (lh_sector s k)) i s" using ok by (auto simp: log_ok_def)
    then obtain i where i: "i \<in> dirty s" "cached m i s" using kk(2) [OF True] by auto
    have "i = b"
    proof (rule ccontr)
      assume "i \<noteq> b"
      then have "cached m i s1" using i(2) g by (auto simp: got_def cached_def)
      moreover have "cached m b s1" using g(1) by (simp add: got_def)
      ultimately show False using cached_unique [of s1 m i b] g(2) \<open>i \<noteq> b\<close> by (simp add: bio_inv_def)
    qed
    then have "dirty s1 \<union> {b} \<subseteq> dirty s" using sub i by auto
    from card_mono [OF finite_dirty this] c show ?thesis by linarith
  next
    case False
    then have "n + 1 < NBUF" using k(2) by blast
    moreover have "card (dirty s1 \<union> {b}) \<le> card (dirty s) + 1"
      using card_mono [OF finite_dirty sub] card_Un_le [of "dirty s1" "{b}"] by simp
    ultimately show ?thesis using c by linarith
  qed
qed

lemma logged_write_effect:
  assumes ok: "log_ok S L n s" and m: "m < S" and busy: "log_busy s" and n: "n + 1 < L"
    and k: "k = log_slot s (of_nat m)" "k < n \<or> n + 1 < NBUF"
  shows "\<exists>t. logged_write m d s = Ok () t \<and> logged (S + k + 1) m d s t
    \<and> kbio.more t = kbio.more (s\<lparr>lh_n := int (max n (k + 1)), lh_sector := (lh_sector s)(k := int m)\<rparr>)"
proof -
  let ?l = "S + k + 1"
  note kk = log_slot_spec [OF ok m k(1)]
  have a: "bio_inv s" "cpu_ok s" "nobusy s" "log_dev s = 1" "log_start s = int S" "log_size s = int L" "S + L \<le> disksize s"
    "disksize s \<le> 2 ^ 23" "lh_n s = int n" "n < NBUF"
    using ok by (auto simp: log_ok_def log_geom_def bio_inv_def)
  have c: "card (dirty s) < NBUF" using log_ok_card [OF ok] a(10) by linarith
  have ml: "m < disksize s" "?l < disksize s" using m a(7) kk(1) n by auto
  from read_quiet [OF a(1-3) c ml(1)] obtain b s1 where
    s1: "bread 1 (of_nat m) s = Ok b s1" "kbio.more s1 = kbio.more s" "got m b s s1" "bio_inv s1"
    "\<forall>x<disksize s. blk s1 x = blk s x" by blast
  have g: "b < NBUF" "cached m b s1" "{B_BUSY, B_VALID} \<subseteq> b_flags (bc_buf s1 b)" "bframe s s1" using s1(3) by (auto simp: got_def)
  have l1: "log_dev s1 = 1" "log_start s1 = int S" "log_size s1 = int L" "lh_n s1 = int n" "lh_sector s1 = lh_sector s" "log_busy s1"
    using log_fields [OF s1(2)] a busy by simp_all
  let ?s1 = "(set_bdata b d s1)\<lparr>lh_sector := (lh_sector s1)(k := int m)\<rparr>"
  have sb: "b_dev (bc_buf s1 b) = 1" "b_sector (bc_buf s1 b) = of_nat m" using g(2) by (auto simp: cached_def)
  have cg: "bio_inv ?s1 = bio_inv (set_bdata b d s1)" "blk ?s1 = blk (set_bdata b d s1)" "dirty ?s1 = dirty (set_bdata b d s1)"
    by (simp_all add: bio_cong [of ?s1 "set_bdata b d s1"])
  have d1: "dirty ?s1 = dirty s1" by (auto simp: cg(3) dirty_def)
  have inv1: "bio_inv ?s1" unfolding cg by (rule set_bdata_inv [OF s1(4)]) (use g(3) in auto)
  have inv2: "cpu_ok ?s1" using bframe_cpu_ok [OF g(4) a(2)] by (simp add: cpu_ok_def set_bdata_def upd_buf_def)
  have b1: "\<forall>x<disksize s. blk ?s1 x = (if x = m then d else blk s x)"
    using set_bdata_blk [OF s1(4) g(2)] g(3,4) s1(5) ml(1) unfolding cg by (simp add: bframe_def)
  have rd: "readable ?l ?s1"
  proof (rule readable_room [of _ _ "{b}"])
    show "card (dirty ?s1 \<union> {b}) < NBUF" unfolding d1 by (rule log_room) (use assms s1 in auto)
    show "i \<in> {b}" if "i < NBUF" "B_BUSY \<in> b_flags (bc_buf ?s1 i)" for i
      using that got_only_busy [OF a(3) s1(3), of i] by (auto split: if_splits)
    show "B_BUSY \<notin> b_flags (bc_buf ?s1 i)" if c: "cached ?l i ?s1" for i
    proof -
      have "i \<noteq> b"
      proof
        assume "i = b"
        then have "(of_nat ?l :: uint) = of_nat m" using c sb by (simp add: cached_def)
        then show False using of_nat_sector_inj [of ?l m] ml a(8) m by simp
      qed
      then show ?thesis using got_only_busy [OF a(3) s1(3), of i] c by (auto simp: cached_def)
    qed
  qed simp
  from log_pin [OF inv1 inv2 g(1) _ _ _ rd, of d] g(3,4) ml(2) obtain j s2 s3 s4 where
    r: "bread 1 (of_nat ?l) ?s1 = Ok j s2" "bwrite j (set_bdata j (b_data (bc_buf s2 b)) s2) = Ok () s3" "brelse j s3 = Ok () s4"
    and s4: "bio_inv s4" "bframe ?s1 s4" "b_flags (bc_buf s4 b) = b_flags (bc_buf ?s1 b)"
      "\<forall>i. i \<noteq> j \<longrightarrow> same_id ?s1 s4 i \<and> b_flags (bc_buf s4 i) = b_flags (bc_buf ?s1 i)"
      "b_flags (bc_buf s4 j) = {B_VALID}" "cached ?l j ?s1 \<or> B_DIRTY \<notin> b_flags (bc_buf ?s1 j)" "j \<noteq> b"
      "memdisk s4 = (memdisk ?s1)(?l := d)" "disk_writes s4 = (?l, d) # disk_writes ?s1"
      "\<forall>x<disksize ?s1. blk s4 x = (if x = ?l then d else blk ?s1 x)"
    by (auto simp: bframe_def)
  have m4: "kbio.more s4 = kbio.more ?s1" using s4(2) by (simp add: bframe_def)
  note l4 = log_fields [OF m4]
  let ?s5 = "upd_buf b (\<lambda>x. x\<lparr>b_flags := insert B_DIRTY (b_flags x)\<rparr>) (s4\<lparr>lh_n := int (max n (k + 1))\<rparr>)"
  have eq: "log_write b (set_bdata b d s1) = Ok () ?s5"
  proof -
    have "log_slot (set_bdata b d s1) (of_nat m) = k" unfolding k(1) by (rule log_slot_cong) (use l1 a(9) in auto)
    moreover have "sint (of_nat m :: uint) = int m" using ml(1) a(8) by (intro sint_of_nat_small) simp
    moreover have "\<not> int n \<ge> int LOGSIZE \<and> \<not> int n \<ge> int L - 1" using a(10) n by (simp add: NBUF_def LOGSIZE_def)
    moreover have "lh_n s4 = int n" using l4 l1 by simp
    moreover have "s4\<lparr>lh_n := int (max n (k + 1))\<rparr> = (if int k = int n then s4\<lparr>lh_n := int n + 1\<rparr> else s4)"
      using kk(1) l4 l1 by (auto simp: max_def)
    ultimately show ?thesis using r sb l1 by (simp add: log_write_eq add_ac)
  qed
  have s5: "cpu_ok ?s5" "B_BUSY \<in> b_flags (bc_buf ?s5 b)" "bio_inv (s4\<lparr>lh_n := int (max n (k + 1))\<rparr>)"
    using bframe_cpu_ok [OF s4(2) inv2] s4(1,3) g(3) bio_cong [of "s4\<lparr>lh_n := int (max n (k + 1))\<rparr>" s4]
    by (auto simp: cpu_ok_def upd_buf_def)
  from brelse_spec [OF s5(1,2)] obtain t where t: "brelse b ?s5 = Ok () t" "released b ?s5 t" by blast
  note rf = released_fields [OF t(2)]
  have o1: "bc_buf ?s1 i = bc_buf s i" if "i \<noteq> b" for i using s1(3) that by (simp add: got_def)
  have fl: "b_flags (bc_buf t i) = (if i = b then {B_VALID, B_DIRTY} else if i = j then {B_VALID} else b_flags (bc_buf s i))" for i
    using rf(4) [of i] s4(3,4,5) s1(3) o1 [of i] by (auto simp: got_def)
  have id1: "same_id ?s1 t i" if "i \<noteq> j" for i
    using rf(1,2) [of i] s4(4) that by (auto simp: same_id_def)
  have jd: "j \<notin> dirty s"
  proof
    assume jd: "j \<in> dirty s"
    then have "cached ?l j s" using s4(6) o1 [OF s4(7)] by (simp add: cached_def dirty_def)
    moreover from jd ok obtain k' where k': "k' < n" "cached (nat (lh_sector s k')) j s" by (auto simp: log_ok_def)
    moreover have "nat (lh_sector s k') < S" using ok k' m by (auto simp: log_ok_def)
    ultimately show False using of_nat_sector_inj [of ?l "nat (lh_sector s k')"] ml(2) a(8) by (simp add: cached_def)
  qed
  have cb: "cached m b t" using id1 [of b] s4(7) g(1) sb by (auto simp: same_id_def cached_def)
  have id: "same_id s t i" if i: "i \<in> dirty s" for i
  proof (cases "i = b")
    case True
    with i s1(3) have "cached m b s" by (auto simp: got_def dirty_def)
    then show ?thesis using True cb by (simp add: same_id_def cached_def)
  next
    case False
    then show ?thesis using id1 [of i] o1 [OF False] i jd by (auto simp: same_id_def)
  qed
  have m1: "memdisk s1 = memdisk s" "disk_writes s1 = disk_writes s" using s1(3) by (auto simp: got_def)
  have "logged ?l m d s t" unfolding logged_def
  proof (intro conjI)
    have "bcoherent ?s5 (bc_buf ?s5 b)" using s4(3) g(3) by (auto simp: bcoherent_def)
    moreover have "bio_inv ?s5" by (rule set_dirty_inv [OF s5(3)]) (use s4(3) g(3) in auto)
    ultimately show "bio_inv t" using released_inv [OF _ g(1) _ t(2)] by blast
    show "nobusy t" using a(3) by (auto simp: nobusy_def fl)
    show "cpu_same s t" using g(4) s4(2) rf(7) by (simp add: cpu_same_def bframe_def upd_buf_def set_bdata_def)
    have "dirty t = insert b (dirty s)" using jd g(1) by (auto simp: dirty_def fl)
    with cb show "\<exists>b. dirty t = insert b (dirty s) \<and> cached m b t" by blast
    show "\<forall>i\<in>dirty s. same_id s t i" using id by blast
    show "memdisk t = (memdisk s)(?l := d)" "disk_writes t = (?l, d) # disk_writes s" using rf(5,6) s4(8,9) m1 by simp_all
    have "blk t x = blk s4 x" for x
      using released_blk [OF t(2)] bio_cong(2) [of "s4\<lparr>lh_n := int (max n (k + 1))\<rparr>" s4] by (simp add: blk_set_dirty)
    then show "\<forall>x<disksize s. blk t x = (if x = m \<or> x = ?l then d else blk s x)"
      using s4(10) b1 g(4) by (auto simp: bframe_def)
  qed
  moreover have "kbio.more t = kbio.more (s\<lparr>lh_n := int (max n (k + 1)), lh_sector := (lh_sector s)(k := int m)\<rparr>)"
  proof -
    have "kbio.more t = kbio.more (s4\<lparr>lh_n := int (max n (k + 1))\<rparr>)" using rf(7) by (simp add: bframe_def upd_buf_def)
    also have "\<dots> = kbio.more (?s1\<lparr>lh_n := int (max n (k + 1))\<rparr>)" by (rule more_lh(1) [OF m4])
    also have "\<dots> = kbio.more (s1\<lparr>lh_n := int (max n (k + 1)), lh_sector := (lh_sector s)(k := int m)\<rparr>)"
      using l1(5) by (cases s1) (simp add: set_bdata_def upd_buf_def)
    also have "\<dots> = kbio.more (s\<lparr>lh_n := int (max n (k + 1)), lh_sector := (lh_sector s)(k := int m)\<rparr>)"
      by (intro more_lh s1(2))
    finally show ?thesis .
  qed
  moreover have "logged_write m d s = Ok () t" using s1(1) eq t(1) by (simp add: logged_write_def)
  ultimately show ?thesis by blast
qed

end
