(* ===== verification/Log_Trans.thy ===== *)
theory Log_Trans
  imports Log_Crash
begin

text \<open>
  Whole transactions of the log (\<^verbatim>\<open>log.c\<close>): the invariant \<open>log_ok\<close> is kept by logging a
  block, \<open>commit_trans\<close> installs the logged blocks, and crashes at any point of a transaction
  or of any number of recoveries leave a disk that recovers to the old or the new contents.
\<close>


definition homes :: "nat \<Rightarrow> 'z klog_scheme \<Rightarrow> nat set" where
  "homes n s = (\<lambda>k. nat (lh_sector s k)) ` {..<n}"

lemma homes_card: "log_ok S L n s \<Longrightarrow> card (homes n s) = n"
proof -
  assume ok: "log_ok S L n s"
  then have "inj_on (\<lambda>k. nat (lh_sector s k)) {..<n}"
    unfolding log_ok_def inj_on_def by (metis eq_nat_nat_iff lessThan_iff)
  then show ?thesis by (simp add: homes_def card_image)
qed

lemma log_ok_logged:
  assumes ok: "log_ok S L n s" and m: "m < S" and n: "n + 1 < L" and k: "k = log_slot s (of_nat m)" "k < n \<or> n + 1 < NBUF"
    and t: "logged (S + k + 1) m d s t"
      "kbio.more t = kbio.more (s\<lparr>lh_n := int (max n (k + 1)), lh_sector := (lh_sector s)(k := int m)\<rparr>)"
  shows "log_ok S L (max n (k + 1)) t" "homes (max n (k + 1)) t = insert m (homes n s)"
proof -
  let ?n = "max n (k + 1)"
  note kk = log_slot_spec [OF ok m k(1)]
  have l: "log_dev t = log_dev s" "log_start t = log_start s" "log_size t = log_size s" "lh_n t = int ?n"
    "lh_sector t = (lh_sector s)(k := int m)"
    using log_fields [OF t(2)] by simp_all
  have h: "k' < ?n \<longleftrightarrow> k' = k \<or> (k' < n \<and> k' \<noteq> k)" for k' using kk(1) by auto
  have ne: "lh_sector s k' \<noteq> int m" if "k' < n" "k' \<noteq> k" for k'
  proof (cases "k < n")
    case True
    have "inj_on (lh_sector s) {..<n}" using ok by (simp add: log_ok_def)
    then have "lh_sector s k' \<noteq> lh_sector s k" using True that by (auto simp: inj_on_def)
    then show ?thesis using kk(2) [OF True] by simp
  next
    case False
    then show ?thesis using kk(1,3) that by auto
  qed
  from t(1) obtain b where b: "dirty t = insert b (dirty s)" "cached m b t" by (auto simp: logged_def)
  have ct: "cached x i t = cached x i s" if "i \<in> dirty s" for x i
    using t(1) that by (auto simp: logged_def same_id_def cached_def)
  have ds: "S + L \<le> disksize s" "disksize t = disksize s" using ok t(1) by (auto simp: log_ok_def log_geom_def logged_def cpu_same_def)
  have sec: "0 \<le> lh_sector s k' \<and> lh_sector s k' < int S \<and> memdisk s (S + k' + 1) = blk s (nat (lh_sector s k'))" if "k' < n" for k'
    using ok that by (auto simp: log_ok_def)
  show "homes ?n t = insert m (homes n s)"
    proof -
    have "homes ?n t = (\<lambda>k'. nat (lh_sector t k')) ` ({k} \<union> {k'. k' < n \<and> k' \<noteq> k})"
      unfolding homes_def by (rule arg_cong [where f = "image _"]) (use h in auto)
    also have "\<dots> = insert m ((\<lambda>k'. nat (lh_sector s k')) ` {k'. k' < n \<and> k' \<noteq> k})" by (auto simp: l(5))
    also have "\<dots> = insert m (homes n s)" using kk(2) by (auto simp: homes_def image_iff)
    finally show ?thesis .
  qed
  show "log_ok S L ?n t" unfolding log_ok_def
  proof (intro conjI)
    show "bio_inv t" "nobusy t" using t(1) by (auto simp: logged_def)
    show "cpu_ok t" using ok t(1) by (auto simp: logged_def cpu_same_def cpu_ok_def log_ok_def)
    show "log_geom S L t" using ok l ds by (auto simp: log_ok_def log_geom_def)
    show "lh_n t = int ?n" by (fact l(4))
    show "?n < NBUF" "?n < L" using k(2) n ok kk(1) by (auto simp: log_ok_def)
    show "\<forall>k'<?n. 0 \<le> lh_sector t k' \<and> lh_sector t k' < int S \<and> memdisk t (S + k' + 1) = blk t (nat (lh_sector t k'))"
      proof (intro allI impI)
      fix k' assume "k' < ?n"
      then consider "k' = k" | "k' < n" "k' \<noteq> k" using h by blast
      then show "0 \<le> lh_sector t k' \<and> lh_sector t k' < int S \<and> memdisk t (S + k' + 1) = blk t (nat (lh_sector t k'))"
      proof cases
        case 1
        then show ?thesis using t(1) m ds(1) by (simp add: l(5) logged_def)
      next
        case 2
        have "nat (lh_sector s k') < S" "nat (lh_sector s k') \<noteq> m" using sec [OF 2(1)] ne [OF 2] m by linarith+
        then show ?thesis using t(1) sec [OF 2(1)] 2 ds(1) by (simp add: l(5) logged_def)
      qed
    qed
    show "inj_on (lh_sector t) {..<?n}" proof (rule inj_onI)
      fix x y assume xy: "x \<in> {..<?n}" "y \<in> {..<?n}" "lh_sector t x = lh_sector t y"
      have i: "inj_on (lh_sector s) {..<n}" using ok by (simp add: log_ok_def)
      show "x = y"
      proof (cases "x = k \<or> y = k")
        case True
        then show ?thesis using xy ne [of x] ne [of y] h [of x] h [of y] by (auto simp: l(5))
      next
        case False
        then have "lh_sector s x = lh_sector s y" "x < n" "y < n" using xy h [of x] h [of y] by (auto simp: l(5))
        then show ?thesis using inj_onD [OF i] by simp
      qed
    qed
    show "hb_n (memdisk t S) = 0" using ok t(1) by (auto simp: log_ok_def logged_def)
    show "\<forall>i\<in>dirty t. \<exists>k'<?n. cached (nat (lh_sector t k')) i t" proof
      fix i assume "i \<in> dirty t"
      then consider "i = b" | "i \<in> dirty s" using b(1) by blast
      then show "\<exists>k'<?n. cached (nat (lh_sector t k')) i t"
      proof cases
        case 1
        then show ?thesis using b(2) h by (intro exI [of _ k]) (simp add: l(5))
      next
        case 2
        then obtain k' where k': "k' < n" "cached (nat (lh_sector s k')) i s" using ok by (auto simp: log_ok_def)
        have "lh_sector t k' = lh_sector s k'" using kk(2) k'(1) by (auto simp: l(5))
        with k' ct [OF 2] show ?thesis by (intro exI [of _ k']) simp
      qed
    qed
    show "\<forall>k'<?n. \<exists>i\<in>dirty t. cached (nat (lh_sector t k')) i t" proof (intro allI impI)
      fix k' assume "k' < ?n"
      then consider "k' = k" | "k' < n" "k' \<noteq> k" using h by blast
      then show "\<exists>i\<in>dirty t. cached (nat (lh_sector t k')) i t"
      proof cases
        case 1
        then show ?thesis using b by (simp add: l(5))
      next
        case 2
        then obtain i where "i \<in> dirty s" "cached (nat (lh_sector s k')) i s" using ok by (auto simp: log_ok_def)
        then show ?thesis using ct b(1) 2 by (intro bexI [of _ i]) (auto simp: l(5))
      qed
    qed
  qed
qed

lemma ran_cong:
  assumes "ran ws s t" "bc_buf u = bc_buf t" "bc_head_next u = bc_head_next t" "bc_head_prev u = bc_head_prev t"
    "memdisk u = memdisk t" "disksize u = disksize t" "disk_writes u = disk_writes t" "cpu_same t u"
  shows "ran ws s u"
  using assms(1,2,5,7,8) bio_cong [OF assms(2-6)] by (simp add: ran_def cpu_same_def same_id_def)

definition commit_end :: "'z klog_scheme \<Rightarrow> 'z klog_scheme" where
  "commit_end s = s\<lparr>intena := (if ncli s = 0 then irq s else intena s),
     locked := (locked s)(Lk_ptable := False, Lk_log := False), ptable := wake (Some Ch_log) (ptable s), log_busy := False\<rparr>"

lemma commit_end_eq:
  assumes "cpu_ok s"
  shows "andthen (wakeup Ch_log ((acquire Lk_log s)\<lparr>log_busy := False\<rparr>)) (\<lambda>_ s4. release Lk_log s4) = Ok () (commit_end s)"
proof -
  have "cpu_ok ((acquire Lk_log s)\<lparr>log_busy := False\<rparr>)" using assms by (simp add: cpu_ok_def lock_simps)
  from wakeup_update [OF this] assms show ?thesis by (auto simp: lock_simps commit_end_def cpu_ok_def fun_upd_twist)
qed

lemma commit_end_fields [simp]:
  "bc_buf (commit_end s) = bc_buf s" "bc_head_next (commit_end s) = bc_head_next s"
  "bc_head_prev (commit_end s) = bc_head_prev s" "memdisk (commit_end s) = memdisk s" "disksize (commit_end s) = disksize s"
  "disk_writes (commit_end s) = disk_writes s" "cpu_same s (commit_end s)" "lh_n (commit_end s) = lh_n s"
  "log_dev (commit_end s) = log_dev s" "log_start (commit_end s) = log_start s" "log_size (commit_end s) = log_size s"
  "\<not> log_busy (commit_end s)" "ptable (commit_end s) = wake (Some Ch_log) (ptable s)"
  by (simp_all add: commit_end_def cpu_same_def)

definition trans_writes :: "nat \<Rightarrow> nat \<Rightarrow> 'z klog_scheme \<Rightarrow> (nat \<times> bytes) list" where
  "trans_writes S n s = (if n = 0 then [] else commit_writes S n (lh_sector s) (memdisk s))"

lemma commit_spec:
  assumes ok: "log_ok S L n s"
  shows "\<exists>t. commit_trans s = Ok () (commit_end t) \<and> ran (trans_writes S n s) s (commit_end t) \<and> log_geom S L (commit_end t) \<and> lh_n t = 0"
proof (cases "n = 0")
  case True
  have "bio_inv s" "nobusy s" "cpu_ok s" "lh_n s = 0" "log_geom S L s" using ok True by (auto simp: log_ok_def)
  then show ?thesis using ran_cong [OF ran_Nil, of s "commit_end s"] True
    by (intro exI [of _ s]) (simp add: commit_trans_def commit_end_eq trans_writes_def log_geom_def)
next
  case False
  from commit_core [OF ok] obtain t where
    t: "andthen (write_head s) (\<lambda>_ s1. andthen (install_trans s1) (\<lambda>_ s2. write_head (s2\<lparr>lh_n := 0\<rparr>))) = Ok () t"
    "ran (commit_writes S n (lh_sector s) (memdisk s)) s t" "kbio.more t = kbio.more (s\<lparr>lh_n := 0\<rparr>)" by blast
  have n: "lh_n s = int n" "cpu_ok s" "log_geom S L s" using ok by (auto simp: log_ok_def)
  have "lh_n t = 0" "log_geom S L (commit_end t)"
    using log_fields [OF t(3)] n(3) t(2) by (auto simp: log_geom_def ran_def cpu_same_def)
  moreover have "commit_trans s = Ok () (commit_end t)"
    using t(1) n(1) False commit_end_eq [OF ran_cpu_ok [OF t(2) n(2)]] by (simp add: commit_trans_def)
  ultimately show ?thesis using ran_cong [OF t(2), of "commit_end t"] False by (auto simp: trans_writes_def)
qed

lemma log_ok_holds:
  assumes D_def: "D = (memdisk s)(S := head_img n (lh_sector s) (memdisk s S))" and ok: "log_ok S L n s" and "n \<noteq> 0"
  shows "log_holds S L D (blk s)" "recover_writes S D = clear_writes S n (lh_sector s) D"
proof -
  have D: "D S = head_img n (lh_sector s) (memdisk s S)" "\<And>m. m \<noteq> S \<Longrightarrow> D m = memdisk s m" by (simp_all add: D_def)
  have n: "n < NBUF" "S + L \<le> disksize s" "disksize s \<le> 2 ^ 23" "n < L" using ok by (auto simp: log_ok_def log_geom_def bio_inv_def)
  have sec: "0 \<le> lh_sector s k \<and> lh_sector s k < int S \<and> memdisk s (S + k + 1) = blk s (nat (lh_sector s k))" if "k < n" for k
    using ok that by (auto simp: log_ok_def)
  have hn: "hb_n (D S) = int n" using n by (simp add: D head_img_roundtrip NBUF_def LOGSIZE_def)
  have hs: "hb_sector (D S) k = lh_sector s k" if "k < n" for k
  proof -
    have "n \<le> LOGSIZE" "lh_sector s k < 2 ^ 31" using n sec [OF that] by (auto simp: NBUF_def LOGSIZE_def)
    then show ?thesis using head_img_roundtrip(2) [of n k] sec [OF that] that by (simp add: D)
  qed
  have clean: "D m = blk s m" if "m < S" "m \<notin> (\<lambda>k. nat (lh_sector s k)) ` {..<n}" for m
    using log_ok_clean [OF ok _ that(2)] that n by (simp add: D)
  have "inj_on (hb_sector (D S)) {..<n}" using ok hs by (auto simp: log_ok_def inj_on_def)
  moreover have "(\<lambda>k. nat (hb_sector (D S) k)) ` {..<n} = (\<lambda>k. nat (lh_sector s k)) ` {..<n}" using hs by auto
  ultimately show "log_holds S L D (blk s)"
    unfolding log_holds_def hn nat_int using hs sec clean n by (auto simp: D(2) NBUF_def LOGSIZE_def)
  show "recover_writes S D = clear_writes S n (lh_sector s) D"
    unfolding recover_writes_def hn nat_int by (rule clear_writes_sec) (rule hs)
qed

lemma commit_crash:
  assumes ok: "log_ok S L n s"
  shows "log_holds S L (apply_writes (take k (trans_writes S n s)) (memdisk s)) (if k = 0 then memdisk s else blk s)"
proof -
  have old: "log_holds S L (memdisk s) (memdisk s)" using ok by (auto simp: log_holds_def log_ok_def)
  show ?thesis
  proof (cases "n = 0")
    case True
    then have "blk s m = memdisk s m" if "m < S" for m
      using log_ok_clean [OF ok, of m] ok that by (auto simp: log_ok_def log_geom_def)
    with old have "log_holds S L (memdisk s) (blk s)" using ok True by (auto simp: log_holds_def log_ok_def)
    with True old show ?thesis by (simp add: trans_writes_def)
  next
    case False
    note h = log_ok_holds [OF refl ok False]
    show ?thesis
    proof (cases k)
      case (Suc j)
      from log_holds_crash [OF h(1), of j] show ?thesis
        using Suc False unfolding h(2) by (simp add: trans_writes_def commit_writes_def)
    qed (use old in simp)
  qed
qed

section \<open>Transactions\<close>

fun logged_writes :: "(nat \<times> bytes) list \<Rightarrow> 'z klog_scheme \<Rightarrow> ('z klog_scheme, unit) outcome" where
  "logged_writes [] s = Ok () s"
| "logged_writes ((m, d) # us) s = andthen (logged_write m d s) (\<lambda>_ s1. logged_writes us s1)"

text \<open>Writes that only touch the log area behind the header.\<close>

definition log_only :: "nat \<Rightarrow> 'z klog_scheme \<Rightarrow> 'z klog_scheme \<Rightarrow> bool" where
  "log_only S s t \<longleftrightarrow> (\<exists>ws. disk_writes t = rev ws @ disk_writes s \<and> memdisk t = apply_writes ws (memdisk s)
     \<and> (\<forall>w\<in>set ws. S < fst w))"

lemma log_only_refl: "log_only S s s"
  by (auto simp: log_only_def intro: exI [of _ "[]"])

lemma log_only_trans: "log_only S s t \<Longrightarrow> log_only S t u \<Longrightarrow> log_only S s u"
proof -
  assume "log_only S s t" "log_only S t u"
  then obtain ws vs where "disk_writes t = rev ws @ disk_writes s" "memdisk t = apply_writes ws (memdisk s)" "\<forall>w\<in>set ws. S < fst w"
    "disk_writes u = rev vs @ disk_writes t" "memdisk u = apply_writes vs (memdisk t)" "\<forall>w\<in>set vs. S < fst w"
    by (auto simp: log_only_def)
  then show ?thesis unfolding log_only_def by (intro exI [of _ "ws @ vs"]) auto
qed

lemma logged_write_spec:
  assumes ok: "log_ok S L n s" and "m < S" "log_busy s"
    and c: "card (insert m (homes n s)) < NBUF" "card (homes n s) + 1 < L"
  shows "\<exists>t n'. logged_write m d s = Ok () t \<and> log_ok S L n' t \<and> log_busy t \<and> homes n' t = insert m (homes n s)
    \<and> log_only S s t \<and> (\<forall>x<S. blk t x = ((blk s)(m := d)) x) \<and> disksize t = disksize s"
proof -
  define k where "k = log_slot s (of_nat m)"
  note kk = log_slot_spec [OF ok assms(2) k_def]
  have fin: "finite (homes n s)" "card (homes n s) = n" using homes_card [OF ok] by (simp_all add: homes_def)
  have n: "n + 1 < L" using c(2) fin(2) by simp
  have kn: "k < n \<or> n + 1 < NBUF"
  proof (cases "k < n")
    case False
    then have "m \<notin> homes n s" using kk(1,3) ok by (force simp: homes_def log_ok_def)
    then show ?thesis using c(1) fin by simp
  qed simp
  from logged_write_effect [OF ok assms(2,3) n k_def kn, of d] obtain t where
    t: "logged_write m d s = Ok () t" "logged (S + k + 1) m d s t"
    "kbio.more t = kbio.more (s\<lparr>lh_n := int (max n (k + 1)), lh_sector := (lh_sector s)(k := int m)\<rparr>)" by blast
  note l = log_ok_logged [OF ok assms(2) n k_def kn t(2,3)]
  have "log_busy t" using log_fields [OF t(3)] assms(3) by simp
  moreover have "log_only S s t" unfolding log_only_def
    by (rule exI [of _ "[(S + k + 1, d)]"]) (use t(2) in \<open>simp add: logged_def\<close>)
  moreover have "\<forall>x<S. blk t x = ((blk s)(m := d)) x" "disksize t = disksize s"
    using t(2) ok by (auto simp: logged_def log_ok_def log_geom_def cpu_same_def)
  ultimately show ?thesis using t(1) l by blast
qed

lemma logged_writes_spec:
  assumes "log_ok S L n s" "log_busy s" "\<forall>w\<in>set us. fst w < S"
    "card (homes n s \<union> fst ` set us) < NBUF" "us \<noteq> [] \<Longrightarrow> card (homes n s \<union> fst ` set (butlast us)) + 1 < L"
  shows "\<exists>t n'. logged_writes us s = Ok () t \<and> log_ok S L n' t \<and> log_busy t \<and> log_only S s t
    \<and> homes n' t = homes n s \<union> fst ` set us \<and> (\<forall>x<S. blk t x = apply_writes us (blk s) x) \<and> disksize t = disksize s"
  using assms
proof (induction us arbitrary: s n)
  case Nil
  then show ?case using log_only_refl by auto
next
  case (Cons w us)
  obtain m d where w: "w = (m, d)" by (cases w)
  have fin: "finite (homes n s)" by (simp add: homes_def)
  have "card (insert m (homes n s)) \<le> card (homes n s \<union> fst ` set (w # us))" using fin w by (intro card_mono) auto
  then have "card (insert m (homes n s)) < NBUF" using Cons.prems(4) by linarith
  moreover have "card (homes n s) \<le> card (homes n s \<union> fst ` set (butlast (w # us)))" using fin by (intro card_mono) auto
  then have "card (homes n s) + 1 < L" using Cons.prems(5) by simp
  moreover have "m < S" using Cons.prems(3) w by simp
  ultimately obtain t n' where t: "logged_write m d s = Ok () t" "log_ok S L n' t" "log_busy t" "homes n' t = insert m (homes n s)"
    "log_only S s t" "\<forall>x<S. blk t x = ((blk s)(m := d)) x" "disksize t = disksize s"
    using logged_write_spec [OF Cons.prems(1) _ Cons.prems(2), of m d] by blast
  have "homes n' t \<union> fst ` set us = homes n s \<union> fst ` set (w # us)" using t(4) w by auto
  moreover have "us \<noteq> [] \<Longrightarrow> homes n' t \<union> fst ` set (butlast us) = homes n s \<union> fst ` set (butlast (w # us))" using t(4) w by auto
  moreover have "us \<noteq> [] \<Longrightarrow> card (homes n s \<union> fst ` set (butlast (w # us))) + 1 < L" using Cons.prems(5) by simp
  ultimately have r: "card (homes n' t \<union> fst ` set us) < NBUF" "us \<noteq> [] \<Longrightarrow> card (homes n' t \<union> fst ` set (butlast us)) + 1 < L"
    "homes n' t \<union> fst ` set us = homes n s \<union> fst ` set (w # us)" using Cons.prems(4) by simp_all
  then obtain u n'' where
    u: "logged_writes us t = Ok () u" "log_ok S L n'' u" "log_busy u" "log_only S t u" "\<forall>x<S. blk u x = apply_writes us (blk t) x"
    "disksize u = disksize t" "homes n'' u = homes n' t \<union> fst ` set us"
    using Cons.IH [OF t(2,3) _ r(1,2)] Cons.prems(3) by auto
  have "\<forall>x<S. blk u x = apply_writes (w # us) (blk s) x"
  proof (intro allI impI)
    fix x assume x: "x < S"
    have "apply_writes us (blk t) x = apply_writes us ((blk s)(m := d)) x" by (rule apply_writes_cong) (use t(6) x in blast)
    with u(5) x w show "blk u x = apply_writes (w # us) (blk s) x" by simp
  qed
  with u t w log_only_trans [OF t(5) u(4)] show ?case by auto
qed

lemma recovered:
  assumes c: "log_cold S L r" and h: "log_holds S L (memdisk r) F"
  shows "\<exists>v. recover_from_log r = Ok () v \<and> (\<forall>m<S. memdisk v m = F m \<and> blk v m = F m) \<and> lh_n v = 0
    \<and> hb_n (memdisk v S) = 0 \<and> log_cold S L v \<and> (\<forall>k. log_holds S L (crash_disk k r v) F)"
proof -
  from recover_spec [OF c h] obtain v where v: "recover_from_log r = Ok () v" "ran (recover_writes S (memdisk r)) r v" "lh_n v = 0"
    "log_cold S L v" by blast
  have F: "apply_writes (recover_writes S (memdisk r)) (memdisk r) m = F m" if "m < S" for m
    using log_holds_installed [OF h that] that by (simp add: recover_writes_def clear_writes_def)
  have d: "disksize v = disksize r" "S < disksize r" using v(2) c h by (auto simp: ran_def cpu_same_def log_cold_def log_geom_def log_holds_def)
  have "\<forall>m<S. memdisk v m = F m \<and> blk v m = F m" using v(2) F cold_blk [OF v(4)] d by (simp add: ran_def)
  moreover have "hb_n (memdisk v S) = 0" using v(2) by (simp add: ran_def recover_writes_def clear_writes_def head_img_roundtrip)
  ultimately show ?thesis using v log_holds_crash [OF h] ran_crash_disk [OF v(2)] by auto
qed

text \<open>Any number of crashes during recovery.\<close>

inductive crash_run :: "nat \<Rightarrow> nat \<Rightarrow> (nat \<Rightarrow> bytes) \<Rightarrow> (nat \<Rightarrow> bytes) \<Rightarrow> bool" for S L D where
  crash_here: "crash_run S L D D"
| crash_again: "crash_run S L D (memdisk r) \<Longrightarrow> log_cold S L (r :: klog) \<Longrightarrow> recover_from_log r = Ok () v \<Longrightarrow>
    crash_run S L D (crash_disk k r v)"

lemma crash_run_holds: "crash_run S L D E \<Longrightarrow> log_holds S L D F \<Longrightarrow> log_holds S L E F"
proof (induction rule: crash_run.induct)
  case (crash_again r v k)
  from recovered [OF crash_again(2) crash_again.IH] crash_again show ?case by auto
qed

lemma log_holds_cong: "log_holds S L D F \<Longrightarrow> (\<And>m. m < S \<Longrightarrow> F m = G m) \<Longrightarrow> log_holds S L D G"
proof -
  assume h: "log_holds S L D F" and eq: "\<And>m. m < S \<Longrightarrow> F m = G m"
  have "F (nat (hb_sector (D S) k)) = G (nat (hb_sector (D S) k))" if "k < nat (hb_n (D S))" for k
  proof -
    have "nat (hb_sector (D S) k) < S" using h that by (auto simp: log_holds_def)
    then show ?thesis by (rule eq)
  qed
  with h eq show ?thesis by (simp add: log_holds_def)
qed

lemma log_only_crash:
  assumes o: "log_only S s t" and h: "hb_n (memdisk s S) = 0" "0 < L" and r: "ran ws t u"
  shows "log_holds S L (crash_disk k s u) (memdisk s) \<or> (\<exists>j. crash_disk k s u = apply_writes (take j ws) (memdisk t))"
proof -
  from o obtain vs where vs: "disk_writes t = rev vs @ disk_writes s" "memdisk t = apply_writes vs (memdisk s)" "\<forall>w\<in>set vs. S < fst w"
    by (auto simp: log_only_def)
  have D: "crash_disk k s u = apply_writes (take k (vs @ ws)) (memdisk s)"
    using r vs(1) by (simp add: crash_disk_def ran_def)
  show ?thesis
  proof (cases "k \<le> length vs")
    case True
    have "apply_writes (take k vs) (memdisk s) m = memdisk s m" if "m \<le> S" for m
      by (rule apply_writes_notin) (use vs(3) that in \<open>fastforce dest: in_set_takeD\<close>)
    then show ?thesis using True D h by (simp add: log_holds_def)
  next
    case False
    then show ?thesis using D vs(2) by auto
  qed
qed

lemma log_ok_committed:
  assumes ok: "log_ok S L n s" and t: "ran (trans_writes S n s) s t" "log_geom S L t" "lh_n t = 0"
  shows "log_ok S L 0 t" "\<forall>m<S. memdisk t m = blk s m"
proof -
  have z: "dirty t = {}"
  proof (rule ccontr)
    assume "dirty t \<noteq> {}"
    then obtain i where i: "i \<in> dirty t" by blast
    with t(1) have it: "i \<in> dirty s" "same_id s t i" "\<forall>n\<in>fst ` set (trans_writes S n s). \<not> cached n i t" by (auto simp: ran_def)
    from it(1) ok obtain k where k: "k < n" "cached (nat (lh_sector s k)) i s" by (auto simp: log_ok_def)
    then have "nat (lh_sector s k) \<in> fst ` set (trans_writes S n s)"
      by (force simp: trans_writes_def commit_writes_def clear_writes_def home_writes_def)
    with it(2,3) k(2) show False by (auto simp: same_id_def cached_def)
  qed
  have hd: "hb_n (memdisk t S) = 0"
    using t(1) ok by (auto simp: ran_def trans_writes_def commit_writes_def clear_writes_def head_img_roundtrip log_ok_def)
  then show "log_ok S L 0 t" using t z ran_cpu_ok [OF t(1)] ok by (auto simp: log_ok_def ran_def)
  show "\<forall>m<S. memdisk t m = blk s m"
    using commit_crash [OF ok, of "length (trans_writes S n s) + 1"] t(1) hd by (auto simp: ran_def log_holds_def)
qed

text \<open>C2: Transactions are atomic. The log has \<open>L\<close> sectors from sector \<open>S\<close> on, the first one for its header. A transaction
  of block writes through \<open>log_write\<close> to at most nine different blocks, which leaves a sector of the log free until its last
  write, is logged without a panic, and its commit installs all of the blocks. If the machine stops after any number of the
  disk writes it issues, and stops again any number of times during recovery, then
  \<open>recover_from_log\<close> on the next boot leaves on disk either all old or all new contents.\<close>

theorem transaction_atomic:
  assumes "log_ok S L 0 s" "log_busy s" "\<forall>w\<in>set us. fst w < S" "card (fst ` set us) < NBUF" "card (fst ` set (butlast us)) + 1 < L"
  shows "\<exists>t u. logged_writes us s = Ok () t \<and> commit_trans t = Ok () u \<and> log_ok S L 0 u \<and> \<not> log_busy u
    \<and> (\<forall>m<S. memdisk t m = memdisk s m) \<and> (\<forall>m<S. memdisk u m = apply_writes us (memdisk s) m)
    \<and> (\<forall>k r. log_cold S L (r :: klog) \<and> crash_run S L (crash_disk k s u) (memdisk r) \<longrightarrow>
         (\<exists>v. recover_from_log r = Ok () v \<and>
            ((\<forall>m<S. memdisk v m = memdisk s m) \<or> (\<forall>m<S. memdisk v m = apply_writes us (memdisk s) m))))"
proof -
  let ?new = "apply_writes us (memdisk s)"
  have h0: "homes 0 s = {}" by (simp add: homes_def)
  have b0: "blk s m = memdisk s m" if "m < S" for m
    using log_ok_clean [OF assms(1), of m] assms(1) that by (auto simp: log_ok_def log_geom_def)
  from logged_writes_spec [OF assms(1-3)] assms(4,5) obtain t n where
    t: "logged_writes us s = Ok () t" "log_ok S L n t" "log_only S s t" "\<forall>x<S. blk t x = apply_writes us (blk s) x"
    unfolding h0 by auto
  have bt: "blk t m = ?new m" if "m < S" for m
    using t(4) that apply_writes_cong [of "blk s" m "memdisk s" us] b0 by simp
  have mt: "memdisk t m = memdisk s m" if "m \<le> S" for m
  proof -
    from t(3) obtain ws where "memdisk t = apply_writes ws (memdisk s)" "\<forall>w\<in>set ws. S < fst w" by (auto simp: log_only_def)
    then show ?thesis using apply_writes_notin [of m ws "memdisk s"] that by fastforce
  qed
  from commit_spec [OF t(2)] obtain u where
    u: "commit_trans t = Ok () u" "ran (trans_writes S n t) t u" "log_geom S L u" "lh_n u = 0" "\<not> log_busy u" by auto
  note c = log_ok_committed [OF t(2) u(2-4)]
  have "hb_n (memdisk s S) = 0" "0 < L" using assms(1) by (simp_all add: log_ok_def)
  then have H: "log_holds S L (crash_disk k s u) (memdisk s) \<or> log_holds S L (crash_disk k s u) ?new" for k
    using log_only_crash [OF t(3) _ _ u(2), of L k] commit_crash [OF t(2)] log_holds_cong [of S L "crash_disk k s u" "memdisk t" "memdisk s"]
      log_holds_cong [of S L "crash_disk k s u" "blk t" ?new] mt bt by (metis less_imp_le)
  have R: "\<exists>v. recover_from_log r = Ok () v \<and> ((\<forall>m<S. memdisk v m = memdisk s m) \<or> (\<forall>m<S. memdisk v m = ?new m))"
    if r: "log_cold S L (r :: klog)" "crash_run S L (crash_disk k s u) (memdisk r)" for k r
    using H [of k] recovered [OF r(1) crash_run_holds [OF r(2)]] by fast
  show ?thesis
  proof (rule exI [of _ t], rule exI [of _ u], intro conjI)
    show "\<forall>k r. log_cold S L (r :: klog) \<and> crash_run S L (crash_disk k s u) (memdisk r) \<longrightarrow>
      (\<exists>v. recover_from_log r = Ok () v \<and> ((\<forall>m<S. memdisk v m = memdisk s m) \<or> (\<forall>m<S. memdisk v m = ?new m)))"
      using R by blast
  qed (use t(1) u(1,5) c mt bt in simp_all)
qed

text \<open>The log of the image that \<^verbatim>\<open>mkfs\<close> builds: ten sectors at the end of a disk of 1024.\<close>

definition boot_log :: klog where
  "boot_log = kbio.extend (binit boot_bio)
     \<lparr>log_start = 1014, log_size = 10, log_busy = True, log_dev = 1, lh_n = 0, lh_sector = (\<lambda>_. 0)\<rparr>"

lemma boot_log_ok: "log_ok 1014 10 0 boot_log" "log_busy boot_log"
proof -
  have f: "bc_buf boot_log = bc_buf (binit boot_bio)" "bc_head_next boot_log = bc_head_next (binit boot_bio)"
    "bc_head_prev boot_log = bc_head_prev (binit boot_bio)" "memdisk boot_log = memdisk (binit boot_bio)"
    "disksize boot_log = disksize (binit boot_bio)" "ncli boot_log = ncli (binit boot_bio)" "irq boot_log = irq (binit boot_bio)"
    by (simp_all add: boot_log_def kbio.defs)
  note b = binit_spec [of boot_bio, OF _ , simplified boot_bio_fields, simplified]
  have c: "bio_inv boot_log" "nobusy boot_log" "dirty boot_log = {}"
    using bio_cong [OF f(1-5)] boot_cache b(5) by (simp_all add: nobusy_def dirty_def)
  moreover have "memdisk boot_log = (\<lambda>_ _. 0)" using f(4) b(3) boot_bio_fields by simp
  moreover have "cpu_ok boot_log" using boot_cache(2) f by (simp add: cpu_ok_def)
  moreover have "hb_n (\<lambda>_. 0) = 0" by (simp add: hb_n_def get32_def)
  ultimately show "log_ok 1014 10 0 boot_log" using f(5) boot_cache(3)
    by (simp add: log_ok_def log_geom_def NBUF_def) (simp add: boot_log_def kbio.defs)
  show "log_busy boot_log" by (simp add: boot_log_def kbio.defs)
qed

lemma boot_log_cold: "log_cold 1014 10 (boot_log\<lparr>memdisk := D\<rparr>)"
proof -
  let ?s = "boot_log\<lparr>memdisk := D\<rparr>"
  have fl: "b_flags (bc_buf boot_log i) = {}" if "i < NBUF" for i
    using binit_spec(5) [of boot_bio] that by (simp add: boot_log_def kbio.defs boot_bio_fields)
  have inv: "bio_inv boot_log" "nobusy boot_log" "cpu_ok boot_log" "log_geom 1014 10 boot_log" using boot_log_ok by (auto simp: log_ok_def)
  have "bio_inv ?s" using inv(1) fl by (simp add: bio_inv_def lru_def bunique_def bcoherent_def)
  moreover have "dirty ?s = {}" "nobusy ?s" "cpu_ok ?s" "log_geom 1014 10 ?s"
    using fl inv(2-4) by (auto simp: dirty_def nobusy_def cpu_ok_def log_geom_def)
  ultimately show ?thesis by (simp add: log_cold_def)
qed

text \<open>A transaction of nine blocks on this log. The machine stops when two of the blocks have been installed, and again after
  three writes of the recovery; the second recovery succeeds.\<close>

theorem transaction_atomic_witness:
  "\<exists>t u (r :: klog) (v :: klog) (w :: klog) us. us = map (\<lambda>m. (m, \<lambda>_. 1)) [20..<29] \<and> logged_writes us boot_log = Ok () t \<and> commit_trans t = Ok () u
    \<and> (\<forall>m<1014. memdisk u m = apply_writes us (memdisk boot_log) m)
    \<and> memdisk r = crash_disk 12 boot_log u \<and> recover_from_log r = Ok () v
    \<and> recover_from_log (boot_log\<lparr>memdisk := crash_disk 3 r v\<rparr>) = Ok () w
    \<and> ((\<forall>m<1014. memdisk w m = memdisk boot_log m) \<or> (\<forall>m<1014. memdisk w m = apply_writes us (memdisk boot_log) m))"
proof -
  let ?us = "map (\<lambda>m. (m, \<lambda>_. 1)) [20..<29] :: (nat \<times> bytes) list"
  have c: "fst ` set ?us = {20..<29}" "fst ` set (butlast ?us) = {20..<28}" by (force simp: map_butlast [symmetric] upt_rec numeral_eq_Suc)+
  have "\<forall>w\<in>set ?us. fst w < 1014" by simp
  from transaction_atomic [OF boot_log_ok this] obtain t u where
    u: "logged_writes ?us boot_log = Ok () t" "commit_trans t = Ok () u" "\<forall>m<1014. memdisk u m = apply_writes ?us (memdisk boot_log) m"
    and R: "\<And>k r. log_cold 1014 10 (r :: klog) \<Longrightarrow> crash_run 1014 10 (crash_disk k boot_log u) (memdisk r) \<Longrightarrow>
      \<exists>v. recover_from_log r = Ok () v \<and> ((\<forall>m<1014. memdisk v m = memdisk boot_log m) \<or> (\<forall>m<1014. memdisk v m = apply_writes ?us (memdisk boot_log) m))"
    unfolding c by (auto simp: NBUF_def)
  let ?r = "boot_log\<lparr>memdisk := crash_disk 12 boot_log u\<rparr>"
  have r: "crash_run 1014 10 (crash_disk 12 boot_log u) (memdisk ?r)" by (simp add: crash_here)
  from R [OF boot_log_cold r] obtain v where v: "recover_from_log ?r = Ok () v" by blast
  let ?q = "boot_log\<lparr>memdisk := crash_disk 3 ?r v\<rparr>"
  have "crash_run 1014 10 (crash_disk 12 boot_log u) (memdisk ?q)" using crash_again [OF r boot_log_cold v, of 3] by simp
  from R [OF boot_log_cold this] obtain w where w: "recover_from_log ?q = Ok () w"
    "(\<forall>m<1014. memdisk w m = memdisk boot_log m) \<or> (\<forall>m<1014. memdisk w m = apply_writes ?us (memdisk boot_log) m)" by blast
  show ?thesis
    by (rule exI [of _ t], rule exI [of _ u], rule exI [of _ ?r], rule exI [of _ v], rule exI [of _ w], rule exI [of _ ?us]) (use u v w in simp)
qed

lemma log_ok_card_eq: "log_ok S L n s \<Longrightarrow> card (dirty s) = n"
proof (rule antisym)
  assume ok: "log_ok S L n s"
  then show "card (dirty s) \<le> n" by (rule log_ok_card)
  have g: "S + L \<le> disksize s" "disksize s \<le> 2 ^ 23" using ok by (auto simp: log_ok_def log_geom_def bio_inv_def)
  have "\<forall>k\<in>{..<n}. \<exists>i. i \<in> dirty s \<and> cached (nat (lh_sector s k)) i s" using ok by (auto simp: log_ok_def)
  then obtain f where f: "\<forall>k\<in>{..<n}. f k \<in> dirty s \<and> cached (nat (lh_sector s k)) (f k) s" by (auto dest: bchoice)
  have "inj_on f {..<n}"
  proof (rule inj_onI)
    fix x y assume xy: "x \<in> {..<n}" "y \<in> {..<n}" "f x = f y"
    have r: "0 \<le> lh_sector s x" "lh_sector s x < int S" "0 \<le> lh_sector s y" "lh_sector s y < int S" using ok xy by (auto simp: log_ok_def)
    have "cached (nat (lh_sector s x)) (f x) s" "cached (nat (lh_sector s y)) (f y) s" using f xy(1,2) by blast+
    then have "(of_nat (nat (lh_sector s x)) :: uint) = of_nat (nat (lh_sector s y))" using xy(3) unfolding cached_def by simp
    moreover have "nat (lh_sector s x) < 2 ^ 23" "nat (lh_sector s y) < 2 ^ 23" using r g by linarith+
    ultimately have "nat (lh_sector s x) = nat (lh_sector s y)" by (simp only: of_nat_sector_inj)
    then have "lh_sector s x = lh_sector s y" using r by simp
    moreover have "inj_on (lh_sector s) {..<n}" using ok by (simp add: log_ok_def)
    ultimately show "x = y" using xy(1,2) by (simp add: inj_on_def)
  qed
  then have "card {..<n} \<le> card (dirty s)" using f by (intro card_inj_on_le) auto
  then show "n \<le> card (dirty s)" by simp
qed

lemma tenth_block_no_buffers:
  fixes s :: "'z klog_scheme"
  assumes ok: "log_ok S L 9 s" "log_busy s" "m < S" "m \<notin> homes 9 s" "10 < L"
  shows "logged_write m d s = Panic ''bget: no buffers''"
proof -
  let ?l = "S + 10"
  have a: "bio_inv s" "cpu_ok s" "nobusy s" "log_dev s = 1" "log_start s = int S" "log_size s = int L" "S + L \<le> disksize s"
    "disksize s \<le> 2 ^ 23" "lh_n s = 9"
    using ok by (auto simp: log_ok_def log_geom_def bio_inv_def)
  have c: "card (dirty s) = 9" by (rule log_ok_card_eq [OF ok(1)])
  have ml: "m < disksize s" "?l < disksize s" using ok(3,5) a(7) by auto
  have k: "log_slot s (of_nat m) = 9"
  proof -
    have "\<not> log_slot s (of_nat m) < 9"
      using log_slot_spec(2) [OF ok(1,3) refl] ok(4) by (force simp: homes_def)
    with log_slot_spec(1) [OF ok(1,3) refl] show ?thesis by simp
  qed
  from read_quiet [OF a(1-3) _ ml(1)] c obtain b s1 where
    s1: "bread 1 (of_nat m) s = Ok b s1" "kbio.more s1 = kbio.more s" "got m b s s1" "bio_inv s1" by (auto simp: NBUF_def)
  have g: "b < NBUF" "cached m b s1" "bframe s s1" "B_BUSY \<in> b_flags (bc_buf s1 b)" using s1(3) by (auto simp: got_def)
  have l1: "log_start s1 = int S" "log_size s1 = int L" "lh_n s1 = 9" "lh_sector s1 = lh_sector s" "log_busy s1"
    using log_fields [OF s1(2)] a ok(2) by simp_all
  have far: "\<not> (i \<in> dirty s \<and> cached x i s)" if "x < disksize s" "x \<notin> homes 9 s" for i x
    using log_ok_pinned [OF ok(1) that(1)] that(2) by (auto simp: homes_def)
  have bd: "b \<notin> dirty s" using s1(3) far [OF ml(1) ok(4), of b] by (auto simp: got_def dirty_def)
  have all: "insert b (dirty s) = {..<NBUF}"
    by (rule card_subset_eq) (use bd c g(1) in \<open>auto simp: dirty_def NBUF_def\<close>)
  let ?s1 = "(set_bdata b d s1)\<lparr>lh_sector := (lh_sector s1)(9 := int m)\<rparr>"
  have o1: "bc_buf ?s1 i = bc_buf s i" if "i \<noteq> b" for i using s1(3) that by (simp add: got_def)
  have "\<not> victim ?s1 i" for i
  proof (cases "i = b")
    case False
    then show ?thesis using all o1 [OF False] by (auto simp: victim_def dirty_def)
  qed (use g in \<open>simp add: victim_def\<close>)
  then have v: "List.find (victim ?s1) (rev xs) = None" for xs by (simp add: find_None_iff)
  have no: "\<not> cached ?l i ?s1" for i
  proof (cases "i = b")
    case True
    then show ?thesis using g(2) of_nat_sector_inj [of ?l m] ml a(8) ok(3) by (auto simp: cached_def)
  next
    case False
    have "?l \<notin> homes 9 s" using ok(1) by (force simp: homes_def log_ok_def)
    from far [OF ml(2) this, of i] show ?thesis using all o1 [OF False] False by (auto simp: cached_def)
  qed
  have "bio_inv ?s1" "cpu_ok ?s1"
    using bio_cong(1) [of ?s1 "set_bdata b d s1"] set_bdata_inv [OF s1(4) g(4), of d] bframe_cpu_ok [OF g(3) a(2)]
    by (simp_all add: cpu_ok_def) (simp_all add: set_bdata_def upd_buf_def)
  then have p: "bread 1 (of_nat ?l) ?s1 = Panic ''bget: no buffers''"
    using bget_miss [OF _ _ no] v by (auto simp: bread_def bio_inv_def simp del: of_nat_add)
  have "b_dev (bc_buf s1 b) = 1" "b_sector (bc_buf s1 b) = of_nat m" using g(2) by (auto simp: cached_def)
  moreover have "log_slot (set_bdata b d s1) (of_nat m) = 9" unfolding k [symmetric] by (rule log_slot_cong) (use l1 a(9) in auto)
  moreover have "sint (of_nat m :: uint) = int m" using ml(1) a(8) by (intro sint_of_nat_small) simp
  ultimately have "log_write b (set_bdata b d s1) = Panic ''bget: no buffers''"
    using p l1 ok(5) by (simp add: log_write_eq LOGSIZE_def add_ac)
  then show ?thesis using s1(1) by (simp add: logged_write_def)
qed

lemma full_log_panics:
  assumes "log_ok S 10 9 s" "m < S"
  shows "logged_write m d s = Panic ''too big a transaction''"
proof -
  have a: "bio_inv s" "cpu_ok s" "nobusy s" "log_size s = 10" "m < disksize s" "lh_n s = 9"
    using assms by (auto simp: log_ok_def log_geom_def)
  from read_quiet [OF a(1-3) _ a(5)] log_ok_card_eq [OF assms(1)] obtain b s1 where
    s1: "bread 1 (of_nat m) s = Ok b s1" "kbio.more s1 = kbio.more s" by (auto simp: NBUF_def)
  have "lh_n (set_bdata b d s1) = 9" "log_size (set_bdata b d s1) = 10" using log_fields [OF s1(2)] a(4,6) by simp_all
  then have "log_write b (set_bdata b d s1) = Panic ''too big a transaction''" by (simp add: log_write_def)
  then show ?thesis using s1(1) by (simp add: logged_write_def)
qed

text \<open>C36: although the log header has ten slots, no transaction can log a tenth block. With nine blocks logged, the log that \<^verbatim>\<open>mkfs\<close>
  builds, of ten sectors with the header, is full: any further \<open>log_write\<close>, even of a block that is logged already, panics. In a
  larger log, nine buffers are pinned by \<open>B_DIRTY\<close> and the caller holds the tenth, so \<open>bget\<close> panics when \<open>log_write\<close> of a
  new block reads the log block.\<close>

theorem tenth_block_panics:
  fixes s :: "'z klog_scheme"
  assumes ok: "log_ok S L 9 s" "log_busy s" "m < S"
  shows "if L = 10 then logged_write m d s = Panic ''too big a transaction''
    else m \<notin> homes 9 s \<longrightarrow> logged_write m d s = Panic ''bget: no buffers''"
proof (cases "L = 10")
  case False
  have "9 < L" using ok(1) by (simp add: log_ok_def)
  then show ?thesis using False tenth_block_no_buffers [OF ok] by auto
qed (use full_log_panics ok in auto)

text \<open>On the log of the image, after nine blocks: a new block, and a block that is in the log.\<close>

theorem tenth_block_panics_witness:
  "\<exists>s :: klog. log_ok 1014 10 9 s \<and> 5 \<in> homes 9 s \<and> logged_write 500 (\<lambda>_. 7) s = Panic ''too big a transaction''
     \<and> logged_write 5 (\<lambda>_. 7) s = Panic ''too big a transaction''"
proof -
  let ?us = "map (\<lambda>m. (m, \<lambda>_. 1)) [0..<9] :: (nat \<times> bytes) list"
  have c: "fst ` set ?us = {0..<9}" "fst ` set (butlast ?us) = {0..<8}" by (force simp: map_butlast [symmetric] upt_rec numeral_eq_Suc)+
  have h: "homes 0 boot_log = {}" by (simp add: homes_def)
  from logged_writes_spec [OF boot_log_ok, of ?us] obtain s :: klog and n where
    s: "log_ok 1014 10 n s" "log_busy s" "homes n s = {0..<9}"
    unfolding c h by (auto simp: NBUF_def)
  then have "n = 9" using homes_card [OF s(1)] by simp
  with s tenth_block_panics [of 1014 10 s 500 "\<lambda>_. 7"] tenth_block_panics [of 1014 10 s 5 "\<lambda>_. 7"] show ?thesis by auto
qed

text \<open>C27: only one transaction is open at a time: \<open>begin_trans\<close> returns only from a state without one,
  and otherwise puts the caller to sleep on the log; the next \<open>commit_trans\<close> closes the
  transaction and makes the sleeper runnable.\<close>

theorem log_handover:
  fixes s u :: "'z klog_scheme"
  assumes "cproc s = Some p" "p < NPROC" "ncli s = 0" "log_ok S L n u"
  shows "(\<not> log_busy s \<longrightarrow> begin_trans s = Ok () ((relock Lk_log s)\<lparr>log_busy := True\<rparr>))
    \<and> (log_busy s \<longrightarrow> (\<exists>t. begin_trans s = Swtch t \<and> p_state (ptable t p) = SLEEPING
        \<and> p_chan (ptable t p) = Some Ch_log \<and> \<not> locked t Lk_log))
    \<and> (\<exists>v. commit_trans u = Ok () v \<and> \<not> log_busy v
        \<and> (\<forall>q<NPROC. p_state (ptable v q) = SLEEPING \<longrightarrow> p_chan (ptable v q) \<noteq> Some Ch_log))"
proof (intro conjI impI)
  have "in_section Lk_log p (acquire Lk_log s)" using assms by (simp add: in_section_def lock_simps)
  from sleep_switches [OF this, of Ch_log] obtain t where
    t: "sleep Ch_log (Some Lk_log) (acquire Lk_log s) = Swtch t" "p_state (ptable t p) = SLEEPING"
    "p_chan (ptable t p) = Some Ch_log" "\<not> locked t Lk_log" by auto
  moreover assume "log_busy s"
  ultimately show "\<exists>t. begin_trans s = Swtch t \<and> p_state (ptable t p) = SLEEPING
        \<and> p_chan (ptable t p) = Some Ch_log \<and> \<not> locked t Lk_log"
    by (simp add: begin_trans_def begin_loop_def lock_simps blocked_def)
next
  from commit_spec [OF assms(4)] obtain v where v: "commit_trans u = Ok () (commit_end v)" by blast
  then show "\<exists>v. commit_trans u = Ok () v \<and> \<not> log_busy v
        \<and> (\<forall>q<NPROC. p_state (ptable v q) = SLEEPING \<longrightarrow> p_chan (ptable v q) \<noteq> Some Ch_log)"
    by (intro exI [of _ "commit_end v"]) (simp add: wake_def)
qed (use assms(3) in \<open>auto simp: begin_trans_def begin_loop_def lock_simps relock_def\<close>)

theorem log_handover_witness:
  "\<exists>t v. begin_trans boot_log = Swtch t \<and> p_state (ptable t 0) = SLEEPING \<and> commit_trans boot_log = Ok () v \<and> \<not> log_busy v"
proof -
  have "cproc boot_log = Some 0" "ncli boot_log = 0"
    using binit_spec(4) [of boot_bio] by (simp_all add: boot_log_def kbio.defs bframe_def boot_bio_fields)
  with log_handover [OF _ _ _ boot_log_ok(1), of boot_log 0] boot_log_ok(2) show ?thesis by (auto simp: NPROC_def)
qed

end
