(* ===== verification/Boot_State.thy ===== *)
theory Boot_State
  imports Log_Trans Proc
begin

text \<open>
  A small concrete kernel on which the properties of the upper layers are exercised: the
  buffer cache and log of \<open>boot_log\<close> on an empty disk of 1024 blocks, empty tables, and
  process 0 running.
\<close>

definition null_inode :: inode where
  "null_inode = \<lparr>i_dev = 0, i_inum = 0, i_ref = 0, i_flags = {}, i_type = 0, i_major = 0, i_minor = 0, i_nlink = 0,
     i_size = 0, i_addrs = (\<lambda>_. 0)\<rparr>"

definition boot_inode :: kinode where
  "boot_inode = klog.extend boot_log \<lparr>icache = (\<lambda>_. null_inode)\<rparr>"

definition boot_cons :: kcons where
  "boot_cons = kinode.extend boot_inode \<lparr>cons_locking = False, panicked = False, in_buf = (\<lambda>_. 0), in_r = 0, in_w = 0, in_e = 0,
     uart_rx = [], uart_tx = [], devsw_read = (\<lambda>_. None), devsw_write = (\<lambda>_. None), call_pcs = (\<lambda>_. 0)\<rparr>"

definition boot_file :: kfile where
  "boot_file = kcons.extend boot_cons
     \<lparr>ftable = (\<lambda>_. \<lparr>f_type = FD_NONE, f_ref = 0, f_readable = False, f_writable = False, f_pipe = 0, f_ip = 0, f_off = 0\<rparr>),
      pipes = (\<lambda>_. \<lparr>pp_data = (\<lambda>_. 0), pp_nread = 0, pp_nwrite = 0, pp_readopen = True, pp_writeopen = True\<rparr>)\<rparr>"

definition boot_vm :: kvm where
  "boot_vm = kfile.extend boot_file \<lparr>kdata = (\<lambda>_. 0), kpt_freelist = 0, ticks = 0\<rparr>"

definition boot_proc :: kproc where
  "boot_proc = kvm.extend boot_vm \<lparr>forkret_first = True, forkret_addr = 0, trapret_addr = 0\<rparr>"

lemmas boot_extend = boot_inode_def boot_cons_def boot_file_def boot_vm_def boot_proc_def
  klog.defs kinode.defs kcons.defs kfile.defs kvm.defs

lemma binit_core [simp]: "ptable (binit s) = ptable s" "initproc (binit s) = initproc s"
proof -
  have "ptable (fold binit_buf xs s) = ptable s \<and> initproc (fold binit_buf xs s) = initproc s" for xs and s :: "'a kbio_scheme"
    by (induction xs arbitrary: s) (simp_all add: binit_buf_def upd_buf_def set_bnext_def set_bprev_def Let_def split: bref.split)
  then show "ptable (binit s) = ptable s" "initproc (binit s) = initproc s"
    by (simp_all add: binit_def Let_def initlock_def)
qed

lemma boot_log_core [simp]:
  "cproc boot_log = Some 0" "ncli boot_log = 0" "irq boot_log" "initproc boot_log = None" "ptable boot_log = ptable boot_core"
proof -
  show "cproc boot_log = Some 0" "ncli boot_log = 0" "irq boot_log"
    using binit_spec(4) [of boot_bio]
    by (simp_all add: boot_log_def kbio.defs bframe_def boot_bio_fields) (simp add: boot_bio_def boot_core_def kcore.defs kmem.defs)
  show "initproc boot_log = None" "ptable boot_log = ptable boot_core"
    by (simp_all add: boot_log_def kbio.defs) (simp_all add: boot_bio_def boot_core_def kcore.defs kmem.defs)
qed

lemma boot_core_proc [simp]: "p_state (ptable boot_core p) = UNUSED" "p_killed (ptable boot_core p) = False"
  "p_ofile (ptable boot_core p) = (\<lambda>_. None)" "p_parent (ptable boot_core p) = None" "p_cwd (ptable boot_core p) = None"
  by (simp_all add: boot_core_def)

lemma boot_inode_fields [simp]:
  "cproc boot_inode = Some 0" "ncli boot_inode = 0" "irq boot_inode" "ptable boot_inode = ptable boot_core"
  "icache boot_inode = (\<lambda>_. null_inode)" "initproc boot_inode = None"
  by (simp_all add: boot_extend)

lemma boot_file_fields [simp]:
  "cproc boot_file = Some 0" "ncli boot_file = 0" "irq boot_file" "ptable boot_file = ptable boot_core"
  "pipes boot_file = (\<lambda>_. \<lparr>pp_data = (\<lambda>_. 0), pp_nread = 0, pp_nwrite = 0, pp_readopen = True, pp_writeopen = True\<rparr>)"
  "ftable boot_file = (\<lambda>_. \<lparr>f_type = FD_NONE, f_ref = 0, f_readable = False, f_writable = False, f_pipe = 0, f_ip = 0, f_off = 0\<rparr>)"
  by (simp_all add: boot_extend)

lemma boot_cons_fields [simp]:
  "cproc boot_cons = Some 0" "ncli boot_cons = 0" "irq boot_cons" "ptable boot_cons = ptable boot_core" "\<not> panicked boot_cons"
  "in_buf boot_cons = (\<lambda>_. 0)" "in_r boot_cons = 0" "in_w boot_cons = 0" "in_e boot_cons = 0" "uart_rx boot_cons = []" "uart_tx boot_cons = []"
  "\<not> cons_locking boot_cons"
  by (simp_all add: boot_extend)

lemma boot_proc_fields [simp]:
  "cproc boot_proc = Some 0" "ncli boot_proc = 0" "irq boot_proc" "ptable boot_proc = ptable boot_core" "initproc boot_proc = None"
  "ftable boot_proc = ftable boot_file" "icache boot_proc = (\<lambda>_. null_inode)" "kdata boot_proc = (\<lambda>_. 0)" "kpt_freelist boot_proc = 0"
  "\<not> panicked boot_proc" "\<not> cons_locking boot_proc" "ticks boot_proc = 0"
  by (simp_all add: boot_extend)

end
