(* ===== verification/Sched_Steps.thy ===== *)
theory Sched_Steps
  imports Lock_Discipline Boot_State
begin

text \<open>
  The kernel as a transition system: the scheduler, the processes it runs and the interrupts. A process does one
  routine of the kernel after another; it enters the kernel through \<open>swi_handler\<close>, and a routine that gives up the CPU
  is continued by its \<open>_resume\<close> companion when the scheduler comes back to the process. Interrupts are
  taken between routines, whenever they are enabled.
\<close>

section \<open>Steps\<close>

text \<open>Where control is: the scheduler before a round, with interrupts enabled; the scheduler at slot \<open>i\<close> of the table;
  process \<open>i\<close>, switched to and still holding \<open>ptable.lock\<close>; process \<open>i\<close> outside critical sections.\<close>

datatype ctl = Idle | Scan nat | Resumed nat | Run nat

definition discard :: "('s, 'a) outcome \<Rightarrow> ('s, unit) outcome" where
  "discard m = andthen m (\<lambda>_ s. Ok () s)"

text \<open>How a process goes on when it is switched to: the first time in \<open>forkret\<close>, later behind the \<open>sched\<close> it called.\<close>

inductive resumption :: "(ktrap \<Rightarrow> (ktrap, unit) outcome) \<Rightarrow> bool" where
  "resumption forkret"
| "resumption yield_resume"
| "resumption (\<lambda>s. discard (wait_resume s))"
| "resumption (\<lambda>s. discard (bget_resume d n s))"
| "resumption begin_trans_resume"
| "resumption (ilock_resume ip)"
| "resumption (\<lambda>s. discard (consoleread_resume ip target k acc s))"
| "resumption (\<lambda>s. discard (pipewrite_resume p n cs s))"
| "resumption (\<lambda>s. discard (piperead_resume p n s))"
| "resumption (\<lambda>s. discard (sys_sleep_resume n t0 s))"

text \<open>What process \<open>i\<close> executes with no lock held: system calls, \<open>yield\<close>, and the routines that make up the rest of
  a call that slept.\<close>

inductive kernel_op :: "nat \<Rightarrow> (ktrap \<Rightarrow> (ktrap, unit) outcome) \<Rightarrow> bool" for i where
  "kernel_op i (swi_handler r)"
| "kernel_op i yield"
| "kernel_op i (exit_switch i)"
| "kernel_op i (\<lambda>s. discard (exit_files i fds s))"
| "kernel_op i (\<lambda>s. discard (fork s))"
| "kernel_op i exit"
| "kernel_op i (\<lambda>s. discard (wait s))"
| "kernel_op i (\<lambda>s. discard (kill pid s))"
| "kernel_op i (wakeup ch)"
| "kernel_op i (set_r0 v)"
| "kernel_op i (\<lambda>s. discard (growproc n s))"
| "kernel_op i (switchuvm i)"
| "kernel_op i (\<lambda>s. discard (bread d n s))"
| "kernel_op i (iderw b)"
| "kernel_op i (bwrite b)"
| "kernel_op i (brelse b)"
| "kernel_op i (log_write b)"
| "kernel_op i begin_trans"
| "kernel_op i commit_trans"
| "kernel_op i (install_loop ts)"
| "kernel_op i write_head"
| "kernel_op i recover_from_log"
| "kernel_op i (bzero d n)"
| "kernel_op i (\<lambda>s. discard (balloc d s))"
| "kernel_op i (bfree d n)"
| "kernel_op i (\<lambda>s. discard (iget d n s))"
| "kernel_op i (\<lambda>s. discard (ialloc d ty s))"
| "kernel_op i (iupdate ip)"
| "kernel_op i (\<lambda>s. discard (idup ip s))"
| "kernel_op i (ilock ip)"
| "kernel_op i (ilock_load ip)"
| "kernel_op i (iunlock ip)"
| "kernel_op i (\<lambda>s. discard (bmap ip bn s))"
| "kernel_op i (itrunc_direct ip ns)"
| "kernel_op i (itrunc_indirect ip bp ns)"
| "kernel_op i (itrunc ip)"
| "kernel_op i (iput ip)"
| "kernel_op i (iunlockput ip)"
| "kernel_op i (\<lambda>s. discard (readi ip off n s))"
| "kernel_op i (\<lambda>s. discard (readi_loop ip off' rem acc s))"
| "kernel_op i (\<lambda>s. discard (writei ip src off n s))"
| "kernel_op i (writei_loop ip src pos off' rem)"
| "kernel_op i (\<lambda>s. discard (dirlookup_loop dp name offs s))"
| "kernel_op i (\<lambda>s. discard (dirlink_find dp offs stop s))"
| "kernel_op i (\<lambda>s. discard (dirlink dp name n s))"
| "kernel_op i (\<lambda>s. discard (namex_loop np path name ip s))"
| "kernel_op i (\<lambda>s. discard (namex path np name s))"
| "kernel_op i (\<lambda>s. discard (create_new dp name ty major minor s))"
| "kernel_op i (create_dots dp ip)"
| "kernel_op i (\<lambda>s. discard (isdirempty_loop dp offs s))"
| "kernel_op i (\<lambda>s. discard (open_file ip omode s))"
| "kernel_op i (\<lambda>s. discard (fdalloc f s))"
| "kernel_op i (\<lambda>s. discard (filealloc s))"
| "kernel_op i (\<lambda>s. discard (filedup f s))"
| "kernel_op i (fileclose f)"
| "kernel_op i (\<lambda>s. discard (filewrite_loop f addr pos rem s))"
| "kernel_op i (\<lambda>s. discard (pipealloc s))"
| "kernel_op i (pipeclose p wr)"
| "kernel_op i (\<lambda>s. discard (kmalloc k s))"
| "kernel_op i (kfree a k)"
| "kernel_op i (\<lambda>s. discard (kpt_alloc s))"
| "kernel_op i (freevm pg)"
| "kernel_op i (\<lambda>s. discard (allocuvm pg old new s))"
| "kernel_op i (\<lambda>s. discard (loaduvm_loop pg a ip off sz offs s))"
| "kernel_op i (\<lambda>s. discard (exec_load ip pg k off sz' s))"
| "kernel_op i (\<lambda>s. discard (exec_stack pg sz' entry path argv me s))"
| "kernel_op i (\<lambda>s. discard (exec_bad pg ipo s))"
| "kernel_op i (ustore va cs)"
| "kernel_op i (cprintf fmt args)"

text \<open>Everything else a process does, in user mode or in the kernel, leaves the scheduling state alone.\<close>

definition sched_same :: "'z kcore_scheme \<Rightarrow> 'z kcore_scheme \<Rightarrow> bool" where
  "sched_same s t \<longleftrightarrow> cproc t = cproc s \<and> ncli t = ncli s \<and> irq t = irq s \<and> (\<forall>p. p_state (ptable t p) = p_state (ptable s p))"

inductive sched_step :: "ctl \<times> ktrap \<Rightarrow> ctl \<times> ktrap \<Rightarrow> bool" where
  begins: "sched_step (Idle, s) (Scan 0, scheduler_begin s)"
| skip: "i < NPROC \<Longrightarrow> scheduler_slot i s = Ok False t \<Longrightarrow> sched_step (Scan i, s) (Scan (i + 1), t)"
| dispatch: "i < NPROC \<Longrightarrow> scheduler_slot i s = Ok True t \<Longrightarrow> sched_step (Scan i, s) (Resumed i, t)"
| round: "NPROC \<le> i \<Longrightarrow> scheduler_end s = Ok () t \<Longrightarrow> sched_step (Scan i, s) (Idle, t)"
| resumes: "resumption m \<Longrightarrow> m s = Ok () t \<Longrightarrow> sched_step (Resumed i, s) (Run i, t)"
| sleeps_again: "resumption m \<Longrightarrow> m s = Swtch t \<Longrightarrow> sched_step (Resumed i, s) (Scan (i + 1), scheduler_back t)"
| works: "kernel_op i m \<Longrightarrow> m s = Ok () t \<Longrightarrow> sched_step (Run i, s) (Run i, t)"
| switches: "kernel_op i m \<Longrightarrow> m s = Swtch t \<Longrightarrow> sched_step (Run i, s) (Scan (i + 1), scheduler_back t)"
| computes: "sched_same s t \<Longrightarrow> sched_step (Run i, s) (Run i, t)"
| interrupt_idle: "irq s \<Longrightarrow> irq_handler r s = Ok () t \<Longrightarrow> sched_step (Idle, s) (Idle, t)"
| interrupt_run: "irq s \<Longrightarrow> irq_handler r s = Ok () t \<Longrightarrow> sched_step (Run i, s) (Run i, t)"

inductive_cases sched_step_from_Idle: "sched_step (Idle, s) d"
inductive_cases sched_step_from_Scan: "sched_step (Scan i, s) d"
inductive_cases sched_step_from_Resumed: "sched_step (Resumed i, s) d"
inductive_cases sched_step_from_Run: "sched_step (Run i, s) d"

text \<open>The kernel starts in \<open>scheduler\<close>, with no process running.\<close>

inductive sched_reachable :: "ctl \<times> ktrap \<Rightarrow> bool" where
  start: "ncli s = 0 \<Longrightarrow> cproc s = None \<Longrightarrow> \<forall>p. p_state (ptable s p) \<noteq> RUNNING \<Longrightarrow> sched_reachable (Idle, sti s)"
| step: "sched_reachable c \<Longrightarrow> sched_step c d \<Longrightarrow> sched_reachable d"

text \<open>So it does after \<open>kmain\<close>, from memory that is zero.\<close>

lemma kmain_starts:
  assumes "ncli s = 0" "cproc s = None" "\<forall>p. p_state (ptable s p) \<noteq> RUNNING" "kmain kend kp isz img code sz s = Ok () t"
  shows "sched_reachable (Idle, sti t)"
proof (rule sched_reachable.start)
  have "running None 0 s" using assms(1-3) by (simp add: running_def)
  from kmain_ord [OF this, of kend kp isz img code sz] assms(4) have "running None 0 t" by simp
  then show "ncli t = 0" "cproc t = None" "\<forall>p. p_state (ptable t p) \<noteq> RUNNING" by (simp_all add: running_def)
qed

section \<open>The invariant\<close>

fun sched_inv :: "ctl \<times> 'z kcore_scheme \<Rightarrow> bool" where
  "sched_inv (Idle, s) \<longleftrightarrow> running None 0 s"
| "sched_inv (Scan i, s) \<longleftrightarrow> running None (Suc 0) s \<and> locked s Lk_ptable"
| "sched_inv (Resumed i, s) \<longleftrightarrow> running (Some i) (Suc 0) s \<and> locked s Lk_ptable"
| "sched_inv (Run i, s) \<longleftrightarrow> running (Some i) 0 s"

lemma discard_ord [ord]: "orderly r n m \<Longrightarrow> orderly r n (discard m)"
  unfolding discard_def by (rule orderly_andthen) (assumption | rule ord)+

lemma yield_ord [ord]: "running r 0 t \<Longrightarrow> orderly r n (yield t)"
proof (cases r)
  case (Some p)
  assume t: "running r 0 t"
  then have "cproc (acquire Lk_ptable t) = Some p" using Some by (simp add: running_def lock_simps)
  then show ?thesis unfolding yield_def Let_def
    by (simp only: option.case) (rule sched_ord, rule running_acquire, rule t, simp_all add: lock_simps Some)
qed (simp add: running_def yield_def lock_simps)

lemma yield_resume_ord [ord]: "running r (Suc 0) t \<Longrightarrow> orderly r 0 (yield_resume t)"
  by (cases r) (auto simp: yield_resume_def sched_resume_def lock_simps running_def)

lemma resumption_ord: "resumption m \<Longrightarrow> running r (Suc 0) s \<Longrightarrow> locked s Lk_ptable \<Longrightarrow> orderly r 0 (m s)"
  by (induction rule: resumption.induct) (assumption | rule ord forkret_ord wait_resume_ord)+

lemma kernel_op_ord: "kernel_op i m \<Longrightarrow> running (Some i) 0 s \<Longrightarrow> orderly (Some i) 0 (m s)"
  by (induction rule: kernel_op.induct) (assumption | rule ord exit_switch_ord)+

lemma exit_switch_zombie:
  assumes "running (Some i) 0 s"
  shows "\<exists>t. exit_switch i s = Swtch t \<and> p_state (ptable t i) = ZOMBIE"
proof -
  define u where "u = exit_reparent i (wakeup1 (map_option Ch_proc (p_parent (ptable (acquire Lk_ptable s) i))) (acquire Lk_ptable s))"
  have "running (Some i) (Suc 0) u" unfolding u_def using assms by - (assumption | rule ord)+
  moreover have "locked u Lk_ptable" by (simp add: u_def lock_simps)
  moreover have "exit_switch i s = andthen (sched (upd_proc i (\<lambda>q. q\<lparr>p_state := ZOMBIE\<rparr>) u)) (\<lambda>_ _. Panic ''zombie exit'')"
    by (simp add: exit_switch_def Let_def u_def)
  ultimately show ?thesis by (auto simp: sched_def running_def upd_proc_def holding_def int_enabled_def)
qed

lemma scheduler_slot_ord:
  assumes "running None (Suc 0) s" "locked s Lk_ptable"
  shows "case scheduler_slot i s of Ok b t \<Rightarrow> running (if b then Some i else None) (Suc 0) t \<and> locked t Lk_ptable
    | Panic msg \<Rightarrow> \<not> lock_panic msg | _ \<Rightarrow> False"
  using assms by (auto simp: scheduler_slot_def switchuvm_def lock_simps running_def upd_proc_def Let_def)

lemma parked_back: "parked r t \<Longrightarrow> sched_inv (Scan i, scheduler_back t)"
  by (simp add: parked_def scheduler_back_def running_def)

lemma sched_step_inv: "sched_step c d \<Longrightarrow> sched_inv c \<Longrightarrow> sched_inv d"
proof (induction rule: sched_step.induct)
  case (begins s)
  then show ?case by (simp add: scheduler_begin_def running_acquire) (simp add: lock_simps)
next
  case (skip i s t)
  then show ?case using scheduler_slot_ord [of s i] by simp
next
  case (dispatch i s t)
  then show ?case using scheduler_slot_ord [of s i] by simp
next
  case (round i s t)
  then show ?case by (auto simp: scheduler_end_def lock_simps running_def sti_def)
next
  case (resumes m s t i)
  then show ?case using resumption_ord [of m "Some i" s] by simp
next
  case (sleeps_again m s t i)
  then show ?case using resumption_ord [of m "Some i" s] parked_back [of "Some i" t] by simp
next
  case (works i m s t)
  then show ?case using kernel_op_ord [of i m s] by simp
next
  case (switches i m s t)
  then show ?case using kernel_op_ord [of i m s] parked_back [of "Some i" t] by simp
next
  case (computes s t i)
  then show ?case by (simp add: sched_same_def running_def)
next
  case (interrupt_idle s r t)
  then show ?case using irq_handler_ord [of None 0 s r] by simp
next
  case (interrupt_run s r t i)
  then show ?case using irq_handler_ord [of "Some i" 0 s r] by simp
qed

lemma sched_reachable_inv: "sched_reachable c \<Longrightarrow> sched_inv c"
proof (induction rule: sched_reachable.induct)
  case (start s)
  then show ?case by (simp add: sti_def running_def)
qed (blast intro: sched_step_inv)

section \<open>One process runs\<close>

text \<open>C7: in every state the kernel can reach, whatever system calls, interrupts, forks, exits and waits lead to it, a process
  is RUNNING exactly if it is the one the global \<open>proc\<close> names. None is while the scheduler has the CPU; otherwise the one
  that executes is.\<close>

theorem one_running_process:
  assumes "sched_reachable (c, s)"
  shows "(p_state (ptable s p) = RUNNING \<longleftrightarrow> cproc s = Some p)
    \<and> cproc s = (case c of Idle \<Rightarrow> None | Scan i \<Rightarrow> None | Resumed i \<Rightarrow> Some i | Run i \<Rightarrow> Some i)"
  using sched_reachable_inv [OF assms] by (cases c) (auto simp: running_def)

text \<open>A run: process 0 has the child 1, is scheduled, waits for the child, and the child is scheduled.\<close>

definition two_procs :: ktrap where
  "two_procs = kproc.extend (boot_proc\<lparr>cproc := None, forkret_first := False, ptable := (ptable boot_core)
       (0 := (ptable boot_core 0)\<lparr>p_state := RUNNABLE, p_pgdir := KERNBASE\<rparr>,
        1 := (ptable boot_core 1)\<lparr>p_state := RUNNABLE, p_pgdir := KERNBASE, p_parent := Some 0\<rparr>)\<rparr>)
     \<lparr>gic_mem = (\<lambda>_. 0), isrs = (\<lambda>_. None), timer0 = (\<lambda>_. 0), uart_regs = (\<lambda>_. 0)\<rparr>"

lemma two_procs_fields [simp]:
  "ncli two_procs = 0" "cproc two_procs = None" "\<not> forkret_first two_procs"
  "ptable two_procs = (ptable boot_core)
       (0 := (ptable boot_core 0)\<lparr>p_state := RUNNABLE, p_pgdir := KERNBASE\<rparr>,
        1 := (ptable boot_core 1)\<lparr>p_state := RUNNABLE, p_pgdir := KERNBASE, p_parent := Some 0\<rparr>)"
  by (simp_all add: two_procs_def kproc.defs boot_extend)

text \<open>A process that has not run yet is dispatched and returns from \<open>forkret\<close>.\<close>

lemma dispatch_first:
  assumes "sched_reachable (Scan i, s)" "i < NPROC" "p_state (ptable s i) = RUNNABLE" "p_pgdir (ptable s i) \<noteq> 0" "\<not> forkret_first s"
  shows "\<exists>t. sched_reachable (Run i, t) \<and> ptable t = (ptable s)(i := (ptable s i)\<lparr>p_state := RUNNING\<rparr>) \<and> \<not> forkret_first t"
proof -
  have s: "ncli s = 1" "\<not> irq s" using sched_reachable_inv [OF assms(1)] by (simp_all add: running_def)
  then obtain t where t: "scheduler_slot i s = Ok True t" "ptable t = (ptable s)(i := (ptable s i)\<lparr>p_state := RUNNING\<rparr>)"
    "\<not> forkret_first t" "ncli t = 1" "\<not> irq t"
    using assms(3-5) by (auto simp: scheduler_slot_def switchuvm_def lock_simps upd_proc_def Let_def)
  have "sched_reachable (Resumed i, t)" by (rule sched_reachable.step [OF assms(1)]) (rule sched_step.dispatch [OF assms(2) t(1)])
  moreover obtain u where u: "forkret t = Ok () u" "ptable u = ptable t" "\<not> forkret_first u" using t by (auto simp: forkret_def lock_simps)
  have "sched_step (Resumed i, t) (Run i, u)" by (rule sched_step.resumes [OF resumption.intros(1) u(1)])
  ultimately show ?thesis using u t(2) sched_reachable.step by (intro exI [of _ u]) simp
qed

lemma first_runs: "\<exists>s. sched_reachable (Run 0, s) \<and> ptable s = (ptable two_procs)(0 := (ptable two_procs 0)\<lparr>p_state := RUNNING\<rparr>) \<and> \<not> forkret_first s"
proof -
  let ?s = "scheduler_begin (sti two_procs)"
  have "sched_reachable (Idle, sti two_procs)" by (rule sched_reachable.start) simp_all
  then have "sched_reachable (Scan 0, ?s)" by (rule sched_reachable.step) (rule sched_step.begins)
  moreover have "ptable ?s = ptable two_procs" "\<not> forkret_first ?s" by (simp_all add: scheduler_begin_def lock_simps sti_def)
  ultimately show ?thesis using dispatch_first [of 0 ?s] by (simp add: NPROC_def KERNBASE_def)
qed

theorem one_running_process_witness:
  "\<exists>s. sched_reachable (Run 1, s) \<and> p_state (ptable s 0) = SLEEPING \<and> p_state (ptable s 1) = RUNNING \<and> cproc s = Some 1"
proof -
  obtain s where s: "sched_reachable (Run 0, s)" "ptable s = (ptable two_procs)(0 := (ptable two_procs 0)\<lparr>p_state := RUNNING\<rparr>)" "\<not> forkret_first s"
    using first_runs by blast
  let ?s = "acquire Lk_ptable s"
  have c: "cproc s = Some 0" "ncli s = 0" using sched_reachable_inv [OF s(1)] by (simp_all add: running_def)
  then have "in_section Lk_ptable 0 ?s" by (simp add: in_section_def lock_simps)
  then obtain t where t: "sleep (Ch_proc 0) (Some Lk_ptable) ?s = Swtch t" "p_state (ptable t 0) = SLEEPING" "ptable t 1 = ptable two_procs 1"
    "kcore.more t = kcore.more s"
    using sleep_switches [of Lk_ptable 0 ?s "Ch_proc 0"] s by (auto simp: lock_simps)
  have "\<not> forkret_first t" using t(4) s(3) by (cases t, cases s) simp
  have tab: "ptable ?s = ptable s" "cproc ?s = Some 0" using c by (simp_all add: lock_simps)
  have "List.find (\<lambda>p. p_parent (ptable ?s p) = Some 0 \<and> p_state (ptable ?s p) = ZOMBIE) [0..<NPROC] = None"
    unfolding tab s(2) by (auto simp: find_None_iff)
  moreover have "p_parent (ptable ?s 1) = Some 0" "\<not> p_killed (ptable ?s 0)" "1 \<in> set [0..<NPROC]" unfolding tab s(2) by (simp_all add: NPROC_def)
  ultimately have "wait_loop ?s = Swtch t" unfolding wait_loop_def tab(2) option.case using t(1) by (auto simp: blocked_def)
  then have "discard (wait s) = Swtch t" by (simp add: wait_def discard_def)
  then have "sched_step (Run 0, s) (Scan 1, scheduler_back t)" using sched_step.switches [of 0 "\<lambda>s. discard (wait s)" s t] kernel_op.intros by simp
  from sched_reachable.step [OF s(1) this] dispatch_first [of 1 "scheduler_back t"] t(2,3) \<open>\<not> forkret_first t\<close>
  obtain u where u: "sched_reachable (Run 1, u)" "p_state (ptable u 0) = SLEEPING" by (auto simp: scheduler_back_def NPROC_def KERNBASE_def)
  then show ?thesis using one_running_process [OF u(1), of 1] by auto
qed

section \<open>The scheduler's checks\<close>

text \<open>C23: none of the panics of \<open>sched\<close> and \<open>popcli\<close> is reachable, in no system call or routine of a process, in no return to
  one that slept, in no interrupt handler and not in the scheduler. A running process can always give up the
  CPU: in \<open>yield\<close>, as a zombie at the end of \<open>exit\<close>, and asleep on any channel under any one lock, \<open>ptable.lock\<close> included, as
  \<open>wait\<close> does.\<close>

theorem sched_never_panics:
  assumes "sched_reachable (c, s)" and "lock_panic msg"
  shows "(case c of
        Idle \<Rightarrow> irq_handler r s \<noteq> Panic msg
      | Scan j \<Rightarrow> scheduler_slot j s \<noteq> Panic msg \<and> scheduler_end s \<noteq> Panic msg
      | Resumed i \<Rightarrow> (resumption m \<longrightarrow> m s \<noteq> Panic msg)
      | Run i \<Rightarrow> (kernel_op i m \<longrightarrow> m s \<noteq> Panic msg) \<and> irq_handler r s \<noteq> Panic msg
          \<and> (\<exists>t. yield s = Swtch t \<and> p_state (ptable t i) = RUNNABLE)
          \<and> (\<exists>t. exit_switch i s = Swtch t \<and> p_state (ptable t i) = ZOMBIE)
          \<and> (\<exists>t. sleep ch (Some lk) (acquire lk s) = Swtch t \<and> p_state (ptable t i) = SLEEPING))"
proof (cases c)
  case Idle
  then show ?thesis using irq_handler_ord [of None 0 s r] sched_reachable_inv [OF assms(1)] assms(2) by auto
next
  case (Scan j)
  then have s: "running None (Suc 0) s" "locked s Lk_ptable" using sched_reachable_inv [OF assms(1)] by simp_all
  have "orderly None 0 (scheduler_end s)" unfolding scheduler_end_def using s(1) by - (assumption | rule ord)+
  then show ?thesis using Scan scheduler_slot_ord [OF s, of j] assms(2) by (auto split: outcome.splits)
next
  case (Resumed i)
  then show ?thesis using resumption_ord [of m "Some i" s] sched_reachable_inv [OF assms(1)] assms(2) by auto
next
  case (Run i)
  then have s: "running (Some i) 0 s" using sched_reachable_inv [OF assms(1)] by simp
  then have "in_section lk i (acquire lk s)" by (simp add: in_section_def lock_simps running_def)
  from sleep_switches [OF this, of ch] have "\<exists>t. sleep ch (Some lk) (acquire lk s) = Swtch t \<and> p_state (ptable t i) = SLEEPING" by auto
  moreover have "\<exists>t. yield s = Swtch t \<and> p_state (ptable t i) = RUNNABLE"
    using s by (auto simp: yield_def sched_def lock_simps running_def upd_proc_def holding_def int_enabled_def)
  moreover have "\<exists>t. exit_switch i s = Swtch t \<and> p_state (ptable t i) = ZOMBIE" using exit_switch_zombie [OF s] .
  ultimately show ?thesis using Run kernel_op_ord [of i m s] irq_handler_ord [of "Some i" 0 s r] s assms(2) by auto
qed

theorem sched_never_panics_witness:
  "\<exists>s. sched_reachable (Run 0, s) \<and> discard (wait s) \<noteq> Panic ''sched locks'' \<and> (\<exists>t. yield s = Swtch t)
    \<and> (\<exists>t. exit_switch 0 s = Swtch t \<and> p_state (ptable t 0) = ZOMBIE)
    \<and> (\<exists>t. sleep (Ch_proc 0) (Some Lk_ptable) (acquire Lk_ptable s) = Swtch t)"
proof -
  obtain s where s: "sched_reachable (Run 0, s)" using first_runs by blast
  have "kernel_op 0 (\<lambda>s. discard (wait s))" by (rule kernel_op.intros)
  with sched_never_panics [OF s, of "''sched locks''" zero_trapframe "\<lambda>s. discard (wait s)" "Ch_proc 0" Lk_ptable]
  have "discard (wait s) \<noteq> Panic ''sched locks'' \<and> (\<exists>t. yield s = Swtch t)
    \<and> (\<exists>t. exit_switch 0 s = Swtch t \<and> p_state (ptable t 0) = ZOMBIE)
    \<and> (\<exists>t. sleep (Ch_proc 0) (Some Lk_ptable) (acquire Lk_ptable s) = Swtch t)" by auto
  with s show ?thesis by blast
qed

end
