(* ===== verification/Buddy_Marks.thy ===== *)
theory Buddy_Marks
  imports Buddy
begin

text \<open>
  The marks of the buddy allocator: the layout of the per-order arrays of marks, the
  16-bit links, the chain of non-empty marks of every order, and the set of free blocks the
  bitmaps stand for. \<open>unmark_blk\<close> and \<open>mark_blk\<close> remove and add one block and keep every
  chain linked.
\<close>

section \<open>Links and block ids\<close>

lemma PRE_LNKS: "unat p < 65536 \<Longrightarrow> PRE_LNK (LNKS p n) = p"
proof -
  assume "unat p < 65536"
  then have "bit p i \<Longrightarrow> i < 16" for i
    using bit_nat_less [of "unat p" 16 i] by (simp add: bit_unsigned_iff)
  then show ?thesis
    unfolding PRE_LNK_def LNKS_def and_mask_take_bit
    by (intro bit_word_eqI) (auto simp: bit_simps)
qed

lemma NEXT_LNKS: "unat n < 65536 \<Longrightarrow> NEXT_LNK (LNKS p n) = n"
proof -
  assume "unat n < 65536"
  then have "bit n i \<Longrightarrow> i < 16" for i
    using bit_nat_less [of "unat n" 16 i] by (simp add: bit_unsigned_iff)
  then show ?thesis
    unfolding NEXT_LNK_def LNKS_def and_mask_take_bit
    by (intro bit_word_eqI) (auto simp: bit_simps)
qed

lemma PRE_LNK_less: "unat (PRE_LNK l) < 65536"
proof -
  have "unat (PRE_LNK l) = unat l div 2 ^ 16"
    unfolding PRE_LNK_def drop_bit_eq_div by (simp add: unat_div)
  then show ?thesis using unsigned_less [of l, where 'a = nat] by simp
qed

lemma NEXT_LNK_less: "unat (NEXT_LNK l) < 65536"
  unfolding NEXT_LNK_def and_mask_take_bit unat_take_bit by (simp add: take_bit_eq_mod)

lemma xor_buddy: "(of_nat i :: uint) XOR 1 = of_nat (buddy i)"
  by (cases i rule: buddy_cases) (simp_all add: xor_one_eq)

lemma and_not_one: "(of_nat i :: uint) AND NOT 1 = of_nat (2 * (i div 2))"
proof -
  have "2 * (i div 2) = push_bit 1 (drop_bit 1 i)"
    by (simp add: drop_bit_eq_div push_bit_eq_mult)
  then show ?thesis
    by (intro bit_word_eqI) (auto simp: bit_simps bit_of_nat_iff bit_1_iff)
qed

section \<open>Layout of the marks\<close>

definition mkidx :: "nat \<Rightarrow> nat \<Rightarrow> nat \<Rightarrow> nat" where
  "mkidx n0 k j = n0 * (2 ^ (12 - k) - 1) + j"

definition valid_mark :: "nat \<Rightarrow> nat \<Rightarrow> nat \<Rightarrow> bool" where
  "valid_mark n0 k j \<longleftrightarrow> 6 \<le> k \<and> k \<le> 12 \<and> j < n0 * 2 ^ (12 - k)"

definition geom :: "nat \<Rightarrow> nat \<Rightarrow> 'z kmem_scheme \<Rightarrow> bool" where
  "geom n0 N s \<longleftrightarrow>
     n0 * 64 \<le> 65535 \<and> N \<le> 32 * n0
     \<and> (\<forall>k. 6 \<le> k \<longrightarrow> k \<le> 12 \<longrightarrow> offset (ord_of k s) = of_nat (n0 * (2 ^ (12 - k) - 1)))
     \<and> 0 < km_start_heap s \<and> 4096 dvd unat (km_start_heap s)
     \<and> unat (km_start_heap s) + N * 4096 < 2 ^ 64"

definition mk :: "nat \<Rightarrow> nat \<Rightarrow> nat \<Rightarrow> 'z kmem_scheme \<Rightarrow> mark" where
  "mk n0 k j s = marks s (mkidx n0 k j)"

lemma pow_12_le: "(2::nat) ^ (12 - k) \<le> 64" if "6 \<le> k"
  using power_increasing [of "12 - k" 6 "2::nat"] that by simp

lemma valid_mark_less: "valid_mark n0 k j \<Longrightarrow> n0 * 64 \<le> 65535 \<Longrightarrow> j < 65535"
  unfolding valid_mark_def using mult_le_mono2 [OF pow_12_le, of k n0] by linarith

lemma mkidx_less:
  "k' < k \<Longrightarrow> k \<le> 12 \<Longrightarrow> j < n0 * 2 ^ (12 - k) \<Longrightarrow> mkidx n0 k j < mkidx n0 k' j'"
proof -
  assume *: "k' < k" "k \<le> 12" "j < n0 * 2 ^ (12 - k)"
  then have "2 * (2::nat) ^ (12 - k) \<le> 2 ^ (12 - k')"
    unfolding power_Suc [symmetric] by (intro power_increasing) auto
  then have "n0 * (2 * 2 ^ (12 - k) - 1) \<le> n0 * (2 ^ (12 - k') - 1)"
    by (intro mult_le_mono2 diff_le_mono)
  moreover have "n0 * (2 * 2 ^ (12 - k) - 1) = n0 * (2 ^ (12 - k) - 1) + n0 * 2 ^ (12 - k)"
  proof -
    have "2 * (2::nat) ^ (12 - k) - 1 = (2 ^ (12 - k) - 1) + 2 ^ (12 - k)" by simp
    then show ?thesis by (simp only: distrib_left)
  qed
  ultimately show ?thesis using *(3) unfolding mkidx_def by linarith
qed

lemma mkidx_inj:
  assumes "valid_mark n0 k j" "valid_mark n0 k' j'"
  shows "mkidx n0 k j = mkidx n0 k' j' \<longleftrightarrow> k = k' \<and> j = j'"
proof (cases k k' rule: linorder_cases)
  case less
  then show ?thesis using mkidx_less [of k k' j' n0 j] assms by (auto simp: valid_mark_def)
next
  case greater
  then show ?thesis using mkidx_less [of k' k j n0 j'] assms by (auto simp: valid_mark_def)
qed (simp add: mkidx_def)

lemma mkidx_bound: "6 \<le> k \<Longrightarrow> n0 * 64 \<le> 65535 \<Longrightarrow> j < 65536 \<Longrightarrow> mkidx n0 k j < 2 ^ 32"
proof -
  assume *: "6 \<le> k" "n0 * 64 \<le> 65535" "j < 65536"
  have "n0 * (2 ^ (12 - k) - 1) \<le> n0 * 64"
    using pow_12_le [OF *(1)] by (intro mult_le_mono2) linarith
  with * have "mkidx n0 k j < 65536 + 65536" unfolding mkidx_def by linarith
  then show ?thesis by simp
qed

lemma get_mark_of_nat:
  assumes "geom n0 N s" "6 \<le> k" "k \<le> 12" "j < 65536"
  shows "get_mark k (of_nat j) s = mkidx n0 k j"
proof -
  have "offset (ord_of k s) + of_nat j = (of_nat (mkidx n0 k j) :: uint)"
    using assms unfolding geom_def mkidx_def by simp
  with mkidx_bound [of k n0 j] assms show ?thesis
    unfolding get_mark_def geom_def by (simp only: unat_of_nat_uint)
qed

lemma mk_upd_mark:
  assumes "valid_mark n0 k j" "valid_mark n0 k' j'"
  shows "mk n0 k' j' (upd_mark (mkidx n0 k j) f s) =
    (if k' = k \<and> j' = j then f (mk n0 k j s) else mk n0 k' j' s)"
  using mkidx_inj [OF assms] unfolding mk_def upd_mark_def by auto

section \<open>Frame\<close>

definition same_rest :: "'z kmem_scheme \<Rightarrow> 'z kmem_scheme \<Rightarrow> bool" where
  "same_rest s t \<longleftrightarrow>
     t\<lparr>marks := marks s, orders := orders s\<rparr> = s \<and> (\<forall>i. offset (orders t i) = offset (orders s i))"

lemma same_rest_refl: "same_rest s s"
  unfolding same_rest_def by simp

lemma same_rest_trans: "same_rest s t \<Longrightarrow> same_rest t u \<Longrightarrow> same_rest s u"
  unfolding same_rest_def by (cases s, cases t, cases u) simp

lemma same_rest_upd_mark: "same_rest s t \<Longrightarrow> same_rest s (upd_mark m f t)"
  unfolding same_rest_def upd_mark_def by (cases s, cases t) simp

lemma same_rest_set_head: "same_rest s t \<Longrightarrow> same_rest s (set_head k h t)"
  unfolding same_rest_def set_head_def ord_of_def by (cases s, cases t) simp

lemma same_rest_fields:
  assumes "same_rest s t"
  shows "km_start_heap t = km_start_heap s" "offset (ord_of k t) = offset (ord_of k s)"
  using assms unfolding same_rest_def ord_of_def by (cases s, cases t, simp)+

lemma geom_same_rest: "same_rest s t \<Longrightarrow> geom n0 N s \<Longrightarrow> geom n0 N t"
  unfolding geom_def by (simp add: same_rest_fields)

section \<open>Free blocks and chains\<close>

definition free_set :: "nat \<Rightarrow> 'z kmem_scheme \<Rightarrow> (nat \<times> nat) set" where
  "free_set n0 s = {(k, i). valid_mark n0 k (i div 32) \<and> bit (bitmap (mk n0 k (i div 32) s)) (i mod 32)}"

definition chain :: "nat \<Rightarrow> nat \<Rightarrow> 'z kmem_scheme \<Rightarrow> nat list \<Rightarrow> bool" where
  "chain n0 k s js \<longleftrightarrow> distinct js \<and> set js = {j. valid_mark n0 k j \<and> bitmap (mk n0 k j s) \<noteq> 0}
     \<and> (\<exists>q. seg of_nat (\<lambda>j. NEXT_LNK (lnks (mk n0 k j s))) (\<lambda>j. PRE_LNK (lnks (mk n0 k j s)))
          NIL (head (ord_of k s)) js q NIL)"

definition chains :: "nat \<Rightarrow> 'z kmem_scheme \<Rightarrow> bool" where
  "chains n0 s \<longleftrightarrow> (\<forall>k. 6 \<le> k \<longrightarrow> k \<le> 12 \<longrightarrow> (\<exists>js. chain n0 k s js))"

lemma of_nat_not_NIL: "j < 65535 \<Longrightarrow> (of_nat j :: uint) \<noteq> NIL"
  using of_nat_uint_inj [of j 65535] unfolding NIL_def by simp

lemma bit_word_nonzero: "bit (w :: uint) n \<Longrightarrow> w \<noteq> 0"
  by auto

lemma blk_bit_of_nat: "blk_bit (of_nat i) = push_bit (i mod 32) 1"
  unfolding blk_bit_def and31 ..

lemma available_of_nat: "available bm (of_nat i) \<longleftrightarrow> bit bm (i mod 32)"
  unfolding available_def blk_bit_of_nat by (simp add: bit_iff_and_push_bit_not_eq_0)

lemma bit_clear: "bit (bm AND NOT (blk_bit (of_nat i))) n \<longleftrightarrow> bit (bm :: uint) n \<and> n \<noteq> i mod 32"
  unfolding blk_bit_of_nat by (auto simp: bit_simps dest: bit_imp_le_length)

lemma bit_set: "bit (bm OR blk_bit (of_nat i)) n \<longleftrightarrow> bit (bm :: uint) n \<or> n = i mod 32"
  unfolding blk_bit_of_nat by (auto simp: bit_simps)

lemma chain_cong:
  assumes "chain n0 k s js" and "\<And>j. valid_mark n0 k j \<Longrightarrow> mk n0 k j t = mk n0 k j s"
    and "head (ord_of k t) = head (ord_of k s)"
  shows "chain n0 k t js"
proof -
  have "seg of_nat (\<lambda>j. NEXT_LNK (lnks (mk n0 k j t))) (\<lambda>j. PRE_LNK (lnks (mk n0 k j t))) p x js q y =
        seg of_nat (\<lambda>j. NEXT_LNK (lnks (mk n0 k j s))) (\<lambda>j. PRE_LNK (lnks (mk n0 k j s))) p x js q y" for p x q y
    using assms(1,2) by (intro seg_cong) (auto simp: chain_def)
  with assms show ?thesis unfolding chain_def by auto
qed

lemma mk_set_lnks:
  assumes "geom n0 N s" "valid_mark n0 k j" "valid_mark n0 k' j'"
  shows "mk n0 k' j' (set_lnks k (of_nat j) p n s) =
    (if k' = k \<and> j' = j then (mk n0 k j s)\<lparr>lnks := LNKS p n\<rparr> else mk n0 k' j' s)"
proof -
  have "j < 65535" using valid_mark_less assms(1,2) by (auto simp: geom_def)
  with assms show ?thesis
    unfolding set_lnks_def by (simp add: get_mark_of_nat [OF assms(1)] mk_upd_mark valid_mark_def)
qed

lemma lnks_of_of_nat:
  assumes "geom n0 N s" "valid_mark n0 k j"
  shows "lnks_of k (of_nat j) s = lnks (mk n0 k j s)"
proof -
  have "j < 65535" using valid_mark_less assms(1,2) by (auto simp: geom_def)
  with assms show ?thesis
    unfolding lnks_of_def mk_def by (simp add: get_mark_of_nat [OF assms(1)] valid_mark_def)
qed

lemma head_simps [simp]:
  "head (ord_of k (upd_mark m f s)) = head (ord_of k s)"
  "head (ord_of k (set_lnks k' i p n s)) = head (ord_of k s)"
  by (simp_all add: ord_of_def upd_mark_def set_lnks_def)

lemma head_set_head:
  "6 \<le> k \<Longrightarrow> 6 \<le> k' \<Longrightarrow> head (ord_of k' (set_head k h s)) = (if k' = k then h else head (ord_of k' s))"
  by (auto simp: ord_of_def set_head_def MIN_ORD_def)

lemma mk_set_head [simp]: "mk n0 k j (set_head k' h s) = mk n0 k j s"
  by (simp add: mk_def set_head_def)

lemma same_rest_set_lnks: "same_rest s t \<Longrightarrow> same_rest s (set_lnks k i p n t)"
  unfolding set_lnks_def by (rule same_rest_upd_mark)

lemmas same_rest_intros = same_rest_refl same_rest_upd_mark same_rest_set_head same_rest_set_lnks

text \<open>Unlinking mark \<open>j\<close>, the way \<open>unmark_blk\<close> does it.\<close>

definition unlink_mark :: "nat \<Rightarrow> uint \<Rightarrow> nat \<Rightarrow> 'z kmem_scheme \<Rightarrow> 'z kmem_scheme" where
  "unlink_mark k mi m s1 =
     (let prev = PRE_LNK (lnks (marks s1 m));
          nxt = NEXT_LNK (lnks (marks s1 m));
          s2 = (if prev \<noteq> NIL then set_lnks k prev (PRE_LNK (lnks_of k prev s1)) nxt s1
                else if head (ord_of k s1) = mi then set_head k nxt s1 else s1);
          s3 = (if nxt \<noteq> NIL then set_lnks k nxt prev (NEXT_LNK (lnks_of k nxt s2)) s2 else s2)
      in upd_mark m (\<lambda>m. m\<lparr>lnks := LNKS NIL NIL\<rparr>) s3)"

lemma unlink_mark_spec:
  assumes g: "geom n0 N s" and v: "valid_mark n0 k j"
    and d: "distinct (as @ j # bs)" and va: "\<forall>b \<in> set (as @ bs). valid_mark n0 k b"
    and sg: "seg of_nat (\<lambda>j. NEXT_LNK (lnks (mk n0 k j s))) (\<lambda>j. PRE_LNK (lnks (mk n0 k j s)))
          NIL (head (ord_of k s)) (as @ j # bs) q NIL"
    and t: "t = unlink_mark k (of_nat j) (mkidx n0 k j) s"
  shows "same_rest s t"
    "valid_mark n0 k' j' \<Longrightarrow> bitmap (mk n0 k' j' t) = bitmap (mk n0 k' j' s)"
    "valid_mark n0 k' j' \<Longrightarrow> k' \<noteq> k \<Longrightarrow> mk n0 k' j' t = mk n0 k' j' s"
    "6 \<le> k' \<Longrightarrow> head (ord_of k' t) = (if k' = k \<and> as = [] then NEXT_LNK (lnks (mk n0 k j s)) else head (ord_of k' s))"
    "b \<in> set (as @ bs) \<Longrightarrow> NEXT_LNK (lnks (mk n0 k b t)) = 
      (if as \<noteq> [] \<and> b = last as then NEXT_LNK (lnks (mk n0 k j s)) else NEXT_LNK (lnks (mk n0 k b s)))"
    "b \<in> set (as @ bs) \<Longrightarrow> PRE_LNK (lnks (mk n0 k b t)) = 
      (if bs \<noteq> [] \<and> b = hd bs then PRE_LNK (lnks (mk n0 k j s)) else PRE_LNK (lnks (mk n0 k b s)))"
proof -
  define P where "P = PRE_LNK (lnks (mk n0 k j s))"
  define Nx where "Nx = NEXT_LNK (lnks (mk n0 k j s))"
  define s2 where "s2 = (if as \<noteq> [] then set_lnks k (of_nat (last as)) (PRE_LNK (lnks (mk n0 k (last as) s))) Nx s
    else set_head k Nx s)"
  define s3 where "s3 = (if bs \<noteq> [] then set_lnks k (of_nat (hd bs)) P (NEXT_LNK (lnks (mk n0 k (hd bs) s2))) s2 else s2)"
  from seg_middle [OF sg] have P: "P = (if as = [] then NIL else of_nat (last as))"
    and Nx: "Nx = (if bs = [] then NIL else of_nat (hd bs))" by (simp_all add: P_def Nx_def)
  have vl: "as \<noteq> [] \<Longrightarrow> valid_mark n0 k (last as)" and vh: "bs \<noteq> [] \<Longrightarrow> valid_mark n0 k (hd bs)"
    using va by auto
  have nn: "valid_mark n0 k b \<Longrightarrow> (of_nat b :: uint) \<noteq> NIL" for b
    using of_nat_not_NIL valid_mark_less g by (auto simp: geom_def)
  have r2: "same_rest s s2" unfolding s2_def by (auto intro: same_rest_intros)
  have r3: "same_rest s s3" unfolding s3_def using r2 by (auto intro: same_rest_intros)
  note g2 = geom_same_rest [OF r2 g] and g3 = geom_same_rest [OF r3 g]
  have hd: "as = [] \<Longrightarrow> head (ord_of k s) = of_nat j" using sg by simp
  have ts: "t = upd_mark (mkidx n0 k j) (\<lambda>m. m\<lparr>lnks := LNKS NIL NIL\<rparr>) s3"
    unfolding t unlink_mark_def mk_def [symmetric] P_def [symmetric] Nx_def [symmetric] Let_def s3_def s2_def
    using g2 unfolding P Nx s2_def
    by (auto simp: vl vh nn hd lnks_of_of_nat [OF g] lnks_of_of_nat)
  show "same_rest s t" unfolding ts by (intro same_rest_intros r3)
  note m = mk_upd_mark mk_set_lnks [OF g] mk_set_lnks [OF g2] 
  have mk2: "valid_mark n0 k' j' \<Longrightarrow> mk n0 k' j' s2 = (if as \<noteq> [] \<and> k' = k \<and> j' = last as
    then (mk n0 k (last as) s)\<lparr>lnks := LNKS (PRE_LNK (lnks (mk n0 k (last as) s))) Nx\<rparr> else mk n0 k' j' s)" for k' j'
    unfolding s2_def by (simp add: m vl)
  have mk3: "valid_mark n0 k' j' \<Longrightarrow> mk n0 k' j' s3 = (if bs \<noteq> [] \<and> k' = k \<and> j' = hd bs
    then (mk n0 k (hd bs) s2)\<lparr>lnks := LNKS P (NEXT_LNK (lnks (mk n0 k (hd bs) s2)))\<rparr> else mk n0 k' j' s2)" for k' j'
    unfolding s3_def by (simp add: m vh)
  have mkt: "valid_mark n0 k' j' \<Longrightarrow> mk n0 k' j' t = (if k' = k \<and> j' = j
    then (mk n0 k j s3)\<lparr>lnks := LNKS NIL NIL\<rparr> else mk n0 k' j' s3)" for k' j'
    unfolding ts by (simp add: m v)
  have lh: "as \<noteq> [] \<Longrightarrow> bs \<noteq> [] \<Longrightarrow> last as \<noteq> hd bs"
    using d by (cases bs) auto
  show "bitmap (mk n0 k' j' t) = bitmap (mk n0 k' j' s)" if "valid_mark n0 k' j'"
    using that v vl vh by (auto simp: mkt mk3 mk2)
  show "mk n0 k' j' t = mk n0 k' j' s" if "valid_mark n0 k' j'" "k' \<noteq> k"
    using that by (auto simp: mkt mk3 mk2)
  have "6 \<le> k" using v by (simp add: valid_mark_def)
  then show "head (ord_of k' t) = (if k' = k \<and> as = [] then NEXT_LNK (lnks (mk n0 k j s)) else head (ord_of k' s))"
    if "6 \<le> k'" unfolding ts s3_def s2_def Nx_def using that by (simp add: head_set_head)
  assume b: "b \<in> set (as @ bs)"
  then have "b \<noteq> j" "valid_mark n0 k b" using d va by auto
  note b = b this
  show "NEXT_LNK (lnks (mk n0 k b t)) = 
      (if as \<noteq> [] \<and> b = last as then NEXT_LNK (lnks (mk n0 k j s)) else NEXT_LNK (lnks (mk n0 k b s)))"
    using b lh vh vl by (cases "as = []"; cases "bs = []") (auto simp: mkt mk3 mk2 NEXT_LNKS NEXT_LNK_less Nx_def)
  show "PRE_LNK (lnks (mk n0 k b t)) = 
      (if bs \<noteq> [] \<and> b = hd bs then PRE_LNK (lnks (mk n0 k j s)) else PRE_LNK (lnks (mk n0 k b s)))"
    using b lh vh vl by (cases "as = []"; cases "bs = []") (auto simp: mkt mk3 mk2 PRE_LNKS PRE_LNK_less P_def)
qed

lemma div_less_31: "i div 32 < 65535 \<Longrightarrow> i < 2 ^ 31" for i :: nat
  by simp

lemma mark_of_blk:
  assumes "geom n0 N s" "valid_mark n0 k (i div 32)"
  shows "signed_drop_bit 5 (of_nat i :: uint) = of_nat (i div 32)"
    "get_mark k (of_nat (i div 32)) s = mkidx n0 k (i div 32)"
proof -
  have "i div 32 < 65535" using assms valid_mark_less by (auto simp: geom_def)
  then show "signed_drop_bit 5 (of_nat i :: uint) = of_nat (i div 32)"
    by (intro signed_shift5 div_less_31)
  show "get_mark k (of_nat (i div 32)) s = mkidx n0 k (i div 32)"
    using \<open>i div 32 < 65535\<close> assms by (intro get_mark_of_nat) (auto simp: valid_mark_def)
qed

lemma unmark_blk_eq:
  assumes "geom n0 N s" "valid_mark n0 k (i div 32)" "bit (bitmap (mk n0 k (i div 32) s)) (i mod 32)"
  shows "unmark_blk k (of_nat i) s =
    (let m = mkidx n0 k (i div 32);
         s1 = upd_mark m (\<lambda>m. m\<lparr>bitmap := bitmap m AND NOT (blk_bit (of_nat i))\<rparr>) s
     in Ok () (if bitmap (mk n0 k (i div 32) s1) = 0 then unlink_mark k (of_nat (i div 32)) m s1 else s1))"
  using assms unfolding unmark_blk_def mark_of_blk [OF assms(1,2)] Let_def available_of_nat unlink_mark_def
  by (simp add: mark_of_blk mk_def)

text \<open>Two states whose bitmaps agree but for one block, and its effect on the set of free blocks.\<close>

lemma free_set_remove:
  assumes "valid_mark n0 k (i div 32)"
    and "\<And>k' j. valid_mark n0 k' j \<Longrightarrow> bitmap (mk n0 k' j t) =
      (if k' = k \<and> j = i div 32 then bitmap (mk n0 k j s) AND NOT (blk_bit (of_nat i)) else bitmap (mk n0 k' j s))"
  shows "free_set n0 t = free_set n0 s - {(k, i)}"
proof -
  have "i' = i" if "i' div 32 = i div 32" "i' mod 32 = i mod 32" for i'
    using that by (metis div_mult_mod_eq)
  with assms show ?thesis unfolding free_set_def by (auto simp: bit_clear split: if_splits)
qed

lemma free_set_add:
  assumes "valid_mark n0 k (i div 32)"
    and "\<And>k' j. valid_mark n0 k' j \<Longrightarrow> bitmap (mk n0 k' j t) =
      (if k' = k \<and> j = i div 32 then bitmap (mk n0 k j s) OR blk_bit (of_nat i) else bitmap (mk n0 k' j s))"
  shows "free_set n0 t = insert (k, i) (free_set n0 s)"
proof -
  have "i' = i" if "i' div 32 = i div 32" "i' mod 32 = i mod 32" for i'
    using that by (metis div_mult_mod_eq)
  with assms show ?thesis unfolding free_set_def by (auto simp: bit_set split: if_splits)
qed

lemma chain_bitmap_upd:
  assumes "chain n0 k s js" "valid_mark n0 k j" "bitmap (mk n0 k j s) \<noteq> 0" "f (bitmap (mk n0 k j s)) \<noteq> 0"
  shows "chain n0 k (upd_mark (mkidx n0 k j) (\<lambda>m. m\<lparr>bitmap := f (bitmap m)\<rparr>) s) js"
proof -
  let ?t = "upd_mark (mkidx n0 k j) (\<lambda>m. m\<lparr>bitmap := f (bitmap m)\<rparr>) s"
  have "seg of_nat (\<lambda>j. NEXT_LNK (lnks (mk n0 k j ?t))) (\<lambda>j. PRE_LNK (lnks (mk n0 k j ?t))) p x js q y =
        seg of_nat (\<lambda>j. NEXT_LNK (lnks (mk n0 k j s))) (\<lambda>j. PRE_LNK (lnks (mk n0 k j s))) p x js q y" for p x q y
    using assms(1,2) by (intro seg_cong) (auto simp: chain_def mk_upd_mark)
  moreover have "{i. valid_mark n0 k i \<and> bitmap (mk n0 k i ?t) \<noteq> 0} = {i. valid_mark n0 k i \<and> bitmap (mk n0 k i s) \<noteq> 0}"
    using assms(2-4) by (auto simp: mk_upd_mark split: if_splits)
  ultimately show ?thesis using assms(1) unfolding chain_def by simp
qed

lemma chains_other:
  assumes "chains n0 s" and "chain n0 k t js"
    and "\<And>k' j. valid_mark n0 k' j \<Longrightarrow> k' \<noteq> k \<Longrightarrow> mk n0 k' j t = mk n0 k' j s"
    and "\<And>k'. 6 \<le> k' \<Longrightarrow> k' \<noteq> k \<Longrightarrow> head (ord_of k' t) = head (ord_of k' s)"
  shows "chains n0 t"
  unfolding chains_def
proof (intro allI impI)
  fix k' assume k': "6 \<le> (k' :: nat)" "k' \<le> 12"
  show "\<exists>js. chain n0 k' t js"
  proof (cases "k' = k")
    case False
    from assms(1) k' obtain js' where "chain n0 k' s js'" unfolding chains_def by blast
    with k' False assms(3,4) show ?thesis by (blast intro: chain_cong)
  qed (use assms(2) in blast)
qed

lemma unmark_blk_spec:
  assumes g: "geom n0 N s" and c: "chains n0 s" and i: "(k, i) \<in> free_set n0 s"
  obtains t where "unmark_blk k (of_nat i) s = Ok () t" "same_rest s t" "chains n0 t"
    "free_set n0 t = free_set n0 s - {(k, i)}"
proof -
  let ?j = "i div 32"
  let ?m = "mkidx n0 k ?j"
  let ?s1 = "upd_mark ?m (\<lambda>m. m\<lparr>bitmap := bitmap m AND NOT (blk_bit (of_nat i))\<rparr>) s"
  from i have v: "valid_mark n0 k ?j" and b: "bit (bitmap (mk n0 k ?j s)) (i mod 32)"
    by (auto simp: free_set_def)
  then have k: "6 \<le> k" "k \<le> 12" by (auto simp: valid_mark_def)
  have nz: "bitmap (mk n0 k ?j s) \<noteq> 0" using b by auto
  from c k obtain js where js: "chain n0 k s js" by (auto simp: chains_def)
  have r1: "same_rest s ?s1" by (intro same_rest_intros)
  note g1 = geom_same_rest [OF r1 g]
  note eq = unmark_blk_eq [OF g v b]
  show ?thesis
  proof (cases "bitmap (mk n0 k ?j ?s1) = 0")
    case False
    then have "chain n0 k ?s1 js"
      using v nz by (intro chain_bitmap_upd [OF js]) (auto simp: mk_upd_mark)
    then have "chains n0 ?s1"
      using v by (intro chains_other [OF c]) (auto simp: mk_upd_mark)
    moreover have "free_set n0 ?s1 = free_set n0 s - {(k, i)}"
      using v by (intro free_set_remove) (auto simp: mk_upd_mark)
    ultimately show ?thesis using that [of ?s1] eq False r1 by (simp add: Let_def)
  next
    case True
    define t where "t = unlink_mark k (of_nat ?j) ?m ?s1"
    from js v nz have "?j \<in> set js" by (auto simp: chain_def)
    then obtain as bs where ab: "js = as @ ?j # bs" by (auto dest: split_list)
    with js have d: "distinct (as @ ?j # bs)" and st: "set js = {j. valid_mark n0 k j \<and> bitmap (mk n0 k j s) \<noteq> 0}"
      by (auto simp: chain_def)
    then have va: "\<forall>b \<in> set (as @ bs). valid_mark n0 k b" using ab by auto
    let ?nx = "\<lambda>s j. NEXT_LNK (lnks (mk n0 k j s))" and ?pv = "\<lambda>s j. PRE_LNK (lnks (mk n0 k j s))"
    from js ab obtain q where "seg of_nat (?nx s) (?pv s) NIL (head (ord_of k s)) (as @ ?j # bs) q NIL"
      by (auto simp: chain_def)
    also have "seg of_nat (?nx s) (?pv s) NIL (head (ord_of k s)) (as @ ?j # bs) q NIL =
        seg of_nat (?nx ?s1) (?pv ?s1) NIL (head (ord_of k s)) (as @ ?j # bs) q NIL"
      using va v by (intro seg_cong) (auto simp: mk_upd_mark)
    finally have sg: "seg of_nat (?nx ?s1) (?pv ?s1) NIL (head (ord_of k ?s1)) (as @ ?j # bs) q NIL" by simp
    note u = unlink_mark_spec [OF g1 v d va sg t_def]
    have "seg of_nat (?nx t) (?pv t) NIL (head (ord_of k t)) (as @ bs) (if bs = [] then ?pv ?s1 ?j else q) NIL"
      using seg_unlink [OF sg d u(5,6)] u(4) [of k] k by (auto split: if_splits)
    moreover have bm: "valid_mark n0 k' j \<Longrightarrow> bitmap (mk n0 k' j t) =
      (if k' = k \<and> j = ?j then bitmap (mk n0 k j s) AND NOT (blk_bit (of_nat i)) else bitmap (mk n0 k' j s))" for k' j
      using v by (auto simp: u(2) mk_upd_mark)
    moreover have "set (as @ bs) = {j. valid_mark n0 k j \<and> bitmap (mk n0 k j t) \<noteq> 0}"
    proof -
      have "bitmap (mk n0 k ?j s) AND NOT (blk_bit (of_nat i)) = 0" using True v by (simp add: mk_upd_mark)
      then have "{j. valid_mark n0 k j \<and> bitmap (mk n0 k j t) \<noteq> 0} = set js - {?j}"
        unfolding st by (auto simp: bm split: if_splits)
      then show ?thesis using ab d by auto
    qed
    ultimately have "chain n0 k t (as @ bs)" using d unfolding chain_def by auto
    then have "chains n0 t"
      using u(3,4) v by (intro chains_other [OF c]) (auto simp: mk_upd_mark)
    moreover have "free_set n0 t = free_set n0 s - {(k, i)}" using v bm by (rule free_set_remove)
    ultimately show ?thesis
      using that [of t] eq True same_rest_trans [OF r1 u(1)] by (simp add: Let_def t_def)
  qed
qed

text \<open>Linking mark \<open>j\<close> in front, the way \<open>mark_blk\<close> does it.\<close>

definition link_mark :: "nat \<Rightarrow> uint \<Rightarrow> nat \<Rightarrow> 'z kmem_scheme \<Rightarrow> 'z kmem_scheme" where
  "link_mark k mi m s1 =
     (let h = head (ord_of k s1);
          s2 = upd_mark m (\<lambda>m. m\<lparr>lnks := LNKS NIL h\<rparr>) s1;
          s3 = (if h \<noteq> NIL then set_lnks k h mi (NEXT_LNK (lnks_of k h s2)) s2 else s2)
      in set_head k mi s3)"

lemma link_mark_spec:
  assumes g: "geom n0 N s" and v: "valid_mark n0 k j" and nj: "j \<notin> set js"
    and va: "\<forall>b \<in> set js. valid_mark n0 k b"
    and sg: "seg of_nat (\<lambda>j. NEXT_LNK (lnks (mk n0 k j s))) (\<lambda>j. PRE_LNK (lnks (mk n0 k j s)))
          NIL (head (ord_of k s)) js q NIL"
    and t: "t = link_mark k (of_nat j) (mkidx n0 k j) s"
  shows "same_rest s t"
    "valid_mark n0 k' j' \<Longrightarrow> bitmap (mk n0 k' j' t) = bitmap (mk n0 k' j' s)"
    "valid_mark n0 k' j' \<Longrightarrow> k' \<noteq> k \<Longrightarrow> mk n0 k' j' t = mk n0 k' j' s"
    "6 \<le> k' \<Longrightarrow> head (ord_of k' t) = (if k' = k then of_nat j else head (ord_of k' s))"
    "b \<in> set (j # js) \<Longrightarrow> NEXT_LNK (lnks (mk n0 k b t)) = 
      (if b = j then head (ord_of k s) else NEXT_LNK (lnks (mk n0 k b s)))"
    "b \<in> set (j # js) \<Longrightarrow> PRE_LNK (lnks (mk n0 k b t)) = 
      (if b = j then NIL else if b = hd js then of_nat j else PRE_LNK (lnks (mk n0 k b s)))"
proof -
  define h where "h = head (ord_of k s)"
  define s2 where "s2 = upd_mark (mkidx n0 k j) (\<lambda>m. m\<lparr>lnks := LNKS NIL h\<rparr>) s"
  define s3 where "s3 = (if js \<noteq> [] then set_lnks k (of_nat (hd js)) (of_nat j) (NEXT_LNK (lnks (mk n0 k (hd js) s2))) s2 else s2)"
  from seg_first [OF sg] have h: "h = (if js = [] then NIL else of_nat (hd js))" by (simp add: h_def)
  have vh: "js \<noteq> [] \<Longrightarrow> valid_mark n0 k (hd js)" using va by auto
  have jl: "valid_mark n0 k b \<Longrightarrow> b < 65535" for b using valid_mark_less g by (auto simp: geom_def)
  then have nn: "valid_mark n0 k b \<Longrightarrow> (of_nat b :: uint) \<noteq> NIL" for b using of_nat_not_NIL by blast
  have r2: "same_rest s s2" unfolding s2_def by (auto intro: same_rest_intros)
  have r3: "same_rest s s3" unfolding s3_def using r2 by (auto intro: same_rest_intros)
  note g2 = geom_same_rest [OF r2 g]
  have ts: "t = set_head k (of_nat j) s3"
    unfolding t link_mark_def h_def [symmetric] Let_def s2_def [symmetric] s3_def
    unfolding h by (auto simp: vh nn lnks_of_of_nat [OF g2])
  show "same_rest s t" unfolding ts by (intro same_rest_intros r3)
  have mk2: "valid_mark n0 k' j' \<Longrightarrow> mk n0 k' j' s2 = (if k' = k \<and> j' = j
    then (mk n0 k j s)\<lparr>lnks := LNKS NIL h\<rparr> else mk n0 k' j' s)" for k' j'
    unfolding s2_def by (simp add: mk_upd_mark v)
  have mkt: "valid_mark n0 k' j' \<Longrightarrow> mk n0 k' j' t = (if js \<noteq> [] \<and> k' = k \<and> j' = hd js
    then (mk n0 k (hd js) s2)\<lparr>lnks := LNKS (of_nat j) (NEXT_LNK (lnks (mk n0 k (hd js) s2)))\<rparr> else mk n0 k' j' s2)" for k' j'
    unfolding ts s3_def by (simp add: mk_set_lnks [OF g2] vh)
  have hj: "js \<noteq> [] \<Longrightarrow> hd js \<noteq> j" using nj by (cases js) auto
  show "bitmap (mk n0 k' j' t) = bitmap (mk n0 k' j' s)" if "valid_mark n0 k' j'"
    using that vh by (auto simp: mkt mk2)
  show "mk n0 k' j' t = mk n0 k' j' s" if "valid_mark n0 k' j'" "k' \<noteq> k"
    using that by (auto simp: mkt mk2)
  show "head (ord_of k' t) = (if k' = k then of_nat j else head (ord_of k' s))" if "6 \<le> k'"
    unfolding ts s3_def s2_def using that v by (simp add: head_set_head valid_mark_def)
  assume b: "b \<in> set (j # js)"
  then have "valid_mark n0 k b" "js = [] \<Longrightarrow> b = j" using v va by auto
  note b = this
  have "unat NIL < 65536" "unat (of_nat j :: uint) < 65536" "unat h < 65536"
    using jl [OF v] h vh jl [of "hd js"] by (auto simp: NIL_def)
  note [simp] = this [THEN PRE_LNKS] this [THEN NEXT_LNKS] NEXT_LNKS [OF NEXT_LNK_less]
  show "NEXT_LNK (lnks (mk n0 k b t)) = 
      (if b = j then head (ord_of k s) else NEXT_LNK (lnks (mk n0 k b s)))"
    using b hj vh v unfolding h_def [symmetric] by (cases "js = []") (auto simp: mkt mk2)
  show "PRE_LNK (lnks (mk n0 k b t)) = 
      (if b = j then NIL else if b = hd js then of_nat j else PRE_LNK (lnks (mk n0 k b s)))"
    using b hj vh v by (cases "js = []") (auto simp: mkt mk2)
qed

lemma mark_blk_eq:
  assumes "geom n0 N s" "valid_mark n0 k (i div 32)" "\<not> bit (bitmap (mk n0 k (i div 32) s)) (i mod 32)"
  shows "mark_blk k (of_nat i) s =
    (let m = mkidx n0 k (i div 32);
         s1 = upd_mark m (\<lambda>m. m\<lparr>bitmap := bitmap m OR blk_bit (of_nat i)\<rparr>) s
     in Ok () (if bitmap (mk n0 k (i div 32) s) = 0 then link_mark k (of_nat (i div 32)) m s1 else s1))"
  using assms unfolding mark_blk_def mark_of_blk [OF assms(1,2)] Let_def available_of_nat link_mark_def
  by (simp add: mark_of_blk mk_def)

lemma bm_or_nonzero: "bm OR blk_bit (of_nat i) \<noteq> 0"
proof -
  have "bit (bm OR blk_bit (of_nat i)) (i mod 32)" by (simp add: bit_set)
  then show ?thesis by auto
qed

lemma mark_blk_spec:
  assumes g: "geom n0 N s" and c: "chains n0 s" and v: "valid_mark n0 k (i div 32)" and i: "(k, i) \<notin> free_set n0 s"
  obtains t where "mark_blk k (of_nat i) s = Ok () t" "same_rest s t" "chains n0 t"
    "free_set n0 t = insert (k, i) (free_set n0 s)"
proof -
  let ?j = "i div 32"
  let ?m = "mkidx n0 k ?j"
  let ?s1 = "upd_mark ?m (\<lambda>m. m\<lparr>bitmap := bitmap m OR blk_bit (of_nat i)\<rparr>) s"
  from i v have b: "\<not> bit (bitmap (mk n0 k ?j s)) (i mod 32)" by (auto simp: free_set_def)
  from v have k: "6 \<le> k" "k \<le> 12" by (auto simp: valid_mark_def)
  from c k obtain js where js: "chain n0 k s js" by (auto simp: chains_def)
  have r1: "same_rest s ?s1" by (intro same_rest_intros)
  note g1 = geom_same_rest [OF r1 g]
  note eq = mark_blk_eq [OF g v b]
  show ?thesis
  proof (cases "bitmap (mk n0 k ?j s) = 0")
    case False
    then have "chain n0 k ?s1 js"
      using v by (intro chain_bitmap_upd [OF js]) (auto simp: mk_upd_mark bm_or_nonzero)
    then have "chains n0 ?s1"
      using v by (intro chains_other [OF c]) (auto simp: mk_upd_mark)
    moreover have "free_set n0 ?s1 = insert (k, i) (free_set n0 s)"
      using v by (intro free_set_add) (auto simp: mk_upd_mark)
    ultimately show ?thesis using that [of ?s1] eq False r1 by (simp add: Let_def)
  next
    case True
    define t where "t = link_mark k (of_nat ?j) ?m ?s1"
    from js have st: "set js = {j. valid_mark n0 k j \<and> bitmap (mk n0 k j s) \<noteq> 0}" and d: "distinct js"
      by (auto simp: chain_def)
    then have nj: "?j \<notin> set js" and va: "\<forall>b \<in> set js. valid_mark n0 k b" using True by auto
    let ?nx = "\<lambda>s j. NEXT_LNK (lnks (mk n0 k j s))" and ?pv = "\<lambda>s j. PRE_LNK (lnks (mk n0 k j s))"
    from js obtain q where "seg of_nat (?nx s) (?pv s) NIL (head (ord_of k s)) js q NIL"
      by (auto simp: chain_def)
    also have "seg of_nat (?nx s) (?pv s) NIL (head (ord_of k s)) js q NIL =
        seg of_nat (?nx ?s1) (?pv ?s1) NIL (head (ord_of k s)) js q NIL"
      using va v by (intro seg_cong) (auto simp: mk_upd_mark)
    finally have sg: "seg of_nat (?nx ?s1) (?pv ?s1) NIL (head (ord_of k ?s1)) js q NIL" by simp
    note u = link_mark_spec [OF g1 v nj va sg t_def]
    have "seg of_nat (?nx t) (?pv t) NIL (head (ord_of k t)) (?j # js) (if js = [] then of_nat ?j else q) NIL"
      using seg_link_front [OF sg nj d u(5,6)] u(4) [of k] k by simp
    moreover have bm: "valid_mark n0 k' j \<Longrightarrow> bitmap (mk n0 k' j t) =
      (if k' = k \<and> j = ?j then bitmap (mk n0 k j s) OR blk_bit (of_nat i) else bitmap (mk n0 k' j s))" for k' j
      using v by (auto simp: u(2) mk_upd_mark)
    moreover have "set (?j # js) = {j. valid_mark n0 k j \<and> bitmap (mk n0 k j t) \<noteq> 0}"
      using v by (auto simp: bm st bm_or_nonzero split: if_splits)
    ultimately have "chain n0 k t (?j # js)" using d nj unfolding chain_def by auto
    then have "chains n0 t"
      using u(3,4) v by (intro chains_other [OF c]) (auto simp: mk_upd_mark)
    moreover have "free_set n0 t = insert (k, i) (free_set n0 s)" using v bm by (rule free_set_add)
    ultimately show ?thesis
      using that [of t] eq True same_rest_trans [OF r1 u(1)] by (simp add: Let_def t_def)
  qed
qed

end
