(* ===== verification/Buddy_Alloc.thy ===== *)
theory Buddy_Alloc
  imports Buddy_Marks
begin

text \<open>
  The buddy allocator refines its abstract view: \<open>_kfree\<close> computes \<open>merge_free\<close> on the set
  of free blocks, \<open>_kmalloc\<close> takes one block's bytes out of the free bytes. The pair
  \<open>kmalloc\<close>, \<open>kfree\<close> meets the contract \<open>block_allocator\<close>.
\<close>

section \<open>Refinement\<close>

definition buddy_inv :: "nat \<Rightarrow> nat \<Rightarrow> 'z kmem_scheme \<Rightarrow> bool" where
  "buddy_inv n0 N s \<longleftrightarrow> geom n0 N s \<and> chains n0 s \<and> free_ok N (free_set n0 s)"

definition blk_addr :: "'z kmem_scheme \<Rightarrow> nat \<Rightarrow> nat \<Rightarrow> uint64" where
  "blk_addr s k i = km_start_heap s + of_nat (i * 2 ^ k)"

definition heap_blk :: "nat \<Rightarrow> nat \<Rightarrow> nat \<Rightarrow> bool" where
  "heap_blk N k i \<longleftrightarrow> 6 \<le> k \<and> k \<le> 12 \<and> i < N * 2 ^ (12 - k)"

lemma pow_split_12: "k \<le> 12 \<Longrightarrow> (2::nat) ^ (12 - k) * 2 ^ k = 4096"
  by (simp flip: power_add)

lemma heap_blk_end: "heap_blk N k i \<Longrightarrow> i * 2 ^ k + 2 ^ k \<le> N * 4096"
proof -
  assume h: "heap_blk N k i"
  then have "Suc i \<le> N * 2 ^ (12 - k)" by (auto simp: heap_blk_def)
  then have "Suc i * 2 ^ k \<le> N * 2 ^ (12 - k) * 2 ^ k" by (rule mult_le_mono1)
  then show ?thesis using h pow_split_12 [of k] by (simp add: heap_blk_def mult.assoc add.commute)
qed

lemma heap_blk_valid: "geom n0 N s \<Longrightarrow> heap_blk N k i \<Longrightarrow> valid_mark n0 k (i div 32)"
proof -
  assume g: "geom n0 N s" and h: "heap_blk N k i"
  then have "N * 2 ^ (12 - k) \<le> 32 * n0 * 2 ^ (12 - k)" by (auto simp: geom_def)
  moreover have "i < N * 2 ^ (12 - k)" using h by (simp add: heap_blk_def)
  ultimately have "i < 32 * (n0 * 2 ^ (12 - k))" by (simp only: mult.assoc)
  with h show ?thesis by (auto simp: valid_mark_def heap_blk_def)
qed

lemma heap_blk_less_31: "geom n0 N s \<Longrightarrow> heap_blk N k i \<Longrightarrow> i * 2 ^ k < 2 ^ 31"
proof -
  assume g: "geom n0 N s" and h: "heap_blk N k i"
  have "N * 4096 \<le> 32 * 65535 * 64" using g by (auto simp: geom_def)
  moreover have "0 < (2::nat) ^ k" by simp
  ultimately have "i * 2 ^ k < 32 * 65535 * 64" using heap_blk_end [OF h] by linarith
  then show ?thesis by simp
qed

lemma blkid2mem_of_nat:
  assumes "geom n0 N s" "heap_blk N k i"
  shows "blkid2mem k (of_nat i) s = blk_addr s k i"
proof -
  have "push_bit k 1 * of_nat i = (of_nat (i * 2 ^ k) :: uint)" by (simp add: push_bit_eq_mult)
  with scast_of_nat [OF heap_blk_less_31 [OF assms]] show ?thesis
    unfolding blkid2mem_def blk_addr_def by (simp only:)
qed

lemma drop_bit_of_nat64: "n < 2 ^ 64 \<Longrightarrow> drop_bit k (of_nat n :: uint64) = of_nat (n div 2 ^ k)"
proof -
  assume n: "n < 2 ^ 64"
  have "unat (drop_bit k (of_nat n :: uint64)) = n div 2 ^ k"
    unfolding unat_drop_bit_eq unat_of_nat_uint64 [OF n] by (rule drop_bit_eq_div)
  then show ?thesis by (metis of_nat_unat ucast_id)
qed

lemma mem2blkid_of_nat:
  assumes "geom n0 N s" "heap_blk N k i"
  shows "mem2blkid k (blk_addr s k i) s = of_nat i"
proof -
  have "i * 2 ^ k < 2 ^ 64" using heap_blk_less_31 [OF assms] by simp
  then have "drop_bit k (of_nat (i * 2 ^ k) :: uint64) = of_nat i"
    by (subst drop_bit_of_nat64) simp_all
  moreover have "i < 2 ^ 32"
  proof -
    have "i * 1 \<le> i * 2 ^ k" by (rule mult_le_mono2) simp
    with heap_blk_less_31 [OF assms] have "i < 2 ^ 31" by linarith
    then show ?thesis by simp
  qed
  ultimately show ?thesis unfolding mem2blkid_def blk_addr_def 
    by (simp add: unsigned_of_nat take_bit_nat_eq_self_iff take_bit_nat_eq_self del: of_nat_mult of_nat_power)
qed

lemma blk_addr_neq0:
  assumes "geom n0 N s" "heap_blk N k i"
  shows "blk_addr s k i \<noteq> 0" "unat (blk_addr s k i) = unat (km_start_heap s) + i * 2 ^ k"
proof -
  have pos: "0 < unat (km_start_heap s)" and less: "unat (km_start_heap s) + i * 2 ^ k < 2 ^ 64"
    using assms(1) heap_blk_end [OF assms(2)] by (auto simp: geom_def unat_gt_0 word_gt_0)
  have "blk_addr s k i = of_nat (unat (km_start_heap s) + i * 2 ^ k)"
    unfolding blk_addr_def of_nat_add by simp
  then show eq: "unat (blk_addr s k i) = unat (km_start_heap s) + i * 2 ^ k"
    using less by (simp only: unat_of_nat_uint64)
  show "blk_addr s k i \<noteq> 0" using eq pos by force
qed

lemma heap_blk_up: "heap_blk N k i \<Longrightarrow> k < 12 \<Longrightarrow> heap_blk N (Suc k) (i div 2)"
proof -
  assume h: "heap_blk N k i" "k < 12"
  have "(2 :: nat) ^ (12 - k) = 2 * 2 ^ (12 - Suc k)"
    using h(2) by (simp flip: power_Suc add: Suc_diff_Suc)
  then show ?thesis using h by (auto simp: heap_blk_def)
qed

lemma heap_blk_down:
  assumes "heap_blk N (Suc k) j" "6 \<le> k"
  shows "heap_blk N k (2 * j)" "heap_blk N k (2 * j + 1)"
proof -
  have "12 - k = Suc (12 - Suc k)" using assms(1) unfolding heap_blk_def by linarith
  then have "(2 :: nat) ^ (12 - k) = 2 * 2 ^ (12 - Suc k)" by (metis power_Suc)
  moreover from assms have "Suc j \<le> N * 2 ^ (12 - Suc k)" by (auto simp: heap_blk_def)
  ultimately show "heap_blk N k (2 * j)" "heap_blk N k (2 * j + 1)"
    using assms by (auto simp: heap_blk_def)
qed

lemma blk_addr_same_rest: "same_rest s t \<Longrightarrow> blk_addr t = blk_addr s"
  by (intro ext) (simp add: blk_addr_def same_rest_fields)

lemma blk_addr_Suc: "blk_addr s (Suc k) j = blk_addr s k (2 * j)"
  by (simp add: blk_addr_def mult_ac)

lemma blk_addr_right: "blk_addr s (Suc k) j + push_bit k 1 = blk_addr s k (2 * j + 1)"
  by (simp add: blk_addr_def push_bit_eq_mult algebra_simps)

lemma buddy_div32 [simp]: "buddy i div 32 = i div 32"
  by (cases i rule: buddy_cases) auto

lemma in_free_set:
  "valid_mark n0 k (i div 32) \<Longrightarrow> (k, i) \<in> free_set n0 s \<longleftrightarrow> bit (bitmap (mk n0 k (i div 32) s)) (i mod 32)"
  by (simp add: free_set_def)

lemma kfree_rec_refines:
  assumes "buddy_inv n0 N s" "heap_blk N k i" "blk_range k i \<inter> free_bytes (free_set n0 s) = {}"
  shows "\<exists>t. kfree_rec (blk_addr s k i) k s = Ok () t \<and> same_rest s t \<and> chains n0 t \<and>
    free_set n0 t = merge_free (free_set n0 s) k i"
  using assms
proof (induction "12 - k" arbitrary: k i s)
  case (0 k i s)
  then have k: "k = 12" by (auto simp: heap_blk_def)
  from 0 have g: "geom n0 N s" and c: "chains n0 s" by (auto simp: buddy_inv_def)
  note v = heap_blk_valid [OF g "0.prems"(2)]
  note nf = not_free_if_disjoint [OF "0.prems"(3)]
  from mark_blk_spec [OF g c v nf] obtain t where
    "mark_blk k (of_nat i) s = Ok () t" "same_rest s t" "chains n0 t"
    "free_set n0 t = insert (k, i) (free_set n0 s)" .
  moreover have "kfree_rec (blk_addr s k i) k s = mark_blk k (of_nat i) s"
    using nf v k unfolding kfree_rec.simps [of _ k] mem2blkid_of_nat [OF g "0.prems"(2)] Let_def xor_buddy mark_of_blk [OF g v]
    by (simp add:  available_of_nat in_free_set mk_def MAX_ORD_def MIN_ORD_def)
  ultimately show ?case using k by (simp add: merge_free.simps [of _ 12])
next
  case (Suc d k i s)
  then have k: "6 \<le> k" "k < 12" by (auto simp: heap_blk_def)
  from Suc have g: "geom n0 N s" and c: "chains n0 s" and f: "free_ok N (free_set n0 s)"
    by (auto simp: buddy_inv_def)
  note v = heap_blk_valid [OF g Suc.prems(2)]
  note nf = not_free_if_disjoint [OF Suc.prems(3)]
  have eq: "kfree_rec (blk_addr s k i) k s =
    (if (k, buddy i) \<notin> free_set n0 s then mark_blk k (of_nat i) s
     else andthen (unmark_blk k (of_nat (buddy i)) s) (\<lambda>_ s1.
       kfree_rec (blkid2mem k (of_nat (2 * (i div 2))) s1) (k + 1) s1))"
    using nf v k unfolding kfree_rec.simps [of _ k] mem2blkid_of_nat [OF g Suc.prems(2)] xor_buddy and_not_one Let_def
    by (simp add: mark_of_blk [OF g v] available_of_nat in_free_set mk_def MAX_ORD_def MIN_ORD_def)
  show ?case
  proof (cases "(k, buddy i) \<in> free_set n0 s")
    case False
    from mark_blk_spec [OF g c v nf] obtain t where
      "mark_blk k (of_nat i) s = Ok () t" "same_rest s t" "chains n0 t"
      "free_set n0 t = insert (k, i) (free_set n0 s)" .
    with False eq show ?thesis by (simp add: merge_free.simps [of _ k])
  next
    case True
    from unmark_blk_spec [OF g c True] obtain s1 where s1: "unmark_blk k (of_nat (buddy i)) s = Ok () s1"
      "same_rest s s1" "chains n0 s1" "free_set n0 s1 = free_set n0 s - {(k, buddy i)}" .
    note g1 = geom_same_rest [OF s1(2) g]
    note up = heap_blk_up [OF Suc.prems(2) k(2)]
    note bytes = free_bytes_remove [OF f True]
    have "buddy_inv n0 N s1" using g1 s1(3,4) f by (auto simp: buddy_inv_def intro: free_ok_remove)
    moreover have "blk_range (Suc k) (i div 2) \<inter> free_bytes (free_set n0 s1) = {}"
      using Suc.prems(3) by (auto simp: s1(4) bytes blk_range_merge)
    moreover have "d = 12 - Suc k" using Suc.hyps(2) by linarith
    ultimately obtain t where t: "kfree_rec (blk_addr s1 (Suc k) (i div 2)) (Suc k) s1 = Ok () t"
      "same_rest s1 t" "chains n0 t" "free_set n0 t = merge_free (free_set n0 s1) (Suc k) (i div 2)"
      using Suc.hyps(1) [OF _ _ up] by blast
    have "blkid2mem k (of_nat (2 * (i div 2))) s1 = blk_addr s1 (Suc k) (i div 2)"
      unfolding blk_addr_Suc using heap_blk_down(1) [OF up k(1)] by (rule blkid2mem_of_nat [OF g1])
    with True eq s1 t k show ?thesis
      by (auto simp: merge_free.simps [of _ k] simp del: of_nat_mult intro: same_rest_trans)
  qed
qed

lemma nonzero_bit: "(w :: uint) \<noteq> 0 \<Longrightarrow> \<exists>n<32. bit w n"
  using bit_eq_iff [of w 0] bit_imp_le_length [of w] by auto

lemma chain_head: "chain n0 k s js \<Longrightarrow> head (ord_of k s) = (if js = [] then NIL else of_nat (hd js))"
  unfolding chain_def by (blast dest: seg_first)

lemma head_NIL_iff:
  assumes "buddy_inv n0 N s" "6 \<le> k" "k \<le> 12"
  shows "head (ord_of k s) = NIL \<longleftrightarrow> (\<forall>i. (k, i) \<notin> free_set n0 s)"
proof -
  from assms obtain js where js: "chain n0 k s js" by (auto simp: buddy_inv_def chains_def)
  then have st: "set js = {j. valid_mark n0 k j \<and> bitmap (mk n0 k j s) \<noteq> 0}"
    and h: "head (ord_of k s) = (if js = [] then NIL else of_nat (hd js))"
    using chain_head [OF js] by (auto simp: chain_def)
  have "js = [] \<longleftrightarrow> (\<forall>i. (k, i) \<notin> free_set n0 s)"
  proof
    assume "js = []"
    with st show "\<forall>i. (k, i) \<notin> free_set n0 s" by (auto simp: free_set_def)
  next
    assume a: "\<forall>i. (k, i) \<notin> free_set n0 s"
    have False if j: "j \<in> set js" for j
    proof -
      from j st have v: "valid_mark n0 k j" and "bitmap (mk n0 k j s) \<noteq> 0" by auto
      then obtain n where "n < 32" "bit (bitmap (mk n0 k j s)) n" using nonzero_bit by blast
      with v have "(k, 32 * j + n) \<in> free_set n0 s" by (simp add: free_set_def)
      with a show False by blast
    qed
    then show "js = []" by (cases js) auto
  qed
  moreover have "js \<noteq> [] \<Longrightarrow> (of_nat (hd js) :: uint) \<noteq> NIL"
    using st valid_mark_less [of n0 k "hd js"] assms(1)
    by (intro of_nat_not_NIL) (auto simp: buddy_inv_def geom_def dest: hd_in_set)
  ultimately show ?thesis using h by auto
qed

lemma find_bit:
  assumes "(bm :: uint) \<noteq> 0"
  obtains n where "List.find (\<lambda>i. bm AND push_bit i 1 \<noteq> 0) [0..<32] = Some n" "n < 32" "bit bm n"
proof -
  from nonzero_bit [OF assms] have "List.find (\<lambda>i. bm AND push_bit i 1 \<noteq> 0) [0..<32] \<noteq> None"
    unfolding find_None_iff by (auto simp: bit_iff_and_push_bit_not_eq_0)
  then obtain n where n: "List.find (\<lambda>i. bm AND push_bit i 1 \<noteq> 0) [0..<32] = Some n" by auto
  then have "n < 32" "bit bm n" unfolding find_Some_iff by (auto simp: bit_iff_and_push_bit_not_eq_0)
  with n show ?thesis using that by blast
qed

lemma free_heap_blk: "buddy_inv n0 N s \<Longrightarrow> (k, i) \<in> free_set n0 s \<Longrightarrow> heap_blk N k i"
  by (auto simp: buddy_inv_def heap_blk_def dest: free_okD)

lemma get_blk_spec:
  assumes inv: "buddy_inv n0 N s" and k: "6 \<le> k" "k \<le> 12" and h: "head (ord_of k s) \<noteq> NIL"
  obtains i t where "get_blk k s = Ok (blk_addr s k i) t" "(k, i) \<in> free_set n0 s" "same_rest s t"
    "chains n0 t" "free_set n0 t = free_set n0 s - {(k, i)}"
proof -
  from inv have g: "geom n0 N s" and c: "chains n0 s" by (auto simp: buddy_inv_def)
  from c k obtain js where js: "chain n0 k s js" by (auto simp: chains_def)
  with h have hd: "head (ord_of k s) = of_nat (hd js)" and "hd js \<in> set js"
    by (auto simp: chain_head split: if_splits)
  with js have v: "valid_mark n0 k (hd js)" and nz: "bitmap (mk n0 k (hd js) s) \<noteq> 0"
    by (auto simp: chain_def)
  have "hd js < 65536" using valid_mark_less [OF v] g by (auto simp: geom_def)
  then have gm: "marks s (get_mark k (of_nat (hd js)) s) = mk n0 k (hd js) s"
    unfolding mk_def using get_mark_of_nat [OF g k] by simp
  from find_bit [OF nz] obtain n where n: "List.find (\<lambda>i. bitmap (mk n0 k (hd js) s) AND push_bit i 1 \<noteq> 0) [0..<32] = Some n"
    "n < 32" "bit (bitmap (mk n0 k (hd js) s)) n" .
  define i where "i = hd js * 32 + n"
  have i: "(k, i) \<in> free_set n0 s" using v n(2,3) by (simp add: free_set_def i_def)
  have w: "of_nat (hd js) * 32 + of_nat n = (of_nat i :: uint)" by (simp add: i_def)
  from unmark_blk_spec [OF g c i] obtain t where t: "unmark_blk k (of_nat i) s = Ok () t"
    "same_rest s t" "chains n0 t" "free_set n0 t = free_set n0 s - {(k, i)}" .
  have "blkid2mem k (of_nat i) t = blk_addr s k i"
    using blkid2mem_of_nat [OF geom_same_rest [OF t(2) g] free_heap_blk [OF inv i]]
    by (simp add: blk_addr_same_rest [OF t(2)])
  with t nz have "get_blk k s = Ok (blk_addr s k i) t"
    unfolding get_blk_def hd gm Let_def n(1) option.case w by simp
  with i t show ?thesis using that by blast
qed

definition can_alloc :: "nat \<Rightarrow> nat \<Rightarrow> 'z kmem_scheme \<Rightarrow> bool" where
  "can_alloc n0 k s \<longleftrightarrow> (\<exists>k' i. k \<le> k' \<and> (k', i) \<in> free_set n0 s)"

lemma kmalloc_rec_spec:
  assumes "buddy_inv n0 N s" "6 \<le> k" "k \<le> 12"
  shows "(if can_alloc n0 k s
    then \<exists>i t. kmalloc_rec k s = Ok (blk_addr s k i) t \<and> heap_blk N k i \<and> same_rest s t \<and> buddy_inv n0 N t
      \<and> blk_range k i \<subseteq> free_bytes (free_set n0 s)
      \<and> free_bytes (free_set n0 t) = free_bytes (free_set n0 s) - blk_range k i
    else kmalloc_rec k s = Ok 0 s)"
  using assms
proof (induction "12 - k" arbitrary: k s rule: less_induct)
  case (less k s)
  then have g: "geom n0 N s" and f: "free_ok N (free_set n0 s)" by (auto simp: buddy_inv_def)
  note unf = kmalloc_rec.simps [of k s]
  show ?case
  proof (cases "head (ord_of k s) = NIL")
    case False
    from get_blk_spec [OF less.prems False] obtain i t where it: "get_blk k s = Ok (blk_addr s k i) t"
      "(k, i) \<in> free_set n0 s" "same_rest s t" "chains n0 t" "free_set n0 t = free_set n0 s - {(k, i)}" .
    then have "buddy_inv n0 N t"
      using geom_same_rest [OF it(3) g] f by (auto simp: buddy_inv_def intro: free_ok_remove)
    with it False less.prems show ?thesis
      using free_bytes_remove [OF f it(2)] blk_in_free_bytes [OF it(2)] free_heap_blk [OF less.prems(1) it(2)]
      by (auto simp: unf MIN_ORD_def MAX_ORD_def can_alloc_def)
  next
    case True
    with head_NIL_iff [OF less.prems] have no: "\<forall>i. (k, i) \<notin> free_set n0 s" by blast
    show ?thesis
    proof (cases "k = 12")
      case True': True
      have "\<not> can_alloc n0 k s"
        using no free_okD(2) [OF f] True' unfolding can_alloc_def by (metis order_antisym)
      then show ?thesis
        using True True' by (simp add: kmalloc_rec.simps [of 12] MIN_ORD_def MAX_ORD_def)
    next
      case k: False
      with less.prems have k': "Suc k \<le> 12" "12 - Suc k < 12 - k" by auto
      have ex: "can_alloc n0 k s = can_alloc n0 (Suc k) s"
        using no unfolding can_alloc_def by (metis Suc_leD le_antisym not_less_eq_eq)
      have eq: "kmalloc_rec k s = andthen (kmalloc_rec (Suc k) s) (\<lambda>up s1.
             if up \<noteq> 0 then andthen (kfree_rec (up + push_bit k 1) k s1) (\<lambda>_ s2. Ok up s2) else Ok up s1)"
        using True k less.prems by (simp add: unf MIN_ORD_def MAX_ORD_def)
      note IH = less.hyps [OF k'(2) less.prems(1) _ k'(1)]
      show ?thesis
      proof (cases "can_alloc n0 (Suc k) s")
        case False
        with IH less.prems have "kmalloc_rec (Suc k) s = Ok 0 s" by simp
        with False ex eq show ?thesis by simp
      next
        case True
        with IH less.prems obtain j s1 where j: "kmalloc_rec (Suc k) s = Ok (blk_addr s (Suc k) j) s1"
          "heap_blk N (Suc k) j" "same_rest s s1" "buddy_inv n0 N s1"
          "blk_range (Suc k) j \<subseteq> free_bytes (free_set n0 s)"
          "free_bytes (free_set n0 s1) = free_bytes (free_set n0 s) - blk_range (Suc k) j" by auto
        note h = heap_blk_down [OF j(2) less.prems(2)]
        have dis: "blk_range k (2 * j + 1) \<inter> free_bytes (free_set n0 s1) = {}"
          by (auto simp: j(6) blk_range_double)
        from kfree_rec_refines [OF j(4) h(2) dis] obtain t where t:
          "kfree_rec (blk_addr s1 k (2 * j + 1)) k s1 = Ok () t" "same_rest s1 t" "chains n0 t"
          "free_set n0 t = merge_free (free_set n0 s1) k (2 * j + 1)" by blast
        have s1: "free_ok N (free_set n0 s1)" "geom n0 N s1" using j(4) by (auto simp: buddy_inv_def)
        note mf = merge_free_correct [OF s1(1) _ _ _ dis]
        have "buddy_inv n0 N t" and bytes: "free_bytes (free_set n0 t) = free_bytes (free_set n0 s1) \<union> blk_range k (2 * j + 1)"
          using mf h(2) t(3,4) geom_same_rest [OF t(2) s1(2)] by (auto simp: buddy_inv_def heap_blk_def)
        moreover have "free_bytes (free_set n0 t) = free_bytes (free_set n0 s) - blk_range k (2 * j)"
          using j(5) blk_range_double(2) [of k j] unfolding bytes j(6) blk_range_double(1) by blast
        moreover have "kfree_rec (blk_addr s (Suc k) j + push_bit k 1) k s1 = Ok () t"
          using t(1) unfolding blk_addr_right blk_addr_same_rest [OF j(3)] .
        then have "kmalloc_rec k s = Ok (blk_addr s k (2 * j)) t"
          using blk_addr_neq0(1) [OF g j(2)] unfolding eq j(1) by (simp add: blk_addr_Suc)
        ultimately show ?thesis
          using True ex h(1) same_rest_trans [OF j(3) t(2)] j(5) blk_range_double(1) [of k j] by auto
      qed
    qed
  qed
qed

section \<open>The locked entry points\<close>

text \<open>The allocator's state is untouched by locking; interrupts and nesting are restored.\<close>

lemma buddy_frame:
  assumes "marks t = marks s" "orders t = orders s" "km_start_heap t = km_start_heap s"
  shows "free_set n0 t = free_set n0 s" "buddy_inv n0 N t = buddy_inv n0 N s"
    "blk_addr t = blk_addr s" "can_alloc n0 k t = can_alloc n0 k s"
  using assms
  by (auto simp: free_set_def buddy_inv_def geom_def chains_def chain_def mk_def ord_of_def blk_addr_def
      can_alloc_def fun_eq_iff)

lemma acquire_frame:
  "free_set n0 (acquire lk s) = free_set n0 s" "buddy_inv n0 N (acquire lk s) = buddy_inv n0 N s"
  "blk_addr (acquire lk s) = blk_addr s" "can_alloc n0 k (acquire lk s) = can_alloc n0 k s"
  by (rule buddy_frame; simp add: lock_simps)+

definition same_core :: "'z kmem_scheme \<Rightarrow> 'z kmem_scheme \<Rightarrow> bool" where
  "same_core s t \<longleftrightarrow> ncli t = ncli s \<and> irq t = irq s \<and> ptable t = ptable s \<and> cproc t = cproc s
     \<and> km_start_heap t = km_start_heap s \<and> km_end t = km_end s \<and> kmem.more t = kmem.more s"

lemma section_release:
  assumes "cpu_ok s" "same_rest (acquire Lk_kmem s) u"
  obtains t where "release Lk_kmem u = Ok () t" "free_set n0 t = free_set n0 u"
    "buddy_inv n0 N t = buddy_inv n0 N u" "same_core s t" "cpu_ok t"
proof -
  have u: "ncli u = ncli s + 1" "\<not> irq u" "intena u = (if ncli s = 0 then irq s else intena s)"
    "ptable u = ptable s" "cproc u = cproc s" "km_start_heap u = km_start_heap s" "km_end u = km_end s" "kmem.more u = kmem.more s"
    using assms(2) unfolding same_rest_def acquire_update by (cases s, cases u, simp)+
  let ?t = "u\<lparr>ncli := ncli u - 1, irq := (ncli u = 1 \<and> intena u), locked := (locked u)(Lk_kmem := False)\<rparr>"
  have "release Lk_kmem u = Ok () ?t" using u assms(1) by (intro release_update) (auto simp: cpu_ok_def)
  moreover have "same_core s ?t" "cpu_ok ?t" using u assms(1) by (auto simp: same_core_def cpu_ok_def)
  moreover have "free_set n0 ?t = free_set n0 u" "buddy_inv n0 N ?t = buddy_inv n0 N u"
    by (rule buddy_frame; simp)+
  ultimately show ?thesis using that by blast
qed

lemma kmalloc_spec:
  assumes "buddy_inv n0 N s" "cpu_ok s" "6 \<le> k" "k \<le> 12"
  shows "\<exists>a t. kmalloc (int k) s = Ok a t \<and> buddy_inv n0 N t \<and> cpu_ok t \<and> same_core s t \<and>
    (if can_alloc n0 k s
     then \<exists>i. a = blk_addr s k i \<and> heap_blk N k i \<and> blk_range k i \<subseteq> free_bytes (free_set n0 s)
       \<and> free_bytes (free_set n0 t) = free_bytes (free_set n0 s) - blk_range k i
     else a = 0 \<and> free_set n0 t = free_set n0 s)"
proof -
  let ?s = "acquire Lk_kmem s"
  have eq: "kmalloc (int k) s = andthen (kmalloc_rec k ?s) (\<lambda>up s1. andthen (release Lk_kmem s1) (\<lambda>_ s2. Ok up s2))"
    using assms by (simp add: kmalloc_def MAX_ORD_def MIN_ORD_def)
  have inv: "buddy_inv n0 N ?s" using assms by (simp add: acquire_frame)
  note spec = kmalloc_rec_spec [OF inv assms(3,4), unfolded acquire_frame]
  show ?thesis
  proof (cases "can_alloc n0 k s")
    case True
    with spec obtain i u where u: "kmalloc_rec k ?s = Ok (blk_addr s k i) u" "heap_blk N k i" "same_rest ?s u"
      "buddy_inv n0 N u" "blk_range k i \<subseteq> free_bytes (free_set n0 s)"
      "free_bytes (free_set n0 u) = free_bytes (free_set n0 s) - blk_range k i" by auto
    from section_release [OF assms(2) u(3)] obtain t where "release Lk_kmem u = Ok () t"
      "free_set n0 t = free_set n0 u" "buddy_inv n0 N t = buddy_inv n0 N u" "same_core s t" "cpu_ok t" .
    with u True show ?thesis by (auto simp: eq)
  next
    case False
    with spec have u: "kmalloc_rec k ?s = Ok 0 ?s" by simp
    from section_release [OF assms(2) same_rest_refl] obtain t where "release Lk_kmem ?s = Ok () t"
      "free_set n0 t = free_set n0 ?s" "buddy_inv n0 N t = buddy_inv n0 N ?s" "same_core s t" "cpu_ok t" .
    with u inv False show ?thesis by (auto simp: eq acquire_frame)
  qed
qed

lemma and_mask_zero:
  assumes "2 ^ k dvd unat (a :: uint64)" shows "a AND (push_bit k 1 - 1) = 0"
proof -
  have "a AND (push_bit k 1 - 1) = take_bit k a"
    by (simp add: take_bit_eq_mask mask_eq_exp_minus_1 push_bit_eq_mult)
  moreover have "unat (take_bit k a) = unat a mod 2 ^ k"
    unfolding unat_take_bit by (rule take_bit_eq_mod)
  with assms have "unat (take_bit k a) = 0" by simp
  ultimately show ?thesis by (metis unsigned_eq_0_iff)
qed

lemma blk_addr_dvd:
  assumes "geom n0 N s" "heap_blk N k i"
  shows "2 ^ k dvd unat (blk_addr s k i)"
proof -
  have "(2::nat) ^ k dvd 4096" using pow_split_12 [of k] assms(2) by (metis dvd_triv_right heap_blk_def)
  then have "2 ^ k dvd unat (km_start_heap s)" using assms(1) by (auto simp: geom_def intro: dvd_trans)
  then show ?thesis unfolding blk_addr_neq0(2) [OF assms] by simp
qed

lemma kfree_spec:
  assumes "buddy_inv n0 N s" "cpu_ok s" "heap_blk N k i" "blk_range k i \<inter> free_bytes (free_set n0 s) = {}"
  shows "\<exists>t. kfree (blk_addr s k i) (int k) s = Ok () t \<and> buddy_inv n0 N t \<and> cpu_ok t \<and> same_core s t
    \<and> free_set n0 t = merge_free (free_set n0 s) k i
    \<and> free_bytes (free_set n0 t) = free_bytes (free_set n0 s) \<union> blk_range k i"
proof -
  let ?s = "acquire Lk_kmem s"
  have g: "geom n0 N s" "free_ok N (free_set n0 s)" using assms(1) by (auto simp: buddy_inv_def)
  have inv: "buddy_inv n0 N ?s" using assms by (simp add: acquire_frame)
  have eq: "kfree (blk_addr s k i) (int k) s = andthen (kfree_rec (blk_addr s k i) k ?s) (\<lambda>_ s1. release Lk_kmem s1)"
    using assms(3) and_mask_zero [OF blk_addr_dvd [OF g(1) assms(3)]] by (simp add: kfree_def MAX_ORD_def MIN_ORD_def heap_blk_def)
  have "blk_range k i \<inter> free_bytes (free_set n0 ?s) = {}" using assms(4) by (simp add: acquire_frame)
  from kfree_rec_refines [OF inv assms(3) this] obtain u where u: "kfree_rec (blk_addr s k i) k ?s = Ok () u"
    "same_rest ?s u" "chains n0 u" "free_set n0 u = merge_free (free_set n0 s) k i"
    by (auto simp: acquire_frame)
  have m: "free_ok N (free_set n0 u)" "free_bytes (free_set n0 u) = free_bytes (free_set n0 s) \<union> blk_range k i"
    using merge_free_correct [OF g(2) _ _ _ assms(4)] assms(3) u(4) by (auto simp: heap_blk_def)
  have "geom n0 N ?s" using inv by (simp add: buddy_inv_def)
  with geom_same_rest [OF u(2)] u m have "buddy_inv n0 N u" by (simp add: buddy_inv_def)
  with section_release [OF assms(2) u(2)] obtain t where "release Lk_kmem u = Ok () t"
      "free_set n0 t = free_set n0 u" "buddy_inv n0 N t" "same_core s t" "cpu_ok t" by metis
  with u m show ?thesis by (auto simp: eq)
qed

section \<open>The contract\<close>

definition heap_inv :: "nat \<Rightarrow> nat \<Rightarrow> 'z kmem_scheme \<Rightarrow> bool" where
  "heap_inv n0 N s \<longleftrightarrow> buddy_inv n0 N s \<and> cpu_ok s"

definition heap_block :: "nat \<Rightarrow> 'z kmem_scheme \<Rightarrow> uint64 \<Rightarrow> nat \<Rightarrow> bool" where
  "heap_block N s a k \<longleftrightarrow> (\<exists>i. heap_blk N k i \<and> a = blk_addr s k i)"

definition heap_avail :: "nat \<Rightarrow> 'z kmem_scheme \<Rightarrow> nat set" where
  "heap_avail n0 s = (+) (unat (km_start_heap s)) ` free_bytes (free_set n0 s)"

lemma mem_range_blk:
  assumes "geom n0 N s" "heap_blk N k i"
  shows "mem_range (blk_addr s k i) k = (+) (unat (km_start_heap s)) ` blk_range k i"
  unfolding mem_range_def blk_addr_neq0(2) [OF assms] blk_range_def
  by (simp add: algebra_simps)

lemma same_core_block: "same_core s t \<Longrightarrow> heap_block N t = heap_block N s"
  by (intro ext) (simp add: heap_block_def blk_addr_def same_core_def)

interpretation heap: block_allocator "heap_inv n0 N" "heap_block N" "heap_avail n0"
  "\<lambda>k. kmalloc (int k)" "\<lambda>a k. kfree a (int k)" for n0 N :: nat
proof
  fix s :: "'a kmem_scheme" and k :: nat
  assume i: "heap_inv n0 N s" and k: "6 \<le> k" "k \<le> 12"
  then have inv: "buddy_inv n0 N s" "cpu_ok s" "geom n0 N s" by (auto simp: heap_inv_def buddy_inv_def)
  from kmalloc_spec [OF inv(1,2) k] obtain a t where t: "kmalloc (int k) s = Ok a t" "buddy_inv n0 N t" "cpu_ok t"
    "same_core s t" and res: "if can_alloc n0 k s
     then \<exists>i. a = blk_addr s k i \<and> heap_blk N k i \<and> blk_range k i \<subseteq> free_bytes (free_set n0 s)
       \<and> free_bytes (free_set n0 t) = free_bytes (free_set n0 s) - blk_range k i
     else a = 0 \<and> free_set n0 t = free_set n0 s" by blast
  have st: "km_start_heap t = km_start_heap s" using t(4) by (simp add: same_core_def)
  have "if a = 0 then heap_avail n0 t = heap_avail n0 s
     else heap_block N s a k \<and> mem_range a k \<subseteq> heap_avail n0 s \<and> heap_avail n0 t = heap_avail n0 s - mem_range a k"
  proof (cases "can_alloc n0 k s")
    case True
    with res obtain i where i: "a = blk_addr s k i" "heap_blk N k i" "blk_range k i \<subseteq> free_bytes (free_set n0 s)"
       "free_bytes (free_set n0 t) = free_bytes (free_set n0 s) - blk_range k i" by auto
    with blk_addr_neq0(1) [OF inv(3) i(2)] mem_range_blk [OF inv(3) i(2)] st show ?thesis
      by (auto simp: heap_avail_def heap_block_def)
  qed (use res st in \<open>auto simp: heap_avail_def\<close>)
  with t same_core_block [OF t(4), of N] show "\<exists>a t. kmalloc (int k) s = Ok a t \<and> heap_inv n0 N t \<and> heap_block N t = heap_block N s
    \<and> (if a = 0 then heap_avail n0 t = heap_avail n0 s
       else heap_block N s a k \<and> mem_range a k \<subseteq> heap_avail n0 s \<and> heap_avail n0 t = heap_avail n0 s - mem_range a k)"
    unfolding heap_inv_def by blast
next
  fix s :: "'a kmem_scheme" and a k
  assume "heap_inv n0 N s" and b: "heap_block N s a k" and dis: "mem_range a k \<inter> heap_avail n0 s = {}"
  then have inv: "buddy_inv n0 N s" "cpu_ok s" "geom n0 N s" by (auto simp: heap_inv_def buddy_inv_def)
  from b obtain i where i: "a = blk_addr s k i" "heap_blk N k i" by (auto simp: heap_block_def)
  note mr = mem_range_blk [OF inv(3) i(2)]
  have "blk_range k i \<inter> free_bytes (free_set n0 s) = {}"
    using dis unfolding heap_avail_def i(1) mr by auto
  from kfree_spec [OF inv(1,2) i(2) this] obtain t where t: "kfree a (int k) s = Ok () t" "buddy_inv n0 N t" "cpu_ok t"
    "same_core s t" "free_bytes (free_set n0 t) = free_bytes (free_set n0 s) \<union> blk_range k i" unfolding i(1) by blast
  then have "heap_avail n0 t = heap_avail n0 s \<union> mem_range a k"
    unfolding heap_avail_def i(1) mr by (auto simp: same_core_def)
  with t same_core_block [OF t(4), of N] show "\<exists>t. kfree a (int k) s = Ok () t \<and> heap_inv n0 N t \<and> heap_block N t = heap_block N s
      \<and> heap_avail n0 t = heap_avail n0 s \<union> mem_range a k"
    unfolding heap_inv_def by blast
qed

end
