(* ===== verification/Buddy_Props.thy ===== *)
theory Buddy_Props
  imports Buddy_Alloc
begin

text \<open>
  \<open>kmem_init2\<close> establishes the allocator's invariant with every page of the heap free,
  \<open>get_order\<close> computes the order of a size, and the properties of the allocator that follow
  from its contract.
\<close>

section \<open>Initialisation\<close>

lemma fold_init_marks:
  assumes "unat (offset (ord_of k s)) + c < 2 ^ 32"
  shows "fold (\<lambda>j t. upd_mark (get_mark k (of_nat j) t) (\<lambda>_. e) t) [0..<c] s =
    s\<lparr>marks := \<lambda>m. if unat (offset (ord_of k s)) \<le> m \<and> m < unat (offset (ord_of k s)) + c then e else marks s m\<rparr>"
  using assms
proof (induction c)
  case 0
  have "(\<lambda>m. if a \<le> m \<and> m < a then e else marks s m) = marks s" for a :: nat by (rule ext) auto
  then show ?case by simp
next
  case (Suc c)
  let ?o = "offset (ord_of k s)"
  have "?o + of_nat c = (of_nat (unat ?o + c) :: uint)" by simp
  then have gm: "unat (?o + of_nat c) = unat ?o + c"
    using Suc.prems unat_of_nat_uint [of "unat ?o + c"] by (simp only:)
  have "get_mark k (of_nat c) (s\<lparr>marks := m\<rparr>) = unat ?o + c" for m
    using gm by (simp add: get_mark_def ord_of_def)
  then show ?case
    using Suc by (auto simp: upd_mark_def fun_eq_iff intro!: arg_cong [of _ _ "\<lambda>m. s\<lparr>marks := m\<rparr>"])
qed

definition empty_mark :: mark where
  "empty_mark = \<lparr>lnks = LNKS NIL NIL, bitmap = 0\<rparr>"

lemma init_orders_spec:
  assumes "i \<le> 7" "n0 * 64 \<le> 65535"
  shows "\<exists>q m. init_orders i (of_nat (n0 * (2 ^ (7 - i) - 1))) (of_nat (n0 * 2 ^ (7 - i))) s =
      (of_nat (n0 * 127), s\<lparr>orders := q, marks := m\<rparr>)
    \<and> (\<forall>j. q j = (if j < i then \<lparr>head = NIL, offset = of_nat (n0 * (2 ^ (6 - j) - 1))\<rparr> else orders s j))
    \<and> (\<forall>l. n0 * (2 ^ (7 - i) - 1) \<le> l \<and> l < n0 * 127 \<longrightarrow> m l = empty_mark)
    \<and> (\<forall>l < n0 * (2 ^ (7 - i) - 1). m l = marks s l)"
  using assms(1)
proof (induction i arbitrary: s)
  case 0
  show ?case by (rule exI [of _ "orders s"], rule exI [of _ "marks s"]) auto
next
  case (Suc i)
  define T where "T = n0 * (2 ^ (6 - i) - 1)"
  define C where "C = n0 * 2 ^ (6 - i)"
  have p: "(2::nat) ^ (7 - i) = 2 * 2 ^ (6 - i)" using Suc.prems by (simp flip: power_Suc add: Suc_diff_le)
  have TC: "n0 * (2 ^ (7 - i) - 1) = T + C" "n0 * 2 ^ (7 - i) = 2 * C"
    unfolding T_def C_def p by (simp_all add: algebra_simps diff_mult_distrib2)
  have "(2::nat) ^ (6 - i) \<le> 64" using power_increasing [of "6 - i" 6 "2::nat"] by simp
  then have "C \<le> n0 * 64" "T \<le> n0 * 64" unfolding T_def C_def by (auto intro: mult_le_mono2)
  then have le: "C < 65536" "T < 65536" using assms(2) by auto
  define s1 where "s1 = s\<lparr>orders := (orders s)(i := \<lparr>head = NIL, offset = of_nat T\<rparr>)\<rparr>"
  have o1: "unat (offset (ord_of (i + MIN_ORD) s1)) = T" using le by (simp add: s1_def ord_of_def)
  define s2 where "s2 = s1\<lparr>marks := \<lambda>m. if T \<le> m \<and> m < T + C then empty_mark else marks s1 m\<rparr>"
  have fold: "fold (\<lambda>j t. upd_mark (get_mark (i + MIN_ORD) (of_nat j) t) (\<lambda>_. \<lparr>lnks = LNKS NIL NIL, bitmap = 0\<rparr>) t)
      [0..<C] s1 = s2"
    using fold_init_marks [of "i + MIN_ORD" s1 C "empty_mark"] le unfolding o1 s2_def empty_mark_def by simp
  have uc: "ucast (of_nat T :: uint64) = (of_nat T :: uint)"
    using le by (simp add: unsigned_of_nat take_bit_nat_eq_self)
  have step: "init_orders (Suc i) (of_nat T) (of_nat C) s = init_orders i (of_nat (T + C)) (of_nat (2 * C)) s2"
    using le unat_of_nat_uint64 [of C] fold by (simp add: Let_def uc s1_def push_bit_eq_mult mult.commute)
  from Suc.IH [of s2] Suc.prems obtain q m where qm: "init_orders i (of_nat (T + C)) (of_nat (2 * C)) s2 =
      (of_nat (n0 * 127), s2\<lparr>orders := q, marks := m\<rparr>)"
    "\<forall>j. q j = (if j < i then \<lparr>head = NIL, offset = of_nat (n0 * (2 ^ (6 - j) - 1))\<rparr> else orders s2 j)"
    "\<forall>l. T + C \<le> l \<and> l < n0 * 127 \<longrightarrow> m l = empty_mark"
    "\<forall>l. l < T + C \<longrightarrow> m l = marks s2 l"
    unfolding TC by auto
  have "init_orders (Suc i) (of_nat (n0 * (2 ^ (7 - Suc i) - 1))) (of_nat (n0 * 2 ^ (7 - Suc i))) s =
      (of_nat (n0 * 127), s\<lparr>orders := q, marks := m\<rparr>)"
    using step qm(1) by (simp add: T_def C_def s2_def s1_def)
  moreover have "q j = (if j < Suc i then \<lparr>head = NIL, offset = of_nat (n0 * (2 ^ (6 - j) - 1))\<rparr> else orders s j)" for j
    using qm(2) by (auto simp: s2_def s1_def T_def less_Suc_eq)
  moreover have "m l = empty_mark" if "T \<le> l" "l < n0 * 127" for l
    using qm(3,4) that by (cases "T + C \<le> l") (auto simp: s2_def)
  moreover have "m l = marks s l" if "l < T" for l
    using qm(4) that by (auto simp: s2_def s1_def)
  moreover have "7 - Suc i = 6 - i" by simp
  ultimately show ?case unfolding T_def by metis
qed

lemma initial_heap:
  assumes "n0 * 64 \<le> 65535" "N \<le> 32 * n0"
    and "\<And>j. j < 7 \<Longrightarrow> orders s j = \<lparr>head = NIL, offset = of_nat (n0 * (2 ^ (6 - j) - 1))\<rparr>"
    and "\<And>l. l < n0 * 127 \<Longrightarrow> marks s l = empty_mark"
    and "0 < km_start_heap s" "4096 dvd unat (km_start_heap s)" "unat (km_start_heap s) + N * 4096 < 2 ^ 64"
  shows "buddy_inv n0 N s" "free_set n0 s = {}"
proof -
  have ord: "ord_of k s = \<lparr>head = NIL, offset = of_nat (n0 * (2 ^ (12 - k) - 1))\<rparr>" if "6 \<le> k" "k \<le> 12" for k
    using assms(3) [of "k - 6"] that by (simp add: ord_of_def MIN_ORD_def)
  have empty: "mk n0 k j s = empty_mark" if "valid_mark n0 k j" for k j
  proof -
    have "mkidx n0 k j < n0 * (2 ^ (12 - k) - 1) + n0 * 2 ^ (12 - k)"
      using that by (simp add: mkidx_def valid_mark_def)
    also have "\<dots> \<le> n0 * 127"
    proof -
      have "(2 ^ (12 - k) - 1) + 2 ^ (12 - k) \<le> (127::nat)" using pow_12_le [of k] that by (simp add: valid_mark_def)
      then show ?thesis unfolding distrib_left [symmetric] by (rule mult_le_mono2)
    qed
    finally show ?thesis by (simp add: mk_def assms(4))
  qed
  show f: "free_set n0 s = {}" using empty by (auto simp: free_set_def empty_mark_def)
  have "chain n0 k s []" if "6 \<le> k" "k \<le> 12" for k
    using empty ord [OF that] by (auto simp: chain_def empty_mark_def)
  then have "chains n0 s" by (auto simp: chains_def)
  moreover have "geom n0 N s" using assms ord by (simp add: geom_def)
  moreover have "free_ok N {}" by (simp add: free_ok_def)
  ultimately show "buddy_inv n0 N s" using f by (simp add: buddy_inv_def)
qed

text \<open>The first \<open>p\<close> pages of the heap.\<close>

definition pages :: "nat \<Rightarrow> (nat \<times> nat) set" where
  "pages p = {12} \<times> {..<p}"

lemma pages_bytes: "free_bytes (pages p) = {..<p * 4096}"
proof -
  have "x \<in> blk_range 12 i \<longleftrightarrow> x div 4096 = i" for x i
    by (auto simp: blk_range_def)
  then show ?thesis unfolding free_bytes_def pages_def by auto
qed

lemma page_addr:
  assumes "geom n0 N s" "p \<le> N"
  shows "unat (blk_addr s 12 p) = unat (km_start_heap s) + p * 4096"
proof -
  have "unat (km_start_heap s) + p * 4096 < 2 ^ 64" using assms by (auto simp: geom_def)
  moreover have "blk_addr s 12 p = of_nat (unat (km_start_heap s) + p * 4096)"
    unfolding blk_addr_def of_nat_add by simp
  ultimately show ?thesis by (simp only: unat_of_nat_uint64)
qed

lemma page_less:
  assumes "geom n0 N s" "p \<le> N" "unat (km_end s) = unat (km_start_heap s) + N * 4096"
  shows "blk_addr s 12 p < km_end s \<longleftrightarrow> p < N"
  unfolding word_less_nat_alt page_addr [OF assms(1,2)] assms(3) by simp

lemma init_pages_spec:
  assumes "buddy_inv n0 N s" "cpu_ok s" "free_set n0 s = pages p" "p \<le> N" "N \<le> p + fuel"
    and "unat (km_end s) = unat (km_start_heap s) + N * 4096"
  shows "\<exists>t. init_pages fuel (blk_addr s 12 p) s = Ok () t \<and> heap_inv n0 N t
    \<and> same_core s t \<and> free_set n0 t = pages N"
  using assms
proof (induction fuel arbitrary: p s)
  case (0 p s)
  then have "\<not> blk_addr s 12 p < km_end s" using page_less [of n0 N s p] by (simp add: buddy_inv_def)
  with 0 show ?case by (simp add: init_pages.simps same_core_def heap_inv_def)
next
  case (Suc fuel p s)
  from Suc.prems(1) have g: "geom n0 N s" by (simp add: buddy_inv_def)
  note less = page_less [OF g Suc.prems(4,6)]
  show ?case
  proof (cases "p < N")
    case False
    with Suc.prems less show ?thesis by (simp add: init_pages.simps same_core_def heap_inv_def)
  next
    case True
    have dis: "blk_range 12 p \<inter> free_bytes (free_set n0 s) = {}"
      unfolding Suc.prems(3) pages_bytes by (auto simp: blk_range_def)
    have "heap_blk N 12 p" using True by (simp add: heap_blk_def)
    from kfree_spec [OF Suc.prems(1,2) this dis] obtain u where u: "kfree (blk_addr s 12 p) 12 s = Ok () u"
      "buddy_inv n0 N u" "cpu_ok u" "same_core s u" "free_set n0 u = merge_free (pages p) 12 p"
      by (auto simp: Suc.prems(3))
    have "free_set n0 u = pages (Suc p)"
      unfolding u(5) by (auto simp: merge_free.simps [of _ 12] pages_def)
    from Suc.IH [OF u(2,3) this] True Suc.prems(5,6) u(4) obtain t where
      "init_pages fuel (blk_addr u 12 (Suc p)) u = Ok () t" "heap_inv n0 N t" "same_core u t" "free_set n0 t = pages N"
      by (auto simp: same_core_def)
    moreover have "blk_addr u 12 (Suc p) = blk_addr s 12 p + push_bit MAX_ORD 1"
      using u(4) by (simp add: blk_addr_def same_core_def MAX_ORD_def algebra_simps)
    ultimately show ?thesis
      using u(1,4) True less by (auto simp: init_pages.simps [of "Suc fuel"] MAX_ORD_def same_core_def)
  qed
qed

lemma and_not_4095: "(w :: uint64) AND NOT 4095 = push_bit 12 (drop_bit 12 w)"
proof -
  have m: "(4095 :: uint64) = mask 12" by (simp add: mask_eq_exp_minus_1)
  show ?thesis unfolding m by (rule bit_word_eqI) (auto simp: bit_simps)
qed

lemma align_up_page:
  assumes "x + 4095 < 2 ^ 64"
  shows "align_up (of_nat x) (push_bit MAX_ORD 1) = of_nat ((x + 4095) div 4096 * 4096)"
proof -
  have "align_up (of_nat x) (push_bit MAX_ORD 1) = (of_nat (x + 4095) :: uint64) AND NOT 4095"
    by (simp add: align_up_def MAX_ORD_def add.commute)
  also have "\<dots> = push_bit 12 (of_nat ((x + 4095) div 4096))"
    unfolding and_not_4095 drop_bit_of_nat64 [OF assms] by simp
  finally show ?thesis by (simp add: push_bit_eq_mult mult.commute)
qed

definition init_marks :: "nat \<Rightarrow> nat \<Rightarrow> nat" where
  "init_marks vs ve = (ve - vs) div 131072 + 1"

definition init_heap :: "nat \<Rightarrow> nat \<Rightarrow> nat" where
  "init_heap vs ve = (vs + 1016 * init_marks vs ve + 4095) div 4096 * 4096"

lemma kmem_init2_spec:
  assumes "cpu_ok s" "0 < unat vs" "4096 dvd unat ve" "unat vs \<le> unat ve"
    and "init_marks (unat vs) (unat ve) \<le> 1023" "init_heap (unat vs) (unat ve) \<le> unat ve"
  defines "n0 \<equiv> init_marks (unat vs) (unat ve)" and "h \<equiv> init_heap (unat vs) (unat ve)"
  defines "N \<equiv> (unat ve - h) div 4096"
  shows "\<exists>t. kmem_init2 vs ve s = Ok () t \<and> heap_inv n0 N t \<and> unat (km_start_heap t) = h
    \<and> heap_avail n0 t = {h ..< unat ve} \<and> free_set n0 t = pages N"
proof -
  let ?vs = "unat vs" and ?ve = "unat ve"
  have ve: "?ve < 2 ^ 64" using unsigned_less [of ve, where 'a = nat] by simp
  have h: "4096 dvd h" "?vs + 1016 * n0 \<le> h" by (simp_all add: h_def init_heap_def n0_def)
  then have N: "h + N * 4096 = ?ve"
    unfolding N_def using assms(3,6) h_def by (simp add: dvd_diff_nat dvd_div_mult_self)
  have "?ve + 4096 \<le> 2 ^ 64" using ve assms(3) by (auto simp: dvd_def)
  then have lo: "?vs + 1016 * n0 + 4095 < 2 ^ 64" using h(2) assms(6) unfolding h_def by linarith
  have n64: "n0 * 64 \<le> 65535" using assms(5) by (simp add: n0_def)
  have "?ve - ?vs < 131072 * n0" unfolding n0_def init_marks_def by simp
  then have N32: "N \<le> 32 * n0" using N h(2) by linarith
  define s1 where "s1 = s\<lparr>km_start := vs, km_end := ve\<rparr>"
  have len: "ve - vs = of_nat (?ve - ?vs)" unfolding of_nat_diff [OF assms(4)] by simp
  have n: "drop_bit (MAX_ORD + 5) (ve - vs) + 1 = of_nat n0"
    unfolding len using drop_bit_of_nat64 [of "?ve - ?vs" 17] ve
    by (simp add: MAX_ORD_def n0_def init_marks_def)
  from init_orders_spec [OF _ n64, of 7 s1] obtain q m where qm:
    "init_orders 7 0 (of_nat n0) s1 = (of_nat (n0 * 127), s1\<lparr>orders := q, marks := m\<rparr>)"
    "\<forall>j<7. q j = \<lparr>head = NIL, offset = of_nat (n0 * (2 ^ (6 - j) - 1))\<rparr>"
    "\<forall>l<n0 * 127. m l = empty_mark" by auto
  define s3 where "s3 = s1\<lparr>orders := q, marks := m, km_start_heap := of_nat h\<rparr>"
  have s3: "unat (km_start_heap s3) = h" "0 < km_start_heap s3" "unat (km_end s3) = h + N * 4096" "cpu_ok s3"
    using N ve h(2) assms(1,2) by (simp_all add: s3_def s1_def cpu_ok_def word_less_nat_alt)
  have inv: "buddy_inv n0 N s3" "free_set n0 s3 = {}"
    using initial_heap [OF n64 N32, of s3] qm(2,3) s3 h(1) N ve by (simp_all add: s3_def)
  have al: "align_up (vs + of_nat (n0 * 127) * 8) (push_bit MAX_ORD 1) = of_nat h"
    using align_up_page [OF lo] by (simp add: h_def init_heap_def n0_def)
  have fuel: "unat (drop_bit MAX_ORD (ve - of_nat h)) + 1 = N + 1"
  proof -
    have "ve = of_nat (h + N * 4096)" unfolding N by simp
    then have "ve - of_nat h = of_nat (N * 4096)" by simp
    moreover have "N * 4096 < 2 ^ 64" using N ve by linarith
    ultimately show ?thesis
      using drop_bit_of_nat64 [of "N * 4096" 12] by (simp add: MAX_ORD_def)
  qed
  have eq: "kmem_init2 vs ve s = init_pages (N + 1) (km_start_heap s3) s3"
    unfolding kmem_init2_def s1_def [symmetric] Let_def n
    using qm(1) al fuel by (simp add: N_ORD_def MAX_ORD_def MIN_ORD_def s3_def s1_def)
  have "km_start_heap s3 = blk_addr s3 12 0" by (simp add: blk_addr_def)
  with init_pages_spec [OF inv(1) s3(4), of 0 "N + 1"] inv(2) s3 obtain t where t:
    "init_pages (N + 1) (km_start_heap s3) s3 = Ok () t" "heap_inv n0 N t" "same_core s3 t" "free_set n0 t = pages N"
    by (auto simp: pages_def)
  have st: "unat (km_start_heap t) = h" using t(3) s3(1) by (simp add: same_core_def)
  moreover have "heap_avail n0 t = {h ..< ?ve}"
    unfolding heap_avail_def t(4) pages_bytes st using N by (simp add: image_add_atLeastLessThan lessThan_atLeast0 add.commute)
  ultimately show ?thesis using t eq by auto
qed

section \<open>Orders from sizes\<close>

text \<open>One step of the bit smearing of \<open>get_order\<close>.\<close>

lemma smear_step:
  assumes "\<And>i. bit v i \<longleftrightarrow> (\<exists>d<n. bit w (i + d))" and m: "m = 2 * n"
  shows "bit ((v :: uint) OR drop_bit n v) i \<longleftrightarrow> (\<exists>d<m. bit w (i + d))"
  unfolding m
proof
  assume "bit (v OR drop_bit n v) i"
  then consider d where "d < n" "bit w (i + d)" | d where "d < n" "bit w (i + (n + d))"
    by (auto simp: bit_or_iff bit_drop_bit_eq assms ac_simps)
  then show "\<exists>d<2 * n. bit w (i + d)"
  proof cases
    case 1
    then show ?thesis by (intro exI [of _ d]) simp
  next
    case 2
    then show ?thesis by (intro exI [of _ "n + d"]) simp
  qed
next
  assume "\<exists>d<2 * n. bit w (i + d)"
  then obtain d where d: "d < 2 * n" "bit w (i + d)" by blast
  show "bit (v OR drop_bit n v) i"
  proof (cases "d < n")
    case False
    with d have "d - n < n" "bit w ((n + i) + (d - n))" by auto
    then have "bit v (n + i)" using assms by blast
    then show ?thesis by (simp add: bit_or_iff bit_drop_bit_eq)
  qed (use d assms in \<open>auto simp: bit_or_iff\<close>)
qed

lemma round_up_smear:
  "\<exists>u. round_up_pow2 v = u + 1 \<and> (\<forall>i. bit u i \<longleftrightarrow> (\<exists>d<32. bit (v - 1) (i + d)))"
proof -
  have s0: "bit (v - 1) i \<longleftrightarrow> (\<exists>d<1. bit (v - 1) (i + d))" for i by auto
  define v1 where "v1 = (v - 1) OR drop_bit 1 (v - 1)"
  define v2 where "v2 = v1 OR drop_bit 2 v1"
  define v3 where "v3 = v2 OR drop_bit 4 v2"
  define v4 where "v4 = v3 OR drop_bit 8 v3"
  define v5 where "v5 = v4 OR drop_bit 16 v4"
  have s1: "bit v1 i \<longleftrightarrow> (\<exists>d<2. bit (v - 1) (i + d))" for i unfolding v1_def by (rule smear_step [OF s0]) simp
  have s2: "bit v2 i \<longleftrightarrow> (\<exists>d<4. bit (v - 1) (i + d))" for i unfolding v2_def by (rule smear_step [OF s1]) simp
  have s3: "bit v3 i \<longleftrightarrow> (\<exists>d<8. bit (v - 1) (i + d))" for i unfolding v3_def by (rule smear_step [OF s2]) simp
  have s4: "bit v4 i \<longleftrightarrow> (\<exists>d<16. bit (v - 1) (i + d))" for i unfolding v4_def by (rule smear_step [OF s3]) simp
  have s5: "bit v5 i \<longleftrightarrow> (\<exists>d<32. bit (v - 1) (i + d))" for i unfolding v5_def by (rule smear_step [OF s4]) simp
  have "round_up_pow2 v = v5 + 1"
    unfolding round_up_pow2_def Let_def v5_def v4_def v3_def v2_def v1_def ..
  then show ?thesis using s5 by blast
qed

lemma highest_bit: "0 < (x::nat) \<Longrightarrow> \<exists>m. 2 ^ m \<le> x \<and> x < 2 ^ Suc m"
  using ex_power_ivl1 [of 2 x] by auto

lemma nat_high_bit: "2 ^ m \<le> x \<Longrightarrow> x < 2 ^ Suc m \<Longrightarrow> bit (x::nat) m"
proof -
  assume "2 ^ m \<le> x" "x < 2 ^ Suc m"
  then have "x div 2 ^ m = 1" by (intro div_nat_eqI) auto
  then show "bit x m" by (simp add: bit_iff_odd)
qed

lemma round_up_pow2_spec:
  assumes "0 < v"
  shows "\<exists>k\<le>32. round_up_pow2 v = 2 ^ k \<and> unat v \<le> 2 ^ k \<and> (k = 0 \<or> 2 ^ (k - 1) < unat v)"
proof -
  from round_up_smear [of v] obtain u where u: "round_up_pow2 v = u + 1"
    "\<And>i. bit u i \<longleftrightarrow> (\<exists>d<32. bit (v - 1) (i + d))" by blast
  have x: "unat (v - 1) = unat v - 1" "0 < unat v" using assms by (auto simp: unat_minus_one word_gt_0 unat_gt_0)
  show ?thesis
  proof (cases "unat v = 1")
    case True
    then have "v - 1 = 0" using x by (metis diff_self_eq_0 unsigned_eq_0_iff)
    then have "u = 0" using u(2) by (intro bit_word_eqI) simp
    with u True show ?thesis by (intro exI [of _ 0]) simp
  next
    case False
    with x have "0 < unat (v - 1)" by simp
    then obtain m where m: "2 ^ m \<le> unat (v - 1)" "unat (v - 1) < 2 ^ Suc m" using highest_bit by blast
    have bits: "bit (v - 1) n \<Longrightarrow> n \<le> m" for n
      using bit_nat_less [OF m(2), of n] by (simp add: bit_unsigned_iff)
    have top: "bit (v - 1) m" using nat_high_bit [OF m] by (simp add: bit_unsigned_iff)
    then have "m < 32" using bit_imp_le_length [of "v - 1" m] by simp
    have ui: "bit u i \<longleftrightarrow> i \<le> m" for i
    proof
      assume "bit u i"
      then obtain d where "bit (v - 1) (i + d)" using u(2) by blast
      from bits [OF this] show "i \<le> m" by simp
    next
      assume "i \<le> m" 
      with top have "bit (v - 1) (i + (m - i))" by simp
      moreover have "m - i < 32" using \<open>m < 32\<close> by simp
      ultimately show "bit u i" using u(2) by blast
    qed
    have "u = mask (Suc m)"
      by (rule bit_word_eqI) (simp only: ui bit_mask_iff less_Suc_eq_le, simp)
    then have "round_up_pow2 v = 2 ^ Suc m" unfolding u(1) by (simp add: mask_eq_exp_minus_1)
    moreover have "unat v \<le> 2 ^ Suc m" "2 ^ m < unat v" using m x by linarith+
    ultimately show ?thesis using \<open>m < 32\<close> by (intro exI [of _ "Suc m"]) simp
  qed
qed

lemma find_pow2:
  "k \<le> 32 \<Longrightarrow> (case List.find (\<lambda>i. (2 ^ k :: uint) AND push_bit i 1 \<noteq> 0) [0..<32] of Some i \<Rightarrow> i | None \<Rightarrow> 32) = k"
proof -
  assume k: "k \<le> 32"
  have b: "(2 ^ k :: uint) AND push_bit i 1 \<noteq> 0 \<longleftrightarrow> i = k \<and> k < 32" for i
    unfolding bit_iff_and_push_bit_not_eq_0 [symmetric] by (auto simp: bit_exp_iff)
  show ?thesis
  proof (cases "k = 32")
    case True
    then show ?thesis unfolding b by (simp add: find_None_iff [THEN iffD2])
  next
    case False
    with k have "List.find (\<lambda>i. i = k \<and> k < 32) [0..<32] = Some k"
      unfolding find_Some_iff by (intro exI [of _ k]) auto
    then show ?thesis unfolding b by simp
  qed
qed

lemma round_up_pow2_0: "round_up_pow2 0 = 2 ^ 32"
  by (simp add: round_up_pow2_def Let_def)

section \<open>Allocation fails only without a free block\<close>

lemma blk_range_iff: "x \<in> blk_range k i \<longleftrightarrow> x div 2 ^ k = i"
proof -
  have "x div 2 ^ k = i \<longleftrightarrow> i * 2 ^ k \<le> x \<and> x < Suc i * 2 ^ k"
    using div_nat_eqI [of "2 ^ k" i x] dividend_less_div_times [of "2 ^ k" x] by (auto simp: ac_simps)
  then show ?thesis by (simp add: blk_range_def)
qed

lemma blk_nested:
  assumes "k \<le> k'" "blk_range k i \<inter> blk_range k' i' \<noteq> {}"
  shows "blk_range k i \<subseteq> blk_range k' i'"
proof -
  from assms(2) obtain x where x: "x div 2 ^ k = i" "x div 2 ^ k' = i'"
    unfolding blk_range_iff [symmetric] by blast
  have d: "y div 2 ^ k' = y div 2 ^ k div 2 ^ (k' - k)" for y :: nat
    using assms(1) by (simp flip: power_add add: div_mult2_eq [symmetric])
  show ?thesis using x by (auto simp: blk_range_iff d)
qed

lemma free_block_covers:
  assumes f: "free_ok N F" and "6 \<le> k" "k \<le> 12" "blk_range k i \<subseteq> free_bytes F"
  shows "\<exists>k' i'. k \<le> k' \<and> (k', i') \<in> F \<and> blk_range k i \<subseteq> blk_range k' i'"
  using assms(2-)
proof (induction k arbitrary: i rule: dec_induct)
  case base
  obtain x where x: "x \<in> blk_range 6 i" using blk_range_nonempty by blast
  with base obtain k' i' where "(k', i') \<in> F" "x \<in> blk_range k' i'" by (auto simp: free_bytes_def)
  with x free_okD(1) [OF f] blk_nested [of 6 k' i i'] show ?case by blast
next
  case (step k)
  have sub: "blk_range k (2 * i) \<subseteq> free_bytes F" "blk_range k (2 * i + 1) \<subseteq> free_bytes F"
    using step.prems(2) by (auto simp: blk_range_double)
  from step.IH [OF _ sub(1)] step.prems obtain k1 i1 where 1: "k \<le> k1" "(k1, i1) \<in> F" "blk_range k (2 * i) \<subseteq> blk_range k1 i1" by auto
  from step.IH [OF _ sub(2)] step.prems obtain k2 i2 where 2: "k \<le> k2" "(k2, i2) \<in> F" "blk_range k (2 * i + 1) \<subseteq> blk_range k2 i2" by auto
  have big: "blk_range (Suc k) i \<subseteq> blk_range k' i'"
    if "Suc k \<le> k'" "blk_range k j \<subseteq> blk_range k' i'" "j = 2 * i \<or> j = 2 * i + 1" for k' i' j
    using blk_nested [OF that(1), of i i'] that(2,3) blk_range_nonempty [of k j] by (auto simp: blk_range_double)
  have same: "j = i'" if "blk_range k j \<subseteq> blk_range k i'" for j i'
    using that blk_range_nonempty [of k j] by (auto simp: blk_range_iff subset_iff)
  show ?case
  proof (cases "Suc k \<le> k1 \<or> Suc k \<le> k2")
    case True
    then show ?thesis using big 1 2 by blast
  next
    case False
    then have "k1 = k" "k2 = k" using 1 2 by auto
    with 1 2 same have "(k, 2 * i) \<in> F" "(k, buddy (2 * i)) \<in> F" by (auto simp: buddy_def)
    with free_okD(5) [OF f, of k "2 * i"] step.prems show ?thesis by auto
  qed
qed

section \<open>Properties\<close>

text \<open>A state before \<open>kmem_init2\<close>, for the witnesses: 32 MB of memory after a 1 MB start.\<close>

definition boot_kmem :: kmem where
  "boot_kmem = kcore.extend boot_core \<lparr>km_start = 0, km_start_heap = 0, km_end = 0,
     orders = (\<lambda>_. \<lparr>head = 0, offset = 0\<rparr>), marks = (\<lambda>_. \<lparr>lnks = 0, bitmap = 0\<rparr>)\<rparr>"

lemma boot_kmem_ok: "cpu_ok boot_kmem"
  by (simp add: boot_kmem_def boot_core_def cpu_ok_def kcore.defs)

lemma boot_heap:
  "\<exists>t :: kmem. kmem_init2 0x100000 0x2100000 boot_kmem = Ok () t \<and> heap_inv 257 8128 t \<and> free_set 257 t = pages 8128"
  using kmem_init2_spec [of boot_kmem "0x100000" "0x2100000"] boot_kmem_ok
  by (auto simp: init_marks_def init_heap_def)

lemma boot_alloc:
  "\<exists>(s :: kmem) a t. heap_inv 257 8128 s \<and> kmalloc (int 6) s = Ok a t \<and> a \<noteq> 0"
proof -
  from boot_heap obtain s :: kmem where s: "heap_inv 257 8128 s" "free_set 257 s = pages 8128" by blast
  then have inv: "buddy_inv 257 8128 s" "cpu_ok s" by (auto simp: heap_inv_def)
  have "can_alloc 257 6 s" unfolding can_alloc_def s(2) pages_def by (intro exI [of _ 12] exI [of _ 0]) simp
  with kmalloc_spec [OF inv, of 6] obtain i t where "kmalloc (int 6) s = Ok (blk_addr s 6 i) t" "heap_blk 8128 6 i"
    by auto
  moreover have "geom 257 8128 s" using inv by (simp add: buddy_inv_def)
  ultimately show ?thesis using s(1) blk_addr_neq0(1) by blast
qed

text \<open>C1: live blocks never overlap. Whatever sequence of \<open>kmalloc\<close> and \<open>kfree\<close> calls the
  clients make, the blocks they hold are pairwise disjoint and disjoint from the free
  memory, and blocks and free memory together are exactly the memory that was free at the
  start: no byte is handed out twice and none is lost.\<close>

theorem heap_blocks_disjoint:
  assumes "heap_inv n0 N s0"
    and "client_run (\<lambda>k. kmalloc (int k)) (\<lambda>a k. kfree a (int k)) s0 (s, L)"
  shows "live_ok (heap_avail n0 s0) (heap_avail n0 s) L \<and> heap_inv n0 N s"
  using heap.run_sound [OF assms] by simp

theorem heap_blocks_disjoint_witness:
  "\<exists>(s0 :: kmem) s a. client_run (\<lambda>k. kmalloc (int k)) (\<lambda>a k. kfree a (int k)) s0 (s, {(a, 6)})
     \<and> live_ok (heap_avail 257 s0) (heap_avail 257 s) {(a, 6)} \<and> heap_inv 257 8128 s"
proof -
  from boot_alloc obtain s0 :: kmem and a t where
    s0: "heap_inv 257 8128 s0" "kmalloc (int 6) s0 = Ok a t" "a \<noteq> 0" by blast
  then have run: "client_run (\<lambda>k. kmalloc (int k)) (\<lambda>a k. kfree a (int k)) s0 (t, {(a, 6)})"
    using run_alloc [OF run_start, of 6 "\<lambda>k. kmalloc (int k)" s0 a t "\<lambda>a k. kfree a (int k)"] by simp
  from heap_blocks_disjoint [OF s0(1) run] run show ?thesis by blast
qed

text \<open>C19: no call of a well-behaved client panics: at any point of such a history \<open>kmalloc\<close> of
  an order between 6 and 12 returns, and \<open>kfree\<close> of a block that is live returns.\<close>

theorem heap_never_panics:
  assumes "heap_inv n0 N s0"
    and "client_run (\<lambda>k. kmalloc (int k)) (\<lambda>a k. kfree a (int k)) s0 (s, L)"
  shows "(6 \<le> k \<longrightarrow> k \<le> 12 \<longrightarrow> (\<exists>a t. kmalloc (int k) s = Ok a t))
    \<and> ((a, k) \<in> L \<longrightarrow> (\<exists>t. kfree a (int k) s = Ok () t))"
  by (rule heap.run_progress [OF assms])

theorem heap_never_panics_witness:
  "\<exists>(s0 :: kmem) s a t. client_run (\<lambda>k. kmalloc (int k)) (\<lambda>a k. kfree a (int k)) s0 (s, {(a, 6)})
     \<and> kfree a (int 6) s = Ok () t"
proof -
  from boot_alloc obtain s0 :: kmem and a t where
    s0: "heap_inv 257 8128 s0" "kmalloc (int 6) s0 = Ok a t" "a \<noteq> 0" by blast
  then have run: "client_run (\<lambda>k. kmalloc (int k)) (\<lambda>a k. kfree a (int k)) s0 (t, {(a, 6)})"
    using run_alloc [OF run_start, of 6 "\<lambda>k. kmalloc (int k)" s0 a t "\<lambda>a k. kfree a (int k)"] by simp
  from heap_never_panics [OF s0(1) run, of 6 a] run show ?thesis by blast
qed

text \<open>C9: \<open>kmalloc\<close> fails (returns NULL) only when memory of the requested order is really
  exhausted: it returns a non-null, aligned address exactly if some aligned block of that
  size is entirely free, since merging never leaves two free buddies.\<close>

theorem kmalloc_fails_only_when_full:
  assumes "heap_inv n0 N s" "6 \<le> k" "k \<le> 12"
  shows "\<exists>a t. kmalloc (int k) s = Ok a t \<and> ncli t = ncli s \<and> irq t = irq s
    \<and> (a \<noteq> 0 \<longleftrightarrow> (\<exists>b. heap_block N s b k \<and> mem_range b k \<subseteq> heap_avail n0 s))
    \<and> (a \<noteq> 0 \<longrightarrow> 2 ^ k dvd unat a)"
proof -
  from assms(1) have inv: "buddy_inv n0 N s" "cpu_ok s" "geom n0 N s" "free_ok N (free_set n0 s)"
    by (auto simp: heap_inv_def buddy_inv_def)
  from kmalloc_spec [OF inv(1,2) assms(2,3)] obtain a t where t: "kmalloc (int k) s = Ok a t" "same_core s t"
    and res: "if can_alloc n0 k s
     then \<exists>i. a = blk_addr s k i \<and> heap_blk N k i \<and> blk_range k i \<subseteq> free_bytes (free_set n0 s)
       \<and> free_bytes (free_set n0 t) = free_bytes (free_set n0 s) - blk_range k i
     else a = 0 \<and> free_set n0 t = free_set n0 s" by blast
  have sub: "mem_range (blk_addr s k i) k \<subseteq> heap_avail n0 s \<longleftrightarrow> blk_range k i \<subseteq> free_bytes (free_set n0 s)"
    if "heap_blk N k i" for i
    unfolding mem_range_blk [OF inv(3) that] heap_avail_def by (simp add: inj_image_subset_iff)
  have "a \<noteq> 0 \<longleftrightarrow> (\<exists>b. heap_block N s b k \<and> mem_range b k \<subseteq> heap_avail n0 s)"
  proof (cases "can_alloc n0 k s")
    case True
    with res obtain i where "a = blk_addr s k i" "heap_blk N k i" "blk_range k i \<subseteq> free_bytes (free_set n0 s)" by auto
    with blk_addr_neq0(1) [OF inv(3)] sub show ?thesis unfolding heap_block_def by metis
  next
    case False
    then have "\<not> blk_range k i \<subseteq> free_bytes (free_set n0 s)" for i
      using free_block_covers [OF inv(4) assms(2,3)] unfolding can_alloc_def by metis
    with False res sub show ?thesis by (auto simp: heap_block_def)
  qed
  moreover have "2 ^ k dvd unat a" if "a \<noteq> 0"
    using that res blk_addr_dvd [OF inv(3)] by (auto split: if_splits)
  ultimately show ?thesis using t by (auto simp: same_core_def)
qed

theorem kmalloc_fails_only_when_full_witness:
  "\<exists>(s :: kmem) a t. heap_inv 257 8128 s \<and> kmalloc (int 12) s = Ok a t \<and> ncli t = ncli s \<and> irq t = irq s
    \<and> (a \<noteq> 0 \<longleftrightarrow> (\<exists>b. heap_block 8128 s b 12 \<and> mem_range b 12 \<subseteq> heap_avail 257 s))
    \<and> (a \<noteq> 0 \<longrightarrow> 2 ^ 12 dvd unat a)"
proof -
  from boot_heap obtain s :: kmem where s: "heap_inv 257 8128 s" by blast
  from kmalloc_fails_only_when_full [OF s, of 12] s show ?thesis by auto
qed

text \<open>C28: \<open>kmem_init2\<close> turns the memory from \<open>vs\<close> to \<open>ve\<close> into a heap: after the marks, aligned
  to a page, every byte up to \<open>ve\<close> is free, and the allocator's invariant holds. The
  memory is at most 1023 marks of 32 pages, what the 16-bit links can index.\<close>

theorem kmem_init2_all_free:
  assumes "cpu_ok s" "0 < unat vs" "4096 dvd unat ve" "unat vs \<le> unat ve"
    and "init_marks (unat vs) (unat ve) \<le> 1023" "init_heap (unat vs) (unat ve) \<le> unat ve"
  shows "\<exists>t. kmem_init2 vs ve s = Ok () t
    \<and> heap_inv (init_marks (unat vs) (unat ve)) ((unat ve - init_heap (unat vs) (unat ve)) div 4096) t
    \<and> unat (km_start_heap t) = init_heap (unat vs) (unat ve)
    \<and> heap_avail (init_marks (unat vs) (unat ve)) t = {init_heap (unat vs) (unat ve) ..< unat ve}"
  using kmem_init2_spec [OF assms] by blast

theorem kmem_init2_all_free_witness:
  "\<exists>t :: kmem. kmem_init2 0x100000 0x2100000 boot_kmem = Ok () t \<and> heap_inv 257 8128 t
    \<and> unat (km_start_heap t) = 1310720 \<and> heap_avail 257 t = {1310720 ..< 34603008}"
  using kmem_init2_all_free [of boot_kmem "0x100000" "0x2100000"] boot_kmem_ok
  by (auto simp: init_marks_def init_heap_def)

text \<open>C37: \<open>get_order\<close> returns the least order from 6 up whose block holds \<open>v\<close> bytes, and panics
  for a size of 0 or more than a page.\<close>

theorem get_order_least:
  "get_order v s =
    (if v = 0 \<or> 4096 < unat v then Panic ''order too big!''
     else Ok (LEAST k. 6 \<le> k \<and> unat v \<le> 2 ^ k) s)"
proof (cases "v = 0")
  case True
  then show ?thesis
    using find_pow2 [of 32] unfolding get_order_def Let_def True round_up_pow2_0 by (simp add: MIN_ORD_def MAX_ORD_def)
next
  case False
  then have "0 < v" by (simp add: word_gt_0)
  from round_up_pow2_spec [OF this] obtain k where k: "k \<le> 32" "round_up_pow2 v = 2 ^ k" "unat v \<le> 2 ^ k"
    "k = 0 \<or> 2 ^ (k - 1) < unat v" by blast
  have low: "k \<le> j" if "unat v \<le> 2 ^ j" for j
  proof (rule ccontr)
    assume "\<not> k \<le> j"
    then have "(2::nat) ^ j \<le> 2 ^ (k - 1)" by (intro power_increasing) auto
    moreover have "2 ^ (k - 1) < unat v" using k(4) \<open>\<not> k \<le> j\<close> by auto
    ultimately show False using that by linarith
  qed
  have "k \<le> 12 \<longleftrightarrow> unat v \<le> 4096"
    using low [of 12] k(3) power_increasing [of k 12 "2::nat"] by auto
  moreover have "(LEAST k. 6 \<le> k \<and> unat v \<le> 2 ^ k) = max 6 k"
  proof (rule Least_equality)
    have "unat v \<le> 2 ^ max 6 k"
      using k(3) power_increasing [of k "max 6 k" "2::nat"] by linarith
    then show "6 \<le> max 6 k \<and> unat v \<le> 2 ^ max 6 k" by simp
  qed (use low in auto)
  ultimately show ?thesis
    using False find_pow2 [OF k(1)] unfolding get_order_def Let_def k(2) by (auto simp: MIN_ORD_def MAX_ORD_def max_def)
qed

end
