(* ===== verification/Ring.thy ===== *)
theory Ring
  imports Prelude
begin

text \<open>
  Ring buffers indexed by free-running unsigned counters, as pipes (\<^verbatim>\<open>pipe.c\<close>) and the console
  input (\<^verbatim>\<open>console.c\<close>) use them: the counters wrap around at \<open>2 ^ 32\<close>, and a counter modulo the
  size of the buffer is a position in it. The abstract value is the list of bytes between two
  counters.
\<close>

definition ring_list :: "(uint \<Rightarrow> nat) \<Rightarrow> bytes \<Rightarrow> uint \<Rightarrow> uint \<Rightarrow> uint8 list" where
  "ring_list idx buf lo hi = map (\<lambda>k. buf (idx (lo + of_nat k))) [0..<unat (hi - lo)]"

lemma length_ring_list [simp]: "length (ring_list idx buf lo hi) = unat (hi - lo)"
  by (simp add: ring_list_def)

lemma ring_list_empty [simp]: "ring_list idx buf lo lo = []"
  by (simp add: ring_list_def)

lemma ring_list_Nil_iff: "ring_list idx buf lo hi = [] \<longleftrightarrow> lo = hi"
  by (auto simp: ring_list_def unat_eq_0)

lemma unat_diff_dec: "lo \<noteq> hi \<Longrightarrow> unat (hi - lo) = Suc (unat (hi - lo - 1))" for lo hi :: uint
  by (simp add: unat_minus_one unat_gt_0)

lemma ring_list_first:
  assumes "lo \<noteq> hi"
  shows "ring_list idx buf lo hi = buf (idx lo) # ring_list idx buf (lo + 1) hi"
proof -
  have "hi - (lo + 1) = hi - lo - 1" by simp
  then show ?thesis
    using unat_diff_dec [OF assms] by (simp add: ring_list_def map_upt_Suc del: upt_Suc) (simp add: algebra_simps)
qed

lemma ring_list_last:
  assumes "lo \<noteq> hi"
  shows "ring_list idx buf lo hi = ring_list idx buf lo (hi - 1) @ [buf (idx (hi - 1))]"
proof -
  have "unat (hi - lo - 1) = unat (hi - 1 - lo)" by (simp add: diff_diff_eq add.commute)
  moreover have "lo + of_nat (unat (hi - lo - 1)) = hi - 1" by simp
  ultimately show ?thesis unfolding ring_list_def unat_diff_dec [OF assms] by simp
qed

lemma ring_list_split:
  assumes "unat (mid - lo) \<le> unat (hi - lo)"
  shows "ring_list idx buf lo hi = ring_list idx buf lo mid @ ring_list idx buf mid hi"
proof (rule nth_equalityI)
  have len: "unat (hi - mid) = unat (hi - lo) - unat (mid - lo)"
    using assms unat_sub [of "mid - lo" "hi - lo"] by (simp add: word_le_nat_alt)
  then show "length (ring_list idx buf lo hi) = length (ring_list idx buf lo mid @ ring_list idx buf mid hi)"
    using assms by simp
  fix k assume k: "k < length (ring_list idx buf lo hi)"
  have "mid + of_nat (k - unat (mid - lo)) = lo + of_nat k" if "unat (mid - lo) \<le> k"
    using that by (simp add: of_nat_diff add.commute)
  then show "ring_list idx buf lo hi ! k = (ring_list idx buf lo mid @ ring_list idx buf mid hi) ! k"
    using k len assms by (auto simp: ring_list_def nth_append add.commute)
qed

text \<open>The contract of a buffer of \<open>N\<close> bytes: positions repeat with period \<open>N\<close>, which divides the
  range of the counters.\<close>

locale ring_buffer =
  fixes N :: nat and idx :: "uint \<Rightarrow> nat"
  assumes N_dvd: "N dvd 2 ^ 32"
    and idx_mod: "idx i = unat i mod N"
begin

lemma N_pos: "0 < N"
  using N_dvd by (auto intro: gr0I)

lemma idx_bound: "idx i < N"
  using N_pos by (simp add: idx_mod)

lemma idx_add: "idx (lo + of_nat k) = (unat lo + k) mod N"
proof -
  have "unat (lo + of_nat k) = (unat lo + k) mod 2 ^ 32"
    by (simp add: unat_word_ariths(1) unat_of_nat mod_add_right_eq)
  then show ?thesis using N_dvd by (simp add: idx_mod mod_mod_cancel)
qed

lemma idx_fresh:
  assumes "k < unat (hi - lo)" and "unat (hi - lo) < N"
  shows "idx (lo + of_nat k) \<noteq> idx hi"
proof
  assume eq: "idx (lo + of_nat k) = idx hi"
  have "idx hi = idx (lo + of_nat (unat (hi - lo)))" by simp
  then have "(unat lo + k) mod N = (unat lo + unat (hi - lo)) mod N" using eq by (simp only: idx_add)
  then obtain q where "unat lo + unat (hi - lo) = unat lo + k + N * q"
    using mod_eq_nat1E [of "unat lo + unat (hi - lo)" N "unat lo + k"] assms(1) by auto
  then show False using assms by (cases q) auto
qed

lemma ring_list_push:
  assumes "unat (hi - lo) < N" and "unat (hi - lo) + 1 < 2 ^ 32"
  shows "ring_list idx (buf(idx hi := c)) lo (hi + 1) = ring_list idx buf lo hi @ [c]"
proof -
  have "unat (hi - lo + 1) = Suc (unat (hi - lo))"
    using assms(2) by (simp add: unat_word_ariths(1))
  then have "unat (hi + 1 - lo) = Suc (unat (hi - lo))" by (simp add: algebra_simps)
  then show ?thesis
    using idx_fresh [OF _ assms(1)] by (simp add: ring_list_def)
qed

end

end
