(* ===== verification/Pipe_Props.thy ===== *)
theory Pipe_Props
  imports Boot_State Ring
begin

text \<open>
  A pipe implements a bounded queue of bytes. The abstract value of a pipe is the list of
  the bytes between its two counters; \<open>pipewrite\<close> appends to it, \<open>piperead\<close> removes a prefix,
  and the counters may wrap around any number of times. \<open>byte_stream\<close> is the interface a
  client of such a queue relies on, interpreted on the pipe routines.
\<close>

section \<open>The abstract queue\<close>

lemma pipe_idx_mod: "pipe_idx i = unat i mod PIPESIZE"
  by (simp add: pipe_idx_def PIPESIZE_def unat_mod)

interpretation pr: ring_buffer PIPESIZE pipe_idx
  by unfold_locales (simp_all add: pipe_idx_mod PIPESIZE_def)

definition pipe_list :: "pipe \<Rightarrow> uint8 list" where
  "pipe_list x = ring_list pipe_idx (pp_data x) (pp_nread x) (pp_nwrite x)"

definition pipe_ok :: "pipe \<Rightarrow> bool" where
  "pipe_ok x \<longleftrightarrow> length (pipe_list x) \<le> PIPESIZE"

lemma pipe_full_iff: "pp_nwrite x = pp_nread x + of_nat PIPESIZE \<longleftrightarrow> length (pipe_list x) = PIPESIZE"
proof -
  have "pp_nwrite x = pp_nread x + of_nat PIPESIZE \<longleftrightarrow> pp_nwrite x - pp_nread x = of_nat PIPESIZE"
    by (simp add: diff_eq_eq add.commute)
  then show ?thesis by (simp add: pipe_list_def word_unat_eq_iff PIPESIZE_def)
qed

definition pipe_push :: "uint8 \<Rightarrow> pipe \<Rightarrow> pipe" where
  "pipe_push c x = x\<lparr>pp_data := (pp_data x)(pipe_idx (pp_nwrite x) := c), pp_nwrite := pp_nwrite x + 1\<rparr>"

lemma pipe_list_push: "length (pipe_list x) < PIPESIZE \<Longrightarrow> pipe_list (pipe_push c x) = pipe_list x @ [c]"
  using pr.ring_list_push [of "pp_nwrite x" "pp_nread x" "pp_data x" c]
  by (simp add: pipe_list_def pipe_push_def PIPESIZE_def)

lemma pipe_list_pop:
  "pp_nread x \<noteq> pp_nwrite x \<Longrightarrow>
   pipe_list x = pp_data x (pipe_idx (pp_nread x)) # pipe_list (x\<lparr>pp_nread := pp_nread x + 1\<rparr>)"
  by (simp add: pipe_list_def ring_list_first)

lemma pipe_list_Nil_iff: "pipe_list x = [] \<longleftrightarrow> pp_nread x = pp_nwrite x"
  by (simp add: pipe_list_def ring_list_Nil_iff)

section \<open>Writing\<close>

abbreviation push_all :: "uint8 list \<Rightarrow> pipe \<Rightarrow> pipe" where "push_all \<equiv> fold pipe_push"

lemma push_all_list:
  "length (pipe_list x) + length cs \<le> PIPESIZE \<Longrightarrow> pipe_list (push_all cs x) = pipe_list x @ cs"
  by (induction cs arbitrary: x) (simp_all add: pipe_list_push)

lemma push_all_open [simp]:
  "pp_readopen (push_all cs x) = pp_readopen x" "pp_writeopen (push_all cs x) = pp_writeopen x"
  "pp_nread (push_all cs x) = pp_nread x"
  by (induction cs arbitrary: x) (simp_all add: pipe_push_def)

lemma upd_pipe_upd_pipe: "upd_pipe p g (upd_pipe p f s) = upd_pipe p (\<lambda>x. g (f x)) s"
  by (simp add: upd_pipe_def)

lemma pipewrite_loop_push:
  "length (pipe_list (pipes s p)) + length cs \<le> PIPESIZE \<Longrightarrow>
   pipewrite_loop p n (cs @ ds) s = pipewrite_loop p n ds (upd_pipe p (push_all cs) s)"
proof (induction cs arbitrary: s)
  case Nil
  then show ?case by (simp add: upd_pipe_def id_def)
next
  case (Cons c cs)
  let ?s = "upd_pipe p (pipe_push c) s"
  have "pipewrite_loop p n ((c # cs) @ ds) s = pipewrite_loop p n (cs @ ds) ?s"
    using Cons.prems by (simp add: pipe_full_iff pipe_push_def [abs_def] Let_def)
  also have "\<dots> = pipewrite_loop p n ds (upd_pipe p (push_all cs) ?s)"
    using Cons by (simp add: upd_pipe_def pipe_list_push)
  finally show ?case by (simp add: upd_pipe_upd_pipe)
qed

text \<open>What a critical section on a pipe leaves of the rest of the state.\<close>

definition pipe_step :: "uint64 \<Rightarrow> chan \<Rightarrow> 'z kfile_scheme \<Rightarrow> 'z kfile_scheme \<Rightarrow> bool" where
  "pipe_step p ch s t \<longleftrightarrow>
     (\<forall>q. q \<noteq> p \<longrightarrow> pipes t q = pipes s q) \<and> ptable t = wake (Some ch) (ptable s)
     \<and> ncli t = ncli s \<and> irq t = irq s \<and> cproc t = cproc s \<and> ftable t = ftable s
     \<and> pp_readopen (pipes t p) = pp_readopen (pipes s p) \<and> pp_writeopen (pipes t p) = pp_writeopen (pipes s p)"

lemma pipe_section:
  assumes "cpu_ok s"
  shows "\<exists>t. andthen (wakeup ch (upd_pipe p g (acquire (Lk_pipe p) s))) (\<lambda>_ s1. release (Lk_pipe p) s1) = Ok () t
    \<and> pipes t = (pipes s)(p := g (pipes s p)) \<and> ptable t = wake (Some ch) (ptable s)
    \<and> ncli t = ncli s \<and> irq t = irq s \<and> cproc t = cproc s \<and> ftable t = ftable s"
proof -
  have "cpu_ok (upd_pipe p g (acquire (Lk_pipe p) s))"
    using assms by (simp add: upd_pipe_def lock_simps cpu_ok_def)
  then show ?thesis
    using assms by (auto simp: wakeup_update upd_pipe_def lock_simps cpu_ok_def)
qed

lemma andthen_unit: "m = Ok () t \<Longrightarrow> andthen m (\<lambda>_ s. f s) = f t"
  by simp

lemma pipewrite_spec:
  assumes "cpu_ok s" and "length (pipe_list (pipes s p)) + nat n \<le> PIPESIZE"
  shows "\<exists>t. pipewrite p addr n s = Ok n t \<and> pipe_step p (Ch_nread p) s t
    \<and> pipe_list (pipes t p) = pipe_list (pipes s p) @ map addr [0..<nat n]"
proof -
  let ?cs = "map addr [0..<nat n]"
  have a: "pipes (acquire (Lk_pipe p) s) = pipes s" by (simp add: lock_simps)
  obtain t where t: "andthen (wakeup (Ch_nread p) (upd_pipe p (push_all ?cs) (acquire (Lk_pipe p) s)))
      (\<lambda>_ s1. release (Lk_pipe p) s1) = Ok () t" "pipes t = (pipes s)(p := push_all ?cs (pipes s p))"
    "ptable t = wake (Some (Ch_nread p)) (ptable s)" "ncli t = ncli s" "irq t = irq s" "cproc t = cproc s" "ftable t = ftable s"
    using pipe_section [OF assms(1)] by blast
  have "pipewrite p addr n s = pipewrite_loop p n [] (upd_pipe p (push_all ?cs) (acquire (Lk_pipe p) s))"
    using pipewrite_loop_push [of "acquire (Lk_pipe p) s" p ?cs n "[]"] assms(2) by (simp add: pipewrite_def a)
  also have "\<dots> = Ok n t"
    using t(1) by (simp add: andthen_assoc [symmetric])
  finally show ?thesis
    using t assms(2) by (auto simp: pipe_step_def push_all_list)
qed

section \<open>Reading\<close>

definition pipe_drop :: "nat \<Rightarrow> pipe \<Rightarrow> pipe" where
  "pipe_drop n x = x\<lparr>pp_nread := pp_nread x + of_nat (min n (length (pipe_list x)))\<rparr>"

lemma pipe_drop_0 [simp]: "pipe_drop 0 x = x"
  by (simp add: pipe_drop_def)

lemma pipe_drop_Nil: "pipe_list x = [] \<Longrightarrow> pipe_drop n x = x"
  by (simp add: pipe_drop_def)

lemma pipe_drop_open [simp]: "pp_readopen (pipe_drop n x) = pp_readopen x" "pp_writeopen (pipe_drop n x) = pp_writeopen x"
  by (simp_all add: pipe_drop_def)

lemma pipe_drop_Suc:
  assumes "pp_nread x \<noteq> pp_nwrite x"
  shows "pipe_drop (Suc n) x = pipe_drop n (x\<lparr>pp_nread := pp_nread x + 1\<rparr>)"
  using pipe_list_pop [OF assms] by (simp add: pipe_drop_def algebra_simps)

lemma pipe_list_drop: "pipe_list (pipe_drop n x) = drop n (pipe_list x)"
proof (induction n arbitrary: x)
  case (Suc n)
  show ?case
    by (cases "pp_nread x = pp_nwrite x")
      (simp_all add: pipe_drop_Nil pipe_list_Nil_iff [THEN iffD2] pipe_drop_Suc Suc pipe_list_pop [of x])
qed simp

lemma upd_pipe_same: "upd_pipe p g s = upd_pipe p h s" if "g (pipes s p) = h (pipes s p)"
  using that by (simp add: upd_pipe_def)

lemma piperead_copy_spec:
  "piperead_copy p n acc s = (acc @ take n (pipe_list (pipes s p)), upd_pipe p (pipe_drop n) s)"
proof (induction n arbitrary: acc s)
  case 0
  then show ?case by (simp add: upd_pipe_def)
next
  case (Suc n)
  let ?x = "pipes s p" and ?s = "upd_pipe p (\<lambda>x. x\<lparr>pp_nread := pp_nread x + 1\<rparr>) s"
  show ?case
  proof (cases "pp_nread ?x = pp_nwrite ?x")
    case True
    then have "pipe_list ?x = []" by (simp add: pipe_list_Nil_iff)
    then show ?thesis using True by (simp add: upd_pipe_def pipe_drop_Nil)
  next
    case False
    have "pipe_list ?x = pp_data ?x (pipe_idx (pp_nread ?x)) # pipe_list (pipes ?s p)"
      using pipe_list_pop [OF False] by (simp add: upd_pipe_def)
    moreover have "upd_pipe p (pipe_drop n) ?s = upd_pipe p (pipe_drop (Suc n)) s"
      using pipe_drop_Suc [OF False] by (simp add: upd_pipe_def)
    ultimately show ?thesis
      using False Suc [of "acc @ [pp_data ?x (pipe_idx (pp_nread ?x))]" ?s] by (simp add: Let_def)
  qed
qed

lemma piperead_spec:
  assumes "cpu_ok s" and "pipe_list (pipes s p) \<noteq> [] \<or> \<not> pp_writeopen (pipes s p)"
  shows "\<exists>t. piperead p n s = Ok (int (length (take (nat n) (pipe_list (pipes s p)))), take (nat n) (pipe_list (pipes s p))) t
    \<and> pipe_step p (Ch_nwrite p) s t \<and> pipe_list (pipes t p) = drop (nat n) (pipe_list (pipes s p))"
proof -
  let ?s = "acquire (Lk_pipe p) s" and ?l = "pipe_list (pipes s p)"
  have a: "pipes ?s = pipes s" by (simp add: lock_simps)
  let ?g = "pipe_drop (nat n)"
  have c: "piperead_copy p (nat n) [] ?s = (take (nat n) ?l, upd_pipe p ?g ?s)"
    by (simp add: piperead_copy_spec a)
  obtain t where t: "andthen (wakeup (Ch_nwrite p) (upd_pipe p ?g ?s)) (\<lambda>_ s1. release (Lk_pipe p) s1) = Ok () t"
    "pipes t = (pipes s)(p := ?g (pipes s p))" "ptable t = wake (Some (Ch_nwrite p)) (ptable s)"
    "ncli t = ncli s" "irq t = irq s" "cproc t = cproc s" "ftable t = ftable s"
    using pipe_section [OF assms(1)] by blast
  have "\<not> (pp_nread (pipes s p) = pp_nwrite (pipes s p) \<and> pp_writeopen (pipes s p))"
    using assms(2) by (simp add: pipe_list_Nil_iff)
  then have "piperead p n s = andthen (wakeup (Ch_nwrite p) (upd_pipe p ?g ?s)) (\<lambda>_ s2.
      andthen (release (Lk_pipe p) s2) (\<lambda>_ s3. Ok (int (length (take (nat n) ?l)), take (nat n) ?l) s3))"
    unfolding piperead_def piperead_loop_def a c Let_def by (simp only: if_False prod.case)
  also have "\<dots> = Ok (int (length (take (nat n) ?l)), take (nat n) ?l) t"
    using t(1) by (simp only: andthen_assoc [symmetric] andthen_unit)
  finally show ?thesis
    using t by (auto simp: pipe_step_def pipe_list_drop)
qed

section \<open>A pipe as a stream of bytes\<close>

text \<open>The interface of a first-in first-out stream: a transfer that does not wait appends its
  bytes, or delivers and removes the oldest ones.\<close>

datatype stream_op = Put "uint8 list" | Get nat

text \<open>Run transfers one after the other: all bytes put, all bytes got, and the final state,
  or \<open>None\<close> if one of them does not complete.\<close>

fun stream_run :: "(uint8 list \<Rightarrow> 's \<Rightarrow> 's option) \<Rightarrow> (nat \<Rightarrow> 's \<Rightarrow> (uint8 list \<times> 's) option) \<Rightarrow> stream_op list \<Rightarrow> 's
    \<Rightarrow> (uint8 list \<times> uint8 list \<times> 's) option" where
  "stream_run put get [] s = Some ([], [], s)"
| "stream_run put get (Put cs # ops) s =
     (case put cs s of None \<Rightarrow> None | Some t \<Rightarrow> map_option (\<lambda>(w, r, u). (cs @ w, r, u)) (stream_run put get ops t))"
| "stream_run put get (Get n # ops) s =
     (case get n s of None \<Rightarrow> None | Some (cs, t) \<Rightarrow> map_option (\<lambda>(w, r, u). (w, cs @ r, u)) (stream_run put get ops t))"

locale byte_stream =
  fixes contents :: "'s \<Rightarrow> uint8 list" and ok :: "'s \<Rightarrow> bool" and capacity :: nat
    and put :: "uint8 list \<Rightarrow> 's \<Rightarrow> 's option" and get :: "nat \<Rightarrow> 's \<Rightarrow> (uint8 list \<times> 's) option"
  assumes put_appends: "ok s \<Longrightarrow> put cs s = Some t \<Longrightarrow> ok t \<and> contents t = contents s @ cs"
    and put_completes: "ok s \<Longrightarrow> length (contents s) + length cs \<le> capacity \<Longrightarrow> \<exists>t. put cs s = Some t"
    and get_removes: "ok s \<Longrightarrow> get n s = Some (cs, t) \<Longrightarrow> ok t \<and> contents s = cs @ contents t"
    and get_completes: "ok s \<Longrightarrow> contents s \<noteq> [] \<Longrightarrow> \<exists>t. get n s = Some (take n (contents s), t)"
begin

lemma fifo:
  "ok s \<Longrightarrow> stream_run put get ops s = Some (w, r, t) \<Longrightarrow> ok t \<and> contents s @ w = r @ contents t"
proof (induction ops arbitrary: s w r)
  case (Cons a ops)
  show ?case
  proof (cases a)
    case (Put cs)
    then obtain u w' where u: "put cs s = Some u" "stream_run put get ops u = Some (w', r, t)" "w = cs @ w'"
      using Cons.prems(2) by (auto split: option.splits)
    note p = put_appends [OF Cons.prems(1) u(1)]
    with Cons.IH [OF _ u(2)] u(3) show ?thesis by simp
  next
    case (Get n)
    then obtain u cs r' where u: "get n s = Some (cs, u)" "stream_run put get ops u = Some (w, r', t)" "r = cs @ r'"
      using Cons.prems(2) by (auto split: option.splits)
    note p = get_removes [OF Cons.prems(1) u(1)]
    with Cons.IH [OF _ u(2)] u(3) show ?thesis by simp
  qed
qed simp

lemma put_get:
  assumes "ok s" "contents s = []" "cs \<noteq> []" "length cs \<le> capacity" "length cs \<le> n"
  shows "\<exists>t. stream_run put get [Put cs, Get n] s = Some (cs, cs, t) \<and> contents t = []"
proof -
  obtain u where u: "put cs s = Some u" using put_completes [of s cs] assms by auto
  with put_appends [OF assms(1) u] assms(2) have c: "ok u" "contents u = cs" by simp_all
  then obtain t where t: "get n u = Some (cs, t)" using get_completes [of u n] assms(3,5) by fastforce
  then have "contents t = []" using get_removes [OF c(1) t] c(2) by simp
  with t u show ?thesis by simp
qed

end

definition pipe_put :: "uint64 \<Rightarrow> uint8 list \<Rightarrow> 'z kfile_scheme \<Rightarrow> 'z kfile_scheme option" where
  "pipe_put p cs s = (case pipewrite p (\<lambda>i. cs ! i) (int (length cs)) s of Ok r t \<Rightarrow> if r = int (length cs) then Some t else None | _ \<Rightarrow> None)"

definition pipe_get :: "uint64 \<Rightarrow> nat \<Rightarrow> 'z kfile_scheme \<Rightarrow> (uint8 list \<times> 'z kfile_scheme) option" where
  "pipe_get p n s = (case piperead p (int n) s of Ok (r, cs) t \<Rightarrow> if 0 \<le> r then Some (cs, t) else None | _ \<Rightarrow> None)"

definition pipe_ready :: "uint64 \<Rightarrow> 'z kfile_scheme \<Rightarrow> bool" where
  "pipe_ready p s \<longleftrightarrow> cpu_ok s \<and> pipe_ok (pipes s p)"

lemma pipe_step_cpu_ok: "pipe_step p ch s t \<Longrightarrow> cpu_ok t = cpu_ok s"
  by (simp add: pipe_step_def cpu_ok_def)

lemma blocked_not_Ok: "blocked m \<noteq> Ok x t"
  by (cases m) (simp_all add: blocked_def)

text \<open>With too little room, the bytes that fit are stored and the writer stops at a full pipe.\<close>

lemma pipewrite_fill:
  assumes "pipe_ok (pipes s p)" "PIPESIZE < length (pipe_list (pipes s p)) + nat n"
  defines "k \<equiv> PIPESIZE - length (pipe_list (pipes s p))"
  shows "\<exists>c cs. pipewrite p addr n s = pipewrite_loop p n (c # cs) (upd_pipe p (push_all (map addr [0..<k])) (acquire (Lk_pipe p) s))"
    and "pipe_list (push_all (map addr [0..<k]) (pipes s p)) = pipe_list (pipes s p) @ map addr [0..<k]"
    and "length (pipe_list (push_all (map addr [0..<k]) (pipes s p))) = PIPESIZE"
proof -
  have k: "k < nat n" "length (pipe_list (pipes s p)) + k = PIPESIZE" using assms by (auto simp: pipe_ok_def)
  have a: "pipes (acquire (Lk_pipe p) s) = pipes s" by (simp add: lock_simps)
  have "map addr [0..<nat n] = map addr [0..<k] @ map addr [k..<nat n]"
    using k(1) upt_add_eq_append [of 0 k "nat n - k"] by (simp flip: map_append)
  moreover have "map addr [k..<nat n] = addr k # map addr [Suc k..<nat n]" using k(1) by (simp add: upt_conv_Cons)
  ultimately have "map addr [0..<nat n] = map addr [0..<k] @ (addr k # map addr [Suc k..<nat n])" by simp
  then show "\<exists>c cs. pipewrite p addr n s = pipewrite_loop p n (c # cs) (upd_pipe p (push_all (map addr [0..<k])) (acquire (Lk_pipe p) s))"
    using pipewrite_loop_push [of "acquire (Lk_pipe p) s" p "map addr [0..<k]" n] k(2) a
    unfolding pipewrite_def by (metis diff_zero le_refl length_map length_upt)
  show "pipe_list (push_all (map addr [0..<k]) (pipes s p)) = pipe_list (pipes s p) @ map addr [0..<k]"
    using k(2) by (intro push_all_list) simp
  then show "length (pipe_list (push_all (map addr [0..<k]) (pipes s p))) = PIPESIZE" using k(2) by simp
qed

lemma pipewrite_no_room:
  assumes "pipe_ok (pipes s p)" "PIPESIZE < length (pipe_list (pipes s p)) + nat n" "pipewrite p addr n s = Ok r t"
  shows "r = - 1"
proof -
  note f = pipewrite_fill [OF assms(1,2), of addr]
  have a: "pipes (acquire (Lk_pipe p) s) = pipes s" by (simp add: lock_simps)
  let ?x = "upd_pipe p (push_all (map addr [0..<PIPESIZE - length (pipe_list (pipes s p))])) (acquire (Lk_pipe p) s)"
  have "length (pipe_list (pipes ?x p)) = PIPESIZE" using f(3) by (simp add: upd_pipe_def a)
  moreover obtain c cs where "pipewrite_loop p n (c # cs) ?x = Ok r t" using f(1) assms(3) by force
  ultimately show ?thesis
    by (auto simp: pipe_full_iff Let_def andthen_Ok_iff blocked_not_Ok split: if_splits)
qed

lemma piperead_empty:
  assumes "pipe_list (pipes s p) = []" "pp_writeopen (pipes s p)" "piperead p n s = Ok (r, cs) t"
  shows "r = - 1"
proof -
  have a: "pipes (acquire (Lk_pipe p) s) = pipes s" by (simp add: lock_simps)
  from assms(1) have "pp_nread (pipes s p) = pp_nwrite (pipes s p)" by (simp add: pipe_list_Nil_iff)
  with assms(2,3) show ?thesis
    by (auto simp: piperead_def piperead_loop_def a Let_def andthen_Ok_iff blocked_not_Ok split: if_splits option.splits)
qed

lemma pipe_put_appends:
  assumes "pipe_ready p s" "pipe_put p cs s = Some t"
  shows "pipe_ready p t \<and> pipe_list (pipes t p) = pipe_list (pipes s p) @ cs"
proof -
  have w: "pipewrite p (\<lambda>i. cs ! i) (int (length cs)) s = Ok (int (length cs)) t"
    using assms(2) by (auto simp: pipe_put_def split: outcome.splits if_splits)
  then have room: "length (pipe_list (pipes s p)) + nat (int (length cs)) \<le> PIPESIZE"
    using pipewrite_no_room [OF _ _ w] assms(1) by (force simp: pipe_ready_def)
  with pipewrite_spec [OF _ room, of "\<lambda>i. cs ! i"] assms(1) w
  have "pipe_step p (Ch_nread p) s t" "pipe_list (pipes t p) = pipe_list (pipes s p) @ cs"
    by (auto simp: pipe_ready_def map_nth)
  with room assms(1) show ?thesis by (auto simp: pipe_ready_def pipe_step_cpu_ok pipe_ok_def)
qed

lemma pipe_get_removes:
  assumes "pipe_ready p s" "pipe_get p n s = Some (cs, t)"
  shows "pipe_ready p t \<and> pipe_list (pipes s p) = cs @ pipe_list (pipes t p)"
proof -
  obtain r where r: "piperead p (int n) s = Ok (r, cs) t" "0 \<le> r"
    using assms(2) by (auto simp: pipe_get_def split: outcome.splits if_splits)
  then have "pipe_list (pipes s p) \<noteq> [] \<or> \<not> pp_writeopen (pipes s p)" using piperead_empty [OF _ _ r(1)] by force
  with piperead_spec [of s p "int n"] assms(1) r(1)
  have "pipe_step p (Ch_nwrite p) s t" "cs = take n (pipe_list (pipes s p))" "pipe_list (pipes t p) = drop n (pipe_list (pipes s p))"
    by (auto simp: pipe_ready_def)
  with assms(1) show ?thesis by (auto simp: pipe_ready_def pipe_step_cpu_ok pipe_ok_def)
qed

interpretation pipe_stream: byte_stream "\<lambda>s. pipe_list (pipes s p)" "pipe_ready p" PIPESIZE "pipe_put p" "pipe_get p"
proof
  fix s t :: "'z kfile_scheme" and cs n
  show "pipe_ready p s \<Longrightarrow> pipe_put p cs s = Some t \<Longrightarrow> pipe_ready p t \<and> pipe_list (pipes t p) = pipe_list (pipes s p) @ cs"
    by (rule pipe_put_appends)
  show "pipe_ready p s \<Longrightarrow> pipe_get p n s = Some (cs, t) \<Longrightarrow> pipe_ready p t \<and> pipe_list (pipes s p) = cs @ pipe_list (pipes t p)"
    by (rule pipe_get_removes)
  show "\<exists>t. pipe_put p cs s = Some t" if "pipe_ready p s" "length (pipe_list (pipes s p)) + length cs \<le> PIPESIZE"
    using pipewrite_spec [of s p "int (length cs)" "\<lambda>i. cs ! i"] that by (auto simp: pipe_ready_def pipe_put_def)
  show "\<exists>t. pipe_get p n s = Some (take n (pipe_list (pipes s p)), t)" if "pipe_ready p s" "pipe_list (pipes s p) \<noteq> []"
    using piperead_spec [of s p "int n"] that by (auto simp: pipe_ready_def pipe_get_def)
qed

section \<open>Properties\<close>

text \<open>C6: A pipe is a first-in first-out stream. For every sequence of writes and reads that
  complete, on a pipe that holds at most \<open>PIPESIZE\<close> bytes, the bytes buffered at the start
  followed by all bytes written are the bytes read followed by the bytes still buffered,
  however often the 32-bit counters wrap around; and the bound is kept.\<close>

theorem pipe_fifo:
  assumes "pipe_ready p s" and "stream_run (pipe_put p) (pipe_get p) ops s = Some (w, r, t)"
  shows "pipe_list (pipes s p) @ w = r @ pipe_list (pipes t p) \<and> length (pipe_list (pipes t p)) \<le> PIPESIZE"
  using pipe_stream.fifo [OF assms] by (simp add: pipe_ready_def pipe_ok_def)

definition wrap_pipe :: kfile where
  "wrap_pipe = boot_file\<lparr>pipes := (\<lambda>_. \<lparr>pp_data = (\<lambda>_. 0), pp_nread = - 2, pp_nwrite = - 2, pp_readopen = True, pp_writeopen = True\<rparr>)\<rparr>"

lemma wrap_pipe_ready: "pipe_ready 64 wrap_pipe" "pipe_list (pipes wrap_pipe 64) = []" "pipes wrap_pipe 64 = \<lparr>pp_data = (\<lambda>_. 0),
    pp_nread = - 2, pp_nwrite = - 2, pp_readopen = True, pp_writeopen = True\<rparr>"
  by (simp_all add: pipe_ready_def wrap_pipe_def cpu_ok_def pipe_ok_def pipe_list_def)

theorem pipe_fifo_witness:
  "\<exists>t. stream_run (pipe_put 64) (pipe_get 64) [Put [1, 2, 3, 4], Get 9] wrap_pipe = Some ([1, 2, 3, 4], [1, 2, 3, 4], t)
    \<and> pipe_list (pipes wrap_pipe 64) @ [1, 2, 3, 4] = [1, 2, 3, 4] @ pipe_list (pipes t 64) \<and> length (pipe_list (pipes t 64)) \<le> PIPESIZE"
proof -
  obtain t where t: "stream_run (pipe_put 64) (pipe_get 64) [Put [1, 2, 3, 4], Get 9] wrap_pipe = Some ([1, 2, 3, 4], [1, 2, 3, 4], t)"
    using pipe_stream.put_get [OF wrap_pipe_ready(1,2), of "[1, 2, 3, 4]" 9] by (auto simp: PIPESIZE_def)
  from pipe_fifo [OF wrap_pipe_ready(1) t] t show ?thesis by blast
qed

text \<open>C26: A writer that finds too little room stores exactly the bytes that fill the pipe, wakes
  every reader that waits on it, and sleeps on \<open>nwrite\<close>; it never overwrites a byte that has
  not been read. If the read end is closed it returns -1 instead.\<close>

theorem pipe_full_writer_sleeps:
  assumes "pipe_ok (pipes s p)" and "PIPESIZE < length (pipe_list (pipes s p)) + nat n"
    and "cproc s = Some me" and "ncli s = 0" and "pp_readopen (pipes s p)"
  shows "\<exists>t. pipewrite p addr n s = Swtch t
    \<and> pipe_list (pipes t p) = pipe_list (pipes s p) @ map addr [0..<PIPESIZE - length (pipe_list (pipes s p))]
    \<and> length (pipe_list (pipes t p)) = PIPESIZE
    \<and> p_state (ptable t me) = SLEEPING \<and> p_chan (ptable t me) = Some (Ch_nwrite p)
    \<and> (\<forall>q<NPROC. q \<noteq> me \<longrightarrow> p_state (ptable t q) = SLEEPING \<longrightarrow> p_chan (ptable t q) \<noteq> Some (Ch_nread p))"
proof -
  let ?g = "push_all (map addr [0..<PIPESIZE - length (pipe_list (pipes s p))])"
  let ?x = "upd_pipe p ?g (acquire (Lk_pipe p) s)"
  note f = pipewrite_fill [OF assms(1,2), of addr]
  have a: "pipes ?x p = ?g (pipes s p)" by (simp add: upd_pipe_def lock_simps)
  then have full: "pp_nwrite (pipes ?x p) = pp_nread (pipes ?x p) + of_nat PIPESIZE"
    unfolding pipe_full_iff by (simp only: f(3))
  have ok: "cpu_ok ?x" "ncli ?x = 1" "\<not> irq ?x" "cproc ?x = Some me" "locked ?x (Lk_pipe p)"
    using assms by (simp_all add: upd_pipe_def lock_simps cpu_ok_def)
  obtain y where y: "wakeup (Ch_nread p) ?x = Ok () y" "in_section (Lk_pipe p) me y" "pipes y = pipes ?x"
    "ptable y = wake (Some (Ch_nread p)) (ptable ?x)"
    using ok by (auto simp: wakeup_update in_section_def)
  from sleep_switches [OF y(2), of "Ch_nwrite p"] obtain t where t: "sleep (Ch_nwrite p) (Some (Lk_pipe p)) y = Swtch t"
    "ptable t = (ptable y)(me := (ptable y me)\<lparr>p_chan := Some (Ch_nwrite p), p_state := SLEEPING, p_intena := intena y\<rparr>)"
    "kcore.more t = kcore.more y" by blast
  have "pipes t = pipes y" using t(3) by (cases t; cases y) simp
  moreover obtain c cs where "pipewrite p addr n s = pipewrite_loop p n (c # cs) ?x" using f(1) by blast
  then have "pipewrite p addr n s = Swtch t"
    using full assms(5) y(1) t(1) by (simp add: a Let_def blocked_def)
  ultimately show ?thesis
    using t(2) y(3,4) a f(2,3) by (auto simp: wake_def)
qed

theorem pipe_full_writer_sleeps_witness:
  "\<exists>t. pipewrite 64 (\<lambda>i. of_nat i) 600 wrap_pipe = Swtch t
    \<and> pipe_list (pipes t 64) = map (\<lambda>i. of_nat i) [0..<512] \<and> p_chan (ptable t 0) = Some (Ch_nwrite 64)"
proof -
  have s: "cproc wrap_pipe = Some 0" "ncli wrap_pipe = 0" by (simp_all add: wrap_pipe_def)
  have "pipe_ok (pipes wrap_pipe 64)" "PIPESIZE < length (pipe_list (pipes wrap_pipe 64)) + nat 600" "pp_readopen (pipes wrap_pipe 64)"
    using wrap_pipe_ready by (simp_all add: pipe_ready_def PIPESIZE_def)
  from pipe_full_writer_sleeps [OF this(1,2) s this(3), of "\<lambda>i. of_nat i"] show ?thesis
    unfolding wrap_pipe_ready(2) by (auto simp: PIPESIZE_def)
qed

text \<open>C25: \<open>piperead\<close> returns exactly the oldest \<open>n\<close> bytes, or all there are, as soon as there is one
  or the write end is closed; it wakes the waiting writers and changes no other pipe.\<close>

theorem piperead_takes_oldest:
  assumes "cpu_ok s" and "pipe_list (pipes s p) \<noteq> [] \<or> \<not> pp_writeopen (pipes s p)"
  shows "\<exists>t. piperead p n s = Ok (int (min (nat n) (length (pipe_list (pipes s p)))), take (nat n) (pipe_list (pipes s p))) t
    \<and> pipe_list (pipes t p) = drop (nat n) (pipe_list (pipes s p)) \<and> (\<forall>q. q \<noteq> p \<longrightarrow> pipes t q = pipes s q)
    \<and> ptable t = wake (Some (Ch_nwrite p)) (ptable s)"
  using piperead_spec [OF assms, of n] by (auto simp: pipe_step_def min.commute)

theorem piperead_takes_oldest_witness:
  "\<exists>t. piperead 64 5 (wrap_pipe\<lparr>pipes := \<lambda>_. \<lparr>pp_data = (\<lambda>_. 7), pp_nread = - 2, pp_nwrite = 1, pp_readopen = True, pp_writeopen = True\<rparr>\<rparr>)
    = Ok (3, [7, 7, 7]) t"
proof -
  let ?s = "wrap_pipe\<lparr>pipes := \<lambda>_. \<lparr>pp_data = (\<lambda>_. 7), pp_nread = - 2, pp_nwrite = 1, pp_readopen = True, pp_writeopen = True\<rparr>\<rparr>"
  have "cpu_ok ?s" using wrap_pipe_ready(1) by (simp add: pipe_ready_def cpu_ok_def)
  moreover have "[0..<3] = [0, 1, 2 :: nat]" by (simp add: upt_rec)
  then have "pipe_list (pipes ?s 64) = [7, 7, 7]" by (simp add: pipe_list_def ring_list_def)
  ultimately show ?thesis using piperead_takes_oldest [of ?s 64 5] by auto
qed

end
