(* ===== verification/Console_Props.thy ===== *)
theory Console_Props
  imports Boot_State Ring
begin

text \<open>
  The console: kernel output never overruns the digit buffer of \<open>printint\<close> unless a decimal
  number has more than 16 digits, and prints the number it is given; the input buffer is a
  line editor with a bounded ring of bytes.
\<close>

section \<open>Output\<close>

text \<open>Output only appends to what has been sent.\<close>

definition printed :: "'z kcons_scheme \<Rightarrow> uint8 list \<Rightarrow> 'z kcons_scheme" where
  "printed s out = s\<lparr>uart_tx := uart_tx s @ out\<rparr>"

lemma printed_fields [simp]:
  "panicked (printed s out) = panicked s" "printed (printed s xs) ys = printed s (xs @ ys)" "printed s [] = s"
  "uart_tx (printed s out) = uart_tx s @ out"
  by (simp_all add: printed_def)

lemma consputc_byte: "\<not> panicked s \<Longrightarrow> consputc (uint c) s = Ok () (printed s [c])" for c :: uint8
proof -
  have "uint c < 256" using unsigned_less [of c, where 'a = int] by simp
  then show "\<not> panicked s \<Longrightarrow> ?thesis" by (simp add: consputc_def BACKSPACE_def uartputc_def printed_def)
qed

lemma consputc_printed: "\<not> panicked s \<Longrightarrow> \<exists>out. consputc c s = Ok () (printed s out)"
  by (auto simp: consputc_def uartputc_def printed_def)

lemma consputs_printed: "\<not> panicked s \<Longrightarrow> consputs cs s = Ok () (printed s cs)"
  by (induction cs arbitrary: s) (simp_all add: consputc_byte)

declare pi_digits.simps [simp del]

lemma pi_digits_length:
  assumes "2 \<le> base"
  shows "length (pi_digits base x) \<le> Suc k \<longleftrightarrow> x < base ^ Suc k"
  using assms
proof (induction k arbitrary: x)
  case 0
  have "x div base = 0 \<longleftrightarrow> x < base" using 0 by (simp add: div_eq_0_iff)
  moreover have "pi_digits base y \<noteq> []" for y by (subst pi_digits.simps) simp
  ultimately show ?case using 0 by (subst pi_digits.simps) auto
next
  case (Suc k)
  have "x < base ^ Suc (Suc k) \<longleftrightarrow> x div base < base ^ Suc k"
    using Suc.prems by (simp add: div_less_iff_less_mult mult.commute)
  moreover have "0 < base ^ Suc k" using Suc.prems by simp
  ultimately show ?case using Suc by (subst pi_digits.simps) auto
qed

lemma pi_digits_less: "0 < base \<Longrightarrow> d \<in> set (pi_digits base x) \<Longrightarrow> d < base"
  by (induction base x rule: pi_digits.induct) (subst (asm) (2) pi_digits.simps, auto split: if_splits)

lemma pi_digits_value: "2 \<le> base \<Longrightarrow> foldr (\<lambda>d v. d + base * v) (pi_digits base x) 0 = x"
proof (induction base x rule: pi_digits.induct)
  case (1 base x)
  have u: "pi_digits base x = x mod base # (if x div base = 0 then [] else pi_digits base (x div base))"
    using 1(2) by (subst pi_digits.simps) simp
  show ?case
  proof (cases "x div base = 0")
    case True
    then show ?thesis using u mult_div_mod_eq [of base x] by simp
  next
    case False
    then show ?thesis using 1 u mult_div_mod_eq [of base x] by simp
  qed
qed

lemma printint_ok:
  assumes "\<not> panicked s" "2 \<le> base" "unat x < base ^ 16"
  shows "printint x base sign s = Ok () (printed s (map digits (rev (pi_digits base (unat x)))))"
proof -
  have "length (pi_digits base (unat x)) \<le> 16"
    using pi_digits_length [OF assms(2), of "unat x" 15] assms(3) by simp
  then show ?thesis using assms(1) by (simp add: printint_def Let_def consputs_printed rev_map)
qed

lemma printint_hex: "\<not> panicked s \<Longrightarrow> \<exists>out. printint x 16 sign s = Ok () (printed s out)"
  using printint_ok [of s 16 x sign] unsigned_less [of x, where 'a = nat] by auto

text \<open>Formats whose arguments have the right kind and fit the digit buffer.\<close>

fun fmt_ok :: "string \<Rightarrow> carg list \<Rightarrow> bool" where
  "fmt_ok [] args = True"
| "fmt_ok (c # cs) args =
     (if c \<noteq> CHR ''%'' then fmt_ok cs args
      else (case cs of [] \<Rightarrow> True
            | d # ds \<Rightarrow>
                if d = CHR ''d'' then (case args of ANum x # as \<Rightarrow> unat x < 10 ^ 16 \<and> fmt_ok ds as | _ \<Rightarrow> False)
                else if d = CHR ''x'' \<or> d = CHR ''p'' then (case args of ANum x # as \<Rightarrow> fmt_ok ds as | _ \<Rightarrow> False)
                else if d = CHR ''s'' then (case args of AStr str # as \<Rightarrow> fmt_ok ds as | _ \<Rightarrow> False)
                else fmt_ok ds args))"

definition prints :: "('z kcons_scheme, unit) outcome \<Rightarrow> 'z kcons_scheme \<Rightarrow> bool" where
  "prints m s \<longleftrightarrow> (\<exists>out. m = Ok () (printed s out))"

lemma prints_andthen [intro]:
  assumes "prints m s" "\<not> panicked s" "\<And>t. \<not> panicked t \<Longrightarrow> prints (f t) t"
  shows "prints (andthen m (\<lambda>_ t. f t)) s"
proof -
  from assms(1) obtain out where m: "m = Ok () (printed s out)" by (auto simp: prints_def)
  with assms(2) assms(3) [of "printed s out"] show ?thesis by (auto simp: prints_def)
qed

lemma prints_basic:
  "prints (Ok () s) s"
  "\<not> panicked s \<Longrightarrow> prints (consputc c s) s"
  "\<not> panicked s \<Longrightarrow> prints (consputs cs s) s"
  "\<not> panicked s \<Longrightarrow> prints (printint x 16 sign s) s"
  "\<not> panicked s \<Longrightarrow> unat x < 10 ^ 16 \<Longrightarrow> prints (printint x 10 sign s) s"
  using consputc_printed [of s] consputs_printed [of s] printint_hex [of s] printint_ok [of s 10 x sign]
  by (auto simp: prints_def intro: exI [of _ "[]"])

lemma cprintf_loop_prints: "fmt_ok fmt args \<Longrightarrow> \<not> panicked s \<Longrightarrow> prints (cprintf_loop fmt args s) s"
  for s :: "'z kcons_scheme"
proof (induction fmt args arbitrary: s rule: fmt_ok.induct)
  case (2 c cs args)
  show ?case
  proof (cases "c = CHR ''%'' \<and> cs \<noteq> []")
    case False
    then show ?thesis using 2(1,6,7) by (cases "c = CHR ''%''") (auto intro: prints_basic)
  next
    case True
    then obtain d ds where c: "c = CHR ''%''" "cs = d # ds" by (cases cs) auto
    note p = 2(6) [unfolded c]
    consider (dec) x as where "d = CHR ''d''" "args = ANum x # as" "unat x < 10 ^ 16" "fmt_ok ds as"
      | (hex) x as where "d = CHR ''x'' \<or> d = CHR ''p''" "d \<noteq> CHR ''d''" "args = ANum x # as" "fmt_ok ds as"
      | (str) str as where "d = CHR ''s''" "args = AStr str # as" "fmt_ok ds as"
      | (other) "d \<noteq> CHR ''d''" "d \<noteq> CHR ''x''" "d \<noteq> CHR ''p''" "d \<noteq> CHR ''s''" "fmt_ok ds args"
      using p by (simp split: if_splits list.splits carg.splits)
    then show ?thesis
    proof cases
      case dec
      then have "prints (cprintf_loop ds as t) t" if "\<not> panicked t" for t :: "'z kcons_scheme"
        using 2(2) [OF _ c(2) dec(1,2) refl] c that by simp
      then show ?thesis using dec c 2(7) prints_basic(5) [OF 2(7) dec(3)] by auto
    next
      case hex
      then have "prints (cprintf_loop ds as t) t" if "\<not> panicked t" for t :: "'z kcons_scheme"
        using 2(3) [OF _ c(2) _ hex(1,3) refl] c that by simp
      then show ?thesis using hex c 2(7) by (auto intro: prints_basic)
    next
      case str
      then have "prints (cprintf_loop ds as t) t" if "\<not> panicked t" for t :: "'z kcons_scheme"
        using 2(4) [OF _ c(2) _ _ str(1,2) refl] c that by simp
      then show ?thesis using str c 2(7) by (auto intro: prints_basic)
    next
      case other
      then have "prints (cprintf_loop ds args t) t" if "\<not> panicked t" for t :: "'z kcons_scheme"
        using 2(5) [OF _ c(2)] c that by auto
      then show ?thesis using other c 2(7) by (auto intro: prints_basic)
    qed
  qed
qed (simp add: prints_basic)

text \<open>What kernel output leaves alone: the input buffer, the process table, the depth of \<open>cli\<close>.\<close>

definition con_frame :: "'z kcons_scheme \<Rightarrow> 'z kcons_scheme \<Rightarrow> bool" where
  "con_frame s t \<longleftrightarrow> in_buf t = in_buf s \<and> in_r t = in_r s \<and> in_w t = in_w s \<and> in_e t = in_e s \<and> uart_rx t = uart_rx s
     \<and> panicked t = panicked s \<and> cons_locking t = cons_locking s \<and> call_pcs t = call_pcs s
     \<and> ptable t = ptable s \<and> cproc t = cproc s \<and> ncli t = ncli s \<and> irq t = irq s"

lemma con_frame_refl [simp]: "con_frame s s" by (simp add: con_frame_def)
lemma con_frame_trans: "con_frame s t \<Longrightarrow> con_frame t u \<Longrightarrow> con_frame s u" by (simp add: con_frame_def)

definition con_ok :: "'z kcons_scheme \<Rightarrow> bool" where "con_ok s \<longleftrightarrow> \<not> panicked s \<and> cpu_ok s"

lemma con_frame_ok: "con_frame s t \<Longrightarrow> con_ok s \<Longrightarrow> con_ok t"
  by (simp add: con_frame_def con_ok_def cpu_ok_def)

lemma con_frame_printed [simp]: "con_frame s (printed s out)" by (simp add: con_frame_def printed_def)

definition outputs :: "('z kcons_scheme, unit) outcome \<Rightarrow> 'z kcons_scheme \<Rightarrow> bool" where
  "outputs m s \<longleftrightarrow> (\<exists>t. m = Ok () t \<and> con_frame s t)"

lemma outputs_andthen:
  assumes "outputs m s" "\<And>t. con_frame s t \<Longrightarrow> outputs (f t) t"
  shows "outputs (andthen m (\<lambda>_ t. f t)) s"
proof -
  from assms(1) obtain t where t: "m = Ok () t" "con_frame s t" by (auto simp: outputs_def)
  with assms(2) obtain u where "f t = Ok () u" "con_frame t u" by (auto simp: outputs_def)
  with t show ?thesis by (auto simp: outputs_def intro: con_frame_trans)
qed

lemma outputs_prints: "prints m s \<Longrightarrow> outputs m s"
  by (auto simp: prints_def outputs_def)

lemma cprintf_outputs:
  assumes "fmt_ok fmt args" "\<not> panicked s" "cpu_ok s"
  shows "outputs (cprintf fmt args s) s"
proof (cases "cons_locking s")
  case True
  have "prints (cprintf_loop fmt args (acquire Lk_cons s)) (acquire Lk_cons s)"
    using assms by (intro cprintf_loop_prints) (simp_all add: lock_simps)
  then obtain out where "cprintf_loop fmt args (acquire Lk_cons s) = Ok () (printed (acquire Lk_cons s) out)" by (auto simp: prints_def)
  then show ?thesis
    using True assms(3) by (auto simp: cprintf_def outputs_def con_frame_def lock_simps printed_def cpu_ok_def)
next
  case False
  then show ?thesis
    using outputs_andthen [OF outputs_prints [OF cprintf_loop_prints [OF assms(1,2)]], of "Ok ()"]
    by (simp add: cprintf_def outputs_def)
qed

lemma int_arg_small: "unat (int_arg i) < 10 ^ 16"
proof -
  have "unat (int_arg i) < 2 ^ 32"
    using unsigned_less [of "word_of_int i :: uint", where 'a = nat] take_bit_nat_less_eq_self [of 64 "unat (word_of_int i :: uint)"]
    by (simp add: int_arg_def unsigned_ucast_eq del: take_bit_nat_less_eq_self)
  then show ?thesis by simp
qed

lemma callstk_outputs: "set is \<subseteq> {..<N_CALLSTK} \<Longrightarrow> con_ok s \<Longrightarrow> outputs (callstk_loop is s) s"
proof (induction "is" arbitrary: s)
  case (Cons i "is")
  have "unat (of_nat (i + 1) :: uint64) < 10 ^ 16"
    using Cons.prems(1) unat_of_nat_uint64 [of "i + 1"] by (simp add: N_CALLSTK_def)
  then have "outputs (cprintf (''%d: 0x%x'' @ [CHR 0x0A]) [ANum (of_nat (i + 1)), ANum (call_pcs s i)] s) s"
    using Cons.prems by (intro cprintf_outputs) (simp_all add: con_ok_def)
  then show ?case using Cons con_frame_ok unfolding callstk_loop.simps by (intro outputs_andthen) auto
qed (simp add: outputs_def)

lemma procdump_loop_outputs: "con_ok s \<Longrightarrow> outputs (procdump_loop ps s) s"
proof (induction ps arbitrary: s)
  case (Cons p ps)
  have "outputs (cprintf (''%d %s %s'' @ [CHR 0x0A]) [ANum (int_arg (p_pid (ptable s p))),
      AStr (Some (ascii (state_name (p_state (ptable s p))))), AStr (Some (p_name (ptable s p)))] s) s"
    using Cons.prems int_arg_small by (intro cprintf_outputs) (simp_all add: con_ok_def)
  then show ?case using Cons con_frame_ok unfolding procdump_loop.simps Let_def
    by (cases "p_state (ptable s p) = UNUSED") (auto intro!: outputs_andthen)
qed (simp add: outputs_def)

lemma show_callstk_outputs: "con_ok s \<Longrightarrow> outputs (show_callstk str s) s"
  unfolding show_callstk_def using con_frame_ok
  by (intro outputs_andthen cprintf_outputs callstk_outputs) (auto simp: con_ok_def)

lemma procdump_outputs: "con_ok s \<Longrightarrow> outputs (procdump s) s"
  unfolding procdump_def using con_frame_ok
  by (intro outputs_andthen procdump_loop_outputs show_callstk_outputs) auto

section \<open>Decimal numbers\<close>

text \<open>The value of a string of decimal digits.\<close>

definition read_dec :: "uint8 list \<Rightarrow> nat" where
  "read_dec cs = foldl (\<lambda>v c. 10 * v + (unat c - 48)) 0 cs"

lemma digits_dec: "d < 10 \<Longrightarrow> unat (digits d) = 48 + d"
proof -
  have "\<forall>d\<in>set [0..<10]. unat (digits d) = 48 + d" by code_simp
  then show "d < 10 \<Longrightarrow> unat (digits d) = 48 + d" by simp
qed

lemma read_dec_digits: "\<forall>d\<in>set ds. d < 10 \<Longrightarrow> read_dec (map digits (rev ds)) = foldr (\<lambda>d v. d + 10 * v) ds 0"
  by (induction ds) (simp_all add: read_dec_def digits_dec)

text \<open>C33: \<open>printint\<close> in base 10 prints between 1 and 16 decimal digits whose value is the number it
  was given, if the number has at most 16 digits; any larger number is written past the end
  of its 16-byte buffer.\<close>

theorem printint_decimal:
  assumes "\<not> panicked s"
  shows "if unat x < 10 ^ 16
    then \<exists>out. printint x 10 sign s = Ok () (s\<lparr>uart_tx := uart_tx s @ out\<rparr>) \<and> read_dec out = unat x
           \<and> 1 \<le> length out \<and> length out \<le> 16 \<and> (\<forall>c\<in>set out. 48 \<le> unat c \<and> unat c \<le> 57)
    else printint x 10 sign s = Fault"
proof (cases "unat x < 10 ^ 16")
  case True
  let ?ds = "pi_digits 10 (unat x)"
  have d: "\<forall>d\<in>set ?ds. d < 10" using pi_digits_less [of 10] by simp
  have "?ds \<noteq> []" by (subst pi_digits.simps) simp
  then have "1 \<le> length ?ds" by (cases ?ds) auto
  moreover have "length ?ds \<le> 16" using pi_digits_length [of 10 "unat x" 15] True by simp
  moreover have "read_dec (map digits (rev ?ds)) = unat x" using read_dec_digits [OF d] pi_digits_value [of 10] by simp
  moreover have "\<forall>c\<in>set (map digits (rev ?ds)). 48 \<le> unat c \<and> unat c \<le> 57"
    using d by (auto simp: digits_dec)
  ultimately have "\<exists>out. printint x 10 sign s = Ok () (printed s out) \<and> read_dec out = unat x
      \<and> 1 \<le> length out \<and> length out \<le> 16 \<and> (\<forall>c\<in>set out. 48 \<le> unat c \<and> unat c \<le> 57)"
    using True printint_ok [OF assms, of 10 x sign] by (intro exI [of _ "map digits (rev ?ds)"]) simp
  then show ?thesis using True by (simp add: printed_def)
next
  case False
  then have "16 < length (pi_digits 10 (unat x))" using pi_digits_length [of 10 "unat x" 15] by simp
  then show ?thesis using False by (simp add: printint_def Let_def)
qed

theorem printint_decimal_witness:
  "(\<exists>out. printint 1234 10 True boot_cons = Ok () (boot_cons\<lparr>uart_tx := uart_tx boot_cons @ out\<rparr>) \<and> read_dec out = 1234)
    \<and> printint 0xFFFFFFFFFFFFFFFF 10 True boot_cons = Fault"
proof -
  have "unat (1234 :: uint64) = 1234" "unat (0xFFFFFFFFFFFFFFFF :: uint64) = 2 ^ 64 - 1" by simp_all
  then show ?thesis
    using printint_decimal [of boot_cons 1234 True] printint_decimal [of boot_cons "0xFFFFFFFFFFFFFFFF" True]
    by (simp only: boot_cons_fields) auto
qed

section \<open>The line editor\<close>

lemma in_idx_mod: "in_idx i = unat i mod INPUT_BUF"
  by (simp add: in_idx_def INPUT_BUF_def unat_mod)

interpretation ir: ring_buffer INPUT_BUF in_idx
  by unfold_locales (simp_all add: in_idx_mod INPUT_BUF_def)

text \<open>The committed input, which readers may take, and the line being edited.\<close>

definition con_lines :: "'z kcons_scheme \<Rightarrow> uint8 list" where
  "con_lines s = ring_list in_idx (in_buf s) (in_r s) (in_w s)"

definition con_edit :: "'z kcons_scheme \<Rightarrow> uint8 list" where
  "con_edit s = ring_list in_idx (in_buf s) (in_w s) (in_e s)"

definition input_ok :: "'z kcons_scheme \<Rightarrow> bool" where
  "input_ok s \<longleftrightarrow> unat (in_w s - in_r s) \<le> unat (in_e s - in_r s) \<and> unat (in_e s - in_r s) \<le> INPUT_BUF"

lemma input_ok_length:
  assumes "input_ok s"
  shows "length (con_lines s) + length (con_edit s) = unat (in_e s - in_r s)"
proof -
  have "unat (in_e s - in_w s) = unat (in_e s - in_r s) - unat (in_w s - in_r s)"
    using assms unat_sub [of "in_w s - in_r s" "in_e s - in_r s"] by (simp add: input_ok_def word_le_nat_alt)
  then show ?thesis using assms by (simp add: con_lines_def con_edit_def input_ok_def)
qed

lemma con_push:
  fixes s :: "'z kcons_scheme" and c :: uint8
  assumes "input_ok s" "in_e s - in_r s < of_nat INPUT_BUF"
  defines "t \<equiv> s\<lparr>in_buf := (in_buf s)(in_idx (in_e s) := c), in_e := in_e s + 1\<rparr>"
  shows "con_lines t = con_lines s" "con_edit t = con_edit s @ [c]" "input_ok t"
proof -
  have room: "unat (in_e s - in_r s) < INPUT_BUF" using assms(2) by (simp add: word_less_nat_alt INPUT_BUF_def)
  then have small: "unat (in_e s - in_r s) + 1 < 2 ^ 32" by (simp add: INPUT_BUF_def)
  have "unat (in_e s - in_r s + 1) = unat (in_e s - in_r s) + 1" using small by (simp add: unat_word_ariths(1))
  then have e: "unat (in_e t - in_r t) = Suc (unat (in_e s - in_r s))" by (simp add: t_def algebra_simps)
  then show ok: "input_ok t" using assms(1) room by (simp add: input_ok_def) (simp add: t_def)
  have "ring_list in_idx (in_buf t) (in_r t) (in_e t) = ring_list in_idx (in_buf s) (in_r s) (in_e s) @ [c]"
    using ir.ring_list_push [OF room small] by (simp add: t_def)
  then have "con_lines t @ con_edit t = con_lines s @ con_edit s @ [c]"
    using ring_list_split [of "in_w t" "in_r t" "in_e t"] ring_list_split [of "in_w s" "in_r s" "in_e s"] ok assms(1)
    by (simp add: con_lines_def con_edit_def input_ok_def)
  moreover have "length (con_lines t) = length (con_lines s)" by (simp add: con_lines_def t_def)
  ultimately show "con_lines t = con_lines s" "con_edit t = con_edit s @ [c]" by auto
qed

lemma con_pop:
  assumes "input_ok s" "in_e s \<noteq> in_w s"
  defines "t \<equiv> s\<lparr>in_e := in_e s - 1\<rparr>"
  shows "con_lines t = con_lines s" "con_edit s = con_edit t @ [in_buf s (in_idx (in_e s - 1))]" "input_ok t"
proof -
  show "con_lines t = con_lines s" by (simp add: con_lines_def t_def)
  show "con_edit s = con_edit t @ [in_buf s (in_idx (in_e s - 1))]"
    using ring_list_last [of "in_w s" "in_e s" in_idx "in_buf s"] assms(2) by (simp add: con_edit_def t_def)
  then have l: "length (con_edit s) = Suc (length (con_edit t))" by simp
  have p: "0 < unat (in_e s - in_r s)" using input_ok_length [OF assms(1)] l by linarith
  then have "in_r s \<noteq> in_e s" by auto
  then have "unat (in_e s - in_r s) = Suc (unat (in_e s - in_r s - 1))" by (rule unat_diff_dec)
  moreover have "in_e t - in_r t = in_e s - in_r s - 1" by (simp add: t_def)
  ultimately have "unat (in_e s - in_r s) = Suc (unat (in_e t - in_r t))" by (simp only:)
  moreover have "unat (in_w s - in_r s) \<noteq> unat (in_e s - in_r s)" using assms(2) by (simp flip: word_unat_eq_iff)
  ultimately show "input_ok t" using assms(1) by (simp add: input_ok_def) (simp add: t_def)
qed

text \<open>The specification of the editor, on the committed bytes and the current line.\<close>

definition edit_char :: "uint8 \<Rightarrow> uint8 list \<times> uint8 list \<Rightarrow> uint8 list \<times> uint8 list" where
  "edit_char c = (\<lambda>(ready, line).
     if c = 0x10 then (ready, line)
     else if c = 0x15 then (ready, rev (dropWhile (\<lambda>x. x \<noteq> 10) (rev line)))
     else if c = 0x08 \<or> c = 0x7F then (ready, butlast line)
     else if c \<noteq> 0 \<and> length ready + length line < INPUT_BUF
     then (let c' = (if c = 13 then 10 else c); line' = line @ [c']
           in if c' = 10 \<or> c' = 4 \<or> length ready + length line' = INPUT_BUF then (ready @ line', []) else (ready, line'))
     else (ready, line))"

definition con_abs :: "'z kcons_scheme \<Rightarrow> uint8 list \<times> uint8 list" where
  "con_abs s = (con_lines s, con_edit s)"

definition input_sleepers :: "'z kcons_scheme \<Rightarrow> nat set" where
  "input_sleepers s = {p. p < NPROC \<and> p_state (ptable s p) = SLEEPING \<and> p_chan (ptable s p) = Some Ch_input_r}"

definition edited :: "(uint8 list \<times> uint8 list) \<Rightarrow> 'z kcons_scheme \<Rightarrow> 'z kcons_scheme \<Rightarrow> bool" where
  "edited a s t \<longleftrightarrow> con_abs t = a \<and> input_ok t \<and> con_ok t \<and> uart_rx t = uart_rx s \<and> in_r t = in_r s \<and> ncli t = ncli s \<and> irq t = irq s
     \<and> input_sleepers t \<subseteq> input_sleepers s \<and> (con_lines t = con_lines s \<or> input_sleepers t = {})"

lemma edited_frame:
  assumes "con_frame s t" "input_ok s" "con_ok s"
  shows "edited (con_abs s) s t"
  using con_frame_ok [OF assms(1,3)] assms
  by (simp add: edited_def con_abs_def con_frame_def con_lines_def con_edit_def input_ok_def input_sleepers_def)

lemma kill_line_edits:
  assumes "input_ok s" "con_ok s"
  shows "\<exists>t. kill_line s = Ok () t \<and> edited (con_lines s, rev (dropWhile (\<lambda>x. x \<noteq> 10) (rev (con_edit s)))) s t"
  using assms
proof (induction s rule: kill_line.induct)
  case (1 s)
  show ?case
  proof (cases "in_e s \<noteq> in_w s \<and> in_buf s (in_idx (in_e s - 1)) \<noteq> 10")
    case False
    have "rev (dropWhile (\<lambda>x. x \<noteq> 10) (rev (con_edit s))) = con_edit s"
      using False con_pop(2) [OF 1(2)] by (cases "in_e s = in_w s") (auto simp: con_edit_def)
    then show ?thesis using False edited_frame [OF con_frame_refl 1(2,3)] by (subst kill_line.simps) (auto simp: con_abs_def)
  next
    case True
    let ?s = "s\<lparr>in_e := in_e s - 1\<rparr>"
    note p = con_pop [OF 1(2) conjunct1 [OF True]]
    from consputc_printed [of ?s BACKSPACE] 1(3) obtain out where o: "consputc BACKSPACE ?s = Ok () (printed ?s out)"
      by (auto simp: con_ok_def)
    let ?t = "printed ?s out"
    have t: "con_lines ?t = con_lines s" "con_edit ?t = con_edit ?s" "input_ok ?t" "con_ok ?t"
      using p 1(3) by (simp_all add: printed_def con_lines_def con_edit_def input_ok_def con_ok_def cpu_ok_def)
    from 1(1) [OF True o t(3,4)] obtain u where "kill_line ?t = Ok () u"
      "edited (con_lines ?t, rev (dropWhile (\<lambda>x. x \<noteq> 10) (rev (con_edit ?t)))) ?t u" by blast
    then show ?thesis using True o t p(2)
      by (subst kill_line.simps) (simp add: edited_def input_sleepers_def, simp add: printed_def)
  qed
qed

lemma consputc_edit:
  assumes "con_ok s" "input_ok s"
  shows "\<exists>t. consputc c s = Ok () t \<and> con_frame s t"
  using consputc_printed [of s c] assms by (auto simp: con_ok_def)

lemma con_commit:
  assumes "input_ok s"
  shows "con_lines (s\<lparr>in_w := in_e s\<rparr>) = con_lines s @ con_edit s" "con_edit (s\<lparr>in_w := in_e s\<rparr>) = []"
    "input_ok (s\<lparr>in_w := in_e s\<rparr>)"
  using ring_list_split [of "in_w s" "in_r s" "in_e s"] assms
  by (simp_all add: con_lines_def con_edit_def input_ok_def)

lemma wakeup_input:
  assumes "con_ok s" "input_ok s"
  shows "\<exists>t. wakeup Ch_input_r s = Ok () t \<and> con_abs t = con_abs s \<and> input_ok t \<and> con_ok t \<and> uart_rx t = uart_rx s
    \<and> in_r t = in_r s \<and> ncli t = ncli s \<and> irq t = irq s \<and> input_sleepers t = {}"
  using assms
  by (auto simp: con_ok_def wakeup_update con_abs_def con_lines_def con_edit_def input_ok_def input_sleepers_def wake_def cpu_ok_def)

lemma consoleintr_char_push:
  assumes "input_ok s" "con_ok s" "c \<notin> {0, 0x10, 0x15, 0x08, 0x7F}" "in_e s - in_r s < of_nat INPUT_BUF"
  shows "\<exists>t. consoleintr_char c s = Ok () t \<and> edited (edit_char c (con_abs s)) s t"
proof -
  define c' where "c' = (if c = 13 then 10 else c)"
  let ?s = "s\<lparr>in_buf := (in_buf s)(in_idx (in_e s) := c'), in_e := in_e s + 1\<rparr>"
  note p = con_push [OF assms(1,4), of c']
  have "con_ok ?s" using assms(2) by (simp add: con_ok_def cpu_ok_def)
  from consputc_edit [OF this p(3)] obtain u where u: "consputc (uint c') ?s = Ok () u" "con_frame ?s u" by blast
  have ok: "con_ok u" "input_ok u" "con_abs u = (con_lines s, con_edit s @ [c'])" "in_e u = in_e s + 1" "in_r u = in_r s"
    "uart_rx u = uart_rx s" "ncli u = ncli s" "irq u = irq s" "input_sleepers u = input_sleepers s"
    using edited_frame [OF u(2) p(3) \<open>con_ok ?s\<close>] p u(2)
    by (simp_all add: edited_def con_abs_def con_frame_def input_sleepers_def)
  have len: "length (con_lines s) + length (con_edit s) < INPUT_BUF"
    using input_ok_length [OF assms(1)] assms(4) by (simp add: word_less_nat_alt INPUT_BUF_def)
  have full: "in_e u = in_r u + of_nat INPUT_BUF \<longleftrightarrow> length (con_lines s) + length (con_edit s @ [c']) = INPUT_BUF"
  proof -
    have "in_e u = in_r u + of_nat INPUT_BUF \<longleftrightarrow> in_e u - in_r u = of_nat INPUT_BUF" by (simp add: diff_eq_eq add.commute)
    then show ?thesis using input_ok_length [OF ok(2)] ok(3) by (simp add: con_abs_def word_unat_eq_iff INPUT_BUF_def)
  qed
  let ?eol = "c' = 10 \<or> c' = 4 \<or> in_e u = in_r u + of_nat INPUT_BUF"
  have step: "consoleintr_char c s = (if ?eol then wakeup Ch_input_r (u\<lparr>in_w := in_e u\<rparr>) else Ok () u)"
    using assms(3,4) u(1) by (simp add: consoleintr_char_def Let_def flip: c'_def)
  have spec: "edit_char c (con_abs s) = (if ?eol then (con_lines s @ con_edit s @ [c'], []) else (con_lines s, con_edit s @ [c']))"
    using assms(3) len by (simp add: edit_char_def con_abs_def Let_def full flip: c'_def)
  show ?thesis
  proof (cases ?eol)
    case True
    have "con_ok (u\<lparr>in_w := in_e u\<rparr>)" using ok(1) by (simp add: con_ok_def cpu_ok_def)
    from wakeup_input [OF this con_commit(3) [OF ok(2)]] con_commit [OF ok(2)] ok
    show ?thesis unfolding step spec using True by (auto simp: edited_def con_abs_def)
  next
    case False
    then show ?thesis unfolding step spec using ok by (auto simp: edited_def con_abs_def)
  qed
qed

lemma consoleintr_char_edits:
  assumes "input_ok s" "con_ok s"
  shows "\<exists>t. consoleintr_char c s = Ok () t \<and> edited (edit_char c (con_abs s)) s t"
proof -
  note frame = edited_frame [OF _ assms]
  have room: "in_e s - in_r s < of_nat INPUT_BUF \<longleftrightarrow> length (con_lines s) + length (con_edit s) < INPUT_BUF"
    using input_ok_length [OF assms(1)] by (simp add: word_less_nat_alt INPUT_BUF_def)
  consider (dump) "c = 0x10" | (kill) "c = 0x15" | (bs) "c = 0x08 \<or> c = 0x7F"
    | (push) "c \<notin> {0, 0x10, 0x15, 0x08, 0x7F}" "in_e s - in_r s < of_nat INPUT_BUF"
    | (skip) "c \<notin> {0x10, 0x15, 0x08, 0x7F}" "c = 0 \<or> \<not> in_e s - in_r s < of_nat INPUT_BUF" by blast
  then show ?thesis
  proof cases
    case dump
    then show ?thesis using procdump_outputs [OF assms(2)] frame
      by (auto simp: consoleintr_char_def edit_char_def outputs_def con_abs_def)
  next
    case kill
    then show ?thesis using kill_line_edits [OF assms] by (simp add: consoleintr_char_def edit_char_def con_abs_def)
  next
    case push
    then show ?thesis using consoleintr_char_push [OF assms] by blast
  next
    case skip
    then have "consoleintr_char c s = Ok () s" by (auto simp: consoleintr_char_def)
    moreover have "edit_char c (con_abs s) = con_abs s" using skip room by (auto simp: edit_char_def con_abs_def)
    ultimately show ?thesis using frame [OF con_frame_refl] by simp
  next
    case bs
    show ?thesis
    proof (cases "in_e s = in_w s")
      case True
      then show ?thesis using bs frame [OF con_frame_refl]
        by (auto simp: consoleintr_char_def edit_char_def con_abs_def con_edit_def)
    next
      case False
      let ?s = "s\<lparr>in_e := in_e s - 1\<rparr>"
      note p = con_pop [OF assms(1) False]
      have ok: "con_ok ?s" using assms(2) by (simp add: con_ok_def cpu_ok_def)
      from consputc_edit [OF ok p(3)] obtain t where t: "consputc BACKSPACE ?s = Ok () t" "con_frame ?s t" by blast
      have "butlast (con_edit s) = con_edit ?s" by (subst p(2)) simp
      then show ?thesis using bs False t(1) edited_frame [OF t(2) p(3) ok] p(1)
        by (auto simp: consoleintr_char_def edit_char_def con_abs_def edited_def input_sleepers_def)
    qed
  qed
qed

lemma edited_trans: "edited a s t \<Longrightarrow> edited b t u \<Longrightarrow> edited b s u"
  by (auto simp: edited_def)

lemma consoleintr_loop_edits:
  "input_ok s \<Longrightarrow> con_ok s \<Longrightarrow> uart_rx s = cs \<Longrightarrow>
   \<exists>t. consoleintr_loop cs s = Ok () t \<and> edited (fold edit_char cs (con_abs s)) (s\<lparr>uart_rx := []\<rparr>) t"
proof (induction cs arbitrary: s)
  case Nil
  then have "s\<lparr>uart_rx := []\<rparr> = s" by (cases s) simp
  then show ?case using edited_frame [OF con_frame_refl Nil(1,2)] by simp
next
  case (Cons c cs)
  let ?s = "s\<lparr>uart_rx := cs\<rparr>"
  have s: "input_ok ?s" "con_ok ?s" "con_abs ?s = con_abs s"
    using Cons.prems by (simp_all add: input_ok_def con_ok_def cpu_ok_def con_abs_def con_lines_def con_edit_def)
  from consoleintr_char_edits [OF s(1,2), of c] obtain t where t: "consoleintr_char c ?s = Ok () t" "edited (edit_char c (con_abs s)) ?s t"
    using s(3) by auto
  then have "input_ok t" "con_ok t" "uart_rx t = cs" "con_abs t = edit_char c (con_abs s)" by (simp_all add: edited_def)
  with Cons.IH [of t] obtain u where u: "consoleintr_loop cs t = Ok () u"
    "edited (fold edit_char cs (edit_char c (con_abs s))) (t\<lparr>uart_rx := []\<rparr>) u" by auto
  have "edited (con_abs t) (s\<lparr>uart_rx := []\<rparr>) (t\<lparr>uart_rx := []\<rparr>)"
    using t(2) by (auto simp: edited_def con_abs_def con_lines_def con_edit_def input_ok_def con_ok_def cpu_ok_def input_sleepers_def)
  from edited_trans [OF this u(2)] t(1) u(1) show ?case by simp
qed

text \<open>C17: The console interrupt implements the line editor: it reads all received characters, and the
  committed input and the line being edited change as \<open>edit_char\<close> says for each of them in turn
  (erase, kill line, end of line, a full buffer); the buffer never holds more than \<open>INPUT_BUF\<close>
  bytes; and when input is committed no reader is left asleep.\<close>

theorem consoleintr_edits:
  assumes "input_ok s" and "con_ok s"
  shows "\<exists>t. consoleintr s = Ok () t \<and> con_abs t = fold edit_char (uart_rx s) (con_abs s) \<and> uart_rx t = [] \<and> in_r t = in_r s
    \<and> length (con_lines t) + length (con_edit t) \<le> INPUT_BUF \<and> input_ok t \<and> con_ok t \<and> ncli t = ncli s
    \<and> (con_lines t = con_lines s \<or> (\<forall>p<NPROC. p_state (ptable t p) = SLEEPING \<longrightarrow> p_chan (ptable t p) \<noteq> Some Ch_input_r))"
proof -
  let ?s = "acquire Lk_input s"
  have s: "input_ok ?s" "con_ok ?s" "con_abs ?s = con_abs s" "uart_rx ?s = uart_rx s" "in_r ?s = in_r s" "con_lines ?s = con_lines s"
    using assms by (simp_all add: input_ok_def con_ok_def con_abs_def con_lines_def con_edit_def lock_simps cpu_ok_def)
  from consoleintr_loop_edits [OF s(1,2,4)] obtain t where t: "consoleintr_loop (uart_rx s) ?s = Ok () t"
    "edited (fold edit_char (uart_rx s) (con_abs s)) (?s\<lparr>uart_rx := []\<rparr>) t" using s(3) by auto
  then have n: "\<not> irq t" "ncli t = ncli s + 1" "0 < ncli t"
    using assms by (simp_all add: edited_def lock_simps con_ok_def cpu_ok_def)
  then obtain u where u: "release Lk_input t = Ok () u" "u = t\<lparr>ncli := ncli t - 1, irq := (ncli t = 1 \<and> intena t), locked := (locked t)(Lk_input := False)\<rparr>"
    by (simp add: lock_simps)
  have "con_abs u = con_abs t" "input_ok u" "con_ok u" "con_lines u = con_lines t" "con_edit u = con_edit t" "uart_rx u = []" "in_r u = in_r s"
    "ptable u = ptable t" "ncli u = ncli s"
    using t(2) n s(5) u(2) assms(2) by (auto simp: edited_def con_abs_def con_lines_def con_edit_def input_ok_def con_ok_def cpu_ok_def)
  moreover have "con_lines (?s\<lparr>uart_rx := []\<rparr>) = con_lines s" using s(6) by (simp add: con_lines_def)
  ultimately show ?thesis
    using t u(1) input_ok_length [of u] by (auto simp: consoleintr_def edited_def input_sleepers_def input_ok_def)
qed

theorem consoleintr_edits_witness:
  "\<exists>t. consoleintr (boot_cons\<lparr>uart_rx := [97, 98, 0x08, 99, 13, 100]\<rparr>) = Ok () t \<and> con_abs t = ([97, 99, 10], [100]) \<and> uart_rx t = []"
proof -
  let ?s = "boot_cons\<lparr>uart_rx := [97, 98, 0x08, 99, 13, 100]\<rparr>"
  have "input_ok ?s" "con_ok ?s" by (simp_all add: input_ok_def con_ok_def cpu_ok_def)
  moreover have "con_abs ?s = ([], [])" by (simp add: con_abs_def con_lines_def con_edit_def)
  moreover have "fold edit_char [97, 98, 0x08, 99, 13, 100] ([], []) = ([97, 99, 10], [100])"
    by (simp add: edit_char_def INPUT_BUF_def)
  ultimately show ?thesis using consoleintr_edits [of ?s] by auto
qed

end
