(* ===== verification/Sys_Props.thy ===== *)
theory Sys_Props
  imports Trap Console_Props
begin

text \<open>
  System call entry: what the kernel accepts as a user buffer, and what it answers to a call
  number it does not know.
\<close>

section \<open>User buffers\<close>

lemma argptr_eq:
  assumes "cproc s = Some p" "n \<le> 3"
  defines "a \<equiv> tf_r (p_tf (ptable s p)) (1 + n)" and "sz \<equiv> p_sz (ptable s p)"
  shows "argptr n k s = Ok (if sz \<le> a \<or> sz < a + word_of_int k then None else Some a) s"
  using assms(1,2) by (simp add: argptr_def argint_def cur_def a_def sz_def)

text \<open>C21: For a size that is not negative, \<open>argptr\<close> accepts a pointer exactly if the whole buffer lies
  inside the process: the sum of address and size does not wrap around.\<close>

theorem argptr_bounds:
  assumes "cproc s = Some p" and "n \<le> 3" and "unat (p_sz (ptable s p)) \<le> UADDR_SZ" and "0 \<le> k" and "k < 2 ^ 31"
  shows "argptr n k s = Ok (let a = tf_r (p_tf (ptable s p)) (1 + n) in
    if unat a < unat (p_sz (ptable s p)) \<and> unat a + nat k \<le> unat (p_sz (ptable s p)) then Some a else None) s"
proof -
  let ?a = "tf_r (p_tf (ptable s p)) (1 + n)" and ?sz = "p_sz (ptable s p)"
  have k: "unat (word_of_int k :: uint64) = nat k"
    using assms(4,5) by (simp add: unat_eq_nat_uint unsigned_of_int take_bit_int_eq_self)
  have "unat (?a + word_of_int k) = unat ?a + nat k" if "unat ?a < unat ?sz"
  proof -
    have "unat ?a + nat k < 2 ^ 64" using that assms(3,5) by (simp add: UADDR_SZ_def)
    then show ?thesis by (simp add: unat_word_ariths(1) k)
  qed
  then have "(?sz \<le> ?a \<or> ?sz < ?a + word_of_int k) \<longleftrightarrow> \<not> (unat ?a < unat ?sz \<and> unat ?a + nat k \<le> unat ?sz)"
    unfolding word_le_nat_alt word_less_nat_alt by (metis leD leI)
  then show ?thesis unfolding argptr_eq [OF assms(1,2)] by (simp add: Let_def)
qed

definition user_proc :: "(nat \<Rightarrow> uint64) \<Rightarrow> uint64 \<Rightarrow> kproc" where
  "user_proc regs sz = upd_proc 0 (\<lambda>q. q\<lparr>p_sz := sz, p_state := RUNNING, p_pid := 1, p_tf := zero_trapframe\<lparr>tf_r := regs\<rparr>\<rparr>) boot_proc"

lemma user_proc_fields [simp]:
  "cproc (user_proc regs sz) = Some 0" "p_sz (ptable (user_proc regs sz) 0) = sz" "tf_r (p_tf (ptable (user_proc regs sz) 0)) = regs"
  "\<not> panicked (user_proc regs sz)" "cpu_ok (user_proc regs sz)"
  by (simp_all add: user_proc_def upd_proc_def cpu_ok_def)

theorem argptr_bounds_witness:
  "argptr 1 100 (user_proc (\<lambda>_. 4000) 4096) = Ok None (user_proc (\<lambda>_. 4000) 4096)
   \<and> argptr 1 96 (user_proc (\<lambda>_. 4000) 4096) = Ok (Some 4000) (user_proc (\<lambda>_. 4000) 4096)"
  using argptr_bounds [of "user_proc (\<lambda>_. 4000) 4096" 0 1 100] argptr_bounds [of "user_proc (\<lambda>_. 4000) 4096" 0 1 96]
  by (simp add: UADDR_SZ_def)

text \<open>C35: A negative size passes the check for every address of the process that is not smaller than
  its absolute value, so \<open>read\<close> and \<open>write\<close> with a negative count get past \<open>argptr\<close>.\<close>

theorem argptr_negative_size:
  assumes "cproc s = Some p" and "n \<le> 3" and "a = tf_r (p_tf (ptable s p)) (1 + n)" and "unat a < unat (p_sz (ptable s p))"
    and "0 < k" and "k \<le> unat a"
  shows "argptr n (- int k) s = Ok (Some a) s"
proof -
  have "a + word_of_int (- int k) = a - of_nat k" by simp
  moreover have "(of_nat k :: uint64) \<le> a" using assms(6) by (simp add: word_le_nat_alt unat_of_nat take_bit_nat_less_eq_self order_trans)
  then have "a - of_nat k \<le> a" using word_sub_le by blast
  ultimately have "\<not> p_sz (ptable s p) < a + word_of_int (- int k)" "\<not> p_sz (ptable s p) \<le> a"
    using assms(4) by (auto simp: word_less_nat_alt word_le_nat_alt)
  then show ?thesis using argptr_eq [OF assms(1,2)] assms(3) by simp
qed

theorem argptr_negative_size_witness:
  "argptr 1 (- int 1) (user_proc (\<lambda>_. 4095) 4096) = Ok (Some 4095) (user_proc (\<lambda>_. 4095) 4096)"
  by (rule argptr_negative_size [where p = 0]) simp_all

section \<open>Unknown calls\<close>

lemma length_syscalls: "length syscalls = 22"
  by (simp add: syscalls_def)

text \<open>The number \<open>v\<close> in decimal digits.\<close>

definition decimal :: "uint8 list \<Rightarrow> nat \<Rightarrow> bool" where
  "decimal cs v \<longleftrightarrow> read_dec cs = v \<and> cs \<noteq> [] \<and> (\<forall>c\<in>set cs. 48 \<le> unat c \<and> unat c \<le> 57)"

lemma uint_int_arg: "uint (int_arg i) = i mod 2 ^ 32"
proof -
  have "uint (int_arg i) = take_bit 64 (take_bit 32 i)" by (simp add: int_arg_def unsigned_ucast_eq uint_word_of_int_eq)
  then show ?thesis by (simp add: take_bit_eq_mod)
qed

declare pi_digits.simps [simp del]

lemma decimal_digits: "decimal (map digits (rev (pi_digits 10 v))) v"
proof -
  let ?ds = "pi_digits 10 v"
  have d: "\<forall>d\<in>set ?ds. d < 10" using pi_digits_less [of 10] by simp
  have "?ds \<noteq> []" by (subst pi_digits.simps) simp
  moreover have "read_dec (map digits (rev ?ds)) = v" using read_dec_digits [OF d] pi_digits_value [of 10] by simp
  ultimately show ?thesis using d by (auto simp: decimal_def digits_dec)
qed

lemma printint_int:
  assumes "\<not> panicked s"
  shows "\<exists>out. printint (int_arg i) 10 True s = Ok () (printed s out) \<and> decimal out (nat (i mod 2 ^ 32))"
proof -
  have "unat (int_arg i) = nat (i mod 2 ^ 32)" unfolding unat_eq_nat_uint uint_int_arg ..
  then show ?thesis using printint_ok [OF assms _ int_arg_small, of i True] decimal_digits [of "unat (int_arg i)"]
    by (intro exI conjI) auto
qed

lemma uint_of_char: "uint (of_char c :: uint8) = of_char c"
proof -
  have "uint (of_int (of_char c) :: uint8) = of_char c mod 256" by (simp only: uint_word_of_int) simp
  then show ?thesis by (simp only: of_int_of_char of_char_mod_256)
qed

lemma cprintf_text: "\<forall>c\<in>set cs. c \<noteq> CHR ''%'' \<Longrightarrow> \<not> panicked s \<Longrightarrow> cprintf_loop (cs @ fmt) args s = cprintf_loop fmt args (printed s (ascii cs))"
proof (induction cs arbitrary: s)
  case (Cons c cs)
  have "consputc (of_char c) s = Ok () (printed s [of_char c])"
    using consputc_byte [OF Cons.prems(2), of "of_char c"] by (simp add: uint_of_char)
  then show ?case using Cons by (simp add: ascii_def)
qed (simp add: ascii_def)

lemma unknown_message:
  assumes "con_ok s"
  shows "\<exists>t a b. cprintf (''%d %s: unknown sys call %d'' @ [CHR 0x0A]) [ANum (int_arg pid), AStr (Some name), ANum (int_arg num)] s = Ok () t \<and> con_frame s t
    \<and> decimal a (nat (pid mod 2 ^ 32)) \<and> decimal b (nat (num mod 2 ^ 32))
    \<and> uart_tx t = uart_tx s @ a @ ascii '' '' @ name @ ascii '': unknown sys call '' @ b @ [10]"
proof -
  let ?args = "[ANum (int_arg pid), AStr (Some name), ANum (int_arg num)]"
  let ?fmt = "''%d %s: unknown sys call %d'' @ [CHR 0x0A]"
  have loop: "\<exists>a b. cprintf_loop ?fmt ?args t = Ok () (printed t (a @ ascii '' '' @ name @ ascii '': unknown sys call '' @ b @ [10]))
      \<and> decimal a (nat (pid mod 2 ^ 32)) \<and> decimal b (nat (num mod 2 ^ 32))" if p: "\<not> panicked t" for t :: "'a kcons_scheme"
  proof -
    from printint_int [OF p, of pid] obtain a where a: "printint (int_arg pid) 10 True t = Ok () (printed t a)" "decimal a (nat (pid mod 2 ^ 32))" by blast
    let ?u = "printed t (a @ ascii '' '' @ name @ ascii '': unknown sys call '')"
    from printint_int [of ?u num] p obtain b where b: "printint (int_arg num) 10 True ?u = Ok () (printed ?u b)" "decimal b (nat (num mod 2 ^ 32))" by auto
    have "cprintf_loop ?fmt ?args t = cprintf_loop ('' '' @ ''%s: unknown sys call %d'' @ [CHR 0x0A]) (tl ?args) (printed t a)"
      using a(1) by simp
    also have "\<dots> = cprintf_loop (''%s: unknown sys call %d'' @ [CHR 0x0A]) (tl ?args) (printed t (a @ ascii '' ''))"
      using p by (subst cprintf_text) simp_all
    also have "\<dots> = cprintf_loop ('': unknown sys call '' @ ''%d'' @ [CHR 0x0A]) [ANum (int_arg num)] (printed t (a @ ascii '' '' @ name))"
      using p by (simp add: consputs_printed)
    also have "\<dots> = cprintf_loop (''%d'' @ [CHR 0x0A]) [ANum (int_arg num)] ?u"
      using p by (subst cprintf_text) simp_all
    also have "\<dots> = cprintf_loop ([CHR 0x0A] @ []) [] (printed ?u b)" using b(1) by simp
    also have "\<dots> = Ok () (printed (printed ?u b) [10])" using p by (subst cprintf_text) (simp_all add: ascii_def)
    finally show ?thesis using a(2) b(2) by auto
  qed
  let ?s = "if cons_locking s then acquire Lk_cons s else s"
  have s: "\<not> panicked ?s" "cpu_ok s" "uart_tx ?s = uart_tx s" using assms by (auto simp: con_ok_def lock_simps)
  from loop [OF s(1)] obtain a b where ab: "cprintf_loop ?fmt ?args ?s = Ok () (printed ?s (a @ ascii '' '' @ name @ ascii '': unknown sys call '' @ b @ [10]))"
    "decimal a (nat (pid mod 2 ^ 32))" "decimal b (nat (num mod 2 ^ 32))" by blast
  then obtain t where "cprintf ?fmt ?args s = Ok () t" "con_frame s t"
    "uart_tx t = uart_tx s @ a @ ascii '' '' @ name @ ascii '': unknown sys call '' @ b @ [10]"
    using s(2) by (cases "cons_locking s") (auto simp: cprintf_def con_frame_def lock_simps printed_def cpu_ok_def)
  then show ?thesis using ab(2,3) by blast
qed

text \<open>C34: A call number outside the table is reported on the console, in a line with the process id, the name of the
  process and the number, both numbers as unsigned 32-bit values; it is answered with -1 in \<open>r0\<close> and changes nothing else of
  the process. The number just past the end of the table is not caught:
  the dispatcher reads a function pointer beyond the array.\<close>

theorem unknown_syscall:
  assumes "cproc s = Some p" and "con_ok s" and "num = to_int (tf_r (p_tf (ptable s p)) 0)" and "num < 1 \<or> 21 < num"
  shows "if num = 22 then syscall s = Fault
    else \<exists>t a b. syscall s = Ok () t \<and> con_ok t
      \<and> ptable t = (ptable s)(p := (ptable s p)\<lparr>p_tf := (p_tf (ptable s p))\<lparr>tf_r := (tf_r (p_tf (ptable s p)))(0 := - 1)\<rparr>\<rparr>)
      \<and> uart_tx t = uart_tx s @ a @ ascii '' '' @ p_name (ptable s p) @ ascii '': unknown sys call '' @ b @ [10]
      \<and> decimal a (nat (p_pid (ptable s p) mod 2 ^ 32)) \<and> decimal b (nat (num mod 2 ^ 32))"
proof (cases "num = 22")
  case True
  then show ?thesis using assms(1,3) by (simp add: syscall_def cur_def Let_def length_syscalls)
next
  case False
  let ?m = "cprintf (''%d %s: unknown sys call %d'' @ [CHR 0x0A]) [ANum (int_arg (p_pid (ptable s p))), AStr (Some (p_name (ptable s p))),
    ANum (int_arg num)] s"
  from unknown_message [OF assms(2)] obtain t a b where t: "?m = Ok () t" "con_frame s t"
    "uart_tx t = uart_tx s @ a @ ascii '' '' @ p_name (ptable s p) @ ascii '': unknown sys call '' @ b @ [10]"
    "decimal a (nat (p_pid (ptable s p) mod 2 ^ 32))" "decimal b (nat (num mod 2 ^ 32))" by blast
  have "syscall s = andthen ?m (\<lambda>_ u. set_r0 (- 1) u)"
    using False assms(1,3,4) by (auto simp: syscall_def cur_def Let_def length_syscalls)
  moreover have "cproc t = Some p" "ptable t = ptable s" "con_ok t"
    using t(2) assms(1) con_frame_ok [OF t(2) assms(2)] by (simp_all add: con_frame_def)
  ultimately have "\<exists>u. syscall s = Ok () u \<and> con_ok u \<and> uart_tx u = uart_tx t
      \<and> ptable u = (ptable s)(p := (ptable s p)\<lparr>p_tf := (p_tf (ptable s p))\<lparr>tf_r := (tf_r (p_tf (ptable s p)))(0 := - 1)\<rparr>\<rparr>)"
    using t(1) by (auto simp: set_r0_def cur_def upd_proc_def con_ok_def cpu_ok_def)
  then show ?thesis using False t(3-5) by auto
qed

theorem unknown_syscall_witness:
  "syscall (user_proc (\<lambda>_. 22) 4096) = Fault
   \<and> (\<exists>t a b. syscall (user_proc (\<lambda>_. 99) 4096) = Ok () t \<and> tf_r (p_tf (ptable t 0)) 0 = - 1
       \<and> uart_tx t = uart_tx (user_proc (\<lambda>_. 99) 4096) @ a @ ascii '' '' @ p_name (ptable (user_proc (\<lambda>_. 99) 4096) 0) @ ascii '': unknown sys call '' @ b @ [10]
       \<and> decimal b 99)"
proof -
  have n: "to_int 22 = 22" "to_int 99 = 99" by (simp_all add: to_int_def)
  have "syscall (user_proc (\<lambda>_. 22) 4096) = Fault" using unknown_syscall [of "user_proc (\<lambda>_. 22) 4096" 0 22] n by (simp add: con_ok_def)
  moreover obtain t a b where "syscall (user_proc (\<lambda>_. 99) 4096) = Ok () t"
    "ptable t = (ptable (user_proc (\<lambda>_. 99) 4096))(0 := (ptable (user_proc (\<lambda>_. 99) 4096) 0)\<lparr>p_tf :=
       (p_tf (ptable (user_proc (\<lambda>_. 99) 4096) 0))\<lparr>tf_r := (tf_r (p_tf (ptable (user_proc (\<lambda>_. 99) 4096) 0)))(0 := - 1)\<rparr>\<rparr>)"
    "uart_tx t = uart_tx (user_proc (\<lambda>_. 99) 4096) @ a @ ascii '' '' @ p_name (ptable (user_proc (\<lambda>_. 99) 4096) 0) @ ascii '': unknown sys call '' @ b @ [10]"
    "decimal b 99"
    using unknown_syscall [of "user_proc (\<lambda>_. 99) 4096" 0 99] n by (auto simp: con_ok_def)
  ultimately show ?thesis by (intro conjI) auto
qed

end
