(* ===== verification/Fs_Blocks.thy ===== *)
theory Fs_Blocks
  imports Boot_State
begin

text \<open>
  Reading and logging blocks inside a transaction, as the file system layer does it: what
  \<open>bread\<close>, \<open>log_write\<close> and \<open>brelse\<close> mean for the contents of the blocks. On top of that, the
  block allocator of \<^verbatim>\<open>fs.c\<close>.
\<close>

section \<open>Blocks in a transaction\<close>

text \<open>A transaction is open and has logged the blocks \<open>H\<close>; there is room to log \<open>H\<close>.\<close>

definition in_trans :: "nat \<Rightarrow> nat \<Rightarrow> nat set \<Rightarrow> 'z klog_scheme \<Rightarrow> bool" where
  "in_trans S L H s \<longleftrightarrow> (\<exists>n. log_ok S L n s \<and> log_busy s \<and> homes n s = H)"

definition log_fits :: "nat \<Rightarrow> nat set \<Rightarrow> bool" where
  "log_fits L H \<longleftrightarrow> finite H \<and> card H < NBUF \<and> card H + 1 < L"

lemma log_fits_mono: "log_fits L H \<Longrightarrow> G \<subseteq> H \<Longrightarrow> log_fits L G"
  by (auto simp: log_fits_def intro: finite_subset dest: card_mono)

text \<open>Only the state above the log differs.\<close>

definition only_more :: "'z klog_scheme \<Rightarrow> 'z klog_scheme \<Rightarrow> bool" where
  "only_more s t \<longleftrightarrow> klog.truncate t = klog.truncate s"

lemma only_more_fields:
  assumes "only_more s t"
  shows "bc_buf t = bc_buf s" "bc_head_next t = bc_head_next s" "bc_head_prev t = bc_head_prev s" "memdisk t = memdisk s"
    "disksize t = disksize s" "disk_writes t = disk_writes s" "cpu_same s t" "log_dev t = log_dev s" "log_start t = log_start s"
    "log_size t = log_size s" "lh_n t = lh_n s" "lh_sector t = lh_sector s" "log_busy t = log_busy s" "ptable t = ptable s" "cpu_ok t = cpu_ok s"
  using assms by (simp_all add: only_more_def klog.defs cpu_same_def cpu_ok_def)

lemma only_more_refl [simp]: "only_more s s"
  by (simp add: only_more_def)

lemma only_more_upd_inode [simp]: "only_more s (upd_inode i g s)"
  by (simp add: only_more_def upd_inode_def klog.defs)

lemma log_ok_ran:
  fixes s u :: "'z klog_scheme"
  assumes ok: "log_ok S L n s" and r: "ran [] s u" and d: "dirty u = dirty s"
    and f: "log_dev u = log_dev s" "log_start u = log_start s" "log_size u = log_size s" "lh_n u = lh_n s" "lh_sector u = lh_sector s"
  shows "log_ok S L n u"
proof -
  have c: "cached m i u = cached m i s" if "i \<in> dirty u" for m i
    using r that by (auto simp: ran_def same_id_def cached_def)
  have S: "S + L \<le> disksize s" "disksize u = disksize s" using ok r by (auto simp: log_ok_def log_geom_def ran_def cpu_same_def)
  have b: "blk u m = blk s m" if "m < S" for m using r that S by (auto simp: ran_def)
  have "log_geom S L u" using ok f S by (simp add: log_ok_def log_geom_def)
  moreover have "memdisk u = memdisk s" "bio_inv u" "nobusy u" using r by (auto simp: ran_def)
  moreover have "cpu_ok u" using ran_cpu_ok [OF r] ok by (simp add: log_ok_def)
  ultimately show ?thesis
    using ok unfolding log_ok_def f(4,5) d
    by (auto simp: b c [unfolded d])
qed

text \<open>Reading a block, with a transaction open or not: \<open>bread\<close> delivers its contents, and after any
  work above the log \<open>brelse\<close> leaves all contents and the log as they were.\<close>

lemma block_read:
  fixes s :: "'z klog_scheme"
  assumes ok: "log_ok S L n s" and m: "m < S"
  shows "\<exists>i t. bread 1 (of_nat m) s = Ok i t \<and> b_data (bc_buf t i) = blk s m \<and> kbio.more t = kbio.more s \<and> cpu_same s t
    \<and> (\<forall>t'. only_more t t' \<longrightarrow> (\<exists>u. brelse i t' = Ok () u \<and> log_ok S L n u \<and> homes n u = homes n s \<and> log_busy u = log_busy s
         \<and> cpu_same s u \<and> klog.more u = klog.more t' \<and> (\<forall>x<disksize s. blk u x = blk s x)))"
proof -
  have a: "bio_inv s" "cpu_ok s" "nobusy s" "card (dirty s) < NBUF" "m < disksize s"
    using ok log_ok_card [OF ok] m by (auto simp: log_ok_def log_geom_def)
  from read_quiet [OF a] obtain i t where t: "bread 1 (of_nat m) s = Ok i t" "b_data (bc_buf t i) = blk s m"
    "kbio.more t = kbio.more s" "got m i s t" "bio_inv t" "\<forall>x<disksize s. blk t x = blk s x" by blast
  have more: "log_dev t = log_dev s" "log_start t = log_start s" "log_size t = log_size s" "lh_n t = lh_n s" "lh_sector t = lh_sector s"
    "log_busy t = log_busy s" using t(3) by (cases s; cases t; simp)+
  have "\<exists>u. brelse i t' = Ok () u \<and> log_ok S L n u \<and> homes n u = homes n s \<and> log_busy u = log_busy s \<and> cpu_same s u
      \<and> klog.more u = klog.more t' \<and> (\<forall>x<disksize s. blk u x = blk s x)"
    if t': "only_more t t'" for t'
  proof -
    note o = only_more_fields [OF t']
    from release_quiet [OF a(1,3,5,2) t(4-6) o(1-7)] obtain u where u: "brelse i t' = Ok () u" "ran [] s u" "kbio.more u = kbio.more t'" by blast
    have busy: "B_BUSY \<in> b_flags (bc_buf t' i)" "cpu_ok t'"
      using t(4) o a(2) bframe_cpu_ok [of s t] by (auto simp: got_def)
    from brelse_spec [OF busy(2,1)] u(1) have "released i t' u" by auto
    note r = released_fields(4) [OF this]
    have d: "dirty u = dirty s"
      using t(4) by (auto simp: dirty_def r o(1) got_def split: if_splits)
    have g: "log_dev u = log_dev s" "log_start u = log_start s" "log_size u = log_size s" "lh_n u = lh_n s" "lh_sector u = lh_sector s" "log_busy u = log_busy s"
      "klog.more u = klog.more t'"
      using u(3) more o by (cases u; cases t'; simp)+
    have "homes n u = homes n s" using g(5) by (simp add: homes_def)
    with log_ok_ran [OF ok u(2) d g(1-5)] u g show ?thesis by (auto simp: ran_def)
  qed
  with t show ?thesis by (auto simp: got_def bframe_def cpu_same_def)
qed

lemma trans_read:
  fixes s :: "'z klog_scheme"
  assumes tr: "in_trans S L H s" and m: "m < S"
  shows "\<exists>i t. bread 1 (of_nat m) s = Ok i t \<and> b_data (bc_buf t i) = blk s m \<and> kbio.more t = kbio.more s \<and> cpu_same s t
    \<and> (\<forall>t'. only_more t t' \<longrightarrow> (\<exists>u. brelse i t' = Ok () u \<and> in_trans S L H u \<and> cpu_same s u \<and> klog.more u = klog.more t'
         \<and> (\<forall>x<disksize s. blk u x = blk s x)))"
proof -
  from tr obtain n where ok: "log_ok S L n s" "log_busy s" "homes n s = H" by (auto simp: in_trans_def)
  have t: "in_trans S L H u" if "log_ok S L n u \<and> homes n u = homes n s \<and> log_busy u = log_busy s" for u :: "'z klog_scheme"
    using that ok by (auto simp: in_trans_def)
  from block_read [OF ok(1) m] show ?thesis by (meson t)
qed

lemma trans_write:
  fixes s :: "'z klog_scheme"
  assumes tr: "in_trans S L H s" and m: "m < S" and fits: "log_fits L (insert m H)"
  shows "\<exists>t. logged_write m d s = Ok () t \<and> in_trans S L (insert m H) t \<and> cpu_same s t \<and> klog.more t = klog.more s
    \<and> (\<forall>x<S. blk t x = ((blk s)(m := d)) x)"
proof -
  from tr obtain n where ok: "log_ok S L n s" "log_busy s" "homes n s = H" by (auto simp: in_trans_def)
  have fin: "finite (homes n s)" "card (homes n s) = n" using homes_card [OF ok(1)] by (simp_all add: homes_def)
  have le: "card (homes n s) \<le> card (insert m (homes n s))" using fin(1) by (intro card_mono) auto
  have c: "card (insert m (homes n s)) < NBUF" "card (homes n s) + 1 < L" using fits ok(3) le by (auto simp: log_fits_def)
  from logged_write_spec [OF ok(1) m ok(2) c, of d] obtain t n' where t: "logged_write m d s = Ok () t" "log_ok S L n' t" "log_busy t"
    "homes n' t = insert m (homes n s)" "\<forall>x<S. blk t x = ((blk s)(m := d)) x" by blast
  define k where "k = log_slot s (of_nat m)"
  note kk = log_slot_spec [OF ok(1) m k_def]
  have n: "n + 1 < L" using c(2) fin(2) by simp
  have kn: "k < n \<or> n + 1 < NBUF"
  proof (cases "k < n")
    case False
    then have "m \<notin> homes n s" using kk(1,3) ok(1) by (force simp: homes_def log_ok_def)
    then show ?thesis using c(1) fin by simp
  qed simp
  from logged_write_effect [OF ok(1) m ok(2) n k_def kn, of d] t(1) have
    e: "logged (S + k + 1) m d s t" "kbio.more t = kbio.more (s\<lparr>lh_n := int (max n (k + 1)), lh_sector := (lh_sector s)(k := int m)\<rparr>)" by auto
  have "klog.more t = klog.more s" using e(2) by (cases s; cases t) simp
  with t e(1) ok(3) show ?thesis by (auto simp: in_trans_def logged_def)
qed

text \<open>A block that is read, changed and logged.\<close>

lemma trans_update:
  fixes s :: "'z klog_scheme"
  assumes tr: "in_trans S L H s" and m: "m < S"
  shows "\<exists>i t. bread 1 (of_nat m) s = Ok i t \<and> b_data (bc_buf t i) = blk s m \<and> kbio.more t = kbio.more s
    \<and> (\<forall>d. andthen (log_write i (set_bdata i d t)) (\<lambda>_ u. brelse i u) = logged_write m d s)"
proof -
  from trans_read [OF assms] obtain i t where "bread 1 (of_nat m) s = Ok i t" "b_data (bc_buf t i) = blk s m" "kbio.more t = kbio.more s"
    by blast
  then show ?thesis by (auto simp: logged_write_def)
qed

section \<open>The block allocator\<close>

definition bitmap_block :: "superblock \<Rightarrow> nat \<Rightarrow> nat" where
  "bitmap_block sb b = unat (BBLOCK (of_nat b) (sb_ninodes sb))"

definition block_free :: "superblock \<Rightarrow> 'z kbio_scheme \<Rightarrow> nat \<Rightarrow> bool" where
  "block_free sb s b \<longleftrightarrow> bm_free (blk s (bitmap_block sb b)) (b mod BPB)"

definition zero_block :: "bytes \<Rightarrow> bytes" where
  "zero_block d = (\<lambda>i. if i < BSIZE then 0 else d i)"

lemma of_nat_bitmap_block [simp]: "of_nat (bitmap_block sb b) = BBLOCK (of_nat b) (sb_ninodes sb)"
  by (simp add: bitmap_block_def)

lemma bitmap_block_same:
  assumes "b mod BPB = 0" "bi < BPB" "b + bi < 2 ^ 32"
  shows "bitmap_block sb (b + bi) = bitmap_block sb b" "(b + bi) mod BPB = bi"
proof -
  have "unat (of_nat BPB :: uint) = BPB" by (simp add: BPB_def BSIZE_def)
  moreover have "unat (of_nat (b + bi) :: uint) = b + bi" "unat (of_nat b :: uint) = b"
    using assms(3) by (simp_all add: unat_of_nat_uint del: of_nat_add)
  moreover have "(b + bi) div BPB = b div BPB" using assms(1,2) by auto
  ultimately have "unat (of_nat (b + bi) div of_nat BPB :: uint) = unat (of_nat b div of_nat BPB :: uint)"
    by (simp only: unat_div)
  then have "(of_nat (b + bi) div of_nat BPB :: uint) = of_nat b div of_nat BPB" by (simp only: word_unat_eq_iff)
  then show "bitmap_block sb (b + bi) = bitmap_block sb b" unfolding bitmap_block_def BBLOCK_def by (simp only:)
  show "(b + bi) mod BPB = bi" using assms(1,2) by (simp add: mod_add_eq [symmetric])
qed

lemma readsb_trans:
  assumes "in_trans S L H s" "1 < S"
  shows "\<exists>u. readsb 1 s = Ok (get_superblock (blk s 1)) u \<and> in_trans S L H u \<and> cpu_same s u \<and> klog.more u = klog.more s
    \<and> (\<forall>x<disksize s. blk u x = blk s x)"
proof -
  from trans_read [OF assms] obtain i t where t: "bread 1 (of_nat 1) s = Ok i t" "b_data (bc_buf t i) = blk s 1" "kbio.more t = kbio.more s"
    "\<forall>t'. only_more t t' \<longrightarrow> (\<exists>u. brelse i t' = Ok () u \<and> in_trans S L H u \<and> cpu_same s u \<and> klog.more u = klog.more t'
         \<and> (\<forall>x<disksize s. blk u x = blk s x))" by blast
  have "klog.more t = klog.more s" using t(3) by (cases s; cases t) simp
  moreover obtain u where "brelse i t = Ok () u" "in_trans S L H u" "cpu_same s u" "klog.more u = klog.more t"
    "\<forall>x<disksize s. blk u x = blk s x" using t(4) only_more_refl by blast
  ultimately show ?thesis using t(1,2) by (auto simp: readsb_def)
qed

lemma bzero_eq:
  assumes "in_trans S L H s" "m < S"
  shows "bzero 1 (of_nat m) s = logged_write m (zero_block (blk s m)) s"
proof -
  from trans_update [OF assms] obtain i t where "bread 1 (of_nat m) s = Ok i t" "b_data (bc_buf t i) = blk s m"
    "\<forall>d. andthen (log_write i (set_bdata i d t)) (\<lambda>_ u. brelse i u) = logged_write m d s" by blast
  moreover from this have "(\<lambda>x. if x < BSIZE then 0 else b_data (bc_buf t i) x) = zero_block (blk s m)" by (auto simp: zero_block_def fun_eq_iff)
  ultimately show ?thesis by (simp add: bzero_def)
qed

text \<open>What an allocation of block \<open>b0\<close> does to the contents of the blocks.\<close>

definition balloc_writes :: "superblock \<Rightarrow> nat \<Rightarrow> (nat \<Rightarrow> bytes) \<Rightarrow> nat \<Rightarrow> bytes" where
  "balloc_writes sb b0 D = (let D1 = D(bitmap_block sb b0 := bm_set (b0 mod BPB) (D (bitmap_block sb b0)))
     in D1(b0 := zero_block (D1 b0)))"

definition bm_range :: "superblock \<Rightarrow> nat \<Rightarrow> nat list" where
  "bm_range sb b = map ((+) b) [0..<min BPB (unat (sb_size sb) - b)]"

lemma bm_range_mem: "x \<in> set (bm_range sb c) \<Longrightarrow> \<exists>bi<min BPB (unat (sb_size sb) - c). x = c + bi"
  by (rule exI [of _ "x - c"]) (auto simp: bm_range_def)

lemma find_map: "List.find P (map f xs) = map_option f (List.find (\<lambda>x. P (f x)) xs)"
  by (induction xs) auto

lemma find_append: "List.find P (xs @ ys) = (case List.find P xs of None \<Rightarrow> List.find P ys | Some x \<Rightarrow> Some x)"
  by (induction xs) auto

lemma find_in_set: "List.find P xs = Some x \<Longrightarrow> x \<in> set xs \<and> P x"
  by (induction xs) (auto split: if_splits)

lemma find_cong_set: "(\<And>x. x \<in> set xs \<Longrightarrow> P x = Q x) \<Longrightarrow> List.find P xs = List.find Q xs"
  by (induction xs) auto

lemma find_bitmap:
  assumes "b mod BPB = 0" "b < unat (sb_size sb)"
  shows "List.find (block_free sb s) (bm_range sb b) =
    map_option ((+) b) (List.find (bm_free (blk s (bitmap_block sb b))) [0..<min BPB (unat (sb_size sb) - b)])"
proof -
  have "block_free sb s (b + bi) = bm_free (blk s (bitmap_block sb b)) bi" if "bi < min BPB (unat (sb_size sb) - b)" for bi
  proof -
    have "b + bi < 2 ^ 32" using that unsigned_less [of "sb_size sb", where 'a = nat] by auto
    with bitmap_block_same [OF assms(1) _ this] that show ?thesis by (simp add: block_free_def)
  qed
  then show ?thesis unfolding bm_range_def find_map by (intro arg_cong [of _ _ "map_option _"] find_cong_set) simp
qed

lemma block_free_cong:
  assumes "\<forall>b\<in>set bs. b mod BPB = 0 \<and> b < unat (sb_size sb) \<and> bitmap_block sb b < S" "\<forall>x<S. blk u x = blk s x"
    and "x \<in> set (concat (map (bm_range sb) bs))"
  shows "block_free sb u x = block_free sb s x" "bitmap_block sb x < S"
proof -
  from assms(3) obtain c bi where c: "c \<in> set bs" "x = c + bi" "bi < min BPB (unat (sb_size sb) - c)"
    by (auto dest: bm_range_mem)
  then have "c + bi < 2 ^ 32" using unsigned_less [of "sb_size sb", where 'a = nat] by auto
  then have "bitmap_block sb x = bitmap_block sb c" using bitmap_block_same(1) [of c bi] c assms(1) by auto
  then show "bitmap_block sb x < S" using c(1) assms(1) by auto
  then show "block_free sb u x = block_free sb s x" using assms(2) by (simp add: block_free_def)
qed

lemma trans_disk: "in_trans S L H s \<Longrightarrow> S \<le> disksize s"
  by (auto simp: in_trans_def log_ok_def log_geom_def)

text \<open>One pass of the outer loop of \<open>balloc\<close> that finds no free bit, and one that does.\<close>

lemma balloc_loop_skip:
  assumes "in_trans S L H s" "b mod BPB = 0" "b < unat (sb_size sb)" "bitmap_block sb b < S"
    and "List.find (block_free sb s) (bm_range sb b) = None"
  shows "\<exists>u. balloc_loop 1 sb (b # bs) s = balloc_loop 1 sb bs u \<and> in_trans S L H u \<and> cpu_same s u \<and> klog.more u = klog.more s
    \<and> (\<forall>x<S. blk u x = blk s x)"
proof -
  from trans_read [OF assms(1,4)] obtain i t where t: "bread 1 (of_nat (bitmap_block sb b)) s = Ok i t"
    "b_data (bc_buf t i) = blk s (bitmap_block sb b)" "kbio.more t = kbio.more s"
    "\<forall>t'. only_more t t' \<longrightarrow> (\<exists>u. brelse i t' = Ok () u \<and> in_trans S L H u \<and> cpu_same s u \<and> klog.more u = klog.more t'
         \<and> (\<forall>x<disksize s. blk u x = blk s x))" by blast
  then obtain u where u: "brelse i t = Ok () u" "in_trans S L H u" "cpu_same s u" "klog.more u = klog.more t" "\<forall>x<disksize s. blk u x = blk s x"
    using only_more_refl by blast
  have "klog.more t = klog.more s" using t(3) by (cases s; cases t) simp
  moreover have "List.find (bm_free (blk s (bitmap_block sb b))) [0..<min BPB (unat (sb_size sb) - b)] = None"
    using assms(5) find_bitmap [OF assms(2,3), of s] by simp
  ultimately show ?thesis using t(1,2) u trans_disk [OF assms(1)] by (intro exI [of _ u]) auto
qed

lemma balloc_loop_none:
  assumes "in_trans S L H s" "\<forall>b\<in>set bs. b mod BPB = 0 \<and> b < unat (sb_size sb) \<and> bitmap_block sb b < S"
    and "List.find (block_free sb s) (concat (map (bm_range sb) bs)) = None"
  shows "balloc_loop 1 sb bs s = Panic ''balloc: out of blocks''"
  using assms
proof (induction bs arbitrary: s)
  case (Cons b bs)
  have b: "b mod BPB = 0" "b < unat (sb_size sb)" "bitmap_block sb b < S" using Cons.prems(2) by auto
  have f: "List.find (block_free sb s) (bm_range sb b) = None" "List.find (block_free sb s) (concat (map (bm_range sb) bs)) = None"
    using Cons.prems(3) by (auto simp: find_append split: option.splits)
  from balloc_loop_skip [OF Cons.prems(1) b f(1), of bs] obtain u where
    u: "balloc_loop 1 sb (b # bs) s = balloc_loop 1 sb bs u" "in_trans S L H u" "\<forall>x<S. blk u x = blk s x" by blast
  have "List.find (block_free sb u) (concat (map (bm_range sb) bs)) = List.find (block_free sb s) (concat (map (bm_range sb) bs))"
    using block_free_cong(1) [OF _ u(3), of bs] Cons.prems(2) by (intro find_cong_set) auto
  then show ?case using Cons u(1,2) f(2) by auto
qed simp

lemma balloc_loop_some:
  assumes "in_trans S L H s" "\<forall>b\<in>set bs. b mod BPB = 0 \<and> b < unat (sb_size sb) \<and> bitmap_block sb b < S"
    and "List.find (block_free sb s) (concat (map (bm_range sb) bs)) = Some b0" "b0 < S" "log_fits L (insert b0 (insert (bitmap_block sb b0) H))"
  shows "\<exists>t. balloc_loop 1 sb bs s = Ok (of_nat b0) t \<and> in_trans S L (insert b0 (insert (bitmap_block sb b0) H)) t \<and> cpu_same s t
    \<and> klog.more t = klog.more s \<and> (\<forall>x<S. blk t x = balloc_writes sb b0 (blk s) x)"
  using assms
proof (induction bs arbitrary: s)
  case (Cons b bs)
  have b: "b mod BPB = 0" "b < unat (sb_size sb)" "bitmap_block sb b < S" using Cons.prems(2) by auto
  show ?case
  proof (cases "List.find (block_free sb s) (bm_range sb b)")
    case None
    from balloc_loop_skip [OF Cons.prems(1) b None, of bs] obtain u where
      u: "balloc_loop 1 sb (b # bs) s = balloc_loop 1 sb bs u" "in_trans S L H u" "cpu_same s u" "klog.more u = klog.more s" "\<forall>x<S. blk u x = blk s x" by blast
    have "List.find (block_free sb u) (concat (map (bm_range sb) bs)) = List.find (block_free sb s) (concat (map (bm_range sb) bs))"
      using block_free_cong(1) [OF _ u(5), of bs] Cons.prems(2) by (intro find_cong_set) auto
    then have f: "List.find (block_free sb u) (concat (map (bm_range sb) bs)) = Some b0" using Cons.prems(3) None by (simp add: find_append)
    have "b0 \<in> set (concat (map (bm_range sb) bs))" using find_in_set [OF f] by blast
    then have "bitmap_block sb b0 < S" using block_free_cong(2) [OF _ u(5), of bs] Cons.prems(2) by auto
    then have w: "\<forall>x<S. balloc_writes sb b0 (blk u) x = balloc_writes sb b0 (blk s) x"
      using u(5) Cons.prems(4) by (simp add: balloc_writes_def Let_def)
    from Cons.IH [OF u(2) _ f Cons.prems(4,5)] Cons.prems(2) obtain t where t: "balloc_loop 1 sb bs u = Ok (of_nat b0) t"
      "in_trans S L (insert b0 (insert (bitmap_block sb b0) H)) t" "cpu_same u t" "klog.more t = klog.more u"
      "\<forall>x<S. blk t x = balloc_writes sb b0 (blk u) x" by auto
    with u w show ?thesis by (intro exI [of _ t]) (auto simp: cpu_same_def)
  next
    case (Some c)
    then have c: "c = b0" using Cons.prems(3) by (simp add: find_append)
    let ?m = "bitmap_block sb b"
    from Some c find_bitmap [OF b(1,2), of s] obtain bi where
      bi: "List.find (bm_free (blk s ?m)) [0..<min BPB (unat (sb_size sb) - b)] = Some bi" "b0 = b + bi" by auto
    then have "bi < min BPB (unat (sb_size sb) - b)" by (auto simp: find_Some_iff)
    moreover from this have "b + bi < 2 ^ 32" using unsigned_less [of "sb_size sb", where 'a = nat] by auto
    ultimately have m: "bitmap_block sb b0 = ?m" "b0 mod BPB = bi" using bitmap_block_same [OF b(1)] bi(2) by auto
    from trans_update [OF Cons.prems(1) b(3)] obtain i t where t: "bread 1 (of_nat ?m) s = Ok i t" "b_data (bc_buf t i) = blk s ?m"
      "\<forall>d. andthen (log_write i (set_bdata i d t)) (\<lambda>_ u. brelse i u) = logged_write ?m d s" by blast
    let ?d = "bm_set bi (blk s ?m)"
    have "log_fits L (insert ?m H)" using Cons.prems(5) m(1) by (auto intro: log_fits_mono)
    from trans_write [OF Cons.prems(1) b(3) this, of ?d] obtain u where u: "logged_write ?m ?d s = Ok () u" "in_trans S L (insert ?m H) u"
      "cpu_same s u" "klog.more u = klog.more s" "\<forall>x<S. blk u x = ((blk s)(?m := ?d)) x" by blast
    from trans_write [OF u(2) Cons.prems(4), of "zero_block (blk u b0)"] Cons.prems(5) m(1) obtain v where
      v: "logged_write b0 (zero_block (blk u b0)) u = Ok () v" "in_trans S L (insert b0 (insert ?m H)) v" "cpu_same u v" "klog.more v = klog.more u"
      "\<forall>x<S. blk v x = ((blk u)(b0 := zero_block (blk u b0))) x" by auto
    have "balloc_loop 1 sb (b # bs) s = andthen (logged_write ?m ?d s) (\<lambda>_ s3. andthen (bzero 1 (of_nat (b + bi)) s3) (\<lambda>_ s4. Ok (of_nat (b + bi)) s4))"
      using t(1,2) bi(1) by (simp add: andthen_assoc flip: t(3))
    also have "\<dots> = Ok (of_nat b0) v" using u(1) bzero_eq [OF u(2) Cons.prems(4)] v(1) bi(2) by simp
    finally show ?thesis
      using u v m Cons.prems(4) by (intro exI [of _ v]) (auto simp: balloc_writes_def Let_def cpu_same_def)
  qed
qed simp

lemma map_add_upt_nat: "map ((+) b) [0..<k] = [b..<b + k]" for b k :: nat
  by (rule nth_equalityI) simp_all

lemma concat_pages:
  "concat (map (\<lambda>k. map ((+) (k * B)) [0..<min B (z - k * B)]) [0..<n]) = [0..<min (n * B) z]" for B z :: nat
proof (induction n)
  case (Suc n)
  have "[0..<min (n * B) z] @ [n * B..<n * B + min B (z - n * B)] = [0..<min (Suc n * B) z]"
  proof (cases "n * B \<le> z")
    case True
    then have "min (Suc n * B) z = n * B + min B (z - n * B)" by (auto simp: min_def)
    then show ?thesis using True upt_add_eq_append [of 0 "n * B" "min B (z - n * B)"] by (simp add: min_absorb1)
  next
    case False
    then show ?thesis by (simp add: min_absorb2)
  qed
  then show ?case using Suc by (simp add: map_add_upt_nat)
qed simp

lemma bm_blocks_range: "concat (map (bm_range sb) (bm_blocks (sb_size sb))) = [0..<unat (sb_size sb)]"
proof -
  let ?n = "(unat (sb_size sb) + BPB - 1) div BPB"
  have B: "0 < BPB" by (simp add: BPB_def BSIZE_def)
  have "unat (sb_size sb) \<le> ?n * BPB"
    using div_mult_mod_eq [of "unat (sb_size sb) + BPB - 1" BPB] mod_less_divisor [OF B, of "unat (sb_size sb) + BPB - 1"] by linarith
  then show ?thesis
    using concat_pages [of BPB "unat (sb_size sb)" ?n] by (simp add: bm_blocks_def bm_range_def [abs_def] comp_def min_absorb2)
qed

lemma bm_blocks_mem: "b \<in> set (bm_blocks sz) \<Longrightarrow> b mod BPB = 0 \<and> b < unat sz"
proof -
  assume "b \<in> set (bm_blocks sz)"
  then obtain k where k: "b = k * BPB" "k < (unat sz + BPB - 1) div BPB" unfolding bm_blocks_def by (metis (no_types, lifting) atLeastLessThan_iff imageE list.set_map set_upt)
  have B: "0 < BPB" by (simp add: BPB_def BSIZE_def)
  have "Suc k * BPB \<le> (unat sz + BPB - 1) div BPB * BPB" using k(2) by (intro mult_le_mono) auto
  also have "\<dots> \<le> unat sz + BPB - 1" by simp
  finally show ?thesis using k(1) B by (simp add: algebra_simps)
qed

text \<open>The geometry the allocator relies on: the superblock, and bitmap blocks before the log.\<close>

definition fs_geom :: "nat \<Rightarrow> superblock \<Rightarrow> 'z klog_scheme \<Rightarrow> bool" where
  "fs_geom S sb s \<longleftrightarrow> 1 < S \<and> get_superblock (blk s 1) = sb \<and> (\<forall>b<unat (sb_size sb). bitmap_block sb b < S)"

lemma balloc_spec:
  assumes tr: "in_trans S L H s" and g: "fs_geom S sb s"
  shows "List.find (block_free sb s) [0..<unat (sb_size sb)] = None \<Longrightarrow> balloc 1 s = Panic ''balloc: out of blocks''"
    and "\<lbrakk>List.find (block_free sb s) [0..<unat (sb_size sb)] = Some b; b < S; log_fits L (insert b (insert (bitmap_block sb b) H))\<rbrakk> \<Longrightarrow>
      \<exists>t. balloc 1 s = Ok (of_nat b) t \<and> in_trans S L (insert b (insert (bitmap_block sb b) H)) t \<and> cpu_same s t \<and> klog.more t = klog.more s
        \<and> (\<forall>x<S. blk t x = balloc_writes sb b (blk s) x)"
proof -
  from readsb_trans [OF tr] g obtain u where u: "readsb 1 s = Ok sb u" "in_trans S L H u" "cpu_same s u" "klog.more u = klog.more s"
    "\<forall>x<disksize s. blk u x = blk s x" by (auto simp: fs_geom_def)
  then have bl: "\<forall>x<S. blk u x = blk s x" using trans_disk [OF tr] by auto
  have bs: "\<forall>b\<in>set (bm_blocks (sb_size sb)). b mod BPB = 0 \<and> b < unat (sb_size sb) \<and> bitmap_block sb b < S"
    using g bm_blocks_mem by (auto simp: fs_geom_def)
  have eq: "balloc 1 s = balloc_loop 1 sb (bm_blocks (sb_size sb)) u" using u(1) by (simp add: balloc_def)
  have f: "List.find (block_free sb u) (concat (map (bm_range sb) (bm_blocks (sb_size sb)))) = List.find (block_free sb s) [0..<unat (sb_size sb)]"
    unfolding bm_blocks_range using block_free_cong(1) [OF bs bl, unfolded bm_blocks_range] by (intro find_cong_set) auto
  show "balloc 1 s = Panic ''balloc: out of blocks''" if "List.find (block_free sb s) [0..<unat (sb_size sb)] = None"
    unfolding eq using balloc_loop_none [OF u(2) bs] f that by simp
  assume b: "List.find (block_free sb s) [0..<unat (sb_size sb)] = Some b" "b < S" "log_fits L (insert b (insert (bitmap_block sb b) H))"
  then have "bitmap_block sb b < S" using find_in_set [OF b(1)] g by (auto simp: fs_geom_def)
  then have "\<forall>x<S. balloc_writes sb b (blk u) x = balloc_writes sb b (blk s) x" using bl b(2) by (simp add: balloc_writes_def Let_def)
  with balloc_loop_some [OF u(2) bs f [unfolded b(1)] b(2,3)] u(3,4)
  show "\<exists>t. balloc 1 s = Ok (of_nat b) t \<and> in_trans S L (insert b (insert (bitmap_block sb b) H)) t \<and> cpu_same s t \<and> klog.more t = klog.more s
        \<and> (\<forall>x<S. blk t x = balloc_writes sb b (blk s) x)"
    unfolding eq by (auto simp: cpu_same_def)
qed

lemma bm_mask_bit: "bit (bm_mask bi) k \<longleftrightarrow> k = bi mod 8"
proof -
  have "bi mod 8 < 8" by simp
  then show ?thesis by (auto simp: bm_mask_def bit_simps)
qed

lemma bm_free_bit: "bm_free d bi \<longleftrightarrow> \<not> bit (d (bi div 8)) (bi mod 8)"
  unfolding bm_free_def bit_eq_iff [of "d (bi div 8) AND bm_mask bi" 0]
  by (simp add: bit_and_iff bm_mask_bit) (metis mod_less_divisor zero_less_numeral)

lemma bm_set_free: "bm_free (bm_set bi d) bj \<longleftrightarrow> bj \<noteq> bi \<and> bm_free d bj"
  by (auto simp: bm_free_bit bm_set_def bit_simps bm_mask_bit) (metis div_mult_mod_eq)+

lemma bm_clear_free: "bm_free (bm_clear bi d) bj \<longleftrightarrow> bj = bi \<or> bm_free d bj"
  by (auto simp: bm_free_bit bm_clear_def bit_simps bm_mask_bit) (metis div_mult_mod_eq)+

lemma bm_clear_set: "bm_free d bi \<Longrightarrow> bm_clear bi (bm_set bi d) = d"
proof (rule ext)
  fix x assume f: "bm_free d bi"
  have "(d (bi div 8) OR bm_mask bi) AND NOT (bm_mask bi) = d (bi div 8)"
    using f by (intro bit_word_eqI) (auto simp: bm_free_bit bit_simps bm_mask_bit)
  then show "bm_clear bi (bm_set bi d) x = d x" by (simp add: bm_clear_def bm_set_def)
qed

lemma bfree_spec:
  assumes tr: "in_trans S L H s" and g: "fs_geom S sb s" and b: "b < unat (sb_size sb)"
  shows "block_free sb s b \<Longrightarrow> bfree 1 (of_nat b) s = Panic ''freeing free block''"
    and "\<lbrakk>\<not> block_free sb s b; log_fits L (insert (bitmap_block sb b) H)\<rbrakk> \<Longrightarrow>
      \<exists>t. bfree 1 (of_nat b) s = Ok () t \<and> in_trans S L (insert (bitmap_block sb b) H) t \<and> cpu_same s t \<and> klog.more t = klog.more s
        \<and> (\<forall>x<S. blk t x = ((blk s)(bitmap_block sb b := bm_clear (b mod BPB) (blk s (bitmap_block sb b)))) x)"
proof -
  from readsb_trans [OF tr] g obtain u where u: "readsb 1 s = Ok sb u" "in_trans S L H u" "cpu_same s u" "klog.more u = klog.more s"
    "\<forall>x<disksize s. blk u x = blk s x" by (auto simp: fs_geom_def)
  let ?m = "bitmap_block sb b" and ?bi = "b mod BPB"
  have m: "?m < S" using g b by (auto simp: fs_geom_def)
  have bl: "\<forall>x<S. blk u x = blk s x" using u(5) trans_disk [OF tr] by auto
  have n: "unat (of_nat b :: uint) = b" using b unsigned_less [of "sb_size sb", where 'a = nat] by (intro unat_of_nat_uint) auto
  from trans_update [OF u(2) m] obtain i t where t: "bread 1 (of_nat ?m) u = Ok i t" "b_data (bc_buf t i) = blk s ?m"
    "\<forall>d. andthen (log_write i (set_bdata i d t)) (\<lambda>_ v. brelse i v) = logged_write ?m d u" using bl m by auto
  have eq: "bfree 1 (of_nat b) s = (if bm_free (blk s ?m) ?bi then Panic ''freeing free block'' else logged_write ?m (bm_clear ?bi (blk s ?m)) u)"
    using u(1) t(1,2) n by (simp add: bfree_def Let_def flip: t(3))
  show "block_free sb s b \<Longrightarrow> bfree 1 (of_nat b) s = Panic ''freeing free block''" unfolding eq by (simp add: block_free_def)
  assume f: "\<not> block_free sb s b" "log_fits L (insert ?m H)"
  from trans_write [OF u(2) m f(2), of "bm_clear ?bi (blk s ?m)"] f(1) u(3,4) bl
  show "\<exists>t. bfree 1 (of_nat b) s = Ok () t \<and> in_trans S L (insert ?m H) t \<and> cpu_same s t \<and> klog.more t = klog.more s
        \<and> (\<forall>x<S. blk t x = ((blk s)(?m := bm_clear ?bi (blk s ?m))) x)"
    unfolding eq by (fastforce simp: block_free_def cpu_same_def)
qed

text \<open>A disk for the examples: 16 blocks, 8 inodes, the bitmap in block 4, blocks 0 to 4 in use.\<close>

definition small_disk :: "nat \<Rightarrow> bytes" where
  "small_disk n = (if n = 1 then (\<lambda>i. if i = 0 then 16 else if i = 8 then 8 else 0)
     else if n = 4 then (\<lambda>i. if i = 0 then 0x1F else 0) else (\<lambda>_. 0))"

definition small_fs :: klog where
  "small_fs = boot_log\<lparr>memdisk := small_disk\<rparr>"

lemma boot_log_disk:
  assumes "hb_n (D 1014) = 0"
  shows "in_trans 1014 10 {} (boot_log\<lparr>memdisk := D\<rparr>)" "blk (boot_log\<lparr>memdisk := D\<rparr>) = D"
proof -
  let ?s = "boot_log\<lparr>memdisk := D\<rparr>"
  have fl: "b_flags (bc_buf boot_log i) = {}" if "i < NBUF" for i
    using binit_spec(5) [of boot_bio] that by (simp add: boot_log_def kbio.defs boot_bio_fields)
  have inv: "bio_inv boot_log" "nobusy boot_log" "cpu_ok boot_log" "log_geom 1014 10 boot_log" "lh_n boot_log = 0" "log_busy boot_log"
    using boot_log_ok by (auto simp: log_ok_def)
  have "bio_inv ?s" using inv(1) fl by (simp add: bio_inv_def lru_def bunique_def bcoherent_def)
  moreover have d: "dirty ?s = {}" using fl by (auto simp: dirty_def)
  ultimately have "log_ok 1014 10 0 ?s"
    using inv assms by (simp add: log_ok_def nobusy_def cpu_ok_def log_geom_def NBUF_def)
  then show "in_trans 1014 10 {} ?s" using inv(6) by (auto simp: in_trans_def homes_def)
  have "\<not> (cached n i ?s \<and> B_VALID \<in> b_flags (bc_buf ?s i))" for n i
    using fl by (auto simp: cached_def)
  then have "blk ?s n = memdisk ?s n" for n by (intro blk_not_cached) blast
  then show "blk ?s = D" by (simp add: fun_eq_iff)
qed

lemma small_fs_geom:
  "in_trans 1014 10 {} small_fs" "fs_geom 1014 \<lparr>sb_size = 16, sb_nblocks = 0, sb_ninodes = 8, sb_nlog = 0\<rparr> small_fs"
  "blk small_fs = small_disk" "b < 16 \<Longrightarrow> bitmap_block \<lparr>sb_size = 16, sb_nblocks = 0, sb_ninodes = 8, sb_nlog = 0\<rparr> b = 4"
proof -
  have "hb_n (small_disk 1014) = 0" by (simp add: small_disk_def hb_n_def get32_def)
  note b = boot_log_disk [of small_disk, OF this]
  show "in_trans 1014 10 {} small_fs" "blk small_fs = small_disk" using b by (simp_all add: small_fs_def)
  have m: "bitmap_block \<lparr>sb_size = 16, sb_nblocks = 0, sb_ninodes = 8, sb_nlog = 0\<rparr> c = 4" if "c < 16" for c
  proof -
    have "bitmap_block \<lparr>sb_size = 16, sb_nblocks = 0, sb_ninodes = 8, sb_nlog = 0\<rparr> (0 + c) = bitmap_block \<lparr>sb_size = 16, sb_nblocks = 0, sb_ninodes = 8, sb_nlog = 0\<rparr> 0"
      using that by (intro bitmap_block_same) (simp_all add: BPB_def BSIZE_def)
    then show ?thesis by (simp add: bitmap_block_def BBLOCK_def layout_numbers)
  qed
  show "bitmap_block \<lparr>sb_size = 16, sb_nblocks = 0, sb_ninodes = 8, sb_nlog = 0\<rparr> b = 4" if "b < 16" using m that by blast
  show "fs_geom 1014 \<lparr>sb_size = 16, sb_nblocks = 0, sb_ninodes = 8, sb_nlog = 0\<rparr> small_fs"
    using m b(2) by (simp add: fs_geom_def small_fs_def small_disk_def get_superblock_def get32_def)
qed

section \<open>Properties\<close>

text \<open>C15: \<open>balloc\<close> hands out the first block whose bit in the bitmap is clear: inside a transaction with
  room for the two blocks it logs, it sets exactly that bit, zeroes the block, changes no other
  block, and the block is no longer free; with no clear bit it panics.\<close>

theorem balloc_first_free:
  assumes "in_trans S L H s" and "fs_geom S sb s"
  shows "case List.find (block_free sb s) [0..<unat (sb_size sb)] of
      None \<Rightarrow> balloc 1 s = Panic ''balloc: out of blocks''
    | Some b \<Rightarrow> b < S \<and> bitmap_block sb b \<noteq> b \<and> log_fits L (H \<union> {b, bitmap_block sb b}) \<longrightarrow>
        (\<exists>t. balloc 1 s = Ok (of_nat b) t \<and> in_trans S L (H \<union> {b, bitmap_block sb b}) t
          \<and> blk t b = zero_block (blk s b) \<and> blk t (bitmap_block sb b) = bm_set (b mod BPB) (blk s (bitmap_block sb b))
          \<and> (\<forall>x<S. x \<noteq> b \<and> x \<noteq> bitmap_block sb b \<longrightarrow> blk t x = blk s x) \<and> \<not> block_free sb t b)"
proof (cases "List.find (block_free sb s) [0..<unat (sb_size sb)]")
  case None
  then show ?thesis using balloc_spec(1) [OF assms] by simp
next
  case (Some b)
  have "bitmap_block sb b < S" using find_in_set [OF Some] assms(2) by (auto simp: fs_geom_def)
  moreover have "H \<union> {b, bitmap_block sb b} = insert b (insert (bitmap_block sb b) H)" by auto
  ultimately show ?thesis using balloc_spec(2) [OF assms Some] Some
    by (fastforce simp: balloc_writes_def Let_def block_free_def bm_set_free)
qed

theorem balloc_first_free_witness:
  "\<exists>t. balloc 1 small_fs = Ok 5 t \<and> blk t 4 = bm_set 5 (small_disk 4) \<and> (\<forall>x<1014. x \<noteq> 5 \<and> x \<noteq> 4 \<longrightarrow> blk t x = small_disk x)"
proof -
  let ?sb = "\<lparr>sb_size = 16, sb_nblocks = 0, sb_ninodes = 8, sb_nlog = 0\<rparr>"
  have up: "[0..<16] = [0, 1, 2, 3, 4] @ 5 # [6..<16]" by (simp add: upt_rec)
  have free: "block_free ?sb small_fs b = bm_free (small_disk 4) b" if "b < 16" for b
    using that small_fs_geom(3) small_fs_geom(4) [OF that] by (simp add: block_free_def layout_numbers)
  have "List.find (block_free ?sb small_fs) [0..<16] = Some 5"
    unfolding up by (simp add: free) (simp add: bm_free_bit small_disk_def bit_simps)
  moreover have "log_fits 10 ({} \<union> {5, 4})" by (simp add: log_fits_def NBUF_def)
  ultimately show ?thesis
    using balloc_first_free [OF small_fs_geom(1,2)] small_fs_geom(3) small_fs_geom(4) [of 5] by (auto simp: layout_numbers)
qed

text \<open>C24: \<open>bfree\<close> clears exactly the bit of the block it is given, and panics on a block that is free
  already; freeing a block that has just been allocated restores the bitmap.\<close>

theorem bfree_undoes_balloc:
  assumes "in_trans S L H s" and "fs_geom S sb s" and "b < unat (sb_size sb)"
  shows "if block_free sb s b then bfree 1 (of_nat b) s = Panic ''freeing free block'' \<and> bm_clear (b mod BPB) (bm_set (b mod BPB) (blk s (bitmap_block sb b))) = blk s (bitmap_block sb b)
    else log_fits L (insert (bitmap_block sb b) H) \<longrightarrow>
      (\<exists>t. bfree 1 (of_nat b) s = Ok () t \<and> in_trans S L (insert (bitmap_block sb b) H) t \<and> block_free sb t b
        \<and> (\<forall>x<S. x \<noteq> bitmap_block sb b \<longrightarrow> blk t x = blk s x)
        \<and> blk t (bitmap_block sb b) = bm_clear (b mod BPB) (blk s (bitmap_block sb b)))"
proof (cases "block_free sb s b")
  case True
  then show ?thesis using bfree_spec(1) [OF assms] bm_clear_set by (simp add: block_free_def)
next
  case False
  have "bitmap_block sb b < S" using assms(2,3) by (auto simp: fs_geom_def)
  then show ?thesis using bfree_spec(2) [OF assms False] False by (fastforce simp: block_free_def bm_clear_free)
qed

theorem bfree_undoes_balloc_witness:
  "bfree 1 7 small_fs = Panic ''freeing free block'' \<and> (\<exists>t. bfree 1 3 small_fs = Ok () t \<and> blk t 4 = bm_clear 3 (small_disk 4))"
proof -
  let ?sb = "\<lparr>sb_size = 16, sb_nblocks = 0, sb_ninodes = 8, sb_nlog = 0\<rparr>"
  have free: "block_free ?sb small_fs 7" "\<not> block_free ?sb small_fs 3"
    using small_fs_geom(3,4) by (simp_all add: block_free_def layout_numbers bm_free_bit) (simp_all add: small_disk_def bit_simps)
  have "log_fits 10 (insert 4 {})" by (simp add: log_fits_def NBUF_def)
  then show ?thesis
    using bfree_undoes_balloc [OF small_fs_geom(1,2), of 7] bfree_undoes_balloc [OF small_fs_geom(1,2), of 3] free small_fs_geom(3,4)
    by (auto simp: layout_numbers)
qed

end
