(* ===== verification/Inode_Props.thy ===== *)
theory Inode_Props
  imports Fs_Blocks
begin

text \<open>
  Inodes: the inode cache holds at most one entry per inode, and an inode written by \<open>iupdate\<close>
  is what a later \<open>ilock\<close> loads.
\<close>

section \<open>The inode cache\<close>

definition icache_unique :: "'z kinode_scheme \<Rightarrow> bool" where
  "icache_unique s \<longleftrightarrow> (\<forall>i<NINODE. \<forall>j<NINODE. 0 < i_ref (icache s i) \<longrightarrow> 0 < i_ref (icache s j) \<longrightarrow>
     i_dev (icache s i) = i_dev (icache s j) \<longrightarrow> i_inum (icache s i) = i_inum (icache s j) \<longrightarrow> i = j)"

definition icache_refs :: "'z kinode_scheme \<Rightarrow> bool" where
  "icache_refs s \<longleftrightarrow> (\<forall>i<NINODE. 0 \<le> i_ref (icache s i))"

lemma icache_section:
  assumes "cpu_ok s"
  shows "\<exists>t. release Lk_icache (upd_inode ip g (acquire Lk_icache s)) = Ok () t \<and> icache t = (icache s)(ip := g (icache s ip))
    \<and> ptable t = ptable s \<and> ncli t = ncli s \<and> irq t = irq s"
  using assms by (auto simp: lock_simps upd_inode_def cpu_ok_def)

lemma iget_spec:
  assumes "cpu_ok s" and "icache_unique s" and "icache_refs s"
  shows "if \<exists>i<NINODE. i_ref (icache s i) = 0 \<or> (0 < i_ref (icache s i) \<and> i_dev (icache s i) = dev \<and> i_inum (icache s i) = inum)
    then \<exists>ip t. iget dev inum s = Ok ip t \<and> ip < NINODE \<and> icache_unique t \<and> icache_refs t
      \<and> i_dev (icache t ip) = dev \<and> i_inum (icache t ip) = inum
      \<and> i_ref (icache t ip) = i_ref (icache s ip) + 1 \<and> (\<forall>j. j \<noteq> ip \<longrightarrow> icache t j = icache s j)
      \<and> (i_ref (icache s ip) = 0 \<longrightarrow> i_flags (icache t ip) = {}
           \<and> (\<forall>j<NINODE. 0 < i_ref (icache s j) \<longrightarrow> \<not> (i_dev (icache s j) = dev \<and> i_inum (icache s j) = inum)))
    else iget dev inum s = Panic ''iget: no inodes''"
proof -
  let ?hit = "\<lambda>i. i_ref (icache s i) > 0 \<and> i_dev (icache s i) = dev \<and> i_inum (icache s i) = inum"
  have a: "icache (acquire Lk_icache s) = icache s" by (simp add: lock_simps)
  show ?thesis
  proof (cases "List.find ?hit [0..<NINODE]")
    case (Some ip)
    then have ip: "ip < NINODE" "?hit ip" using find_in_set [OF Some] by auto
    from icache_section [OF assms(1), of ip "\<lambda>n. n\<lparr>i_ref := i_ref n + 1\<rparr>"] obtain t where
      t: "release Lk_icache (upd_inode ip (\<lambda>n. n\<lparr>i_ref := i_ref n + 1\<rparr>) (acquire Lk_icache s)) = Ok () t"
      "icache t = (icache s)(ip := (icache s ip)\<lparr>i_ref := i_ref (icache s ip) + 1\<rparr>)" by blast
    have "iget dev inum s = Ok ip t" using Some t(1) by (simp add: iget_def a)
    moreover have "icache_unique t" "icache_refs t" using assms(2,3) ip t(2) by (auto simp: icache_unique_def icache_refs_def)
    ultimately show ?thesis using ip t(2) by auto
  next
    case None
    then have miss: "\<not> ?hit i" if "i < NINODE" for i using that by (auto simp: find_None_iff)
    show ?thesis
    proof (cases "List.find (\<lambda>i. i_ref (icache s i) = 0) [0..<NINODE]")
      case (Some ip)
      then have ip: "ip < NINODE" "i_ref (icache s ip) = 0" using find_in_set [OF Some] by auto
      let ?g = "\<lambda>n. n\<lparr>i_dev := dev, i_inum := inum, i_ref := 1, i_flags := {}\<rparr>"
      from icache_section [OF assms(1), of ip ?g] obtain t where
        t: "release Lk_icache (upd_inode ip ?g (acquire Lk_icache s)) = Ok () t" "icache t = (icache s)(ip := ?g (icache s ip))" by blast
      have "iget dev inum s = Ok ip t" using Some None t(1) by (simp add: iget_def a)
      moreover have "icache_unique t" "icache_refs t"
        using assms(2,3) miss t(2) unfolding icache_unique_def icache_refs_def by (auto split: if_splits)
      ultimately show ?thesis using ip t(2) miss by (intro if_bool_eq_conj [THEN iffD2]) (auto intro!: exI [of _ ip])
    next
      case N: None
      then have "\<not> (\<exists>i<NINODE. i_ref (icache s i) = 0 \<or> ?hit i)" using miss by (auto simp: find_None_iff)
      then show ?thesis using None N by (simp add: iget_def a)
    qed
  qed
qed

text \<open>C20: \<open>iget\<close> keeps the inode cache free of duplicates: it returns the entry that already stands for
  the inode, with one more reference, and otherwise a fresh entry with a single reference that
  must be loaded; no other entry changes. It panics exactly if the inode is not cached and every
  entry is in use.\<close>

theorem iget_no_duplicates:
  assumes "cpu_ok s" and "icache_unique s" and "icache_refs s"
  shows "if \<exists>i<NINODE. i_ref (icache s i) = 0 \<or> (0 < i_ref (icache s i) \<and> i_dev (icache s i) = dev \<and> i_inum (icache s i) = inum)
    then \<exists>ip t. iget dev inum s = Ok ip t \<and> ip < NINODE \<and> icache_unique t \<and> icache_refs t
      \<and> i_dev (icache t ip) = dev \<and> i_inum (icache t ip) = inum
      \<and> i_ref (icache t ip) = i_ref (icache s ip) + 1 \<and> (\<forall>j. j \<noteq> ip \<longrightarrow> icache t j = icache s j)
      \<and> (i_ref (icache s ip) = 0 \<longrightarrow> i_flags (icache t ip) = {}
           \<and> (\<forall>j<NINODE. 0 < i_ref (icache s j) \<longrightarrow> \<not> (i_dev (icache s j) = dev \<and> i_inum (icache s j) = inum)))
    else iget dev inum s = Panic ''iget: no inodes''"
  by (rule iget_spec [OF assms])

theorem iget_no_duplicates_witness:
  "\<exists>ip t. iget 1 5 boot_inode = Ok ip t \<and> i_inum (icache t ip) = 5 \<and> i_ref (icache t ip) = 1"
proof -
  have "cpu_ok boot_inode" "icache_unique boot_inode" "icache_refs boot_inode"
    by (simp_all add: cpu_ok_def icache_unique_def icache_refs_def null_inode_def)
  moreover have "\<exists>i<NINODE. i_ref (icache boot_inode i) = 0"
    by (rule exI [of _ 0]) (simp add: NINODE_def null_inode_def)
  ultimately show ?thesis using iget_no_duplicates [of boot_inode 1 5] by (auto simp: null_inode_def)
qed

section \<open>Inodes on disk\<close>

definition inode_block :: "uint \<Rightarrow> nat" where "inode_block inum = unat (IBLOCK inum)"

text \<open>The on-disk inode as the kernel sees it.\<close>

definition disk_inode :: "'z kbio_scheme \<Rightarrow> uint \<Rightarrow> dinode" where
  "disk_inode s inum = get_dinode (inode_off inum) (blk s (inode_block inum))"

lemma of_nat_inode_block [simp]: "of_nat (inode_block inum) = IBLOCK inum"
  by (simp add: inode_block_def)

lemma inode_slot: "inode_off inum = 64 * (unat inum mod 8)"
  by (simp add: inode_off_def layout_numbers)

lemma inode_block_inj:
  assumes "inode_block i = inode_block j" "unat i mod 8 = unat j mod 8"
  shows "i = j"
proof -
  have "IBLOCK i = IBLOCK j" using assms(1) by (simp add: inode_block_def word_unat_eq_iff)
  then have "i div 8 = j div 8" by (simp add: IBLOCK_def layout_numbers)
  moreover have "unat (x div 8) = unat x div 8" for x :: uint by (simp add: unat_div)
  ultimately have "unat i div 8 = unat j div 8" by metis
  then have "unat i = unat j" using assms(2) by (metis div_mult_mod_eq)
  then show ?thesis by (simp add: word_unat_eq_iff)
qed

lemma klog_more_icache: "klog.more t = klog.more s \<Longrightarrow> icache t = icache s" for s t :: "'z kinode_scheme"
  by (cases s; cases t) simp

lemma kbio_more_klog: "kbio.more t = kbio.more s \<Longrightarrow> klog.more t = klog.more s" for s t :: "'z klog_scheme"
  by (cases s; cases t) simp

lemma iupdate_eq:
  fixes s :: "'z kinode_scheme"
  assumes "in_trans S L H s" "i_dev (icache s ip) = 1" "inode_block (i_inum (icache s ip)) < S"
  defines "n \<equiv> icache s ip"
  shows "iupdate ip s = logged_write (inode_block (i_inum n)) (put_dinode (inode_off (i_inum n)) (inode_img n) (blk s (inode_block (i_inum n)))) s"
proof -
  let ?m = "inode_block (i_inum n)"
  from trans_update [OF assms(1), of ?m] assms(3) obtain i t where t: "bread 1 (of_nat ?m) s = Ok i t" "b_data (bc_buf t i) = blk s ?m"
    "kbio.more t = kbio.more s" "\<forall>d. andthen (log_write i (set_bdata i d t)) (\<lambda>_ u. brelse i u) = logged_write ?m d s" by (auto simp: n_def)
  have "icache t = icache s" by (rule klog_more_icache [OF kbio_more_klog [OF t(3)]])
  then show ?thesis using t(1,2) assms(2) t(4) by (simp add: iupdate_def n_def Let_def)
qed

lemma iupdate_spec:
  fixes s :: "'z kinode_scheme"
  assumes "in_trans S L H s" "i_dev (icache s ip) = 1" "inode_block (i_inum (icache s ip)) < S"
    "log_fits L (insert (inode_block (i_inum (icache s ip))) H)"
  defines "n \<equiv> icache s ip"
  shows "\<exists>t. iupdate ip s = Ok () t \<and> in_trans S L (insert (inode_block (i_inum n)) H) t \<and> icache t = icache s \<and> cpu_same s t
    \<and> disk_inode t (i_inum n) = (inode_img n)\<lparr>di_addrs := \<lambda>k. if k < NDIRECT + 1 then i_addrs n k else 0\<rparr>
    \<and> (\<forall>j. j \<noteq> i_inum n \<longrightarrow> inode_block j < S \<longrightarrow> disk_inode t j = disk_inode s j)
    \<and> (\<forall>x<S. x \<noteq> inode_block (i_inum n) \<longrightarrow> blk t x = blk s x)"
proof -
  let ?m = "inode_block (i_inum n)"
  let ?d = "put_dinode (inode_off (i_inum n)) (inode_img n) (blk s ?m)"
  from trans_write [OF assms(1) _ assms(4), of ?d] assms(3) obtain t where t: "logged_write ?m ?d s = Ok () t" "in_trans S L (insert ?m H) t"
    "cpu_same s t" "klog.more t = klog.more s" "\<forall>x<S. blk t x = ((blk s)(?m := ?d)) x" by (auto simp: n_def)
  have m: "blk t ?m = ?d" using t(5) assms(3) by (simp add: n_def)
  have "disk_inode t j = disk_inode s j" if "j \<noteq> i_inum n" "inode_block j < S" for j
  proof (cases "inode_block j = ?m")
    case True
    then have "unat (i_inum n) mod 8 \<noteq> unat j mod 8" using inode_block_inj that(1) by metis
    then show ?thesis using True m dinode_roundtrip [of "unat (i_inum n) mod 8" "inode_img n" "blk s ?m" "unat j mod 8"]
      by (simp add: disk_inode_def inode_slot)
  next
    case False
    then show ?thesis using t(5) that(2) by (simp add: disk_inode_def)
  qed
  moreover have "disk_inode t (i_inum n) = (inode_img n)\<lparr>di_addrs := \<lambda>k. if k < NDIRECT + 1 then i_addrs n k else 0\<rparr>"
    using m dinode_roundtrip [of "unat (i_inum n) mod 8" "inode_img n" "blk s ?m" 0] by (simp add: disk_inode_def inode_slot inode_img_def cong: if_cong)
  ultimately show ?thesis
    using iupdate_eq [OF assms(1-3)] t klog_more_icache [OF t(4)] by (intro exI [of _ t]) (auto simp: n_def)
qed

text \<open>Loading an inode that is not valid in the cache.\<close>

lemma ilock_load_spec:
  fixes s :: "'z kinode_scheme"
  assumes ok: "log_ok S L n s" and "i_dev (icache s ip) = 1" "inode_block (i_inum (icache s ip)) < S" "I_VALID \<notin> i_flags (icache s ip)"
    "di_type (disk_inode s (i_inum (icache s ip))) \<noteq> 0"
  shows "\<exists>t. ilock_load ip s = Ok () t \<and> log_ok S L n t \<and> log_busy t = log_busy s \<and> homes n t = homes n s \<and> cpu_same s t
    \<and> icache t = (icache s)(ip := (load_inode (disk_inode s (i_inum (icache s ip))) (icache s ip))\<lparr>i_flags := insert I_VALID (i_flags (icache s ip))\<rparr>)
    \<and> (\<forall>x<S. blk t x = blk s x)"
proof -
  let ?n = "icache s ip" and ?m = "inode_block (i_inum (icache s ip))"
  from block_read [OF ok assms(3)] obtain i t where t: "bread 1 (of_nat ?m) s = Ok i t" "b_data (bc_buf t i) = blk s ?m" "kbio.more t = kbio.more s"
    "\<forall>t'. only_more t t' \<longrightarrow> (\<exists>u. brelse i t' = Ok () u \<and> log_ok S L n u \<and> homes n u = homes n s \<and> log_busy u = log_busy s
         \<and> cpu_same s u \<and> klog.more u = klog.more t' \<and> (\<forall>x<disksize s. blk u x = blk s x))" by blast
  have ic: "icache t = icache s" by (rule klog_more_icache [OF kbio_more_klog [OF t(3)]])
  let ?t = "upd_inode ip (load_inode (disk_inode s (i_inum ?n))) t"
  from t(4) obtain u where u: "brelse i ?t = Ok () u" "log_ok S L n u" "homes n u = homes n s" "log_busy u = log_busy s" "cpu_same s u"
    "klog.more u = klog.more ?t" "\<forall>x<disksize s. blk u x = blk s x" using only_more_upd_inode by blast
  have iu: "icache u = (icache s)(ip := load_inode (disk_inode s (i_inum ?n)) ?n)"
    using klog_more_icache [OF u(6)] ic by (simp add: upd_inode_def)
  let ?u = "upd_inode ip (\<lambda>n. n\<lparr>i_flags := insert I_VALID (i_flags n)\<rparr>) u"
  have "ilock_load ip s = Ok () ?u"
    using assms(2,4,5) t(1,2) ic u(1) iu by (simp add: ilock_load_def Let_def disk_inode_def) (simp add: upd_inode_def load_inode_def disk_inode_def)
  moreover have "only_more u ?u" by simp
  note o = only_more_fields [OF this]
  have "log_ok S L n ?u" "homes n ?u = homes n s" "log_busy ?u = log_busy s" "cpu_same s ?u" "\<forall>x<disksize s. blk ?u x = blk s x"
    using u(2-5,7) o bio_cong [OF o(1-5)] by (simp_all add: log_ok_def log_geom_def homes_def cpu_same_def cpu_ok_def)
  moreover have "S \<le> disksize s" using ok by (simp add: log_ok_def log_geom_def)
  ultimately show ?thesis using iu by (intro exI [of _ ?u]) (auto simp: upd_inode_def load_inode_def)
qed

text \<open>C14: An inode survives in its block: after \<open>iupdate\<close>, loading the inode into any fresh cache entry
  gives back its type, device, link count, size and block addresses, while every other on-disk
  inode and every other block is unchanged.\<close>

theorem iupdate_then_load:
  fixes s :: "'z kinode_scheme"
  assumes "in_trans S L H s" and "i_dev (icache s ip) = 1" and "inode_block (i_inum (icache s ip)) < S"
    and "log_fits L (insert (inode_block (i_inum (icache s ip))) H)" and "i_type (icache s ip) \<noteq> 0"
    and "fresh = null_inode\<lparr>i_dev := 1, i_inum := i_inum (icache s ip), i_ref := 1, i_flags := {I_BUSY}\<rparr>"
  shows "\<exists>t. iupdate ip s = Ok () t
    \<and> (\<exists>u. ilock_load jp (upd_inode jp (\<lambda>_. fresh) t) = Ok () u \<and> I_VALID \<in> i_flags (icache u jp)
         \<and> i_type (icache u jp) = i_type (icache s ip) \<and> i_major (icache u jp) = i_major (icache s ip)
         \<and> i_minor (icache u jp) = i_minor (icache s ip) \<and> i_nlink (icache u jp) = i_nlink (icache s ip)
         \<and> i_size (icache u jp) = i_size (icache s ip) \<and> (\<forall>k\<le>NDIRECT. i_addrs (icache u jp) k = i_addrs (icache s ip) k))
    \<and> (\<forall>j. j \<noteq> i_inum (icache s ip) \<longrightarrow> inode_block j < S \<longrightarrow> disk_inode t j = disk_inode s j)
    \<and> (\<forall>x<S. x \<noteq> inode_block (i_inum (icache s ip)) \<longrightarrow> blk t x = blk s x)"
proof -
  let ?n = "icache s ip"
  from iupdate_spec [OF assms(1-4)] obtain t where t: "iupdate ip s = Ok () t" "in_trans S L (insert (inode_block (i_inum ?n)) H) t"
    "disk_inode t (i_inum ?n) = (inode_img ?n)\<lparr>di_addrs := \<lambda>k. if k < NDIRECT + 1 then i_addrs ?n k else 0\<rparr>"
    "\<forall>j. j \<noteq> i_inum ?n \<longrightarrow> inode_block j < S \<longrightarrow> disk_inode t j = disk_inode s j"
    "\<forall>x<S. x \<noteq> inode_block (i_inum ?n) \<longrightarrow> blk t x = blk s x" by blast
  let ?t = "upd_inode jp (\<lambda>_. fresh) t"
  from t(2) obtain n where ok: "log_ok S L n t" by (auto simp: in_trans_def)
  have "only_more t ?t" by simp
  note o = only_more_fields [OF this]
  have "log_ok S L n ?t" using ok o bio_cong [OF o(1-5)] by (simp add: log_ok_def log_geom_def)
  moreover have "icache ?t jp = fresh" "disk_inode ?t j = disk_inode t j" for j
    using bio_cong(2) [OF o(1-5)] by (simp_all add: upd_inode_def disk_inode_def)
  ultimately obtain u where "ilock_load jp ?t = Ok () u"
    "icache u jp = (load_inode (disk_inode t (i_inum ?n)) fresh)\<lparr>i_flags := insert I_VALID (i_flags fresh)\<rparr>"
    using ilock_load_spec [of S L n ?t jp] assms(3,5,6) t(3) by (auto simp: inode_img_def)
  then show ?thesis using t by (intro exI [of _ t]) (auto simp: load_inode_def inode_img_def)
qed

definition small_inode :: kinode where
  "small_inode = klog.extend small_fs \<lparr>icache = (\<lambda>_. null_inode\<lparr>i_dev := 1, i_inum := 3, i_ref := 1, i_flags := {I_BUSY, I_VALID}, i_type := 2,
     i_size := 700, i_nlink := 1, i_addrs := (\<lambda>k. if k < 2 then of_nat (5 + k) else 0)\<rparr>)\<rparr>"

lemma small_inode_trans: "in_trans 1014 10 {} small_inode" "blk small_inode = small_disk"
proof -
  have f: "bc_buf small_inode = bc_buf small_fs" "bc_head_next small_inode = bc_head_next small_fs" "bc_head_prev small_inode = bc_head_prev small_fs"
    "memdisk small_inode = memdisk small_fs" "disksize small_inode = disksize small_fs"
    "ncli small_inode = ncli small_fs" "irq small_inode = irq small_fs" "log_dev small_inode = log_dev small_fs"
    "log_start small_inode = log_start small_fs" "log_size small_inode = log_size small_fs" "lh_n small_inode = lh_n small_fs"
    "lh_sector small_inode = lh_sector small_fs" "log_busy small_inode = log_busy small_fs"
    by (simp_all add: small_inode_def klog.defs)
  note c = bio_cong [OF f(1-5)]
  then show "blk small_inode = small_disk" using small_fs_geom(3) by simp
  show "in_trans 1014 10 {} small_inode"
    using small_fs_geom(1) by (simp add: in_trans_def log_ok_def log_geom_def homes_def cpu_ok_def f c)
qed

theorem iupdate_then_load_witness:
  "\<exists>t u. iupdate 0 small_inode = Ok () t
    \<and> ilock_load 9 (upd_inode 9 (\<lambda>_. null_inode\<lparr>i_dev := 1, i_inum := 3, i_ref := 1, i_flags := {I_BUSY}\<rparr>) t) = Ok () u
    \<and> i_size (icache u 9) = 700 \<and> i_addrs (icache u 9) 1 = 6"
proof -
  have n: "icache small_inode 0 = null_inode\<lparr>i_dev := 1, i_inum := 3, i_ref := 1, i_flags := {I_BUSY, I_VALID}, i_type := 2,
     i_size := 700, i_nlink := 1, i_addrs := (\<lambda>k. if k < 2 then of_nat (5 + k) else 0)\<rparr>" by (simp add: small_inode_def klog.defs)
  have "inode_block 3 = 2" by (simp add: inode_block_def IBLOCK_def layout_numbers)
  moreover have "log_fits 10 (insert 2 {})" by (simp add: log_fits_def NBUF_def)
  ultimately show ?thesis
    using iupdate_then_load [OF small_inode_trans(1), of 0 "null_inode\<lparr>i_dev := 1, i_inum := 3, i_ref := 1, i_flags := {I_BUSY}\<rparr>" 9]
    by (auto simp: n NDIRECT_def)
qed

end
