(* ===== verification/File_Content.thy ===== *)
theory File_Content
  imports Inode_Props
begin

text \<open>The contents of a file as the inode layer sees it: the bytes an inode's block addresses reach, and
  what \<open>readi\<close> returns and \<open>writei\<close> changes of them.\<close>

section \<open>Reading\<close>

declare readi_loop.simps [simp del] writei_loop.simps [simp del]

text \<open>The abstract view of a file: the block that holds its \<open>k\<close>-th part, and its bytes.\<close>

definition file_addr :: "'z kbio_scheme \<Rightarrow> inode \<Rightarrow> nat \<Rightarrow> uint" where
  "file_addr s n k = (if k < NDIRECT then i_addrs n k else get32 (blk s (unat (i_addrs n NDIRECT))) (4 * (k - NDIRECT)))"

definition file_byte :: "'z kbio_scheme \<Rightarrow> inode \<Rightarrow> nat \<Rightarrow> uint8" where
  "file_byte s n p = blk s (unat (file_addr s n (p div BSIZE))) (p mod BSIZE)"

text \<open>Every block the size covers is allocated and lies before the log.\<close>

definition file_ok :: "nat \<Rightarrow> 'z kbio_scheme \<Rightarrow> inode \<Rightarrow> bool" where
  "file_ok S s n \<longleftrightarrow> i_dev n = 1 \<and> unat (i_size n) \<le> MAXFILE * BSIZE
     \<and> (\<forall>k. k * BSIZE < unat (i_size n) \<longrightarrow> file_addr s n k \<noteq> 0 \<and> unat (file_addr s n k) < S
          \<and> (NDIRECT \<le> k \<longrightarrow> i_addrs n NDIRECT \<noteq> 0 \<and> unat (i_addrs n NDIRECT) < S))"

definition rd_frame :: "nat \<Rightarrow> nat \<Rightarrow> nat \<Rightarrow> 'z klog_scheme \<Rightarrow> 'z klog_scheme \<Rightarrow> bool" where
  "rd_frame S L n s t \<longleftrightarrow> log_ok S L n t \<and> homes n t = homes n s \<and> log_busy t = log_busy s \<and> cpu_same s t
     \<and> klog.more t = klog.more s \<and> (\<forall>x<S. blk t x = blk s x)"

lemma rd_frame_refl: "log_ok S L n s \<Longrightarrow> rd_frame S L n s s"
  by (simp add: rd_frame_def cpu_same_def)

lemma rd_frame_trans: "rd_frame S L n s t \<Longrightarrow> rd_frame S L n t u \<Longrightarrow> rd_frame S L n s u"
  by (auto simp: rd_frame_def cpu_same_def)

lemma rd_frame_icache: "rd_frame S L n s t \<Longrightarrow> icache t = icache s" for s t :: "'z kinode_scheme"
  by (intro klog_more_icache) (simp add: rd_frame_def)

lemma block_read_frame:
  assumes "log_ok S L n s" "m < S"
  shows "\<exists>i t u. bread 1 (of_nat m) s = Ok i t \<and> b_data (bc_buf t i) = blk s m \<and> klog.more t = klog.more s
    \<and> brelse i t = Ok () u \<and> rd_frame S L n s u"
proof -
  have S: "S \<le> disksize s" using assms(1) by (simp add: log_ok_def log_geom_def)
  from block_read [OF assms] obtain i t where t: "bread 1 (of_nat m) s = Ok i t" "b_data (bc_buf t i) = blk s m" "kbio.more t = kbio.more s"
    "\<forall>t'. only_more t t' \<longrightarrow> (\<exists>u. brelse i t' = Ok () u \<and> log_ok S L n u \<and> homes n u = homes n s \<and> log_busy u = log_busy s
         \<and> cpu_same s u \<and> klog.more u = klog.more t' \<and> (\<forall>x<disksize s. blk u x = blk s x))" by blast
  obtain u where u: "brelse i t = Ok () u" "log_ok S L n u" "homes n u = homes n s" "log_busy u = log_busy s" "cpu_same s u"
    "klog.more u = klog.more t" "\<forall>x<disksize s. blk u x = blk s x" using t(4) only_more_refl by blast
  note e = kbio_more_klog [OF t(3)]
  have "rd_frame S L n s u" using u e S by (simp add: rd_frame_def)
  then show ?thesis using t(1,2) u(1) e by blast
qed

lemma bmap_mapped:
  fixes s :: "'z kinode_scheme"
  assumes ok: "log_ok S L n s" and f: "file_ok S s (icache s ip)" and k: "k * BSIZE < unat (i_size (icache s ip))"
  shows "\<exists>u. bmap ip k s = Ok (file_addr s (icache s ip) k) u \<and> rd_frame S L n s u"
proof -
  let ?n = "icache s ip"
  have m: "file_addr s ?n k \<noteq> 0" "NDIRECT \<le> k \<Longrightarrow> i_addrs ?n NDIRECT \<noteq> 0 \<and> unat (i_addrs ?n NDIRECT) < S" "i_dev ?n = 1"
    using f k by (auto simp: file_ok_def)
  show ?thesis
  proof (cases "k < NDIRECT")
    case True
    then show ?thesis using m(1) rd_frame_refl [OF ok] by (simp add: bmap_def file_addr_def)
  next
    case False
    have "k * BSIZE < MAXFILE * BSIZE" using f k unfolding file_ok_def by linarith
    then have kk: "k - NDIRECT < NINDIRECT" using False by (simp add: layout_numbers NDIRECT_def BSIZE_def)
    let ?a = "i_addrs ?n NDIRECT"
    from m(2) False have a: "?a \<noteq> 0" "unat ?a < S" by auto
    from block_read_frame [OF ok a(2)] obtain i t u where t: "bread 1 ?a s = Ok i t" "b_data (bc_buf t i) = blk s (unat ?a)"
      "klog.more t = klog.more s" "brelse i t = Ok () u" "rd_frame S L n s u" by auto
    have "bmap ip k s = Ok (file_addr s ?n k) u"
      using False kk a(1) t(1,2,4) m(1,3) klog_more_icache [OF t(3)] by (simp add: bmap_def Let_def file_addr_def)
    with t(5) show ?thesis by blast
  qed
qed

lemma file_cong:
  assumes "file_ok S s n" "\<forall>x<S. blk t x = blk s x"
  shows "file_ok S t n" "k * BSIZE < unat (i_size n) \<Longrightarrow> file_addr t n k = file_addr s n k"
    "p < unat (i_size n) \<Longrightarrow> file_byte t n p = file_byte s n p"
proof -
  show a: "file_addr t n k = file_addr s n k" if "k * BSIZE < unat (i_size n)" for k
    using assms that by (auto simp: file_ok_def file_addr_def)
  then show "file_ok S t n" using assms(1) by (simp add: file_ok_def)
  show "file_byte t n p = file_byte s n p" if "p < unat (i_size n)"
  proof -
    have "p div BSIZE * BSIZE < unat (i_size n)" using that div_times_less_eq_dividend [of p BSIZE] by linarith
    then show ?thesis using a assms by (auto simp: file_byte_def file_ok_def)
  qed
qed

lemma chunk_bounds:
  assumes "0 < rem"
  shows "0 < chunk off rem" "chunk off rem \<le> rem" "off mod BSIZE + chunk off rem \<le> BSIZE"
proof -
  have "off mod BSIZE < BSIZE" by (simp add: BSIZE_def)
  then show "0 < chunk off rem" "chunk off rem \<le> rem" "off mod BSIZE + chunk off rem \<le> BSIZE"
    using assms by (auto simp: chunk_def min_def)
qed

text \<open>A chunk of the loop lies in one block of the file.\<close>

lemma chunk_bytes:
  assumes "off mod BSIZE + m \<le> BSIZE"
  shows "map (\<lambda>j. blk s (unat (file_addr s n (off div BSIZE))) (off mod BSIZE + j)) [0..<m] = map (file_byte s n) [off..<off + m]"
proof -
  have "(off + j) div BSIZE = off div BSIZE \<and> (off + j) mod BSIZE = off mod BSIZE + j" if "j < m" for j
  proof -
    have "off mod BSIZE + j < BSIZE" using assms that by simp
    moreover have "off + j = off div BSIZE * BSIZE + (off mod BSIZE + j)" by simp
    ultimately show ?thesis
      by (metis add.commute add_cancel_right_right div_less div_mult_self1 less_nat_zero_code mod_less mod_mult_self1)
  qed
  then show ?thesis by (auto intro!: nth_equalityI simp: file_byte_def)
qed

lemma readi_loop_step:
  fixes s :: "'z kcons_scheme"
  assumes ok: "log_ok S L n s" and f: "file_ok S s (icache s ip)" and off: "off < unat (i_size (icache s ip))" and rem: "0 < rem"
  shows "\<exists>v. readi_loop ip off rem acc s
      = readi_loop ip (off + chunk off rem) (rem - chunk off rem) (acc @ map (file_byte s (icache s ip)) [off..<off + chunk off rem]) v
    \<and> rd_frame S L n s v"
proof -
  let ?n = "icache s ip" and ?a = "file_addr s (icache s ip) (off div BSIZE)"
  have k: "off div BSIZE * BSIZE < unat (i_size ?n)" using off div_times_less_eq_dividend [of off BSIZE] by linarith
  have a: "unat ?a < S" "i_dev ?n = 1" using f k by (auto simp: file_ok_def)
  from bmap_mapped [OF ok f k] obtain u where u: "bmap ip (off div BSIZE) s = Ok ?a u" "rd_frame S L n s u" by blast
  have iu: "icache u = icache s" by (rule rd_frame_icache [OF u(2)])
  from u(2) have uok: "log_ok S L n u" "blk u (unat ?a) = blk s (unat ?a)" using a(1) by (simp_all add: rd_frame_def)
  from block_read_frame [OF uok(1) a(1)] obtain i t v where t: "bread 1 ?a u = Ok i t" "b_data (bc_buf t i) = blk s (unat ?a)"
    "brelse i t = Ok () v" "rd_frame S L n u v" by (auto simp: uok(2))
  show ?thesis
    using rem u(1) t(1-3) a(2) iu chunk_bytes [OF chunk_bounds(3) [OF rem, of off], of s ?n] rd_frame_trans [OF u(2) t(4)]
    by (subst readi_loop.simps) (simp add: Let_def, blast)
qed

lemma readi_loop_spec:
  fixes s :: "'z kcons_scheme"
  assumes "log_ok S L n s" "file_ok S s (icache s ip)" "off + rem \<le> unat (i_size (icache s ip))"
  shows "\<exists>t. readi_loop ip off rem acc s = Ok (acc @ map (file_byte s (icache s ip)) [off..<off + rem]) t \<and> rd_frame S L n s t"
  using assms
proof (induction rem arbitrary: off acc s rule: less_induct)
  case (less rem)
  show ?case
  proof (cases "rem = 0")
    case True
    then show ?thesis using rd_frame_refl [OF less(2)] by (subst readi_loop.simps) simp
  next
    case False
    let ?n = "icache s ip" and ?m = "chunk off rem"
    note m = chunk_bounds [of rem off]
    from readi_loop_step [OF less(2,3), of off rem acc] False less(4) obtain v where
      v: "readi_loop ip off rem acc s = readi_loop ip (off + ?m) (rem - ?m) (acc @ map (file_byte s ?n) [off..<off + ?m]) v"
      "rd_frame S L n s v" by auto
    then have sv: "log_ok S L n v" "icache v = icache s" "\<forall>x<S. blk v x = blk s x" using rd_frame_icache [OF v(2)] by (simp_all add: rd_frame_def)
    note c = file_cong [OF less(3) sv(3)]
    have e: "off + ?m + (rem - ?m) = off + rem" using m False by simp
    obtain w where w: "readi_loop ip (off + ?m) (rem - ?m) (acc @ map (file_byte s ?n) [off..<off + ?m]) v
        = Ok ((acc @ map (file_byte s ?n) [off..<off + ?m]) @ map (file_byte v ?n) [off + ?m..<off + rem]) w" "rd_frame S L n v w"
      using less(1) [OF _ sv(1), of "rem - ?m" "off + ?m" "acc @ map (file_byte s ?n) [off..<off + ?m]"] m False less(4) c(1) unfolding sv(2) e by auto
    have "map (file_byte v ?n) [off + ?m..<off + rem] = map (file_byte s ?n) [off + ?m..<off + rem]" using c(3) less(4) by auto
    moreover have "[off..<off + rem] = [off..<off + ?m] @ [off + ?m..<off + rem]"
      using m False upt_add_eq_append [of off "off + ?m" "rem - ?m"] by simp
    ultimately show ?thesis using v(1) w(1) rd_frame_trans [OF v(2) w(2)] by auto
  qed
qed

lemma sint_small: "sint w = int (unat w)" if "unat w < 2 ^ 31" for w :: uint
  using sint_of_nat_small [OF that] by simp

lemma readi_spec:
  fixes s :: "'z kcons_scheme"
    and len :: nat
  assumes "log_ok S L n s" "file_ok S s (icache s ip)" "i_type (icache s ip) \<noteq> T_DEV"
  defines "len \<equiv> unat (i_size (icache s ip))"
  shows "if len < unat off \<or> 2 ^ 32 \<le> unat off + unat cnt then readi ip off cnt s = Ok (- 1, []) s
    else (let m = min (unat cnt) (len - unat off)
          in \<exists>t. readi ip off cnt s = Ok (int m, map (file_byte s (icache s ip)) [unat off..<unat off + m]) t \<and> rd_frame S L n s t)"
proof (cases "len < unat off \<or> 2 ^ 32 \<le> unat off + unat cnt")
  case True
  have "off + cnt < off" if "2 ^ 32 \<le> unat off + unat cnt"
  proof -
    have "unat off < 2 ^ 32" "unat cnt < 2 ^ 32" using unsigned_less [of off, where 'a = nat] unsigned_less [of cnt, where 'a = nat] by simp_all
    then have "unat (off + cnt) = unat off + unat cnt - 2 ^ 32" using that by (simp add: unat_word_ariths(1) mod_if)
    then show ?thesis using \<open>unat cnt < 2 ^ 32\<close> \<open>unat off < 2 ^ 32\<close> that by (simp add: word_less_nat_alt)
  qed
  then show ?thesis using True assms(3) by (auto simp: readi_def len_def word_less_nat_alt)
next
  case False
  define n' where "n' = (if off + cnt > i_size (icache s ip) then i_size (icache s ip) - off else cnt)"
  have u: "unat (off + cnt) = unat off + unat cnt" using False by (simp add: unat_word_ariths(1))
  then have g: "\<not> off > i_size (icache s ip)" "\<not> off + cnt < off" using False by (auto simp: word_less_nat_alt len_def)
  have n': "unat n' = min (unat cnt) (len - unat off)"
    using u g(1) False by (auto simp: n'_def word_less_nat_alt len_def unat_sub word_le_nat_alt)
  have "len \<le> 140 * 512" using assms(2) by (simp add: file_ok_def len_def layout_numbers BSIZE_def)
  then have "sint n' = int (unat n')" using n' by (intro sint_small) simp
  moreover have "unat off + unat n' \<le> unat (i_size (icache s ip))" using n' False by (auto simp: len_def min_def)
  then obtain t where "readi_loop ip (unat off) (unat n') [] s = Ok (map (file_byte s (icache s ip)) [unat off..<unat off + unat n']) t"
    "rd_frame S L n s t"
    using readi_loop_spec [OF assms(1,2), of "unat off" "unat n'" "[]"] by auto
  ultimately show ?thesis using False assms(3) g n' by (simp add: readi_def Let_def flip: n'_def)
qed

text \<open>C10: reading a file returns its contents. On an inode that is not a device, whose blocks are allocated, \<open>readi\<close>
  fails exactly when the offset is past the end or the range wraps around, and otherwise returns the bytes of the file from
  the offset on, cut at the end of the file, with their number; the disk, the log and the inode cache are as they were.\<close>

theorem readi_reads_contents:
  fixes s :: "'z kcons_scheme"
    and len :: nat
  assumes "log_ok S L n s" "file_ok S s (icache s ip)" "i_type (icache s ip) \<noteq> T_DEV"
  defines "len \<equiv> unat (i_size (icache s ip))"
  shows "if len < unat off \<or> 2 ^ 32 \<le> unat off + unat cnt then readi ip off cnt s = Ok (- 1, []) s
    else (let m = min (unat cnt) (len - unat off)
          in \<exists>t. readi ip off cnt s = Ok (int m, map (file_byte s (icache s ip)) [unat off..<unat off + m]) t \<and> rd_frame S L n s t)"
  unfolding len_def by (rule readi_spec [OF assms(1-3)])

text \<open>A file across the boundary of its first two blocks.\<close>

definition text_disk :: "nat \<Rightarrow> bytes" where
  "text_disk n = (if n = 6 then (\<lambda>i. if i = 511 then 104 else 0) else if n = 9 then (\<lambda>i. if i = 0 then 105 else 0) else (\<lambda>_. 0))"

definition disk_file :: "(nat \<Rightarrow> bytes) \<Rightarrow> inode \<Rightarrow> kcons" where
  "disk_file D n = kinode.extend (klog.extend (boot_log\<lparr>memdisk := D\<rparr>) \<lparr>icache = (\<lambda>_. null_inode)(0 := n)\<rparr>) (kinode.more boot_cons)"

definition text_file :: kcons where
  "text_file = disk_file text_disk (null_inode\<lparr>i_dev := 1, i_inum := 3, i_ref := 1, i_flags := {I_BUSY, I_VALID}, i_type := 2,
     i_size := 600, i_nlink := 1, i_addrs := (\<lambda>k. if k = 0 then 6 else if k = 1 then 9 else 0)\<rparr>)"

lemma disk_file_ok:
  assumes "hb_n (D 1014) = 0"
  shows "in_trans 1014 10 {} (disk_file D n)" "blk (disk_file D n) = D" "icache (disk_file D n) = (\<lambda>_. null_inode)(0 := n)"
proof -
  let ?b = "boot_log\<lparr>memdisk := D\<rparr>" and ?s = "disk_file D n"
  have f: "bc_buf ?s = bc_buf ?b" "bc_head_next ?s = bc_head_next ?b" "bc_head_prev ?s = bc_head_prev ?b"
    "memdisk ?s = memdisk ?b" "disksize ?s = disksize ?b" "ncli ?s = ncli ?b" "irq ?s = irq ?b" "log_dev ?s = log_dev ?b"
    "log_start ?s = log_start ?b" "log_size ?s = log_size ?b" "lh_n ?s = lh_n ?b" "lh_sector ?s = lh_sector ?b" "log_busy ?s = log_busy ?b"
    by (simp_all add: disk_file_def klog.defs kinode.defs)
  note b = boot_log_disk [of D, OF assms] and c = bio_cong [OF f(1-5)]
  show "blk ?s = D" using c b(2) by simp
  show "in_trans 1014 10 {} ?s"
    using b(1) by (simp add: in_trans_def log_ok_def log_geom_def homes_def cpu_ok_def f c)
  show "icache ?s = (\<lambda>_. null_inode)(0 := n)" by (simp add: disk_file_def klog.defs kinode.defs)
qed

lemma text_file_ok:
  "in_trans 1014 10 {} text_file" "blk text_file = text_disk" "file_ok 1014 text_file (icache text_file 0)"
  "file_addr text_file (icache text_file 0) 0 = 6" "file_addr text_file (icache text_file 0) 1 = 9"
  "i_size (icache text_file 0) = 600" "i_type (icache text_file 0) = 2"
proof -
  have h: "hb_n (text_disk 1014) = 0" by (simp add: text_disk_def hb_n_def get32_def)
  note i = disk_file_ok [of text_disk, OF h]
  then show "in_trans 1014 10 {} text_file" "blk text_file = text_disk" by (simp_all add: text_file_def)
  show a: "file_addr text_file (icache text_file 0) 0 = 6" "file_addr text_file (icache text_file 0) 1 = 9"
    "i_size (icache text_file 0) = 600" "i_type (icache text_file 0) = 2" by (simp_all add: text_file_def i(3) file_addr_def NDIRECT_def)
  have "k = 0 \<or> k = 1" if "k * BSIZE < unat (i_size (icache text_file 0))" for k using that a(3) by (auto simp: BSIZE_def)
  then have "file_addr text_file (icache text_file 0) k \<noteq> 0 \<and> unat (file_addr text_file (icache text_file 0) k) < 1014 \<and> \<not> NDIRECT \<le> k"
    if "k * BSIZE < unat (i_size (icache text_file 0))" for k
    using that a(1,2) by (fastforce simp: NDIRECT_def)
  moreover have "i_dev (icache text_file 0) = 1" by (simp add: text_file_def i(3))
  ultimately show "file_ok 1014 text_file (icache text_file 0)"
    using a(3) by (simp add: file_ok_def layout_numbers BSIZE_def)
qed

theorem readi_reads_contents_witness:
  "(\<exists>t. readi 0 511 2 text_file = Ok (2, [104, 105]) t) \<and> readi 0 601 2 text_file = Ok (- 1, []) text_file"
proof -
  obtain n where ok: "log_ok 1014 10 n text_file" using text_file_ok(1) by (auto simp: in_trans_def)
  have b: "file_byte text_file (icache text_file 0) 511 = 104" "file_byte text_file (icache text_file 0) 512 = 105"
    using text_file_ok(5) by (simp_all add: file_byte_def BSIZE_def text_file_ok text_disk_def)
  have "[511..<513] = [511, 512::nat]" by (simp add: upt_rec)
  then show ?thesis
    using readi_reads_contents [OF ok text_file_ok(3), of 511 2] readi_reads_contents [OF ok text_file_ok(3), of 601 2] b
    by (auto simp: text_file_ok T_DEV_def)
qed

section \<open>Writing\<close>

text \<open>No block serves two parts of a file, and none is its indirect block.\<close>

definition file_distinct :: "'z kbio_scheme \<Rightarrow> inode \<Rightarrow> bool" where
  "file_distinct s n \<longleftrightarrow> (\<forall>j k. j * BSIZE < unat (i_size n) \<longrightarrow> k * BSIZE < unat (i_size n) \<longrightarrow>
     (file_addr s n j = file_addr s n k \<longrightarrow> j = k) \<and> (NDIRECT \<le> j \<longrightarrow> file_addr s n k \<noteq> i_addrs n NDIRECT))"

text \<open>The blocks that hold a range of bytes.\<close>

definition range_blocks :: "'z kbio_scheme \<Rightarrow> inode \<Rightarrow> nat \<Rightarrow> nat \<Rightarrow> nat set" where
  "range_blocks s n off rem = (\<lambda>p. unat (file_addr s n (p div BSIZE))) ` {off..<off + rem}"

text \<open>What overwriting a range of a file in place means.\<close>

definition overwritten :: "nat \<Rightarrow> inode \<Rightarrow> (nat \<Rightarrow> uint8) \<Rightarrow> nat \<Rightarrow> nat \<Rightarrow> nat \<Rightarrow> 'z klog_scheme \<Rightarrow> 'z klog_scheme \<Rightarrow> bool" where
  "overwritten S n src pos off rem s t \<longleftrightarrow> klog.more t = klog.more s \<and> cpu_same s t
     \<and> (\<forall>p<unat (i_size n). file_byte t n p = (if off \<le> p \<and> p < off + rem then src (pos + (p - off)) else file_byte s n p))
     \<and> (\<forall>k. k * BSIZE < unat (i_size n) \<longrightarrow> file_addr t n k = file_addr s n k)
     \<and> (\<forall>x<S. x \<notin> range_blocks s n off rem \<longrightarrow> blk t x = blk s x)"

lemma block_start: "p div BSIZE * BSIZE < l" if "p < l" for p l :: nat
  using that div_times_less_eq_dividend [of p BSIZE] by linarith

lemma same_block:
  assumes "off mod BSIZE + m \<le> BSIZE" "off \<le> p" "p < off + m"
  shows "p div BSIZE = off div BSIZE"
proof -
  have "off div BSIZE * BSIZE \<le> p" "p < off div BSIZE * BSIZE + BSIZE"
    using assms div_mult_mod_eq [of off BSIZE] by linarith+
  then show ?thesis by (intro div_nat_eqI) (simp_all add: BSIZE_def)
qed

lemma range_blocks_chunk:
  assumes "0 < m" "off mod BSIZE + m \<le> BSIZE"
  shows "range_blocks s n off m = {unat (file_addr s n (off div BSIZE))}"
proof -
  have "\<forall>p\<in>{off..<off + m}. unat (file_addr s n (p div BSIZE)) = unat (file_addr s n (off div BSIZE))"
    by (metis same_block [OF assms(2)] atLeastLessThan_iff)
  then have "range_blocks s n off m = (\<lambda>_. unat (file_addr s n (off div BSIZE))) ` {off..<off + m}" unfolding range_blocks_def by (meson image_cong)
  then show ?thesis using assms(1) by (simp add: image_constant_conv)
qed

text \<open>Overwriting part of one block of the file.\<close>

lemma block_overwritten:
  fixes s t :: "'z klog_scheme"
  assumes f: "file_ok S s n" "file_distinct s n" and off: "off + m \<le> unat (i_size n)" and m: "0 < m" "off mod BSIZE + m \<le> BSIZE"
    and a: "a = unat (file_addr s n (off div BSIZE))"
    and d: "\<And>i. d i = (if off mod BSIZE \<le> i \<and> i < off mod BSIZE + m then src (pos + (i - off mod BSIZE)) else blk s a i)"
    and t: "\<forall>x<S. blk t x = ((blk s)(a := d)) x" "klog.more t = klog.more s" "cpu_same s t"
  shows "overwritten S n src pos off m s t"
proof -
  have k0: "off div BSIZE * BSIZE < unat (i_size n)" using off m by (intro block_start) simp
  note split = same_block [OF m(2)] and r = range_blocks_chunk [OF m, of s n, folded a]
  have fa: "file_addr t n k = file_addr s n k" if "k * BSIZE < unat (i_size n)" for k
  proof -
    have "unat (i_addrs n NDIRECT) \<noteq> a" "unat (i_addrs n NDIRECT) < S" if "NDIRECT \<le> k"
      using f k0 that \<open>k * BSIZE < unat (i_size n)\<close> unfolding file_distinct_def file_ok_def a word_unat_eq_iff [symmetric] by metis+
    then show ?thesis using t(1) by (cases "k < NDIRECT") (auto simp: file_addr_def)
  qed
  have "file_byte t n p = (if off \<le> p \<and> p < off + m then src (pos + (p - off)) else file_byte s n p)" if "p < unat (i_size n)" for p
  proof -
    have k: "p div BSIZE * BSIZE < unat (i_size n)" by (rule block_start [OF that])
    have S: "unat (file_addr s n (p div BSIZE)) < S" using f(1) k by (simp add: file_ok_def)
    show ?thesis
    proof (cases "p div BSIZE = off div BSIZE")
      case True
      have "p mod BSIZE = p - off div BSIZE * BSIZE" "off mod BSIZE = off - off div BSIZE * BSIZE" "off div BSIZE * BSIZE \<le> p" "off div BSIZE * BSIZE \<le> off"
        using True by (metis minus_div_mult_eq_mod, simp add: minus_div_mult_eq_mod, metis div_times_less_eq_dividend, simp)
      then have e: "off mod BSIZE \<le> p mod BSIZE \<longleftrightarrow> off \<le> p" "p mod BSIZE < off mod BSIZE + m \<longleftrightarrow> p < off + m"
        "off \<le> p \<Longrightarrow> p mod BSIZE - off mod BSIZE = p - off" by linarith+
      have "file_byte t n p = d (p mod BSIZE)" using t(1) S fa [OF k] True by (simp add: file_byte_def a)
      then show ?thesis using e True by (simp add: d file_byte_def a)
    next
      case False
      then have "file_addr s n (p div BSIZE) \<noteq> file_addr s n (off div BSIZE)" using f(2) k k0 by (auto simp: file_distinct_def)
      then have "unat (file_addr s n (p div BSIZE)) \<noteq> a" by (simp add: a word_unat_eq_iff [symmetric])
      then show ?thesis using False split [of p] t(1) S fa [OF k] by (auto simp: file_byte_def)
    qed
  qed
  then show "overwritten S n src pos off m s t" using fa t r by (simp add: overwritten_def)
qed

lemma overwritten_ok:
  assumes "file_ok S s n" "overwritten S n src pos off m s t"
  shows "file_ok S t n" "file_distinct t n = file_distinct s n" "off + m + r \<le> unat (i_size n) \<Longrightarrow> range_blocks t n (off + m) r = range_blocks s n (off + m) r"
proof -
  have fa: "file_addr t n k = file_addr s n k" if "k * BSIZE < unat (i_size n)" for k
    using assms(2) that by (simp add: overwritten_def)
  then show "file_ok S t n" using assms(1) by (simp add: file_ok_def)
  show "file_distinct t n = file_distinct s n" unfolding file_distinct_def by (simp add: fa)
  show "range_blocks t n (off + m) r = range_blocks s n (off + m) r" if "off + m + r \<le> unat (i_size n)"
  proof -
    have "p div BSIZE * BSIZE < unat (i_size n)" if "p \<in> {off + m..<off + m + r}" for p
      using that \<open>off + m + r \<le> unat (i_size n)\<close> by (intro block_start) simp
    then show ?thesis unfolding range_blocks_def by (intro image_cong refl) (simp add: fa)
  qed
qed

lemma range_blocks_split: "range_blocks s n off (m + r) = range_blocks s n off m \<union> range_blocks s n (off + m) r"
proof -
  have "{off..<off + (m + r)} = {off..<off + m} \<union> {off + m..<off + m + r}" by auto
  then show ?thesis unfolding range_blocks_def by (simp only: image_Un)
qed

lemma overwritten_trans:
  assumes "overwritten S n src pos off m s t" "overwritten S n src (pos + m) (off + m) r t u"
    and "range_blocks t n (off + m) r = range_blocks s n (off + m) r"
  shows "overwritten S n src pos off (m + r) s u"
proof -
  have "file_byte u n p = (if off \<le> p \<and> p < off + (m + r) then src (pos + (p - off)) else file_byte s n p)" if "p < unat (i_size n)" for p
  proof -
    have "pos + m + (p - (off + m)) = pos + (p - off)" if "off + m \<le> p" using that by simp
    then show ?thesis using assms(1,2) that by (auto simp: overwritten_def)
  qed
  then show ?thesis using assms by (auto simp: overwritten_def range_blocks_split cpu_same_def)
qed

lemma writei_loop_step:
  fixes s :: "'z kcons_scheme" and n :: inode
  assumes tr: "in_trans S L H s" and n: "n = icache s ip" and f: "file_ok S s n" "file_distinct s n"
    and off: "off + rem \<le> unat (i_size n)" and rem: "0 < rem" and fits: "log_fits L (H \<union> range_blocks s n off (chunk off rem))"
  shows "\<exists>v. writei_loop ip src pos off rem s = writei_loop ip src (pos + chunk off rem) (off + chunk off rem) (rem - chunk off rem) v
    \<and> in_trans S L (H \<union> range_blocks s n off (chunk off rem)) v \<and> overwritten S n src pos off (chunk off rem) s v"
proof -
  let ?m = "chunk off rem" and ?a = "file_addr s n (off div BSIZE)"
  from tr obtain l where ok: "log_ok S L l s" "log_busy s" "homes l s = H" by (auto simp: in_trans_def)
  note c = chunk_bounds [OF rem, of off]
  have k: "off div BSIZE * BSIZE < unat (i_size n)" using off rem by (intro block_start) simp
  have a: "unat ?a < S" "i_dev n = 1" using f k by (auto simp: file_ok_def)
  from bmap_mapped [OF ok(1), of ip "off div BSIZE"] f(1) k obtain u where u: "bmap ip (off div BSIZE) s = Ok ?a u" "rd_frame S L l s u"
    by (auto simp: n)
  have iu: "icache u = icache s" by (rule rd_frame_icache [OF u(2)])
  have ut: "in_trans S L H u" "blk u (unat ?a) = blk s (unat ?a)" "\<forall>x<S. blk u x = blk s x" "klog.more u = klog.more s" "cpu_same s u"
    using u(2) ok a(1) by (auto simp: rd_frame_def in_trans_def)
  from trans_update [OF ut(1) a(1)] obtain i t where t: "bread 1 ?a u = Ok i t" "b_data (bc_buf t i) = blk s (unat ?a)"
    "\<forall>d. andthen (log_write i (set_bdata i d t)) (\<lambda>_ u. brelse i u) = logged_write (unat ?a) d u" by (auto simp: ut(2))
  define d where "d = (\<lambda>i. if off mod BSIZE \<le> i \<and> i < off mod BSIZE + ?m then src (pos + (i - off mod BSIZE)) else blk s (unat ?a) i)"
  have rb: "range_blocks s n off ?m = {unat ?a}" by (rule range_blocks_chunk [OF c(1,3)])
  from trans_write [OF ut(1) a(1), of d] fits rb obtain v where v: "logged_write (unat ?a) d u = Ok () v"
    "in_trans S L (insert (unat ?a) H) v" "cpu_same u v" "klog.more v = klog.more u" "\<forall>x<S. blk v x = ((blk u)(unat ?a := d)) x" by auto
  have "overwritten S n src pos off ?m s v"
    using block_overwritten [OF f _ c(1,3) refl, of d src pos v] v ut off c(2) by (auto simp: d_def cpu_same_def)
  moreover have "(\<lambda>ia. if off mod BSIZE \<le> ia \<and> ia < off mod BSIZE + ?m then src (pos + (ia - off mod BSIZE)) else b_data (bc_buf t i) ia) = d"
    by (simp add: d_def t(2) cong: if_cong)
  then have "writei_loop ip src pos off rem s
      = andthen (andthen (log_write i (set_bdata i d t)) (\<lambda>_ u. brelse i u)) (\<lambda>_. writei_loop ip src (pos + ?m) (off + ?m) (rem - ?m))"
    using rem u(1) t(1) iu a(2) n by (subst writei_loop.simps) (simp add: Let_def andthen_assoc)
  then have "writei_loop ip src pos off rem s = writei_loop ip src (pos + ?m) (off + ?m) (rem - ?m) v" using t(3) v(1) by simp
  ultimately show ?thesis using v(2) rb by auto
qed

lemma writei_loop_spec:
  fixes s :: "'z kcons_scheme" and n :: inode
  assumes "in_trans S L H s" "n = icache s ip" "file_ok S s n" "file_distinct s n" "off + rem \<le> unat (i_size n)"
    "log_fits L (H \<union> range_blocks s n off rem)"
  shows "\<exists>t. writei_loop ip src pos off rem s = Ok () t \<and> in_trans S L (H \<union> range_blocks s n off rem) t \<and> overwritten S n src pos off rem s t"
  using assms
proof (induction rem arbitrary: H pos off s rule: less_induct)
  case (less rem)
  show ?case
  proof (cases "rem = 0")
    case True
    then show ?thesis using less(2) by (subst writei_loop.simps) (auto simp: overwritten_def range_blocks_def cpu_same_def)
  next
    case False
    let ?m = "chunk off rem"
    note c = chunk_bounds [of rem off]
    have rem: "rem = ?m + (rem - ?m)" using c False by simp
    have rb: "range_blocks s n off rem = range_blocks s n off ?m \<union> range_blocks s n (off + ?m) (rem - ?m)"
      using range_blocks_split [of s n off ?m "rem - ?m"] rem by simp
    have "log_fits L (H \<union> range_blocks s n off ?m)" using less(7) rb by (auto intro: log_fits_mono)
    from writei_loop_step [OF less(2-6) _ this, of src pos] False obtain v where
      v: "writei_loop ip src pos off rem s = writei_loop ip src (pos + ?m) (off + ?m) (rem - ?m) v"
      "in_trans S L (H \<union> range_blocks s n off ?m) v" "overwritten S n src pos off ?m s v" by blast
    note o = overwritten_ok [OF less(4) v(3)]
    have r: "range_blocks v n (off + ?m) (rem - ?m) = range_blocks s n (off + ?m) (rem - ?m)" using less(6) rem by (intro o(3)) simp
    have n: "n = icache v ip" using less(3) v(3) klog_more_icache [of v s] by (simp add: overwritten_def)
    have "\<exists>t. writei_loop ip src (pos + ?m) (off + ?m) (rem - ?m) v = Ok () t
        \<and> in_trans S L (H \<union> range_blocks s n off ?m \<union> range_blocks v n (off + ?m) (rem - ?m)) t
        \<and> overwritten S n src (pos + ?m) (off + ?m) (rem - ?m) v t"
    proof (rule less(1) [OF _ v(2) n o(1)])
      show "rem - ?m < rem" "file_distinct v n" "off + ?m + (rem - ?m) \<le> unat (i_size n)" using c False less(5,6) o(2) by auto
      show "log_fits L (H \<union> range_blocks s n off ?m \<union> range_blocks v n (off + ?m) (rem - ?m))" using less(7) rb r by (simp add: Un_assoc)
    qed
    then obtain t where t: "writei_loop ip src (pos + ?m) (off + ?m) (rem - ?m) v = Ok () t"
      "in_trans S L (H \<union> range_blocks s n off rem) t" "overwritten S n src (pos + ?m) (off + ?m) (rem - ?m) v t"
      using rb r by (auto simp: Un_assoc)
    have "overwritten S n src pos off rem s t" using overwritten_trans [OF v(3) t(3) r] rem by simp
    then show ?thesis using v(1) t(1,2) by auto
  qed
qed

lemma writei_overwrites:
  fixes s :: "'z kcons_scheme" and n :: inode
  assumes "in_trans S L H s" "n = icache s ip" "file_ok S s n" "file_distinct s n" "i_type n \<noteq> T_DEV"
    "unat off + unat cnt \<le> unat (i_size n)" "log_fits L (H \<union> range_blocks s n (unat off) (unat cnt))"
  shows "\<exists>t. writei ip src off cnt s = Ok (int (unat cnt)) t \<and> in_trans S L (H \<union> range_blocks s n (unat off) (unat cnt)) t
    \<and> overwritten S n src 0 (unat off) (unat cnt) s t \<and> file_ok S t n \<and> icache t = icache s"
proof -
  let ?o = "unat off" and ?c = "unat cnt"
  from writei_loop_spec [OF assms(1-4,6,7), of src 0] obtain t where t: "writei_loop ip src 0 ?o ?c s = Ok () t"
    "in_trans S L (H \<union> range_blocks s n ?o ?c) t" "overwritten S n src 0 ?o ?c s t" by blast
  have ic: "icache t = icache s" using t(3) klog_more_icache [of t s] by (simp add: overwritten_def)
  have len: "unat (i_size n) \<le> 140 * 512" using assms(3) by (simp add: file_ok_def layout_numbers BSIZE_def)
  then have u: "unat (off + cnt) = ?o + ?c" using assms(6) by (simp add: unat_word_ariths(1))
  then have g: "\<not> off > i_size n" "\<not> off + cnt < off" "\<not> off + cnt > i_size n" "\<not> unat (off + cnt) > MAXFILE * BSIZE"
    using assms(6) len by (auto simp: word_less_nat_alt layout_numbers BSIZE_def)
  have sc: "sint cnt = int ?c" using assms(6) len by (intro sint_small) simp
  have "writei ip src off cnt s = Ok (int ?c) t" using t(1) g assms(2,5) ic sc by (simp add: writei_def Let_def)
  then show ?thesis using t(2,3) ic overwritten_ok(1) [OF assms(3) t(3)] by blast
qed

text \<open>C3: what is written to a file is read back. Inside a transaction with room for the blocks of the range, \<open>writei\<close> over
  existing bytes of a file succeeds and logs exactly the blocks of the range; afterwards \<open>readi\<close> of the range returns the
  bytes written, every other byte of the file, the inode cache and every other block are as before.\<close>

theorem writei_then_readi:
  fixes s :: "'z kcons_scheme" and n :: inode
  assumes "in_trans S L H s" "n = icache s ip" "file_ok S s n" "file_distinct s n" "i_type n \<noteq> T_DEV"
    "unat off + unat cnt \<le> unat (i_size n)" "log_fits L (H \<union> range_blocks s n (unat off) (unat cnt))"
  shows "\<exists>t u. writei ip src off cnt s = Ok (int (unat cnt)) t \<and> in_trans S L (H \<union> range_blocks s n (unat off) (unat cnt)) t \<and> icache t = icache s
    \<and> readi ip off cnt t = Ok (int (unat cnt), map src [0..<unat cnt]) u
    \<and> (\<forall>p<unat (i_size n). p < unat off \<or> unat off + unat cnt \<le> p \<longrightarrow> file_byte t n p = file_byte s n p)
    \<and> (\<forall>x<S. x \<notin> range_blocks s n (unat off) (unat cnt) \<longrightarrow> blk t x = blk s x)"
proof -
  let ?o = "unat off" and ?c = "unat cnt"
  from writei_overwrites [OF assms, of src] obtain t where t: "writei ip src off cnt s = Ok (int ?c) t"
    "in_trans S L (H \<union> range_blocks s n ?o ?c) t" "overwritten S n src 0 ?o ?c s t" "file_ok S t n" "icache t = icache s" by blast
  from t(2) obtain l where ok: "log_ok S L l t" by (auto simp: in_trans_def)
  have "map (file_byte t n) [?o..<?o + ?c] = map src [0..<?c]"
    using t(3) assms(6) by (intro nth_equalityI) (auto simp: overwritten_def)
  moreover have "?o + ?c < 2 ^ 32" using assms(6) unsigned_less [of "i_size n", where 'a = nat] by simp
  ultimately obtain u where "readi ip off cnt t = Ok (int ?c, map src [0..<?c]) u"
    using readi_spec [OF ok, of ip off cnt] t(4,5) assms(2,5,6) by (auto simp: Let_def min_def split: if_splits)
  then show ?thesis using t by (auto simp: overwritten_def)
qed

theorem writei_then_readi_witness:
  "\<exists>t u. writei 0 (\<lambda>i. of_nat (65 + i)) 510 3 text_file = Ok 3 t \<and> readi 0 510 3 t = Ok (3, [65, 66, 67]) u"
proof -
  let ?n = "icache text_file 0"
  have cov: "k = 0 \<or> k = 1" if "k * BSIZE < unat (i_size ?n)" for k using that text_file_ok(6) by (auto simp: BSIZE_def)
  have "file_distinct text_file ?n" unfolding file_distinct_def
  proof (intro allI impI)
    fix j k assume "j * BSIZE < unat (i_size ?n)" "k * BSIZE < unat (i_size ?n)"
    then have "j = 0 \<or> j = 1" "k = 0 \<or> k = 1" using cov by blast+
    then show "(file_addr text_file ?n j = file_addr text_file ?n k \<longrightarrow> j = k) \<and> (NDIRECT \<le> j \<longrightarrow> file_addr text_file ?n k \<noteq> i_addrs ?n NDIRECT)"
      using text_file_ok(4,5) by (elim disjE) (simp_all add: NDIRECT_def)
  qed
  moreover have "range_blocks text_file ?n 510 3 \<subseteq> {6, 9}"
  proof -
    have "{510..<510 + 3} = {510, 511, 512::nat}" by auto
    then show ?thesis using text_file_ok(4,5) by (simp add: range_blocks_def BSIZE_def)
  qed
  then have fits: "log_fits 10 ({} \<union> range_blocks text_file ?n (unat (510::uint)) (unat (3::uint)))"
    using log_fits_mono [of 10 "{6, 9}"] by (simp add: log_fits_def NBUF_def)
  have "unat (510::uint) + unat (3::uint) \<le> unat (i_size ?n)" "i_type ?n \<noteq> T_DEV" using text_file_ok(6,7) by (simp_all add: T_DEV_def)
  moreover have "[0..<unat (3::uint)] = [0, 1, 2::nat]" by (simp add: upt_rec)
  ultimately show ?thesis
    using writei_then_readi [OF text_file_ok(1) refl text_file_ok(3) _ _ _ fits, of "\<lambda>i. of_nat (65 + i)"] by auto
qed

end
