(* ===== verification/Dir_Props.thy ===== *)
theory Dir_Props
  imports File_Content
begin

text \<open>Directories as finite maps from names to inode numbers: \<open>dirlookup\<close> implements the lookup and \<open>dirlink\<close>
  the insertion.\<close>

section \<open>Names\<close>

text \<open>The name a field of \<open>DIRSIZ\<close> bytes stands for: what precedes its first NUL.\<close>

definition cname :: "bytes \<Rightarrow> uint8 list" where
  "cname b = takeWhile (\<lambda>c. c \<noteq> 0) (map b [0..<DIRSIZ])"

lemma takeWhile_map_eq_iff:
  "takeWhile (\<lambda>c. c \<noteq> 0) (map a [0..<n]) = takeWhile (\<lambda>c. c \<noteq> 0) (map b [0..<n])
    \<longleftrightarrow> (\<forall>i<n. (\<forall>j<i. a j \<noteq> 0) \<longrightarrow> a i = b i)" for a b :: bytes
proof (induction n arbitrary: a b)
  case (Suc n)
  have m: "map f [0..<Suc n] = f 0 # map (\<lambda>i. f (Suc i)) [0..<n]" for f :: bytes
    by (simp only: upt_conv_Cons [of 0 "Suc n"] map_Suc_upt [symmetric] list.map map_map o_def zero_less_Suc)
  show ?case unfolding m
    using Suc.IH [of "\<lambda>i. a (Suc i)" "\<lambda>i. b (Suc i)"] by (auto simp: All_less_Suc2)
qed simp

lemma cname_eq_iff: "cname a = cname b \<longleftrightarrow> (\<forall>i<DIRSIZ. (\<forall>j<i. a j \<noteq> 0) \<longrightarrow> a i = b i)"
  unfolding cname_def by (rule takeWhile_map_eq_iff)

lemma namecmp_zero: "namecmp a b = 0 \<longleftrightarrow> cname a = cname b"
  unfolding namecmp_def strncmp_zero_iff cname_eq_iff by (auto simp: two_names_def)

lemma name_copy_cname: "cname (name_copy d name) = cname name"
  unfolding cname_eq_iff name_copy_def by (auto simp: strncpy_copies_and_pads two_names_def)

lemma cname_field: "cname (\<lambda>i. if i < DIRSIZ then b i else 0) = cname b"
  unfolding cname_eq_iff by simp

section \<open>Entries\<close>

definition dir_entry :: "'z kbio_scheme \<Rightarrow> inode \<Rightarrow> nat \<Rightarrow> dirent" where
  "dir_entry s n k = get_dirent (\<lambda>i. file_byte s n (sizeof_dirent * k + i))"

definition dir_size :: "inode \<Rightarrow> nat" where
  "dir_size n = unat (i_size n) div sizeof_dirent"

definition dir_hit :: "'z kbio_scheme \<Rightarrow> inode \<Rightarrow> uint8 list \<Rightarrow> nat \<Rightarrow> bool" where
  "dir_hit s n nm k \<longleftrightarrow> de_inum (dir_entry s n k) \<noteq> 0 \<and> cname (de_name (dir_entry s n k)) = nm"

text \<open>The directory as a map: the slot and the inode number of a name.\<close>

definition dir_map :: "'z kbio_scheme \<Rightarrow> inode \<Rightarrow> uint8 list \<Rightarrow> (nat \<times> uint16) option" where
  "dir_map s n nm = map_option (\<lambda>k. (k, de_inum (dir_entry s n k))) (List.find (dir_hit s n nm) [0..<dir_size n])"

definition dir_ok :: "nat \<Rightarrow> 'z kbio_scheme \<Rightarrow> inode \<Rightarrow> bool" where
  "dir_ok S s n \<longleftrightarrow> file_ok S s n \<and> i_type n = T_DIR \<and> sizeof_dirent dvd unat (i_size n)"

lemma dir_bound: "dir_ok S s n \<Longrightarrow> k < dir_size n \<Longrightarrow> sizeof_dirent * k + sizeof_dirent \<le> unat (i_size n)"
  by (auto simp: dir_ok_def dir_size_def layout_numbers)

lemma dir_offs_eq: "dir_ok S s n \<Longrightarrow> dir_offs (i_size n) = map ((*) sizeof_dirent) [0..<dir_size n]"
  by (auto simp: dir_ok_def dir_offs_def dir_size_def layout_numbers)

lemma dir_cong:
  assumes "dir_ok S s n" "\<forall>x<S. blk t x = blk s x"
  shows "dir_ok S t n" "k < dir_size n \<Longrightarrow> dir_entry t n k = dir_entry s n k" "dir_map t n = dir_map s n"
proof -
  note f = file_cong [of S s n t]
  show "dir_ok S t n" using assms f(1) by (simp add: dir_ok_def)
  show e: "dir_entry t n k = dir_entry s n k" if "k < dir_size n" for k
    unfolding dir_entry_def using dir_bound [OF assms(1) that] assms f(3) by (intro get_dirent_cong) (simp add: dir_ok_def)
  have "List.find (dir_hit t n nm) [0..<dir_size n] = List.find (dir_hit s n nm) [0..<dir_size n]" for nm
    by (rule find_cong_set) (simp add: dir_hit_def e)
  then show "dir_map t n = dir_map s n"
    unfolding dir_map_def by (intro ext option.map_cong refl) (auto dest!: find_in_set simp: e simp flip: option.set_map)
qed

lemma read_dirent_spec:
  fixes s :: "'z kcons_scheme" and n :: inode
  assumes ok: "log_ok S L l s" and n: "n = icache s dp" and d: "dir_ok S s n" and k: "k < dir_size n"
  shows "\<exists>t. read_dirent msg dp (sizeof_dirent * k) s = Ok (dir_entry s n k) t \<and> rd_frame S L l s t"
proof -
  let ?o = "of_nat (sizeof_dirent * k) :: uint" and ?c = "of_nat sizeof_dirent :: uint"
  note b = dir_bound [OF d k]
  have "unat (i_size n) < 2 ^ 31" using d by (simp add: dir_ok_def file_ok_def layout_numbers BSIZE_def)
  then have "sizeof_dirent * k < 2 ^ 32" "sizeof_dirent < 2 ^ 32" using b by (simp_all add: layout_numbers)
  then have u: "unat ?o = sizeof_dirent * k" "unat ?c = sizeof_dirent" by (simp_all only: unat_of_nat_uint)
  have min: "min sizeof_dirent (unat (i_size n) - sizeof_dirent * k) = sizeof_dirent" using b by simp
  have f: "file_ok S s (icache s dp)" "i_type (icache s dp) \<noteq> T_DEV" using d n by (simp_all add: dir_ok_def T_DIR_def T_DEV_def)
  obtain t where t: "readi dp ?o ?c s = Ok (int sizeof_dirent, map (file_byte s n) [sizeof_dirent * k..<sizeof_dirent * k + sizeof_dirent]) t"
    "rd_frame S L l s t"
    using readi_spec [OF ok f, of ?o ?c] b \<open>unat (i_size n) < 2 ^ 31\<close> unfolding u n [symmetric] min Let_def by (auto split: if_splits)
  have "get_dirent (\<lambda>i. if i < length (map (file_byte s n) [sizeof_dirent * k..<sizeof_dirent * k + sizeof_dirent])
      then map (file_byte s n) [sizeof_dirent * k..<sizeof_dirent * k + sizeof_dirent] ! i else 0) = dir_entry s n k"
    unfolding dir_entry_def by (rule get_dirent_cong) simp
  then show ?thesis using t by (simp add: read_dirent_def)
qed

section \<open>Lookup\<close>

lemma dirlookup_loop_spec:
  fixes s :: "'z kcons_scheme" and n :: inode
  assumes "log_ok S L l s" "n = icache s dp" "dir_ok S s n" "\<forall>k\<in>set ks. k < dir_size n"
  shows "\<exists>t. rd_frame S L l s t \<and> dirlookup_loop dp name (map ((*) sizeof_dirent) ks) s =
    (case List.find (dir_hit s n (cname name)) ks of None \<Rightarrow> Ok None t
     | Some k \<Rightarrow> andthen (iget 1 (ucast (de_inum (dir_entry s n k))) t) (\<lambda>ip u. Ok (Some (ip, of_nat (sizeof_dirent * k))) u))"
  using assms
proof (induction ks arbitrary: s)
  case Nil
  then show ?case using rd_frame_refl by auto
next
  case (Cons k ks)
  from Cons.prems(4) have k: "k < dir_size n" "\<forall>k\<in>set ks. k < dir_size n" by simp_all
  from read_dirent_spec [OF Cons.prems(1-3) k(1), of "''dirlink read''"] obtain t where
    t: "read_dirent ''dirlink read'' dp (sizeof_dirent * k) s = Ok (dir_entry s n k) t" "rd_frame S L l s t" by blast
  then have st: "log_ok S L l t" "n = icache t dp" "\<forall>x<S. blk t x = blk s x"
    using rd_frame_icache [OF t(2)] Cons.prems(2) by (simp_all add: rd_frame_def)
  note c = dir_cong [OF Cons.prems(3) st(3)]
  show ?case
  proof (cases "dir_hit s n (cname name) k")
    case True
    moreover have "i_dev n = 1" using Cons.prems(3) by (simp add: dir_ok_def file_ok_def)
    ultimately show ?thesis using t st(2)
      by (intro exI [of _ t]) (auto simp: dir_hit_def namecmp_zero simp del: of_nat_mult)
  next
    case False
    from Cons.IH [OF st(1,2) c(1) k(2)] obtain u where u: "rd_frame S L l t u"
      "dirlookup_loop dp name (map ((*) sizeof_dirent) ks) t = (case List.find (dir_hit t n (cname name)) ks of None \<Rightarrow> Ok None u
         | Some k \<Rightarrow> andthen (iget 1 (ucast (de_inum (dir_entry t n k))) u) (\<lambda>ip u. Ok (Some (ip, of_nat (sizeof_dirent * k))) u))" by blast
    have "List.find (dir_hit t n (cname name)) ks = List.find (dir_hit s n (cname name)) ks"
      using k(2) by (intro find_cong_set) (simp add: dir_hit_def c(2))
    moreover have "dir_entry t n j = dir_entry s n j" if "List.find (dir_hit s n (cname name)) ks = Some j" for j
      using find_in_set [OF that] k(2) c(2) by blast
    moreover have "dirlookup_loop dp name (map ((*) sizeof_dirent) (k # ks)) s = dirlookup_loop dp name (map ((*) sizeof_dirent) ks) t"
      using t(1) False by (auto simp: dir_hit_def namecmp_zero)
    ultimately show ?thesis using rd_frame_trans [OF t(2) u(1)] u(2) False by (auto split: option.splits)
  qed
qed

lemma dirlookup_spec:
  fixes s :: "'z kcons_scheme" and n :: inode
  assumes "log_ok S L l s" "n = icache s dp" "dir_ok S s n"
  shows "\<exists>t. rd_frame S L l s t \<and> dirlookup dp name s =
    (case dir_map s n (cname name) of None \<Rightarrow> Ok None t
     | Some (k, inum) \<Rightarrow> andthen (iget 1 (ucast inum) t) (\<lambda>ip u. Ok (Some (ip, of_nat (sizeof_dirent * k))) u))"
proof -
  have "dirlookup dp name s = dirlookup_loop dp name (map ((*) sizeof_dirent) [0..<dir_size n]) s"
    using assms(2,3) dir_offs_eq [OF assms(3)] by (simp add: dirlookup_def dir_ok_def)
  then show ?thesis
    using dirlookup_loop_spec [OF assms, of "[0..<dir_size n]" name] by (auto simp: dir_map_def split: option.splits)
qed

lemma icache_cong: "icache t = icache s \<Longrightarrow> icache_unique t = icache_unique s" "icache t = icache s \<Longrightarrow> icache_refs t = icache_refs s"
  by (simp_all add: icache_unique_def icache_refs_def)

text \<open>C12: \<open>dirlookup\<close> implements the lookup of the directory seen as a map. A name that is not there gives no inode and
  changes nothing; a name that is there gives the offset of its slot and a referenced entry of the inode cache for its inode
  number, if the cache has the inode or a free entry.\<close>

theorem dirlookup_looks_up:
  fixes s :: "'z kcons_scheme" and n :: inode
  assumes "log_ok S L l s" "n = icache s dp" "dir_ok S s n" "icache_unique s" "icache_refs s"
  shows "case dir_map s n (cname name) of
      None \<Rightarrow> \<exists>t. dirlookup dp name s = Ok None t \<and> rd_frame S L l s t
    | Some (k, inum) \<Rightarrow>
        (\<exists>i<NINODE. i_ref (icache s i) = 0 \<or> 0 < i_ref (icache s i) \<and> i_dev (icache s i) = 1 \<and> i_inum (icache s i) = ucast inum) \<longrightarrow>
        (\<exists>ip t. dirlookup dp name s = Ok (Some (ip, of_nat (sizeof_dirent * k))) t \<and> i_dev (icache t ip) = 1
           \<and> i_inum (icache t ip) = ucast inum \<and> i_ref (icache t ip) = i_ref (icache s ip) + 1
           \<and> (\<forall>j. j \<noteq> ip \<longrightarrow> icache t j = icache s j) \<and> icache_unique t)"
proof -
  from dirlookup_spec [OF assms(1-3), of name] obtain t where t: "rd_frame S L l s t"
    "dirlookup dp name s = (case dir_map s n (cname name) of None \<Rightarrow> Ok None t
     | Some (k, inum) \<Rightarrow> andthen (iget 1 (ucast inum) t) (\<lambda>ip u. Ok (Some (ip, of_nat (sizeof_dirent * k))) u))" by blast
  note ic = rd_frame_icache [OF t(1)]
  have "cpu_ok t" using t(1) by (simp add: rd_frame_def log_ok_def)
  note g = iget_spec [OF this, unfolded icache_cong [OF ic] ic, OF assms(4,5)]
  show ?thesis
  proof (cases "dir_map s n (cname name)")
    case None
    then show ?thesis using t by auto
  next
    case (Some p)
    then obtain k inum where p: "dir_map s n (cname name) = Some (k, inum)" by (cases p) auto
    show ?thesis unfolding p option.case prod.case
    proof
      assume "\<exists>i<NINODE. i_ref (icache s i) = 0 \<or> 0 < i_ref (icache s i) \<and> i_dev (icache s i) = 1 \<and> i_inum (icache s i) = ucast inum"
      then obtain ip u where "iget 1 (ucast inum) t = Ok ip u" "icache_unique u" "i_dev (icache u ip) = 1" "i_inum (icache u ip) = ucast inum"
        "i_ref (icache u ip) = i_ref (icache s ip) + 1" "\<forall>j. j \<noteq> ip \<longrightarrow> icache u j = icache s j"
        using g [of 1 "ucast inum"] by auto
      then show "\<exists>ip t. dirlookup dp name s = Ok (Some (ip, of_nat (sizeof_dirent * k))) t \<and> i_dev (icache t ip) = 1
           \<and> i_inum (icache t ip) = ucast inum \<and> i_ref (icache t ip) = i_ref (icache s ip) + 1
           \<and> (\<forall>j. j \<noteq> ip \<longrightarrow> icache t j = icache s j) \<and> icache_unique t"
        using t(2) p by (intro exI [of _ ip] exI [of _ u]) auto
    qed
  qed
qed

text \<open>A root directory with the entry \<open>.\<close> and an empty slot.\<close>

definition root_disk :: "nat \<Rightarrow> bytes" where
  "root_disk n = (if n = 6 then (\<lambda>i. if i = 0 then 1 else if i = 2 then 46 else 0) else (\<lambda>_. 0))"

definition root_dir :: kcons where
  "root_dir = disk_file root_disk (null_inode\<lparr>i_dev := 1, i_inum := 1, i_ref := 1, i_flags := {I_BUSY, I_VALID}, i_type := T_DIR,
     i_size := 32, i_nlink := 1, i_addrs := (\<lambda>k. if k = 0 then 6 else 0)\<rparr>)"

lemma root_dir_ok:
  "in_trans 1014 10 {} root_dir" "dir_ok 1014 root_dir (icache root_dir 0)" "icache_unique root_dir" "icache_refs root_dir"
  "dir_size (icache root_dir 0) = 2" "file_addr root_dir (icache root_dir 0) 0 = 6" "file_distinct root_dir (icache root_dir 0)"
  "icache root_dir 1 = null_inode" "i_inum (icache root_dir 0) = 1" "i_dev (icache root_dir 0) = 1" "i_ref (icache root_dir 0) = 1"
  "dir_entry root_dir (icache root_dir 0) 0 = \<lparr>de_inum = 1, de_name = (\<lambda>i. if i = 0 then 46 else 0)\<rparr>"
  "dir_entry root_dir (icache root_dir 0) 1 = \<lparr>de_inum = 0, de_name = (\<lambda>_. 0)\<rparr>"
proof -
  have "hb_n (root_disk 1014) = 0" by (simp add: root_disk_def hb_n_def get32_def)
  note i = disk_file_ok [of root_disk, OF this]
  then show "in_trans 1014 10 {} root_dir" by (simp add: root_dir_def)
  have blk: "blk root_dir = root_disk" using i(2) by (simp add: root_dir_def)
  show a: "file_addr root_dir (icache root_dir 0) 0 = 6" by (simp add: root_dir_def i(3) file_addr_def NDIRECT_def)
  have sz: "i_size (icache root_dir 0) = 32" by (simp add: root_dir_def i(3))
  then show "dir_size (icache root_dir 0) = 2" by (simp add: dir_size_def layout_numbers)
  show "icache root_dir 1 = null_inode" "i_inum (icache root_dir 0) = 1" "i_dev (icache root_dir 0) = 1" "i_ref (icache root_dir 0) = 1"
    by (simp_all add: root_dir_def i(3))
  have z: "k = 0" if "k * BSIZE < unat (i_size (icache root_dir 0))" for k using that sz by (simp add: BSIZE_def)
  then show "file_distinct root_dir (icache root_dir 0)" unfolding file_distinct_def by (auto simp: NDIRECT_def dest!: z)
  have "file_ok 1014 root_dir (icache root_dir 0)"
    unfolding file_ok_def using sz a \<open>i_dev (icache root_dir 0) = 1\<close> by (auto simp: layout_numbers BSIZE_def NDIRECT_def dest!: z [unfolded BSIZE_def])
  moreover have "i_type (icache root_dir 0) = T_DIR" by (simp add: root_dir_def i(3))
  ultimately show "dir_ok 1014 root_dir (icache root_dir 0)" using sz by (simp add: dir_ok_def layout_numbers)
  show "icache_unique root_dir" "icache_refs root_dir" by (simp_all add: icache_unique_def icache_refs_def root_dir_def i(3) null_inode_def)
  have b: "file_byte root_dir (icache root_dir 0) p = root_disk 6 p" if "p < 512" for p using that a blk by (simp add: file_byte_def BSIZE_def)
  show "dir_entry root_dir (icache root_dir 0) 0 = \<lparr>de_inum = 1, de_name = (\<lambda>i. if i = 0 then 46 else 0)\<rparr>"
    "dir_entry root_dir (icache root_dir 0) 1 = \<lparr>de_inum = 0, de_name = (\<lambda>_. 0)\<rparr>"
    by (auto simp: dir_entry_def layout_numbers get_dirent_def get16_def b root_disk_def DIRSIZ_def fun_eq_iff)
qed

lemma root_dir_map: "dir_map root_dir (icache root_dir 0) nm = (if nm = [46] then Some (0, 1) else None)"
proof -
  have "cname (\<lambda>i. if i = 0 then 46 else 0) = [46]" by (simp add: cname_def DIRSIZ_def upt_rec)
  moreover have "[0..<dir_size (icache root_dir 0)] = [0, 1]" using root_dir_ok(5) by (simp add: upt_rec)
  ultimately show ?thesis using root_dir_ok(12,13) by (auto simp: dir_map_def dir_hit_def)
qed

theorem dirlookup_looks_up_witness:
  "(\<exists>ip t. dirlookup 0 (\<lambda>i. if i = 0 then 46 else 0) root_dir = Ok (Some (ip, 0)) t \<and> i_inum (icache t ip) = 1)
   \<and> (\<exists>t. dirlookup 0 (\<lambda>i. if i = 0 then 97 else 0) root_dir = Ok None t)"
proof -
  obtain l where l: "log_ok 1014 10 l root_dir" using root_dir_ok(1) by (auto simp: in_trans_def)
  note d = dirlookup_looks_up [OF l refl root_dir_ok(2-4)]
  have c: "cname (\<lambda>i. if i = 0 then c else 0) = [c]" if "c \<noteq> 0" for c using that by (simp add: cname_def DIRSIZ_def upt_rec)
  have "\<exists>i<NINODE. i_ref (icache root_dir i) = 0" using root_dir_ok(8) by (intro exI [of _ 1]) (simp add: NINODE_def null_inode_def)
  then show ?thesis using d [of "\<lambda>i. if i = 0 then 46 else 0"] d [of "\<lambda>i. if i = 0 then 97 else 0"] by (auto simp: root_dir_map c)
qed

section \<open>Insertion\<close>

definition dir_slot :: "'z kbio_scheme \<Rightarrow> inode \<Rightarrow> nat option" where
  "dir_slot s n = List.find (\<lambda>k. de_inum (dir_entry s n k) = 0) [0..<dir_size n]"

lemma dirlink_find_spec:
  fixes s :: "'z kcons_scheme" and n :: inode
  assumes "log_ok S L l s" "n = icache s dp" "dir_ok S s n" "\<forall>k\<in>set ks. k < dir_size n"
    "List.find (\<lambda>k. de_inum (dir_entry s n k) = 0) ks = Some k0"
  shows "\<exists>t. dirlink_find dp (map ((*) sizeof_dirent) ks) stop s = Ok (sizeof_dirent * k0) t \<and> rd_frame S L l s t"
  using assms
proof (induction ks arbitrary: s)
  case (Cons k ks)
  from Cons.prems(4) have k: "k < dir_size n" "\<forall>k\<in>set ks. k < dir_size n" by simp_all
  from read_dirent_spec [OF Cons.prems(1-3) k(1), of "''dirlink read''"] obtain t where
    t: "read_dirent ''dirlink read'' dp (sizeof_dirent * k) s = Ok (dir_entry s n k) t" "rd_frame S L l s t" by blast
  then have st: "log_ok S L l t" "n = icache t dp" "\<forall>x<S. blk t x = blk s x"
    using rd_frame_icache [OF t(2)] Cons.prems(2) by (simp_all add: rd_frame_def)
  note c = dir_cong [OF Cons.prems(3) st(3)]
  show ?case
  proof (cases "de_inum (dir_entry s n k) = 0")
    case True
    then show ?thesis using t Cons.prems(5) by simp
  next
    case False
    have "List.find (\<lambda>k. de_inum (dir_entry t n k) = 0) ks = Some k0"
      using Cons.prems(5) False k(2) find_cong_set [of ks "\<lambda>k. de_inum (dir_entry t n k) = 0" "\<lambda>k. de_inum (dir_entry s n k) = 0"] c(2) by auto
    from Cons.IH [OF st(1,2) c(1) k(2) this] show ?thesis using t False rd_frame_trans by fastforce
  qed
qed simp

text \<open>Writing an entry into a slot changes that entry only.\<close>

lemma overwritten_entry:
  fixes s t :: "'z klog_scheme"
  assumes "dir_ok S s n" "k < dir_size n" "overwritten S n (put_dirent de) 0 (sizeof_dirent * k) sizeof_dirent s t" "j < dir_size n"
  shows "dir_entry t n j = (if j = k then get_dirent (put_dirent de) else dir_entry s n j)"
proof -
  have b: "file_byte t n (sizeof_dirent * j + i) = (if sizeof_dirent * k \<le> sizeof_dirent * j + i \<and> sizeof_dirent * j + i < sizeof_dirent * k + sizeof_dirent
      then put_dirent de (sizeof_dirent * j + i - sizeof_dirent * k) else file_byte s n (sizeof_dirent * j + i))" if "i < sizeof_dirent" for i
    using assms(3) dir_bound [OF assms(1,4)] that by (simp add: overwritten_def)
  show ?thesis
  proof (cases "j = k")
    case True
    then show ?thesis unfolding dir_entry_def using b by (auto intro!: get_dirent_cong)
  next
    case False
    then have "sizeof_dirent * j + i < sizeof_dirent * k \<or> sizeof_dirent * k + sizeof_dirent \<le> sizeof_dirent * j + i" if "i < sizeof_dirent" for i
      using that by (auto simp: layout_numbers)
    then have "file_byte t n (sizeof_dirent * j + i) = file_byte s n (sizeof_dirent * j + i)" if "i < sizeof_dirent" for i
      using b [OF that] that by (metis leD)
    then show ?thesis unfolding dir_entry_def using False by (auto intro!: get_dirent_cong)
  qed
qed

lemma dir_map_insert:
  fixes s t :: "'z klog_scheme"
  assumes "k0 < dir_size n" "de_inum (dir_entry s n k0) = 0" "dir_map s n nm = None" "inum \<noteq> 0"
    and e: "\<And>j. j < dir_size n \<Longrightarrow> dir_entry t n j = (if j = k0 then de else dir_entry s n j)"
    and de: "de_inum de = inum" "cname (de_name de) = nm"
  shows "dir_map t n = (dir_map s n)(nm \<mapsto> (k0, inum))"
proof
  fix nm'
  show "dir_map t n nm' = ((dir_map s n)(nm \<mapsto> (k0, inum))) nm'"
  proof (cases "nm' = nm")
    case True
    have "\<not> dir_hit s n nm j" if "j < dir_size n" for j using assms(3) that by (auto simp: dir_map_def find_None_iff)
    then have "List.find (dir_hit t n nm) [0..<dir_size n] = Some k0"
      using assms(1,4) e de by (intro find_unique) (auto simp: dir_hit_def split: if_splits)
    then show ?thesis using True e [OF assms(1)] de by (simp add: dir_map_def)
  next
    case False
    have h: "dir_hit t n nm' j = dir_hit s n nm' j" if "j < dir_size n" for j
      using that e [OF that] False de assms(2) by (auto simp: dir_hit_def)
    have "List.find (dir_hit t n nm') [0..<dir_size n] = List.find (dir_hit s n nm') [0..<dir_size n]"
      by (rule find_cong_set) (simp add: h)
    moreover have "dir_entry t n j = dir_entry s n j" if "List.find (dir_hit s n nm') [0..<dir_size n] = Some j" for j
      using find_in_set [OF that] e assms(2) by (auto simp: dir_hit_def)
    ultimately show ?thesis using False by (auto simp: dir_map_def split: option.splits intro!: option.map_cong)
  qed
qed

lemma rd_frame_in_trans:
  assumes "log_ok S L l s" "log_busy s" "homes l s = H" "rd_frame S L l s t"
  shows "in_trans S L H t"
  using assms by (auto simp: rd_frame_def in_trans_def)

lemma blocks_cong:
  assumes "file_ok S s n" "\<forall>x<S. blk t x = blk s x"
  shows "file_distinct t n = file_distinct s n" "off + m \<le> unat (i_size n) \<Longrightarrow> range_blocks t n off m = range_blocks s n off m"
proof -
  note c = file_cong [OF assms]
  show "file_distinct t n = file_distinct s n" by (simp add: file_distinct_def c(2))
  show "range_blocks t n off m = range_blocks s n off m" if "off + m \<le> unat (i_size n)"
    unfolding range_blocks_def using that by (intro image_cong refl) (auto intro!: c(2) arg_cong [of _ _ unat] block_start)
qed

text \<open>The two scans of \<open>dirlink\<close> before it writes.\<close>

lemma dirlink_scan:
  fixes s :: "'z kcons_scheme" and n :: inode
  assumes ok: "log_ok S L l s" and n: "n = icache s dp" and d: "dir_ok S s n" and "dir_map s n (cname name) = None" "dir_slot s n = Some k"
  shows "\<exists>t. rd_frame S L l s t \<and> dirlink dp name inum s =
    andthen (writei dp (put_dirent \<lparr>de_inum = ucast inum, de_name = name_copy (\<lambda>_. 0) name\<rparr>) (of_nat (sizeof_dirent * k)) (of_nat sizeof_dirent) t)
      (\<lambda>r u. if r \<noteq> int sizeof_dirent then Panic ''dirlink'' else Ok 0 u)"
proof -
  from dirlookup_spec [OF ok n d, of name] assms(4) obtain t where t: "rd_frame S L l s t" "dirlookup dp name s = Ok None t" by auto
  have f: "log_ok S L l t" "n = icache t dp" "\<forall>x<S. blk t x = blk s x" using t(1) rd_frame_icache [OF t(1)] n by (simp_all add: rd_frame_def)
  note c = dir_cong [OF d f(3)]
  have "List.find (\<lambda>k. de_inum (dir_entry t n k) = 0) [0..<dir_size n] = Some k"
    using assms(5) find_cong_set [of "[0..<dir_size n]" "\<lambda>k. de_inum (dir_entry t n k) = 0" "\<lambda>k. de_inum (dir_entry s n k) = 0"] c(2)
    by (auto simp: dir_slot_def)
  from dirlink_find_spec [OF f(1,2) c(1) _ this, of "sizeof_dirent * length (dir_offs (i_size n))"] obtain u where
    u: "dirlink_find dp (dir_offs (i_size n)) (sizeof_dirent * length (dir_offs (i_size n))) t = Ok (sizeof_dirent * k) u" "rd_frame S L l t u"
    by (auto simp: dir_offs_eq [OF d])
  show ?thesis using t(2) u(1) f(2) rd_frame_trans [OF t(1) u(2)]
    by (intro exI [of _ u]) (simp add: dirlink_def Let_def del: of_nat_mult)
qed

lemma dirlink_spec:
  fixes s :: "'z kcons_scheme" and n :: inode and inum :: uint
  assumes tr: "in_trans S L H s" and n: "n = icache s dp" and d: "dir_ok S s n" and fd: "file_distinct s n" and new: "dir_map s n (cname name) = None"
    and slot: "dir_slot s n = Some k" and fits: "log_fits L (H \<union> range_blocks s n (sizeof_dirent * k) sizeof_dirent)"
  defines "de \<equiv> \<lparr>de_inum = ucast inum, de_name = name_copy (\<lambda>_. 0) name\<rparr>"
  shows "\<exists>t u. dirlink dp name inum s = Ok 0 u \<and> in_trans S L (H \<union> range_blocks s n (sizeof_dirent * k) sizeof_dirent) u \<and> icache u = icache s
    \<and> (\<forall>x<S. blk t x = blk s x) \<and> overwritten S n (put_dirent de) 0 (sizeof_dirent * k) sizeof_dirent t u \<and> file_ok S u n"
proof -
  let ?o = "sizeof_dirent * k" and ?src = "put_dirent de"
  from tr obtain l where ok: "log_ok S L l s" "log_busy s" "homes l s = H" by (auto simp: in_trans_def)
  from dirlink_scan [OF ok(1) n d new slot, of inum] obtain t where t: "rd_frame S L l s t"
    "dirlink dp name inum s = andthen (writei dp ?src (of_nat ?o) (of_nat sizeof_dirent) t)
      (\<lambda>r u. if r \<noteq> int sizeof_dirent then Panic ''dirlink'' else Ok 0 u)" by (auto simp: de_def)
  have f: "n = icache t dp" "icache t = icache s" "\<forall>x<S. blk t x = blk s x" using t(1) rd_frame_icache [OF t(1)] n by (simp_all add: rd_frame_def)
  have k: "k < dir_size n" using slot find_in_set [of _ "[0..<dir_size n]" k] by (auto simp: dir_slot_def)
  note b = dir_bound [OF d k]
  have dd: "file_ok S s n" "i_type n \<noteq> T_DEV" using d by (simp_all add: dir_ok_def T_DIR_def T_DEV_def)
  note bc = blocks_cong [OF dd(1) f(3)]
  have "unat (i_size n) < 2 ^ 31" using dd(1) by (simp add: file_ok_def layout_numbers BSIZE_def)
  then have "?o < 2 ^ 32" "sizeof_dirent < 2 ^ 32" using b by (simp_all add: layout_numbers)
  then have u: "unat (of_nat ?o :: uint) = ?o" "unat (of_nat sizeof_dirent :: uint) = sizeof_dirent" by (simp_all only: unat_of_nat_uint)
  have "\<exists>v. writei dp ?src (of_nat ?o) (of_nat sizeof_dirent) t = Ok (int sizeof_dirent) v
      \<and> in_trans S L (H \<union> range_blocks t n ?o sizeof_dirent) v \<and> overwritten S n ?src 0 ?o sizeof_dirent t v \<and> file_ok S v n \<and> icache v = icache t"
    using writei_overwrites [OF rd_frame_in_trans [OF ok t(1)] f(1), of "of_nat ?o" "of_nat sizeof_dirent" ?src]
      file_cong(1) [OF dd(1) f(3)] fd dd(2) b fits bc unfolding u by simp
  then show ?thesis using t(2) f bc(2) [OF b] by auto
qed

lemma dirlink_absent:
  fixes s :: "'z kcons_scheme" and n :: inode
  assumes "in_trans S L H s" "n = icache s dp" "dir_ok S s n" "file_distinct s n" "dir_map s n (cname name) = None"
    "dir_slot s n = Some k" "log_fits L (H \<union> range_blocks s n (sizeof_dirent * k) sizeof_dirent)" "(ucast inum :: uint16) \<noteq> 0"
  shows "\<exists>t. dirlink dp name inum s = Ok 0 t \<and> in_trans S L (H \<union> range_blocks s n (sizeof_dirent * k) sizeof_dirent) t \<and> dir_ok S t n
    \<and> dir_map t n = (dir_map s n)(cname name \<mapsto> (k, ucast inum)) \<and> icache t = icache s
    \<and> (\<forall>x<S. x \<notin> range_blocks s n (sizeof_dirent * k) sizeof_dirent \<longrightarrow> blk t x = blk s x)
    \<and> (\<exists>u. dirlookup dp name t = andthen (iget 1 (ucast (ucast inum :: uint16)) u) (\<lambda>ip v. Ok (Some (ip, of_nat (sizeof_dirent * k))) v) \<and> icache u = icache s)"
proof -
  let ?de = "\<lparr>de_inum = ucast inum, de_name = name_copy (\<lambda>_. 0) name\<rparr> :: dirent" and ?o = "sizeof_dirent * k"
  from dirlink_spec [OF assms(1-7), of inum] obtain s' t where t: "dirlink dp name inum s = Ok 0 t" "in_trans S L (H \<union> range_blocks s n ?o sizeof_dirent) t"
    "icache t = icache s" "\<forall>x<S. blk s' x = blk s x" "overwritten S n (put_dirent ?de) 0 ?o sizeof_dirent s' t" "file_ok S t n" by blast
  note c = dir_cong [OF assms(3) t(4)]
  have k: "k < dir_size n" "de_inum (dir_entry s n k) = 0" using assms(6) find_in_set [of _ "[0..<dir_size n]" k] by (auto simp: dir_slot_def)
  note b = dir_bound [OF assms(3) k(1)]
  have "dir_entry t n j = (if j = k then get_dirent (put_dirent ?de) else dir_entry s n j)" if "j < dir_size n" for j
    using overwritten_entry [OF c(1) k(1) t(5) that] c(2) [OF that] by simp
  moreover have "de_inum (get_dirent (put_dirent ?de)) = ucast inum" "cname (de_name (get_dirent (put_dirent ?de))) = cname name"
    by (simp_all add: dirent_roundtrip cname_field name_copy_cname)
  ultimately have m: "dir_map t n = (dir_map s n)(cname name \<mapsto> (k, ucast inum))"
    by (intro dir_map_insert [OF k assms(5,8)])
  have d: "dir_ok S t n" using t(6) assms(3) by (simp add: dir_ok_def)
  from t(2) obtain l where l: "log_ok S L l t" by (auto simp: in_trans_def)
  from dirlookup_spec [OF l _ d, of dp name] m t(3) assms(2) obtain u where "rd_frame S L l t u"
    "dirlookup dp name t = andthen (iget 1 (ucast (ucast inum :: uint16)) u) (\<lambda>ip v. Ok (Some (ip, of_nat ?o)) v)" by auto
  moreover have "\<forall>x<S. x \<notin> range_blocks s n ?o sizeof_dirent \<longrightarrow> blk t x = blk s x"
    using t(4,5) blocks_cong(2) [OF _ t(4) b] assms(3) by (simp add: overwritten_def dir_ok_def)
  ultimately show ?thesis using t(1-3) m d rd_frame_icache by metis
qed

text \<open>Taking a reference and dropping it leaves the entries in use and all counts as they were.\<close>

lemma icache_critical: "cpu_ok s \<Longrightarrow> release Lk_icache (upd_inode ip g (acquire Lk_icache s)) = Ok () (upd_inode ip g (relock Lk_icache s))"
  by (auto simp: lock_simps upd_inode_def relock_def cpu_ok_def)

lemma in_trans_icache: "in_trans S L H (upd_inode ip g s) = in_trans S L H s" "in_trans S L H (relock l s) = in_trans S L H s"
  "blk (upd_inode ip g s) = blk s" "blk (relock l s) = blk s" for s :: "'z kinode_scheme"
proof -
  have c: "log_ok S L n t = log_ok S L n s \<and> blk t = blk s"
    if f: "bc_buf t = bc_buf s" "bc_head_next t = bc_head_next s" "bc_head_prev t = bc_head_prev s" "memdisk t = memdisk s" "disksize t = disksize s"
      "cpu_ok t = cpu_ok s" "log_dev t = log_dev s" "log_start t = log_start s" "log_size t = log_size s" "lh_n t = lh_n s" "lh_sector t = lh_sector s"
    for t :: "'z kinode_scheme" and n
  proof -
    have "blk t = blk s" using bio_cong(2) [OF f(1-5)] by blast
    then show ?thesis using bio_cong(1) [OF f(1-5)] f by (simp add: log_ok_def log_geom_def nobusy_def dirty_def cached_def)
  qed
  show "in_trans S L H (upd_inode ip g s) = in_trans S L H s" "blk (upd_inode ip g s) = blk s"
    using c [of "upd_inode ip g s"] by (simp_all add: in_trans_def homes_def upd_inode_def cpu_ok_def)
  show "in_trans S L H (relock l s) = in_trans S L H s" "blk (relock l s) = blk s"
    using c [of "relock l s"] by (simp_all add: in_trans_def homes_def relock_def cpu_ok_def)
qed

lemma iget_iput:
  assumes "cpu_ok s" "\<exists>i<NINODE. i_ref (icache s i) = 0 \<or> 0 < i_ref (icache s i) \<and> i_dev (icache s i) = dev \<and> i_inum (icache s i) = inum"
  shows "\<exists>ip t v. iget dev inum s = Ok ip t \<and> iput ip t = Ok () v \<and> in_trans S L H v = in_trans S L H s \<and> blk v = blk s
    \<and> (\<forall>j. i_ref (icache v j) = i_ref (icache s j)) \<and> (\<forall>j. 0 < i_ref (icache s j) \<longrightarrow> icache v j = icache s j)"
proof -
  have drop: "iput ip t = Ok () (upd_inode ip (\<lambda>n. n\<lparr>i_ref := i_ref n - 1\<rparr>) (relock Lk_icache t))"
    if "cpu_ok t" "\<not> (i_ref (icache t ip) = 1 \<and> I_VALID \<in> i_flags (icache t ip))" for ip and t :: "'a kinode_scheme"
    using icache_critical [OF that(1)] that(2) by (auto simp: iput_def Let_def acquire_update)
  have fin: ?thesis if g: "iget dev inum s = Ok ip (upd_inode ip g (relock Lk_icache s))"
      "\<not> (i_ref (g (icache s ip)) = 1 \<and> I_VALID \<in> i_flags (g (icache s ip)))"
      "i_ref (g (icache s ip)) = i_ref (icache s ip) + 1" "0 < i_ref (icache s ip) \<longrightarrow> g (icache s ip) = (icache s ip)\<lparr>i_ref := i_ref (icache s ip) + 1\<rparr>" for ip g
  proof -
    let ?t = "upd_inode ip g (relock Lk_icache s)"
    have "cpu_ok ?t" "icache ?t = (icache s)(ip := g (icache s ip))" using assms(1) by (simp_all add: upd_inode_def relock_def cpu_ok_def)
    then have "iput ip ?t = Ok () (upd_inode ip (\<lambda>n. n\<lparr>i_ref := i_ref n - 1\<rparr>) (relock Lk_icache ?t))" (is "_ = Ok () ?v") using drop [of ?t ip] g(2) by simp
    moreover have "icache ?v = (icache s)(ip := (g (icache s ip))\<lparr>i_ref := i_ref (icache s ip)\<rparr>)" using g(3) by (simp add: upd_inode_def relock_def)
    ultimately show ?thesis using g(1,4) by (intro exI [of _ ip] exI [of _ ?t] exI [of _ ?v]) (auto simp: in_trans_icache)
  qed
  let ?hit = "\<lambda>i. i_ref (icache s i) > 0 \<and> i_dev (icache s i) = dev \<and> i_inum (icache s i) = inum"
  have a: "icache (acquire Lk_icache s) = icache s" by (simp add: lock_simps)
  show ?thesis
  proof (cases "List.find ?hit [0..<NINODE]")
    case (Some ip)
    have "iget dev inum s = Ok ip (upd_inode ip (\<lambda>n. n\<lparr>i_ref := i_ref n + 1\<rparr>) (relock Lk_icache s))"
      using Some icache_critical [OF assms(1)] by (simp add: iget_def a)
    then show ?thesis using find_in_set [OF Some] by (intro fin) auto
  next
    case None
    then obtain ip where ip: "List.find (\<lambda>i. i_ref (icache s i) = 0) [0..<NINODE] = Some ip"
      using assms(2) by (cases "List.find (\<lambda>i. i_ref (icache s i) = 0) [0..<NINODE]") (auto simp: find_None_iff)
    have "iget dev inum s = Ok ip (upd_inode ip (\<lambda>n. n\<lparr>i_dev := dev, i_inum := inum, i_ref := 1, i_flags := {}\<rparr>) (relock Lk_icache s))"
      using None ip icache_critical [OF assms(1)] by (simp add: iget_def a)
    then show ?thesis using find_in_set [OF ip] by (intro fin) auto
  qed
qed

lemma dirlink_present:
  fixes s :: "'z kcons_scheme" and n :: inode
  assumes tr: "in_trans S L H s" and n: "n = icache s dp" and d: "dir_ok S s n" and here: "dir_map s n (cname name) = Some (k, i)"
    and room: "\<exists>j<NINODE. i_ref (icache s j) = 0 \<or> 0 < i_ref (icache s j) \<and> i_dev (icache s j) = 1 \<and> i_inum (icache s j) = ucast i"
  shows "\<exists>t. dirlink dp name inum s = Ok (- 1) t \<and> in_trans S L H t \<and> (\<forall>x<S. blk t x = blk s x)
    \<and> (\<forall>j. i_ref (icache t j) = i_ref (icache s j)) \<and> (\<forall>j. 0 < i_ref (icache s j) \<longrightarrow> icache t j = icache s j)"
proof -
  from tr obtain l where ok: "log_ok S L l s" "log_busy s" "homes l s = H" by (auto simp: in_trans_def)
  from dirlookup_spec [OF ok(1) n d, of name] here obtain t where t: "rd_frame S L l s t"
    "dirlookup dp name s = andthen (iget 1 (ucast i) t) (\<lambda>ip u. Ok (Some (ip, of_nat (sizeof_dirent * k))) u)" by auto
  note ic = rd_frame_icache [OF t(1)] and tt = rd_frame_in_trans [OF ok t(1)]
  have "cpu_ok t" "\<forall>x<S. blk t x = blk s x" using t(1) by (simp_all add: rd_frame_def log_ok_def)
  moreover then obtain ip u v where "iget 1 (ucast i) t = Ok ip u" "iput ip u = Ok () v" "in_trans S L H v = in_trans S L H t" "blk v = blk t"
    "\<forall>j. i_ref (icache v j) = i_ref (icache t j)" "\<forall>j. 0 < i_ref (icache t j) \<longrightarrow> icache v j = icache t j"
    using iget_iput [of t 1 "ucast i" S L H] room ic by auto
  ultimately show ?thesis using t(2) tt ic by (intro exI [of _ v]) (simp add: dirlink_def)
qed

text \<open>C11: \<open>dirlink\<close> implements the insertion into the directory seen as a map. Inside a transaction, a name that is
  there is refused with -1: no block changes, and the inode cache gets back the reference that the lookup took, if it had
  the inode or a free entry. A name that is not there is put with its 16-bit inode number into the first empty slot, so
  that the directory maps it to that slot and every other name to what it was; the inode cache and the blocks that do not
  hold the slot are unchanged. A later \<open>dirlookup\<close> of the name ends in \<open>iget\<close> of that inode, with the offset of the slot.
  The directory is assumed to have an empty slot in the second case, so that it does not grow.\<close>

theorem dirlink_inserts:
  fixes s :: "'z kcons_scheme" and n :: inode
  assumes "in_trans S L H s" "n = icache s dp" "dir_ok S s n"
  shows "case dir_map s n (cname name) of
      Some (k, i) \<Rightarrow>
        (\<exists>j<NINODE. i_ref (icache s j) = 0 \<or> 0 < i_ref (icache s j) \<and> i_dev (icache s j) = 1 \<and> i_inum (icache s j) = ucast i) \<longrightarrow>
        (\<exists>t. dirlink dp name inum s = Ok (- 1) t \<and> in_trans S L H t \<and> (\<forall>x<S. blk t x = blk s x) \<and> dir_map t n = dir_map s n
          \<and> (\<forall>j. i_ref (icache t j) = i_ref (icache s j)) \<and> (\<forall>j. 0 < i_ref (icache s j) \<longrightarrow> icache t j = icache s j))
    | None \<Rightarrow>
        \<forall>k. dir_slot s n = Some k \<and> file_distinct s n \<and> (ucast inum :: uint16) \<noteq> 0
          \<and> log_fits L (H \<union> range_blocks s n (sizeof_dirent * k) sizeof_dirent) \<longrightarrow>
        (\<exists>t. dirlink dp name inum s = Ok 0 t \<and> in_trans S L (H \<union> range_blocks s n (sizeof_dirent * k) sizeof_dirent) t \<and> dir_ok S t n
          \<and> dir_map t n = (dir_map s n)(cname name \<mapsto> (k, ucast inum)) \<and> icache t = icache s
          \<and> (\<forall>x<S. x \<notin> range_blocks s n (sizeof_dirent * k) sizeof_dirent \<longrightarrow> blk t x = blk s x)
          \<and> (\<exists>u. dirlookup dp name t = andthen (iget 1 (ucast (ucast inum :: uint16)) u) (\<lambda>ip v. Ok (Some (ip, of_nat (sizeof_dirent * k))) v)
              \<and> icache u = icache s))"
proof (cases "dir_map s n (cname name)")
  case None
  then show ?thesis using dirlink_absent [OF assms _ None] by simp
next
  case (Some p)
  then obtain k i where p: "dir_map s n (cname name) = Some (k, i)" by (cases p) auto
  show ?thesis unfolding p option.case prod.case using dirlink_present [OF assms p, of inum] dir_cong(3) [OF assms(3)] by blast
qed

theorem dirlink_inserts_witness:
  "(\<exists>t. dirlink 0 (\<lambda>i. if i = 0 then 97 else 0) 2 root_dir = Ok 0 t \<and> dir_map t (icache root_dir 0) = [[46] \<mapsto> (0, 1), [97] \<mapsto> (1, 2)])
   \<and> (\<exists>t. dirlink 0 (\<lambda>i. if i = 0 then 46 else 0) 2 root_dir = Ok (- 1) t \<and> dir_map t (icache root_dir 0) = [[46] \<mapsto> (0, 1)])"
proof -
  have c: "cname (\<lambda>i. if i = 0 then c else 0) = [c]" if "c \<noteq> 0" for c using that by (simp add: cname_def DIRSIZ_def upt_rec)
  have "[0..<dir_size (icache root_dir 0)] = [0, 1]" using root_dir_ok(5) by (simp add: upt_rec)
  then have "dir_slot root_dir (icache root_dir 0) = Some 1" using root_dir_ok(12,13) by (simp add: dir_slot_def)
  moreover have "range_blocks root_dir (icache root_dir 0) (sizeof_dirent * 1) sizeof_dirent = {6}"
    using range_blocks_chunk [of sizeof_dirent "sizeof_dirent * 1" root_dir] root_dir_ok(6) by (simp add: layout_numbers BSIZE_def)
  moreover have "dir_map root_dir (icache root_dir 0) = [[46] \<mapsto> (0, 1)]" by (simp add: root_dir_map fun_eq_iff)
  moreover have "\<exists>j<NINODE. i_ref (icache root_dir j) = 0" using root_dir_ok(8) by (intro exI [of _ 1]) (simp add: NINODE_def null_inode_def)
  ultimately show ?thesis
    using dirlink_inserts [OF root_dir_ok(1) refl root_dir_ok(2), of 2 "\<lambda>i. if i = 0 then 97 else 0"]
      dirlink_inserts [OF root_dir_ok(1) refl root_dir_ok(2), of 2 "\<lambda>i. if i = 0 then 46 else 0"] root_dir_ok(7)
    by (auto simp: c log_fits_def NBUF_def)
qed

end
