(* ===== verification/Fd_Frame.thy ===== *)
theory Fd_Frame
  imports Sysfile
begin

text \<open>What the lower layers leave alone: no routine below the file table changes it or the descriptors of a process,
  whether the routine returns or gives up the CPU, or panics over the reference count of a file.\<close>

definition fds_same :: "'z kfile_scheme \<Rightarrow> 'z kfile_scheme \<Rightarrow> bool" where
  "fds_same s t \<longleftrightarrow> ftable t = ftable s \<and> (\<forall>p. p_ofile (ptable t p) = p_ofile (ptable s p)) \<and> cproc t = cproc s"

definition keeps :: "'z kfile_scheme \<Rightarrow> ('z kfile_scheme, 'a) outcome \<Rightarrow> bool" where
  "keeps s m \<longleftrightarrow> (case m of Ok x t \<Rightarrow> fds_same s t | Swtch t \<Rightarrow> fds_same s t
     | Panic msg \<Rightarrow> msg \<noteq> ''filedup'' \<and> msg \<noteq> ''fileclose'' | _ \<Rightarrow> True)"

named_theorems keeps

lemma fds_same_refl [simp]: "fds_same s s"
  by (simp add: fds_same_def)

lemma keeps_simps [simp]:
  "keeps s (Ok x t) = fds_same s t" "keeps s (Swtch t) = fds_same s t" "keeps s (Panic m) \<longleftrightarrow> m \<noteq> ''filedup'' \<and> m \<noteq> ''fileclose''" "keeps s Fault" "keeps s Diverge"
  by (simp_all add: keeps_def)

lemma keeps_andthen [keeps]: "keeps s m \<Longrightarrow> (\<And>x t. fds_same s t \<Longrightarrow> keeps s (f x t)) \<Longrightarrow> keeps s (andthen m f)"
  by (cases m) auto

lemma keeps_if [keeps]: "(b \<Longrightarrow> keeps s m) \<Longrightarrow> (\<not> b \<Longrightarrow> keeps s m') \<Longrightarrow> keeps s (if b then m else m')"
  by simp

lemma keeps_blocked [keeps]: "keeps s m \<Longrightarrow> keeps s (blocked m)"
  by (cases m) (auto simp: blocked_def)

section \<open>State updates\<close>

lemma fds_same_core [simp]:
  "fds_same s (acquire l t) = fds_same s t" "fds_same s (upd_buf b g t) = fds_same s t" "fds_same s (set_bdata b d t) = fds_same s t"
  "fds_same s (set_bnext r q t) = fds_same s t" "fds_same s (set_bprev r q t) = fds_same s t" "fds_same s (upd_inode i h t) = fds_same s t"
  "fds_same s (upd_mark m k t) = fds_same s t" "fds_same s (set_head o1 v t) = fds_same s t" "fds_same s (set_lnks o1 a b1 c t) = fds_same s t"
  "fds_same s (upd_pipe p j t) = fds_same s t"
  by (auto simp: fds_same_def acquire_def pushcli_def cli_def Let_def upd_buf_def set_bdata_def set_bnext_def set_bprev_def upd_inode_def
      upd_mark_def set_head_def set_lnks_def upd_pipe_def split: bref.splits)

lemma fds_same_fields [simp]:
  "fds_same s (t\<lparr>memdisk := x1\<rparr>) = fds_same s t" "fds_same s (t\<lparr>disk_writes := x2\<rparr>) = fds_same s t" "fds_same s (t\<lparr>lh_n := x3\<rparr>) = fds_same s t"
  "fds_same s (t\<lparr>lh_sector := x4\<rparr>) = fds_same s t" "fds_same s (t\<lparr>log_busy := x5\<rparr>) = fds_same s t" "fds_same s (t\<lparr>orders := x6\<rparr>) = fds_same s t"
  "fds_same s (t\<lparr>locked := x7\<rparr>) = fds_same s t" "fds_same s (t\<lparr>ncli := x8\<rparr>) = fds_same s t" "fds_same s (t\<lparr>irq := x9\<rparr>) = fds_same s t"
  "fds_same s (t\<lparr>intena := x10\<rparr>) = fds_same s t" "fds_same s (t\<lparr>pipes := x11\<rparr>) = fds_same s t"
  "fds_same s (t\<lparr>bc_head_next := x12\<rparr>) = fds_same s t" "fds_same s (t\<lparr>bc_head_prev := x13\<rparr>) = fds_same s t"
  "fds_same s (t\<lparr>in_r := x14\<rparr>) = fds_same s t" "fds_same s (t\<lparr>uart_tx := x15\<rparr>) = fds_same s t" "fds_same s (initlock l t) = fds_same s t"
  by (auto simp: fds_same_def initlock_def)

lemma fds_same_upd_proc: "(\<And>q. p_ofile (g q) = p_ofile q) \<Longrightarrow> fds_same s (upd_proc p g t) = fds_same s t"
  by (auto simp: fds_same_def upd_proc_def)

lemma fds_same_wakeup1 [simp]: "fds_same s (wakeup1 ch t) = fds_same s t"
proof -
  have "fds_same s (fold (\<lambda>p t. if p_state (ptable t p) = SLEEPING \<and> p_chan (ptable t p) = ch
      then upd_proc p (\<lambda>q. q\<lparr>p_state := RUNNABLE\<rparr>) t else t) ps t) = fds_same s t" for ps
    by (induction ps arbitrary: t) (simp_all add: fds_same_upd_proc)
  then show ?thesis by (simp add: wakeup1_def)
qed

section \<open>Routines\<close>

lemma release_keeps [keeps]: "fds_same s t \<Longrightarrow> keeps s (release l t)"
  by (auto simp: release_def popcli_def Let_def sti_def)

lemma wakeup_keeps [keeps]: "fds_same s t \<Longrightarrow> keeps s (wakeup ch t)"
  by (simp add: wakeup_def release_keeps)

lemma sched_keeps [keeps]: "fds_same s t \<Longrightarrow> keeps s (sched t)"
  by (auto simp: sched_def fds_same_upd_proc split: option.splits)

lemma sleep_keeps [keeps]: "fds_same s t \<Longrightarrow> keeps s (sleep ch l t)"
  by (auto simp: sleep_unfold fds_same_upd_proc split: option.splits intro!: keeps)

lemma bscan_keeps [keeps]: "fds_same s t \<Longrightarrow> keeps s (bscan n f P r t)"
  by (induction n f P r t rule: bscan.induct) auto

lemma bget_keeps [keeps]: "fds_same s t \<Longrightarrow> keeps s (bget d n t)"
  by (auto simp: bget_def bget_loop_def Let_def split: option.splits intro!: keeps)

lemma iderw_keeps [keeps]: "fds_same s t \<Longrightarrow> keeps s (iderw b t)"
  by (auto simp: iderw_def Let_def intro!: keeps)

lemma bread_keeps [keeps]: "fds_same s t \<Longrightarrow> keeps s (bread d n t)"
  by (auto simp: bread_def intro!: keeps)

lemma bwrite_keeps [keeps]: "fds_same s t \<Longrightarrow> keeps s (bwrite b t)"
  by (auto simp: bwrite_def intro!: keeps)

lemma brelse_keeps [keeps]: "fds_same s t \<Longrightarrow> keeps s (brelse b t)"
  by (auto simp: brelse_def Let_def intro!: keeps)

lemma readsb_keeps [keeps]: "fds_same s t \<Longrightarrow> keeps s (readsb d t)"
  by (auto simp: readsb_def Let_def split: option.splits intro!: keeps)

subsection \<open>The log\<close>

lemma log_write_keeps [keeps]: "fds_same s t \<Longrightarrow> keeps s (log_write b t)"
  by (auto simp: log_write_def Let_def split: option.splits intro!: keeps)

lemma install_loop_keeps [keeps]: "fds_same s t \<Longrightarrow> keeps s (install_loop xs t)"
  by (induction xs arbitrary: t) (auto simp: Let_def split: option.splits prod.splits intro!: keeps)

lemma install_trans_keeps [keeps]: "fds_same s t \<Longrightarrow> keeps s (install_trans  t)"
  by (auto simp: install_trans_def Let_def split: option.splits intro!: keeps)

lemma write_head_keeps [keeps]: "fds_same s t \<Longrightarrow> keeps s (write_head  t)"
  by (auto simp: write_head_def Let_def split: option.splits intro!: keeps)

lemma begin_trans_keeps [keeps]: "fds_same s t \<Longrightarrow> keeps s (begin_trans  t)"
  by (auto simp: begin_trans_def Let_def begin_loop_def split: option.splits intro!: keeps)

lemma commit_trans_keeps [keeps]: "fds_same s t \<Longrightarrow> keeps s (commit_trans  t)"
  by (auto simp: commit_trans_def Let_def split: option.splits intro!: keeps)

subsection \<open>Memory\<close>

lemma unmark_blk_keeps [keeps]: "fds_same s t \<Longrightarrow> keeps s (unmark_blk k b t)"
  by (auto simp: unmark_blk_def Let_def split: option.splits intro!: keeps)

lemma mark_blk_keeps [keeps]: "fds_same s t \<Longrightarrow> keeps s (mark_blk k b t)"
  by (auto simp: mark_blk_def Let_def split: option.splits intro!: keeps)

lemma get_blk_keeps [keeps]: "fds_same s t \<Longrightarrow> keeps s (get_blk k t)"
  by (auto simp: get_blk_def Let_def split: option.splits intro!: keeps)

declare kfree_rec.simps [simp del] kmalloc_rec.simps [simp del]

lemma kfree_rec_keeps [keeps]: "fds_same s t \<Longrightarrow> keeps s (kfree_rec a k t)"
proof (induction "Suc MAX_ORD - k" arbitrary: a k t rule: less_induct)
  case less
  then show ?case by (subst kfree_rec.simps) (auto simp: Let_def chunk_pos intro!: keeps)
qed

lemma kmalloc_rec_keeps [keeps]: "fds_same s t \<Longrightarrow> keeps s (kmalloc_rec k t)"
proof (induction "Suc MAX_ORD - k" arbitrary: k t rule: less_induct)
  case less
  then show ?case by (subst kmalloc_rec.simps) (auto simp: Let_def chunk_pos intro!: keeps)
qed

lemma kmalloc_keeps [keeps]: "fds_same s t \<Longrightarrow> keeps s (kmalloc k t)"
  by (auto simp: kmalloc_def Let_def split: option.splits intro!: keeps)

lemma kfree_keeps [keeps]: "fds_same s t \<Longrightarrow> keeps s (kfree a k t)"
  by (auto simp: kfree_def Let_def split: option.splits intro!: keeps)

lemma get_order_keeps [keeps]: "fds_same s t \<Longrightarrow> keeps s (get_order n t)"
  by (auto simp: get_order_def Let_def split: option.splits intro!: keeps)

subsection \<open>Inodes\<close>

lemma bzero_keeps [keeps]: "fds_same s t \<Longrightarrow> keeps s (bzero d b t)"
  by (auto simp: bzero_def Let_def split: option.splits intro!: keeps)

lemma balloc_loop_keeps [keeps]: "fds_same s t \<Longrightarrow> keeps s (balloc_loop d sb bs t)"
  by (induction bs arbitrary: t) (auto simp: Let_def split: option.splits prod.splits intro!: keeps)

lemma balloc_keeps [keeps]: "fds_same s t \<Longrightarrow> keeps s (balloc d t)"
  by (auto simp: balloc_def Let_def split: option.splits intro!: keeps)

lemma bfree_keeps [keeps]: "fds_same s t \<Longrightarrow> keeps s (bfree d b t)"
  by (auto simp: bfree_def Let_def split: option.splits intro!: keeps)

lemma iget_keeps [keeps]: "fds_same s t \<Longrightarrow> keeps s (iget d n t)"
  by (auto simp: iget_def Let_def split: option.splits intro!: keeps)

lemma ialloc_loop_keeps [keeps]: "fds_same s t \<Longrightarrow> keeps s (ialloc_loop d ty ns t)"
  by (induction ns arbitrary: t) (auto simp: Let_def split: option.splits prod.splits intro!: keeps)

lemma ialloc_keeps [keeps]: "fds_same s t \<Longrightarrow> keeps s (ialloc d ty t)"
  by (auto simp: ialloc_def Let_def split: option.splits intro!: keeps)

lemma iupdate_keeps [keeps]: "fds_same s t \<Longrightarrow> keeps s (iupdate ip t)"
  by (auto simp: iupdate_def Let_def split: option.splits intro!: keeps)

lemma idup_keeps [keeps]: "fds_same s t \<Longrightarrow> keeps s (idup ip t)"
  by (auto simp: idup_def Let_def split: option.splits intro!: keeps)

lemma ilock_load_keeps [keeps]: "fds_same s t \<Longrightarrow> keeps s (ilock_load ip t)"
  by (auto simp: ilock_load_def Let_def split: option.splits intro!: keeps)

lemma ilock_loop_keeps [keeps]: "fds_same s t \<Longrightarrow> keeps s (ilock_loop ip t)"
  by (auto simp: ilock_loop_def Let_def split: option.splits intro!: keeps)

lemma ilock_keeps [keeps]: "fds_same s t \<Longrightarrow> keeps s (ilock ip t)"
  by (auto simp: ilock_def Let_def split: option.splits intro!: keeps)

lemma iunlock_keeps [keeps]: "fds_same s t \<Longrightarrow> keeps s (iunlock ip t)"
  by (auto simp: iunlock_def Let_def split: option.splits intro!: keeps)

lemma bmap_keeps [keeps]: "fds_same s t \<Longrightarrow> keeps s (bmap ip bn t)"
  by (auto simp: bmap_def Let_def split: option.splits intro!: keeps)

lemma itrunc_direct_keeps [keeps]: "fds_same s t \<Longrightarrow> keeps s (itrunc_direct ip ns t)"
  by (induction ns arbitrary: t) (auto simp: Let_def split: option.splits prod.splits intro!: keeps)

lemma itrunc_indirect_keeps [keeps]: "fds_same s t \<Longrightarrow> keeps s (itrunc_indirect ip bp js t)"
  by (induction js arbitrary: t) (auto simp: Let_def split: option.splits prod.splits intro!: keeps)

lemma itrunc_keeps [keeps]: "fds_same s t \<Longrightarrow> keeps s (itrunc ip t)"
  by (auto simp: itrunc_def Let_def split: option.splits intro!: keeps)

lemma iput_keeps [keeps]: "fds_same s t \<Longrightarrow> keeps s (iput ip t)"
  by (auto simp: iput_def Let_def split: option.splits intro!: keeps)

lemma iunlockput_keeps [keeps]: "fds_same s t \<Longrightarrow> keeps s (iunlockput ip t)"
  by (auto simp: iunlockput_def Let_def split: option.splits intro!: keeps)

subsection \<open>The console and file contents\<close>

lemma consputc_keeps [keeps]: "fds_same s t \<Longrightarrow> keeps s (consputc c t)"
  by (auto simp: consputc_def Let_def uartputc_def split: option.splits prod.splits intro!: keeps)

lemma consputs_keeps [keeps]: "fds_same s t \<Longrightarrow> keeps s (consputs cs t)"
  by (induction cs arbitrary: t) (auto simp: Let_def split: option.splits prod.splits intro!: keeps)

lemma consoleread_end_keeps [keeps]: "fds_same s t \<Longrightarrow> keeps s (consoleread_end ip n acc t)"
  by (auto simp: consoleread_end_def Let_def split: option.splits prod.splits intro!: keeps)

lemma consoleread_loop_keeps [keeps]: "fds_same s t \<Longrightarrow> keeps s (consoleread_loop ip target n acc t)"
  by (induction n arbitrary: acc t) (auto simp: Let_def split: option.splits prod.splits intro!: keeps)

lemma consoleread_keeps [keeps]: "fds_same s t \<Longrightarrow> keeps s (consoleread ip n t)"
  by (auto simp: consoleread_def Let_def split: option.splits prod.splits intro!: keeps)

lemma consolewrite_keeps [keeps]: "fds_same s t \<Longrightarrow> keeps s (consolewrite ip buf n t)"
  by (auto simp: consolewrite_def Let_def split: option.splits prod.splits intro!: keeps)

lemma dev_read_keeps [keeps]: "fds_same s t \<Longrightarrow> keeps s (dev_read ip n t)"
  by (auto simp: dev_read_def Let_def split: devfun.splits option.splits prod.splits intro!: keeps)

lemma dev_write_keeps [keeps]: "fds_same s t \<Longrightarrow> keeps s (dev_write ip src n t)"
  by (auto simp: dev_write_def Let_def split: devfun.splits option.splits prod.splits intro!: keeps)

declare readi_loop.simps [simp del] writei_loop.simps [simp del] namex_loop.simps [simp del]

lemma readi_loop_keeps [keeps]: "fds_same s t \<Longrightarrow> keeps s (readi_loop ip off rem acc t)"
proof (induction rem arbitrary: off acc t rule: less_induct)
  case less
  then show ?case by (subst readi_loop.simps) (auto simp: Let_def chunk_pos intro!: keeps)
qed

lemma readi_keeps [keeps]: "fds_same s t \<Longrightarrow> keeps s (readi ip off n t)"
  by (auto simp: readi_def Let_def split: option.splits prod.splits intro!: keeps)

lemma writei_loop_keeps [keeps]: "fds_same s t \<Longrightarrow> keeps s (writei_loop ip src pos off rem t)"
proof (induction rem arbitrary: pos off t rule: less_induct)
  case less
  then show ?case by (subst writei_loop.simps) (auto simp: Let_def chunk_pos intro!: keeps)
qed

lemma writei_keeps [keeps]: "fds_same s t \<Longrightarrow> keeps s (writei ip src off n t)"
  by (auto simp: writei_def Let_def split: option.splits prod.splits intro!: keeps)

subsection \<open>Directories and paths\<close>

lemma read_dirent_keeps [keeps]: "fds_same s t \<Longrightarrow> msg \<noteq> ''filedup'' \<and> msg \<noteq> ''fileclose'' \<Longrightarrow> keeps s (read_dirent msg dp off t)"
  by (auto simp: read_dirent_def Let_def split: option.splits prod.splits intro!: keeps)

lemma dirlookup_loop_keeps [keeps]: "fds_same s t \<Longrightarrow> keeps s (dirlookup_loop dp name offs t)"
  by (induction offs arbitrary: t) (auto simp: Let_def split: option.splits prod.splits intro!: keeps)

lemma dirlookup_keeps [keeps]: "fds_same s t \<Longrightarrow> keeps s (dirlookup dp name t)"
  by (auto simp: dirlookup_def Let_def split: option.splits prod.splits intro!: keeps)

lemma dirlink_find_keeps [keeps]: "fds_same s t \<Longrightarrow> keeps s (dirlink_find dp offs stop t)"
  by (induction offs arbitrary: t) (auto simp: Let_def split: option.splits prod.splits intro!: keeps)

lemma dirlink_keeps [keeps]: "fds_same s t \<Longrightarrow> keeps s (dirlink dp name n t)"
  by (auto simp: dirlink_def Let_def split: option.splits prod.splits intro!: keeps)

lemma namex_loop_keeps [keeps]: "fds_same s t \<Longrightarrow> keeps s (namex_loop np path name ip t)"
proof (induction "length path" arbitrary: path name ip t rule: less_induct)
  case less
  then show ?case by (subst namex_loop.simps) (auto simp: skipelem_shorter split: option.splits prod.splits intro!: keeps)
qed

lemma namex_keeps [keeps]: "fds_same s t \<Longrightarrow> keeps s (namex path np name t)"
  by (auto simp: namex_def Let_def split: option.splits prod.splits intro!: keeps)

lemma namei_keeps [keeps]: "fds_same s t \<Longrightarrow> keeps s (namei path t)"
  by (auto simp: namei_def Let_def split: option.splits prod.splits intro!: keeps)

lemma nameiparent_keeps [keeps]: "fds_same s t \<Longrightarrow> keeps s (nameiparent path t)"
  by (auto simp: nameiparent_def Let_def split: option.splits prod.splits intro!: keeps)

subsection \<open>System call arguments and the creation of files\<close>

lemma cur_keeps [keeps]: "fds_same s t \<Longrightarrow> keeps s (cur  t)"
  by (auto simp: cur_def Let_def split: option.splits prod.splits intro!: keeps)

lemma argint_keeps [keeps]: "fds_same s t \<Longrightarrow> keeps s (argint n t)"
  by (auto simp: argint_def Let_def split: option.splits prod.splits intro!: keeps)

lemma argptr_keeps [keeps]: "fds_same s t \<Longrightarrow> keeps s (argptr n sz t)"
  by (auto simp: argptr_def Let_def split: option.splits prod.splits intro!: keeps)

lemma fetchstr_loop_keeps [keeps]: "fds_same s t \<Longrightarrow> keeps s (fetchstr_loop k va acc t)"
  by (induction k arbitrary: va acc) (auto split: option.splits)

lemma fetchstr_keeps [keeps]: "fds_same s t \<Longrightarrow> keeps s (fetchstr a t)"
  by (auto simp: fetchstr_def Let_def split: option.splits prod.splits intro!: keeps)

lemma argstr_keeps [keeps]: "fds_same s t \<Longrightarrow> keeps s (argstr n t)"
  by (auto simp: argstr_def Let_def split: option.splits prod.splits intro!: keeps)

lemma argfd_keeps [keeps]: "fds_same s t \<Longrightarrow> keeps s (argfd n t)"
  by (auto simp: argfd_def Let_def split: option.splits prod.splits intro!: keeps)

lemma fds_same_kdata [simp]: "fds_same s (t\<lparr>kdata := x\<rparr>) = fds_same s t"
  by (simp add: fds_same_def)

lemma ustore_keeps [keeps]: "fds_same s t \<Longrightarrow> keeps s (ustore va cs t)"
  by (induction cs arbitrary: va t) (auto simp: Let_def split: option.splits prod.splits intro!: keeps)

lemma create_dots_keeps [keeps]: "fds_same s t \<Longrightarrow> keeps s (create_dots dp ip t)"
  by (auto simp: create_dots_def Let_def split: option.splits prod.splits intro!: keeps)

lemma create_new_keeps [keeps]: "fds_same s t \<Longrightarrow> keeps s (create_new dp name ty ma mi t)"
  by (auto simp: create_new_def Let_def split: option.splits prod.splits intro!: keeps)

lemma create_keeps [keeps]: "fds_same s t \<Longrightarrow> keeps s (create path ty ma mi t)"
  by (auto simp: create_def Let_def split: option.splits prod.splits intro!: keeps)

lemma open_inode_keeps [keeps]: "fds_same s t \<Longrightarrow> keeps s (open_inode path om t)"
  by (auto simp: open_inode_def Let_def split: option.splits prod.splits intro!: keeps)

lemma pipeclose_keeps [keeps]: "fds_same s t \<Longrightarrow> keeps s (pipeclose p w t)"
  by (auto simp: pipeclose_def Let_def split: option.splits prod.splits intro!: keeps)

subsection \<open>Address spaces and new processes\<close>

lemma fds_same_vm [simp]: "fds_same s (t\<lparr>kpt_freelist := x\<rparr>) = fds_same s t" "fds_same s (t\<lparr>nextpid := y\<rparr>) = fds_same s t"
  "fds_same s (kpt_free1 v u) = fds_same s u" for t :: "'z kvm_scheme"
  by (simp_all add: fds_same_def kpt_free1_def)

declare deallocuvm_loop.simps [simp del] mappages_loop.simps [simp del]

lemma alloc_page_keeps [keeps]: "fds_same s t \<Longrightarrow> keeps s (alloc_page  t)"
  by (auto simp: alloc_page_def Let_def split: option.splits prod.splits intro!: keeps)

lemma free_page_keeps [keeps]: "fds_same s t \<Longrightarrow> keeps s (free_page a t)"
  by (auto simp: free_page_def Let_def split: option.splits prod.splits intro!: keeps)

lemma kpt_alloc_keeps [keeps]: "fds_same s t \<Longrightarrow> keeps s (kpt_alloc  t)"
  by (auto simp: kpt_alloc_def Let_def split: option.splits prod.splits intro!: keeps)

lemma kpt_free_keeps [keeps]: "fds_same s t \<Longrightarrow> keeps s (kpt_free v t)"
  by (auto simp: kpt_free_def Let_def split: option.splits prod.splits intro!: keeps)

lemma walk_level_keeps [keeps]: "fds_same s t \<Longrightarrow> keeps s (walk_level e al t)"
  by (auto simp: walk_level_def Let_def split: option.splits prod.splits intro!: keeps)

lemma walkpgdir_keeps [keeps]: "fds_same s t \<Longrightarrow> keeps s (walkpgdir pg va al t)"
  by (auto simp: walkpgdir_def Let_def split: option.splits prod.splits intro!: keeps)

lemma mappages_loop_keeps [keeps]: "fds_same s t \<Longrightarrow> keeps s (mappages_loop pg k a pa ap t)"
proof (induction k arbitrary: a pa t)
  case 0
  then show ?case by (subst mappages_loop.simps) (auto simp: Let_def split: option.splits intro!: keeps)
next
  case (Suc k)
  then show ?case by (subst mappages_loop.simps) (auto simp: Let_def split: option.splits intro!: keeps)
qed

lemma mappages_keeps [keeps]: "fds_same s t \<Longrightarrow> keeps s (mappages pg va sz pa ap t)"
  by (auto simp: mappages_def Let_def split: option.splits prod.splits intro!: keeps)

lemma deallocuvm_loop_keeps [keeps]: "fds_same s t \<Longrightarrow> keeps s (deallocuvm_loop pg a old t)"
proof (induction "old - a" arbitrary: a t rule: less_induct)
  case less
  then show ?case by (subst deallocuvm_loop.simps) (auto simp: Let_def dealloc_step diff_less_mono2 split: option.splits intro!: keeps)
qed

lemma deallocuvm_keeps [keeps]: "fds_same s t \<Longrightarrow> keeps s (deallocuvm pg old new t)"
  by (auto simp: deallocuvm_def Let_def split: option.splits prod.splits intro!: keeps)

lemma freevm_pmds_keeps [keeps]: "fds_same s t \<Longrightarrow> keeps s (freevm_pmds b ns t)"
  by (induction ns arbitrary: t) (auto simp: Let_def split: option.splits prod.splits intro!: keeps)

lemma freevm_pgds_keeps [keeps]: "fds_same s t \<Longrightarrow> keeps s (freevm_pgds b ns t)"
  by (induction ns arbitrary: t) (auto simp: Let_def split: option.splits prod.splits intro!: keeps)

lemma freevm_keeps [keeps]: "fds_same s t \<Longrightarrow> keeps s (freevm pg t)"
  by (auto simp: freevm_def Let_def split: option.splits prod.splits intro!: keeps)

lemma copyuvm_loop_keeps [keeps]: "fds_same s t \<Longrightarrow> keeps s (copyuvm_loop pg d ns t)"
  by (induction ns arbitrary: t) (auto simp: Let_def split: option.splits prod.splits intro!: keeps)

lemma copyuvm_keeps [keeps]: "fds_same s t \<Longrightarrow> keeps s (copyuvm pg sz t)"
  by (auto simp: copyuvm_def Let_def split: option.splits prod.splits intro!: keeps)

lemma allocproc_keeps [keeps]: "fds_same s t \<Longrightarrow> keeps s (allocproc  t)"
  by (auto simp: allocproc_def Let_def fds_same_upd_proc split: option.splits prod.splits intro!: keeps)

end
