(* ===== verification/Fd_Typing.thy ===== *)
theory Fd_Typing
  imports Fd_Frame Boot_State
begin

text \<open>The typing of file descriptors: every descriptor of every process names an open file, and the reference count of a
  file is the number of descriptors that name it. The calls that create, copy and drop descriptors preserve it.\<close>

section \<open>Well-typed descriptor tables\<close>

definition fd_uses :: "'z kfile_scheme \<Rightarrow> nat \<Rightarrow> (nat \<times> nat) set" where
  "fd_uses s f = {(p, fd). p < NPROC \<and> fd < NOFILE \<and> p_ofile (ptable s p) fd = Some f}"

text \<open>\<open>E f\<close> references to file \<open>f\<close> are held by the call in progress, and the files in \<open>T\<close> have no type yet.\<close>

definition fds_ok :: "(nat \<Rightarrow> int) \<Rightarrow> nat set \<Rightarrow> 'z kfile_scheme \<Rightarrow> bool" where
  "fds_ok E T s \<longleftrightarrow> (\<forall>f. fd_uses s f \<noteq> {} \<longrightarrow> f < NFILE \<and> (f \<in> T \<or> f_type (ftable s f) \<noteq> FD_NONE))
     \<and> (\<forall>f<NFILE. f_ref (ftable s f) = int (card (fd_uses s f)) + E f \<and> (f_ref (ftable s f) = 0 \<longrightarrow> f_type (ftable s f) = FD_NONE))
     \<and> (\<forall>p. cproc s = Some p \<longrightarrow> p < NPROC)"

abbreviation well_typed :: "'z kfile_scheme \<Rightarrow> bool" where
  "well_typed \<equiv> fds_ok (\<lambda>_. 0) {}"

definition fd_post :: "(nat \<Rightarrow> int) \<Rightarrow> nat set \<Rightarrow> ('z kfile_scheme, 'a) outcome \<Rightarrow> bool" where
  "fd_post E T m \<longleftrightarrow> (case m of Ok x t \<Rightarrow> fds_ok E T t | Swtch t \<Rightarrow> fds_ok E T t
     | Panic msg \<Rightarrow> msg \<noteq> ''filedup'' \<and> msg \<noteq> ''fileclose'' | _ \<Rightarrow> True)"

lemma fd_post_simps [simp]:
  "fd_post E T (Ok x t) = fds_ok E T t" "fd_post E T (Swtch t) = fds_ok E T t"
  "fd_post E T (Panic m) \<longleftrightarrow> m \<noteq> ''filedup'' \<and> m \<noteq> ''fileclose''" "fd_post E T Fault" "fd_post E T Diverge"
  by (simp_all add: fd_post_def)

lemma finite_fd_uses [simp]: "finite (fd_uses s f)"
  by (rule finite_subset [of _ "{..<NPROC} \<times> {..<NOFILE}"]) (auto simp: fd_uses_def)

lemma fds_ok_cong:
  assumes "ftable t = ftable s" "\<And>p. p_ofile (ptable t p) = p_ofile (ptable s p)" "cproc t = cproc s"
  shows "fds_ok E T t = fds_ok E T s"
  by (simp add: fds_ok_def fd_uses_def assms)

lemma fds_ok_same: "fds_same s t \<Longrightarrow> fds_ok E T t = fds_ok E T s"
  by (rule fds_ok_cong) (simp_all add: fds_same_def)

lemma fds_same_files: "fds_same s t \<Longrightarrow> ftable t = ftable s" "fds_same s t \<Longrightarrow> fd_uses t f = fd_uses s f" "fds_same s t \<Longrightarrow> cproc t = cproc s"
  by (simp_all add: fds_same_def fd_uses_def)

lemma keeps_post: "keeps s m \<Longrightarrow> fds_ok E T s \<Longrightarrow> fd_post E T m"
  by (cases m) (auto simp: fds_ok_same)

lemma post_andthen:
  assumes "keeps s m" "fds_ok E T s" "\<And>x t. m = Ok x t \<Longrightarrow> fds_same s t \<Longrightarrow> fds_ok E T t \<Longrightarrow> fd_post E' T' (f x t)"
    and "\<And>t. m = Swtch t \<Longrightarrow> fds_ok E' T' t"
  shows "fd_post E' T' (andthen m f)"
  using assms by (cases m) (auto simp: fds_ok_same)

text \<open>Results of routines that do not wait.\<close>

definition fd_res :: "('a \<Rightarrow> 's \<Rightarrow> bool) \<Rightarrow> ('s, 'a) outcome \<Rightarrow> bool" where
  "fd_res P m \<longleftrightarrow> (case m of Ok x t \<Rightarrow> P x t | Swtch t \<Rightarrow> False | Panic msg \<Rightarrow> msg \<noteq> ''filedup'' \<and> msg \<noteq> ''fileclose'' | _ \<Rightarrow> True)"

lemma fd_res_simps [simp]:
  "fd_res P (Ok x t) = P x t" "\<not> fd_res P (Swtch t)" "fd_res P (Panic m) \<longleftrightarrow> m \<noteq> ''filedup'' \<and> m \<noteq> ''fileclose''"
  "fd_res P Fault" "fd_res P Diverge"
  by (simp_all add: fd_res_def)

lemma fd_res_andthen: "fd_res P m \<Longrightarrow> (\<And>x t. P x t \<Longrightarrow> fd_res Q (f x t)) \<Longrightarrow> fd_res Q (andthen m f)"
  by (cases m) auto

lemma fd_res_post: "fd_res P m \<Longrightarrow> (\<And>x t. P x t \<Longrightarrow> fd_post E T (f x t)) \<Longrightarrow> fd_post E T (andthen m f)"
  by (cases m) auto

lemma fd_res_option:
  "(r = None \<Longrightarrow> fd_res P a) \<Longrightarrow> (\<And>x. r = Some x \<Longrightarrow> fd_res P (b x)) \<Longrightarrow> fd_res P (case r of None \<Rightarrow> a | Some x \<Rightarrow> b x)"
  by (cases r) auto

lemma fd_post_option:
  "(r = None \<Longrightarrow> fd_post E T a) \<Longrightarrow> (\<And>x. r = Some x \<Longrightarrow> fd_post E T (b x)) \<Longrightarrow> fd_post E T (case r of None \<Rightarrow> a | Some x \<Rightarrow> b x)"
  by (cases r) auto

section \<open>Descriptors\<close>

lemma fd_uses_set:
  fixes f :: nat and s :: "'z kfile_scheme"
  assumes "p < NPROC" "fd < NOFILE" "p_ofile (ptable s p) fd = None"
  defines "t \<equiv> upd_proc p (\<lambda>q. q\<lparr>p_ofile := (p_ofile q)(fd := Some f)\<rparr>) s"
  shows "fd_uses t g = (if g = f then insert (p, fd) (fd_uses s f) else fd_uses s g)"
  using assms by (auto simp: fd_uses_def upd_proc_def split: if_splits)

lemma fd_uses_clear:
  fixes s :: "'z kfile_scheme"
  assumes "p_ofile (ptable s p) fd = Some f"
  defines "t \<equiv> upd_proc p (\<lambda>q. q\<lparr>p_ofile := (p_ofile q)(fd := None)\<rparr>) s"
  shows "fd_uses t g = (if g = f then fd_uses s f - {(p, fd)} else fd_uses s g)"
  using assms by (auto simp: fd_uses_def upd_proc_def split: if_splits)

lemma upd_proc_fields [simp]: "ftable (upd_proc p g s) = ftable s" "cproc (upd_proc p g s) = cproc s" for s :: "'z kfile_scheme"
  by (simp_all add: upd_proc_def)

lemma fdalloc_post:
  fixes s :: "'z kproc_scheme"
  assumes "fds_ok E T s" "f < NFILE" "f \<in> T \<or> f_type (ftable s f) \<noteq> FD_NONE"
  shows "fdalloc f s = Fault \<or> fdalloc f s = Ok None s
    \<or> (\<exists>fd t. fdalloc f s = Ok (Some fd) t \<and> fds_ok (E(f := E f - 1)) T t \<and> ftable t = ftable s \<and> fd_uses t f \<noteq> {}
        \<and> cproc t = cproc s \<and> (\<exists>p. cproc s = Some p \<and> fd < NOFILE \<and> p_ofile (ptable t p) fd = Some f))"
proof (cases "cproc s")
  case None
  then show ?thesis by (simp add: fdalloc_def cur_def)
next
  case (Some p)
  then have p: "p < NPROC" using assms(1) by (simp add: fds_ok_def)
  show ?thesis
  proof (cases "List.find (\<lambda>fd. p_ofile (ptable s p) fd = None) [0..<NOFILE]")
    case None
    then show ?thesis using Some by (simp add: fdalloc_def cur_def)
  next
    case fd: (Some fd)
    then have f: "fd < NOFILE" "p_ofile (ptable s p) fd = None" by (auto simp: find_Some_iff)
    let ?t = "upd_proc p (\<lambda>q. q\<lparr>p_ofile := (p_ofile q)(fd := Some f)\<rparr>) s"
    note u = fd_uses_set [OF p f, of f]
    have "(p, fd) \<notin> fd_uses s f" using f by (simp add: fd_uses_def)
    then have "fds_ok (E(f := E f - 1)) T ?t" using assms unfolding fds_ok_def u by auto
    then show ?thesis using Some fd f u [of f] by (simp add: fdalloc_def cur_def) (simp add: upd_proc_def)
  qed
qed

lemma clear_fd_post:
  fixes s :: "'z kproc_scheme"
  assumes "fds_ok E T s" "cproc s = Some p" "fd < NOFILE" "p_ofile (ptable s p) fd = Some f"
  shows "\<exists>t. clear_fd fd s = Ok () t \<and> fds_ok (E(f := E f + 1)) T t \<and> ftable t = ftable s \<and> cproc t = cproc s \<and> f < NFILE"
proof -
  let ?t = "upd_proc p (\<lambda>q. q\<lparr>p_ofile := (p_ofile q)(fd := None)\<rparr>) s"
  note u = fd_uses_clear [OF assms(4)]
  have "(p, fd) \<in> fd_uses s f" using assms by (auto simp: fd_uses_def fds_ok_def)
  then have "int (card (fd_uses s f - {(p, fd)})) = int (card (fd_uses s f)) - 1" "f < NFILE"
    using assms(1) card_Suc_Diff1 [of "fd_uses s f" "(p, fd)"] by (auto simp: fds_ok_def)
  then have "fds_ok (E(f := E f + 1)) T ?t" using assms unfolding fds_ok_def u by auto
  then show ?thesis using assms(2) \<open>f < NFILE\<close> by (simp add: clear_fd_def cur_def)
qed

section \<open>Files\<close>

lemma fd_uses_upd_file [simp]: "fd_uses (upd_file f g s) h = fd_uses s h"
  by (simp add: fd_uses_def upd_file_def)

lemma upd_file_fields [simp]: "ftable (upd_file f g s) = (ftable s)(f := g (ftable s f))" "cproc (upd_file f g s) = cproc s" "ptable (upd_file f g s) = ptable s"
  by (simp_all add: upd_file_def)

lemma acquire_files [simp]:
  "ftable (acquire l s) = ftable s" "fds_ok E T (acquire l s) = fds_ok E T s" "fd_uses (acquire l s) f = fd_uses s f" for s :: "'z kfile_scheme"
proof -
  have a: "fds_same s (acquire l s)" by simp
  then show "fds_ok E T (acquire l s) = fds_ok E T s" by (rule fds_ok_same)
  show "ftable (acquire l s) = ftable s" "fd_uses (acquire l s) f = fd_uses s f" using a unfolding fds_same_def fd_uses_def by auto
qed

lemma fds_ok_ref:
  assumes "fds_ok E T s" "f < NFILE" "f_ref (g (ftable s f)) = f_ref (ftable s f) + d" "f_type (g (ftable s f)) = f_type (ftable s f)"
    "f_ref (ftable s f) + d = 0 \<Longrightarrow> f_type (ftable s f) = FD_NONE"
  shows "fds_ok (E(f := E f + d)) T (upd_file f g s)"
  using assms by (auto simp: fds_ok_def)

lemma filedup_post:
  assumes "fds_ok E T s" "f < NFILE" "1 \<le> f_ref (ftable s f)"
  shows "fd_post (E(f := E f + 1)) T (filedup f s)"
proof -
  let ?t = "upd_file f (\<lambda>x. x\<lparr>f_ref := f_ref x + 1\<rparr>) (acquire Lk_ftable s)"
  have "fds_ok (E(f := E f + 1)) T ?t" using assms by (intro fds_ok_ref) auto
  moreover have "keeps ?t (andthen (release Lk_ftable ?t) (\<lambda>_ u. Ok f u))" by (auto intro!: keeps)
  ultimately show ?thesis using assms(3) by (simp add: filedup_def Let_def keeps_post)
qed

lemma filealloc_res:
  assumes "fds_ok E T s" and E: "\<And>f. 0 \<le> E f"
  shows "fd_res (\<lambda>r t. case r of None \<Rightarrow> fds_ok E T t \<and> ftable t = ftable s | Some f \<Rightarrow> f < NFILE \<and> fds_ok (E(f := 1)) T t
    \<and> fd_uses t f = {} \<and> f_type (ftable t f) = FD_NONE \<and> E f = 0 \<and> (\<forall>g. g \<noteq> f \<longrightarrow> ftable t g = ftable s g)) (filealloc s)"
proof -
  let ?s = "acquire Lk_ftable s"
  have r: "fd_res (\<lambda>_. fds_same t) (release Lk_ftable t)" for t :: "'a kfile_scheme"
    by (auto simp: release_def popcli_def Let_def sti_def)
  show ?thesis
  proof (cases "List.find (\<lambda>f. f_ref (ftable s f) = 0) [0..<NFILE]")
    case None
    then show ?thesis using assms by (auto simp: filealloc_def Let_def fds_ok_same fds_same_files [of ?s] intro!: fd_res_andthen [OF r])
  next
    case (Some f)
    then have f: "f < NFILE" "f_ref (ftable s f) = 0" by (auto simp: find_Some_iff)
    let ?t = "upd_file f (\<lambda>x. x\<lparr>f_ref := 1\<rparr>) ?s"
    have c: "int (card (fd_uses s f)) + E f = 0" "f_type (ftable s f) = FD_NONE" using assms(1) f by (auto simp: fds_ok_def)
    then have e: "E f = 0" "card (fd_uses s f) = 0" using E [of f] by linarith+
    have "fd_uses ?t f = {}" using e(2) by simp
    moreover have "fds_ok (E(f := 1)) T ?t" using fds_ok_ref [of E T ?s f "\<lambda>x. x\<lparr>f_ref := 1\<rparr>" 1] assms(1) f e by simp
    moreover have "f_type (ftable ?t f) = FD_NONE" using c by simp
    moreover have "filealloc s = andthen (release Lk_ftable ?t) (\<lambda>_ u. Ok (Some f) u)" using Some by (simp add: filealloc_def Let_def)
    ultimately show ?thesis using f e(1) by (auto simp: fds_ok_same fds_same_files [of ?t] intro!: fd_res_andthen [OF r])
  qed
qed

lemma fileclose_spec:
  assumes "fds_ok E T s" "f < NFILE" "1 \<le> E f"
  shows "\<exists>x. keeps (upd_file f (\<lambda>_. x) s) (fileclose f s) \<and> fds_ok (E(f := E f - 1)) T (upd_file f (\<lambda>_. x) s)"
proof -
  let ?s = "acquire Lk_ftable s" and ?x = "ftable s f"
  have r: "f_ref ?x = int (card (fd_uses s f)) + E f" using assms by (simp add: fds_ok_def)
  then have pos: "1 \<le> f_ref ?x" using assms(3) by linarith
  have same: "fds_same (upd_file f (\<lambda>_. y) s) (upd_file f (\<lambda>_. y) ?s)" for y
    using acquire_files(1) [of Lk_ftable s] by (simp add: fds_same_def acquire_def pushcli_def cli_def Let_def)
  have eq: "upd_file f (\<lambda>x. x\<lparr>f_ref := f_ref x - 1\<rparr>) ?s = upd_file f (\<lambda>_. ?x\<lparr>f_ref := f_ref ?x - 1\<rparr>) ?s"
    "upd_file f (\<lambda>x. x\<lparr>f_ref := 0, f_type := FD_NONE\<rparr>) (upd_file f (\<lambda>x. x\<lparr>f_ref := f_ref x - 1\<rparr>) ?s) = upd_file f (\<lambda>_. ?x\<lparr>f_ref := 0, f_type := FD_NONE\<rparr>) ?s"
    by (simp_all add: upd_file_def)
  show ?thesis
  proof (cases "f_ref ?x - 1 > 0")
    case True
    let ?y = "?x\<lparr>f_ref := f_ref ?x - 1\<rparr>"
    have "fds_ok (E(f := E f + - 1)) T (upd_file f (\<lambda>_. ?y) s)" using assms True by (intro fds_ok_ref) auto
    moreover have "fileclose f s = release Lk_ftable (upd_file f (\<lambda>_. ?y) ?s)" using pos True by (simp add: fileclose_def Let_def eq(1))
    ultimately show ?thesis using release_keeps [OF same] by (intro exI [of _ ?y]) simp
  next
    case False
    let ?y = "?x\<lparr>f_ref := 0, f_type := FD_NONE\<rparr>"
    have "card (fd_uses s f) = 0" "E f = 1" using r False assms(3) by linarith+
    then have z: "fd_uses s f = {}" "E f = 1" by simp_all
    have "fds_ok (E(f := E f - 1)) T (upd_file f (\<lambda>_. ?y) s)" using assms z by (auto simp: fds_ok_def)
    moreover have "keeps (upd_file f (\<lambda>_. ?y) s) (fileclose f s)"
      using pos False same [of ?y] by (auto simp: fileclose_def Let_def eq(2) split: ftype.splits intro!: keeps)
    ultimately show ?thesis by blast
  qed
qed

section \<open>Routines that never wait\<close>

definition prompt :: "('s, 'a) outcome \<Rightarrow> bool" where
  "prompt m \<longleftrightarrow> (case m of Swtch t \<Rightarrow> False | _ \<Rightarrow> True)"

named_theorems prompt

lemma prompt_simps [simp]: "prompt (Ok x t)" "\<not> prompt (Swtch t)" "prompt (Panic m)" "prompt Fault" "prompt Diverge"
  by (simp_all add: prompt_def)

lemma prompt_andthen [prompt]: "prompt m \<Longrightarrow> (\<And>x t. m = Ok x t \<Longrightarrow> prompt (f x t)) \<Longrightarrow> prompt (andthen m f)"
  by (cases m) auto

lemma prompt_if [prompt]: "(b \<Longrightarrow> prompt m) \<Longrightarrow> (\<not> b \<Longrightarrow> prompt m') \<Longrightarrow> prompt (if b then m else m')"
  by simp

lemma prompt_locks [prompt]: "prompt (release l t)" "prompt (wakeup ch t)"
  by (auto simp: wakeup_def release_def popcli_def Let_def)

lemma prompt_blocks [prompt]: "prompt (unmark_blk k b t)" "prompt (mark_blk k b t)" "prompt (get_order n u)"
  by (auto simp: unmark_blk_def mark_blk_def get_order_def Let_def split: option.splits)

lemma prompt_get_blk [prompt]: "prompt (get_blk k t)"
  by (auto simp: get_blk_def Let_def split: option.splits intro!: prompt)

lemma prompt_kfree_rec [prompt]: "prompt (kfree_rec a k t)"
proof (induction "Suc MAX_ORD - k" arbitrary: a k t rule: less_induct)
  case less
  then show ?case by (subst kfree_rec.simps) (auto simp: Let_def intro!: prompt)
qed

lemma prompt_kmalloc_rec [prompt]: "prompt (kmalloc_rec k t)"
proof (induction "Suc MAX_ORD - k" arbitrary: k t rule: less_induct)
  case less
  then show ?case by (subst kmalloc_rec.simps) (auto simp: Let_def intro!: prompt)
qed

lemma prompt_heap [prompt]: "prompt (kmalloc i t)" "prompt (kfree a i t)"
  by (auto simp: kmalloc_def kfree_def Let_def intro!: prompt)

lemma prompt_pipeclose [prompt]: "prompt (pipeclose p w t)"
  by (auto simp: pipeclose_def Let_def intro!: prompt)

lemma prompt_fileclose: "f_type (ftable t f) \<noteq> FD_INODE \<Longrightarrow> prompt (fileclose f t)"
  by (auto simp: fileclose_def Let_def split: ftype.splits intro!: prompt)

section \<open>System calls\<close>

lemma argfd_cases:
  "argfd 0 s = Fault \<or> argfd 0 s = Ok None s
    \<or> (\<exists>fd f p. argfd 0 s = Ok (Some (fd, f)) s \<and> cproc s = Some p \<and> fd < NOFILE \<and> p_ofile (ptable s p) fd = Some f)"
proof -
  have "unat w < k" if "\<not> sint w < 0" "\<not> int k \<le> sint w" for w :: uint64 and k
  proof -
    have "uint w \<le> sint w" using that(1) by (simp add: uint_sint take_bit_int_less_eq_self_iff)
    then have "int (unat w) < int k" using that(2) by simp
    then show ?thesis by (simp only: of_nat_less_iff)
  qed
  then show ?thesis by (auto simp: argfd_def argint_def cur_def split: option.splits)
qed

lemma used_file:
  assumes "fds_ok E {} s" "cproc s = Some p" "fd < NOFILE" "p_ofile (ptable s p) fd = Some f"
  shows "f < NFILE" "f_type (ftable s f) \<noteq> FD_NONE" "E f = 0 \<Longrightarrow> 1 \<le> f_ref (ftable s f)"
proof -
  have "(p, fd) \<in> fd_uses s f" using assms by (auto simp: fd_uses_def fds_ok_def)
  then have u: "fd_uses s f \<noteq> {}" by auto
  then show "f < NFILE" "f_type (ftable s f) \<noteq> FD_NONE" using assms(1) by (auto simp: fds_ok_def)
  have "0 < card (fd_uses s f)" using u by (simp add: card_gt_0_iff)
  then show "1 \<le> f_ref (ftable s f)" if "E f = 0" using assms(1) \<open>f < NFILE\<close> that by (auto simp: fds_ok_def)
qed

lemma fun_upd_cancel: "(E(f := E f - 1))(f := (E(f := E f - 1)) f + 1) = E" "(E(f := E f + 1))(f := (E(f := E f + 1)) f - 1) = E" for E :: "nat \<Rightarrow> int"
  by (simp_all add: fun_eq_iff)

lemma fileclose_post: "fds_ok E T s \<Longrightarrow> f < NFILE \<Longrightarrow> 1 \<le> E f \<Longrightarrow> fd_post (E(f := E f - 1)) T (fileclose f s)"
  using fileclose_spec [of E T s f] keeps_post by blast

lemma fd_post_Ok: "fd_post E T m \<Longrightarrow> fd_post E T (andthen m (\<lambda>_ t. Ok x t))"
  by (cases m) auto

lemma sys_dup_typed:
  fixes s :: "'z kproc_scheme"
  assumes "well_typed s"
  shows "fd_post (\<lambda>_. 0) {} (sys_dup s)"
  using argfd_cases [of s]
proof (elim disjE exE conjE)
  fix fd f p assume a: "argfd 0 s = Ok (Some (fd, f)) s" "cproc s = Some p" "fd < NOFILE" "p_ofile (ptable s p) fd = Some f"
  note u = used_file [OF assms a(2-4)]
  from fdalloc_post [OF assms u(1) disjI2 [OF u(2)]] show ?thesis
  proof (elim disjE exE conjE)
    fix d t q assume t: "fdalloc f s = Ok (Some d) t" "fds_ok ((\<lambda>_. 0)(f := 0 - 1)) {} t" "ftable t = ftable s"
    have "fd_post (\<lambda>_. 0) {} (filedup f t)"
      using filedup_post [OF t(2) u(1)] u(3) t(3) by (simp add: fun_upd_idem)
    then show ?thesis using a(1) t(1) by (simp add: sys_dup_def fd_post_Ok)
  qed (use a assms in \<open>auto simp: sys_dup_def\<close>)
qed (use assms in \<open>auto simp: sys_dup_def\<close>)

lemma sys_close_typed:
  fixes s :: "'z kproc_scheme"
  assumes "well_typed s"
  shows "fd_post (\<lambda>_. 0) {} (sys_close s)"
  using argfd_cases [of s]
proof (elim disjE exE conjE)
  fix fd f p assume a: "argfd 0 s = Ok (Some (fd, f)) s" "cproc s = Some p" "fd < NOFILE" "p_ofile (ptable s p) fd = Some f"
  from clear_fd_post [OF assms a(2-4)] obtain t where t: "clear_fd fd s = Ok () t" "fds_ok ((\<lambda>_. 0)(f := 0 + 1)) {} t" "f < NFILE" by blast
  have "fd_post (\<lambda>_. 0) {} (fileclose f t)" using fileclose_post [OF t(2,3)] by (simp add: fun_upd_idem)
  then show ?thesis using a(1) t(1) by (simp add: sys_close_def fd_post_Ok)
qed (use assms in \<open>auto simp: sys_close_def\<close>)

lemma keeps_res: "keeps s m \<Longrightarrow> prompt m \<Longrightarrow> fd_res (\<lambda>_ t. fds_same s t) m"
  by (cases m) auto

lemma fdalloc_res:
  fixes s :: "'z kproc_scheme"
  assumes "fds_ok E T s" "f < NFILE" "f \<in> T \<or> f_type (ftable s f) \<noteq> FD_NONE"
  shows "fd_res (\<lambda>r t. ftable t = ftable s \<and> cproc t = cproc s \<and> (case r of None \<Rightarrow> t = s
    | Some fd \<Rightarrow> fds_ok (E(f := E f - 1)) T t \<and> fd_uses t f \<noteq> {} \<and> (\<exists>p. cproc s = Some p \<and> fd < NOFILE \<and> p_ofile (ptable t p) fd = Some f))) (fdalloc f s)"
  using fdalloc_post [OF assms] by (elim disjE exE conjE) auto

lemma fileclose_res:
  assumes "fds_ok E T s" "f < NFILE" "1 \<le> E f" "f_type (ftable s f) \<noteq> FD_INODE"
  shows "fd_res (\<lambda>_ t. fds_ok (E(f := E f - 1)) T t \<and> (\<forall>g. g \<noteq> f \<longrightarrow> ftable t g = ftable s g)) (fileclose f s)"
proof -
  from fileclose_spec [OF assms(1-3)] obtain x where x: "keeps (upd_file f (\<lambda>_. x) s) (fileclose f s)"
    "fds_ok (E(f := E f - 1)) T (upd_file f (\<lambda>_. x) s)" by blast
  from keeps_res [OF x(1) prompt_fileclose [OF assms(4)]] x(2) show ?thesis
    by (cases "fileclose f s") (auto simp: fds_ok_same fds_same_files [of "upd_file f (\<lambda>_. x) s"])
qed

lemma fds_ok_type:
  assumes "fds_ok E T s" "f_ref (g (ftable s f)) = f_ref (ftable s f)" "f_ref (ftable s f) \<noteq> 0" "f_type (g (ftable s f)) \<noteq> FD_NONE"
  shows "fds_ok E (T - {f}) (upd_file f g s)"
  using assms by (auto simp: fds_ok_def)

lemma pipealloc_bad_res:
  assumes "fds_ok ((\<lambda>_. 0)(r := 1, w := 1)) {} s" "r < NFILE" "w < NFILE" "r \<noteq> w" "f_type (ftable s r) \<noteq> FD_INODE" "f_type (ftable s w) \<noteq> FD_INODE"
  shows "fd_res (\<lambda>_. well_typed) (andthen (fileclose r s) (\<lambda>_ t. andthen (fileclose w t) (\<lambda>_ u. Ok x u)))"
proof -
  have E: "((\<lambda>_. 0)(r := 1, w := 1))(r := ((\<lambda>_. 0)(r := 1, w := 1)) r - 1) = (\<lambda>_. 0)(w := 1 :: int)" using assms(4) by (auto simp: fun_eq_iff)
  have "1 \<le> ((\<lambda>_. 0)(r := 1, w := 1 :: int)) r" using assms(4) by simp
  note r = fileclose_res [OF assms(1,2) this assms(5), unfolded E]
  have w: "fd_res (\<lambda>_. well_typed) (fileclose w t)" if "fds_ok ((\<lambda>_. 0)(w := 1)) {} t" "f_type (ftable t w) \<noteq> FD_INODE" for t :: "'a kfile_scheme"
    using fileclose_res [OF that(1) assms(3) _ that(2)] by (auto simp: fun_upd_idem fd_res_def split: outcome.splits)
  show ?thesis using assms(4,6) by (intro fd_res_andthen [OF r] fd_res_andthen [OF w]) auto
qed

lemma fds_ok_held: "fds_ok E T s \<Longrightarrow> f < NFILE \<Longrightarrow> 1 \<le> E f \<Longrightarrow> f_ref (ftable s f) \<noteq> 0"
  unfolding fds_ok_def by (metis add_nonneg_pos int_one_le_iff_zero_less less_numeral_extra(3) of_nat_0_le_iff)

text \<open>The end of a successful \<open>pipealloc\<close>.\<close>

lemma pipe_files:
  assumes "fds_ok ((\<lambda>_. 0)(r := 1, w := 1)) {} s" "r < NFILE" "w < NFILE" "r \<noteq> w" "fds_same s t"
    and "\<And>x. f_ref (g x) = f_ref x \<and> f_type (g x) = FD_PIPE" "\<And>x. f_ref (h x) = f_ref x \<and> f_type (h x) = FD_PIPE"
  shows "fds_ok ((\<lambda>_. 0)(r := 1, w := 1)) {} (upd_file w h (upd_file r g t))"
proof -
  let ?E = "(\<lambda>_. 0)(r := 1, w := 1) :: nat \<Rightarrow> int"
  have ok: "fds_ok ?E {} t" using assms(1,5) by (simp add: fds_ok_same)
  have ref: "f_ref (ftable t r) \<noteq> 0" "f_ref (ftable t w) \<noteq> 0" using fds_ok_held [OF ok] assms(2-4) by auto
  have "fds_ok ?E ({} - {r}) (upd_file r g t)" using ok assms(6) ref by (intro fds_ok_type) auto
  then have "fds_ok ?E {} (upd_file r g t)" by simp
  from fds_ok_type [OF this, of h w] show ?thesis using assms(4,7) ref by simp
qed

lemma pipealloc_rest:
  assumes ok: "fds_ok ((\<lambda>_. 0)(r := 1, w := 1)) {} s" and d: "r < NFILE" "w < NFILE" "r \<noteq> w" and ty: "f_type (ftable s r) = FD_NONE" "f_type (ftable s w) = FD_NONE"
  shows "fd_res (\<lambda>r t. case r of None \<Rightarrow> well_typed t | Some (r, w) \<Rightarrow> r < NFILE \<and> w < NFILE \<and> r \<noteq> w
      \<and> fds_ok ((\<lambda>_. 0)(r := 1, w := 1)) {} t \<and> f_type (ftable t r) = FD_PIPE \<and> f_type (ftable t w) = FD_PIPE)
    (andthen (get_order sizeof_pipe s) (\<lambda>k s. andthen (kmalloc (int k) s) (\<lambda>p s.
       if p = 0 then pipealloc_bad (Some r) (Some w) s
       else Ok (Some (r, w)) (upd_file w (\<lambda>x. x\<lparr>f_type := FD_PIPE, f_readable := False, f_writable := True, f_pipe := p\<rparr>)
              (upd_file r (\<lambda>x. x\<lparr>f_type := FD_PIPE, f_readable := True, f_writable := False, f_pipe := p\<rparr>)
                (initlock (Lk_pipe p) (upd_pipe p (\<lambda>x. x\<lparr>pp_readopen := True, pp_writeopen := True, pp_nwrite := 0, pp_nread := 0\<rparr>) s)))))))"
    (is "fd_res ?P ?m")
proof -
  have m: "fd_res (\<lambda>_ t. fds_same s t) (andthen (get_order sizeof_pipe s) (\<lambda>k t. kmalloc (int k) t))"
    by (intro keeps_res) (auto intro!: keeps prompt)
  have "fd_res ?P (if p = 0 then pipealloc_bad (Some r) (Some w) t
       else Ok (Some (r, w)) (upd_file w (\<lambda>x. x\<lparr>f_type := FD_PIPE, f_readable := False, f_writable := True, f_pipe := p\<rparr>)
              (upd_file r (\<lambda>x. x\<lparr>f_type := FD_PIPE, f_readable := True, f_writable := False, f_pipe := p\<rparr>)
                (initlock (Lk_pipe p) (upd_pipe p (\<lambda>x. x\<lparr>pp_readopen := True, pp_writeopen := True, pp_nwrite := 0, pp_nread := 0\<rparr>) t)))))"
    if t: "fds_same s t" for p and t :: "'a kfile_scheme"
  proof -
    have "fd_res (\<lambda>_. well_typed) (pipealloc_bad (Some r) (Some w) t)"
      unfolding pipealloc_bad_def option.case using t ok ty d fds_same_files(1) [OF t]
      by (intro pipealloc_bad_res) (simp_all add: fds_ok_same)
    then have "fd_res ?P (pipealloc_bad (Some r) (Some w) t)"
      by (auto simp: fd_res_def pipealloc_bad_def andthen_Ok_iff split: outcome.splits)
    moreover have "fds_ok ((\<lambda>_. 0)(r := 1, w := 1)) {} (upd_file w (\<lambda>x. x\<lparr>f_type := FD_PIPE, f_readable := False, f_writable := True, f_pipe := p\<rparr>)
        (upd_file r (\<lambda>x. x\<lparr>f_type := FD_PIPE, f_readable := True, f_writable := False, f_pipe := p\<rparr>)
          (initlock (Lk_pipe p) (upd_pipe p (\<lambda>x. x\<lparr>pp_readopen := True, pp_writeopen := True, pp_nwrite := 0, pp_nread := 0\<rparr>) t))))"
      using t by (intro pipe_files [OF ok d]) simp_all
    ultimately show ?thesis using d by simp
  qed
  from fd_res_andthen [OF m this] show ?thesis by (simp add: andthen_assoc)
qed

lemma pipealloc_res:
  assumes "well_typed s"
  shows "fd_res (\<lambda>r t. case r of None \<Rightarrow> well_typed t | Some (r, w) \<Rightarrow> r < NFILE \<and> w < NFILE \<and> r \<noteq> w
    \<and> fds_ok ((\<lambda>_. 0)(r := 1, w := 1)) {} t \<and> f_type (ftable t r) = FD_PIPE \<and> f_type (ftable t w) = FD_PIPE) (pipealloc s)"
  unfolding pipealloc_def Let_def
  apply (rule fd_res_andthen [OF filealloc_res [OF assms]], simp)
  apply (rule fd_res_option, simp add: pipealloc_bad_def)
  subgoal for f0 s1 r
    apply simp
    apply (rule fd_res_andthen [OF filealloc_res [of "(\<lambda>_. 0)(r := 1)" "{}" s1]], simp, simp)
    apply (rule fd_res_option)
    subgoal for f1 s2
      using fileclose_res [of "(\<lambda>_. 0)(r := 1)" "{}" s2 r]
      by (auto simp: pipealloc_bad_def fun_upd_idem elim: fd_res_andthen)
    subgoal for f1 s2 w
      by (intro pipealloc_rest) (auto split: if_splits)
    done
  done

lemma prompt_args [prompt]: "prompt (argptr n sz t)" "prompt (argint n t)"
  by (auto simp: argptr_def argint_def cur_def split: option.splits intro!: prompt)

lemma pipe_fail_typed:
  fixes s :: "'z kproc_scheme"
  assumes "fds_ok ((\<lambda>_. 0)(r := 1, w := 1)) {} s" "r < NFILE" "w < NFILE" "r \<noteq> w" "f_type (ftable s r) = FD_PIPE" "f_type (ftable s w) = FD_PIPE"
  shows "fd_post (\<lambda>_. 0) {} (pipe_fail r w s)"
proof -
  have "fd_res (\<lambda>_. well_typed) (pipe_fail r w s)" unfolding pipe_fail_def using assms by (intro pipealloc_bad_res) simp_all
  then show ?thesis by (auto simp: fd_res_def fd_post_def split: outcome.splits)
qed

lemma pipe_fds_typed:
  fixes s :: "'z kproc_scheme"
  assumes ok: "fds_ok ((\<lambda>_. 0)(r := 1, w := 1)) {} s" and d: "r < NFILE" "w < NFILE" "r \<noteq> w"
    and ty: "f_type (ftable s r) = FD_PIPE" "f_type (ftable s w) = FD_PIPE"
  shows "fd_post (\<lambda>_. 0) {} (andthen (fdalloc r s) (\<lambda>fd0 s. case fd0 of None \<Rightarrow> pipe_fail r w s
     | Some fd0 \<Rightarrow> andthen (fdalloc w s) (\<lambda>fd1 s. case fd1 of
         None \<Rightarrow> andthen (clear_fd fd0 s) (\<lambda>_ s. pipe_fail r w s)
       | Some fd1 \<Rightarrow> andthen (ustore p (le32 (of_nat fd0)) s) (\<lambda>_ s. andthen (ustore (p + 4) (le32 (of_nat fd1)) s) (\<lambda>_ s. Ok 0 s)))))"
proof (rule fd_res_post [OF fdalloc_res [OF ok d(1)]], simp add: ty, rule fd_post_option, goal_cases)
  case (1 fd0 t)
  then show ?case using pipe_fail_typed [OF ok d ty] by simp
next
  case (2 fd0 t fd)
  let ?E = "((\<lambda>_. 0)(r := 1, w := 1))(r := ((\<lambda>_. 0)(r := 1, w := 1)) r - 1) :: nat \<Rightarrow> int"
  from 2 obtain q where t: "ftable t = ftable s" "fds_ok ?E {} t" "cproc t = Some q" "fd < NOFILE" "p_ofile (ptable t q) fd = Some r" by auto
  show ?case
  proof (rule fd_res_post [OF fdalloc_res [OF t(2) d(2)]], simp add: ty t(1), rule fd_post_option, goal_cases)
    case (1 fd1 u)
    from clear_fd_post [OF t(2-5)] obtain v where v: "clear_fd fd t = Ok () v" "fds_ok (?E(r := ?E r + 1)) {} v" "ftable v = ftable t" by blast
    have "?E(r := ?E r + 1) = (\<lambda>_. 0)(r := 1, w := 1)" using d(3) by (auto simp: fun_eq_iff)
    then have "fd_post (\<lambda>_. 0) {} (pipe_fail r w v)" using v(2,3) t(1) d ty by (intro pipe_fail_typed) simp_all
    then show ?case using 1 v(1) by simp
  next
    case (2 fd1 u fd')
    have "?E(w := ?E w - 1) = (\<lambda>_. 0)" using d(3) by (auto simp: fun_eq_iff)
    with 2 have "well_typed u" by simp
    then show ?case by (rule keeps_post [rotated]) (auto intro!: keeps)
  qed
qed

lemma sys_pipe_typed:
  fixes s :: "'z kproc_scheme"
  assumes "well_typed s"
  shows "fd_post (\<lambda>_. 0) {} (sys_pipe s)"
  unfolding sys_pipe_def
proof (rule fd_res_post [OF keeps_res [OF argptr_keeps [OF fds_same_refl] prompt_args(1)]], rule fd_post_option, goal_cases)
  case (1 x t)
  then show ?case using assms by (simp add: fds_ok_same)
next
  case (2 x t p)
  then have "well_typed t" using assms by (simp add: fds_ok_same)
  from pipealloc_res [OF this] show ?case
    by (rule fd_res_post) (auto split: option.splits intro!: pipe_fds_typed)
qed

lemma prompt_iunlock [prompt]: "prompt (iunlock ip t)"
  by (auto simp: iunlock_def Let_def intro!: prompt)

lemma fds_ok_mono: "fds_ok E T s \<Longrightarrow> T \<subseteq> T' \<Longrightarrow> fds_ok E T' s"
  by (auto simp: fds_ok_def)

lemma open_file_typed:
  fixes s :: "'z kproc_scheme"
  assumes "well_typed s"
  shows "fd_post (\<lambda>_. 0) {} (open_file ip om s)"
  unfolding open_file_def
proof (rule fd_res_post [OF filealloc_res [OF assms]], simp, rule fd_post_option, goal_cases)
  case (1 f t)
  then have "well_typed t" by simp
  then show ?case by (rule keeps_post [rotated]) (auto intro!: keeps)
next
  case (2 r t f)
  then have f: "f < NFILE" "fds_ok ((\<lambda>_. 0)(f := 1)) {f} t" "f_type (ftable t f) = FD_NONE" by (auto intro: fds_ok_mono)
  show ?case
  proof (rule fd_res_post [OF fdalloc_res [OF f(2,1)]], simp, rule fd_post_option, goal_cases)
    case (1 r u)
    have "fd_res (\<lambda>_. well_typed) (fileclose f t)"
      using fileclose_res [of "(\<lambda>_. 0)(f := 1)" "{}" t f] 2 f by (auto simp: fun_upd_idem fd_res_def split: outcome.splits)
    moreover have "fd_post (\<lambda>_. 0) {} (andthen (iunlockput ip v) (\<lambda>_ s. Ok (- 1 :: int) s))" if "well_typed v" for v :: "'z kproc_scheme"
      using that by (rule keeps_post [rotated]) (auto intro!: keeps)
    ultimately show ?case using 1 by (auto intro: fd_res_post)
  next
    case (2 r u fd)
    have E: "((\<lambda>_. 0)(f := 1))(f := ((\<lambda>_. 0)(f := 1)) f - 1) = (\<lambda>_. 0 :: int)" by (auto simp: fun_eq_iff)
    with 2 have u: "fds_ok (\<lambda>_. 0) {f} u" "fd_uses u f \<noteq> {}" by auto
    then have ref: "f_ref (ftable u f) \<noteq> 0" using f(1) by (auto simp: fds_ok_def)
    have "fd_res (\<lambda>_ v. fds_same u v) (iunlock ip u)" by (intro keeps_res) (auto intro!: keeps prompt)
    then show ?case
    proof (rule fd_res_post)
      fix x and v :: "'z kproc_scheme"
      assume v: "fds_same u v"
      let ?g = "\<lambda>x. x\<lparr>f_type := FD_INODE, f_ip := ip, f_off := 0, f_readable := (om AND O_WRONLY = 0), f_writable := (om AND O_WRONLY \<noteq> 0 \<or> om AND O_RDWR \<noteq> 0)\<rparr>"
      have "fds_ok (\<lambda>_. 0) ({f} - {f}) (upd_file f ?g v)"
        using u(1) v ref fds_same_files(1) [OF v] by (intro fds_ok_type) (auto simp: fds_ok_same)
      then show "fd_post (\<lambda>_. 0) {} (Ok (int fd) (upd_file f ?g v))" by simp
    qed
  qed
qed

lemma sys_open_typed:
  fixes s :: "'z kproc_scheme"
  assumes "well_typed s"
  shows "fd_post (\<lambda>_. 0) {} (sys_open s)"
proof -
  have "fd_post (\<lambda>_. 0) {} (andthen (argint 1 t) (\<lambda>omode s. andthen (open_inode path omode s) (\<lambda>ip s.
         case ip of None \<Rightarrow> Ok (- 1) s | Some ip \<Rightarrow> open_file ip omode s)))" if "well_typed t" for path and t :: "'z kproc_scheme"
  proof (rule post_andthen [OF argint_keeps [OF fds_same_refl] that], goal_cases)
    case (1 om u)
    show ?case
    proof (rule post_andthen [OF open_inode_keeps [OF fds_same_refl] 1(3)], goal_cases)
      case (1 ip v)
      then show ?case by (auto split: option.splits intro: open_file_typed)
    next
      case (2 v)
      then show ?case using open_inode_keeps [of u u path om] \<open>fds_ok (\<lambda>_. 0) {} u\<close> by (auto simp: fds_ok_same)
    qed
  next
    case (2 v)
    then show ?case using argint_keeps [of t t 1] that by (auto simp: fds_ok_same)
  qed
  then show ?thesis unfolding sys_open_def using argstr_keeps [of s s 0] assms
    by (intro post_andthen [of s _ "\<lambda>_. 0" "{}"]) (auto simp: fds_ok_same split: option.splits)
qed

lemma filedup_res:
  assumes "fds_ok E T s" "f < NFILE" "1 \<le> f_ref (ftable s f)"
  shows "fd_res (\<lambda>g t. g = f \<and> fds_ok (E(f := E f + 1)) T t \<and> (\<forall>p. p_ofile (ptable t p) = p_ofile (ptable s p)) \<and> cproc t = cproc s
    \<and> f_type (ftable t f) = f_type (ftable s f)) (filedup f s)"
proof -
  let ?t = "upd_file f (\<lambda>x. x\<lparr>f_ref := f_ref x + 1\<rparr>) (acquire Lk_ftable s)"
  have ok: "fds_ok (E(f := E f + 1)) T ?t" using assms by (intro fds_ok_ref) auto
  have "fds_same s (acquire Lk_ftable s)" by simp
  then have t: "p_ofile (ptable ?t p) = p_ofile (ptable s p)" "cproc ?t = cproc s" "f_type (ftable ?t f) = f_type (ftable s f)" for p
    unfolding fds_same_def by simp_all
  have "fd_res (\<lambda>_ u. fds_same ?t u) (release Lk_ftable ?t)" by (intro keeps_res) (auto intro!: keeps prompt)
  then have "fd_res (\<lambda>g t. g = f \<and> fds_ok (E(f := E f + 1)) T t \<and> (\<forall>p. p_ofile (ptable t p) = p_ofile (ptable s p)) \<and> cproc t = cproc s
    \<and> f_type (ftable t f) = f_type (ftable s f)) (andthen (release Lk_ftable ?t) (\<lambda>_ u. Ok f u))"
    by (rule fd_res_andthen) (use ok t in \<open>simp add: fds_ok_same; simp add: fds_same_def\<close>)
  then show ?thesis using assms(3) by (simp add: filedup_def Let_def)
qed

lemma fork_files_typed:
  fixes s :: "'z kproc_scheme"
  assumes "well_typed s" "p < NPROC" "np < NPROC" "p \<noteq> np" "distinct fds" "set fds \<subseteq> {..<NOFILE}" "\<And>fd. fd \<in> set fds \<Longrightarrow> p_ofile (ptable s np) fd = None"
  shows "fd_res (\<lambda>_ t. well_typed t \<and> cproc t = cproc s) (fork_files p np fds s)"
  using assms
proof (induction fds arbitrary: s)
  case (Cons fd fds)
  show ?case
  proof (cases "p_ofile (ptable s p) fd")
    case None
    then show ?thesis using Cons by simp
  next
    case (Some f)
    have "(p, fd) \<in> fd_uses s f" using Some Cons.prems(2,6) by (simp add: fd_uses_def)
    then have u: "fd_uses s f \<noteq> {}" by auto
    then have f: "f < NFILE" "f_type (ftable s f) \<noteq> FD_NONE" using Cons.prems(1) by (auto simp: fds_ok_def)
    have "0 < card (fd_uses s f)" using u by (simp add: card_gt_0_iff)
    then have r: "1 \<le> f_ref (ftable s f)" using Cons.prems(1) f(1) by (auto simp: fds_ok_def)
    show ?thesis unfolding fork_files.simps Some option.case
    proof (rule fd_res_andthen [OF filedup_res [OF Cons.prems(1) f(1) r]], goal_cases)
      case (1 g t)
      let ?u = "upd_proc np (\<lambda>q. q\<lparr>p_ofile := (p_ofile q)(fd := Some f)\<rparr>) t"
      have np: "p_ofile (ptable t np) fd = None" "fd < NOFILE" using 1 Cons.prems(6,7) by auto
      note uses = fd_uses_set [OF Cons.prems(3) np(2,1), of f]
      have "(np, fd) \<notin> fd_uses t f" using np by (simp add: fd_uses_def)
      then have "well_typed ?u" using 1 f unfolding fds_ok_def uses by auto
      moreover have "p_ofile (ptable ?u np) d = None" if "d \<in> set fds" for d
        using that 1 Cons.prems(5,7) by (auto simp: upd_proc_def)
      ultimately have "fd_res (\<lambda>_ v. well_typed v \<and> cproc v = cproc ?u) (fork_files p np fds ?u)"
        using Cons.prems(2-6) by (intro Cons.IH) auto
      then show ?case using 1 by simp
    qed
  qed
qed simp

lemma allocproc_slot:
  assumes "allocproc s = Ok (Some np) t"
  shows "np < NPROC" "p_state (ptable s np) = UNUSED"
proof -
  have a: "ptable (acquire Lk_ptable s) = ptable s" by (simp add: acquire_def pushcli_def cli_def Let_def)
  from assms show "np < NPROC" "p_state (ptable s np) = UNUSED"
    by (auto simp: allocproc_def Let_def andthen_Ok_iff find_Some_iff a split: option.splits if_splits)
qed

lemma keeps_Swtch: "keeps s m \<Longrightarrow> m = Swtch t \<Longrightarrow> fds_ok E T s \<Longrightarrow> fds_ok E T t"
  by (simp add: fds_ok_same)

lemma fork_tail_typed:
  fixes s :: "'z kproc_scheme"
  assumes "well_typed s" "p < NPROC" "np < NPROC" "p \<noteq> np" "\<And>fd. p_ofile (ptable s np) fd = None"
  shows "fd_post (\<lambda>_. 0) {} (andthen (fork_files p np [0..<NOFILE] s) (\<lambda>_ s5. case p_cwd (ptable s5 p) of None \<Rightarrow> Fault
    | Some cwd \<Rightarrow> andthen (idup cwd s5) (\<lambda>cwd' s6. let pid = p_pid (ptable s6 np)
         in Ok pid (upd_proc np (\<lambda>q. q\<lparr>p_cwd := Some cwd', p_state := RUNNABLE, p_name := set_name (p_name (ptable s6 p))\<rparr>) s6))))"
proof (rule fd_res_post [OF fork_files_typed [OF assms(1-4)]])
  fix x and t :: "'z kproc_scheme"
  assume t: "well_typed t \<and> cproc t = cproc s"
  show "fd_post (\<lambda>_. 0) {} (case p_cwd (ptable t p) of None \<Rightarrow> Fault
    | Some cwd \<Rightarrow> andthen (idup cwd t) (\<lambda>cwd' s6. let pid = p_pid (ptable s6 np)
         in Ok pid (upd_proc np (\<lambda>q. q\<lparr>p_cwd := Some cwd', p_state := RUNNABLE, p_name := set_name (p_name (ptable s6 p))\<rparr>) s6)))"
    by (rule keeps_post [of t]) (use t in \<open>auto simp: Let_def fds_same_upd_proc split: option.splits intro!: keeps\<close>)
qed (use assms in auto)

lemma fork_typed:
  fixes s :: "'z kproc_scheme"
  assumes "well_typed s" and fresh: "\<And>p fd. p_state (ptable s p) = UNUSED \<Longrightarrow> p_ofile (ptable s p) fd = None"
    and run: "\<And>p. cproc s = Some p \<Longrightarrow> p_state (ptable s p) \<noteq> UNUSED"
  shows "fd_post (\<lambda>_. 0) {} (fork s)"
proof -
  have k1: "keeps s (allocproc s)" by (rule allocproc_keeps) simp
  show ?thesis unfolding fork_def
  proof (rule post_andthen [OF k1 assms(1)], goal_cases)
    case (1 r s1)
    show ?case
    proof (cases "r = None \<or> cproc s1 = None")
      case True
      then show ?thesis using 1 by (auto split: option.splits)
    next
      case False
      then obtain np p where np: "r = Some np" and p: "cproc s1 = Some p" by auto
      note slot = allocproc_slot [OF 1(1) [unfolded np]]
      have "cproc s = Some p" using fds_same_files(3) [OF 1(2)] p by simp
      then have pn: "p < NPROC" "p \<noteq> np" using assms(1) run slot by (auto simp: fds_ok_def)
      have free: "p_ofile (ptable t np) fd = None" if "fds_same s t" for fd and t :: "'z kproc_scheme"
        using that fresh [OF slot(2)] by (simp add: fds_same_def)
      have k2: "keeps s1 (copyuvm pg sz s1)" for pg sz by (rule copyuvm_keeps) simp
      show ?thesis unfolding np p option.case
      proof (rule post_andthen [OF k2 1(3)], goal_cases)
        case s2: (1 pg s2)
        have same: "fds_same s s2" using 1(2) s2(2) by (simp add: fds_same_def)
        show ?case
        proof (cases "pg = 0")
          case True
          have "keeps s2 (andthen (free_page a (upd_proc np (\<lambda>q. q\<lparr>p_pgdir := 0\<rparr>) s2)) (\<lambda>_ s4.
            Ok (- 1 :: int) (upd_proc np (\<lambda>q. q\<lparr>p_kstack := 0, p_state := UNUSED\<rparr>) s4)))" for a
            by (auto simp: fds_same_upd_proc intro!: keeps)
          then show ?thesis using True s2(3) by (simp add: Let_def keeps_post [of s2])
        next
          case False
          have "fds_same s (upd_proc np (\<lambda>q. q\<lparr>p_sz := a, p_parent := Some p, p_tf := b\<rparr>) (upd_proc np (\<lambda>q. q\<lparr>p_pgdir := pg\<rparr>) s2))" for a b
            using same by (simp add: fds_same_upd_proc)
          then have "well_typed (upd_proc np (\<lambda>q. q\<lparr>p_sz := a, p_parent := Some p, p_tf := b\<rparr>) (upd_proc np (\<lambda>q. q\<lparr>p_pgdir := pg\<rparr>) s2))"
            "p_ofile (ptable (upd_proc np (\<lambda>q. q\<lparr>p_sz := a, p_parent := Some p, p_tf := b\<rparr>) (upd_proc np (\<lambda>q. q\<lparr>p_pgdir := pg\<rparr>) s2)) np) fd = None" for a b fd
            using assms(1) fds_ok_same [of s] free by blast+
          from fork_tail_typed [unfolded Let_def, OF this(1) pn(1) slot(1) pn(2) this(2)] show ?thesis unfolding Let_def if_not_P [OF False] .
        qed
      next
        case (2 t)
        then show ?case using keeps_Swtch [OF k2 _ 1(3)] by blast
      qed
    qed
  next
    case (2 t)
    then show ?case using keeps_Swtch [OF k1 _ assms(1)] by blast
  qed
qed

text \<open>C8: file descriptors are well-typed. In a state in which every descriptor of every process names an open file and
  the reference count of each file is the number of descriptors that name it, \<open>dup\<close>, \<open>close\<close>, \<open>pipe\<close>, \<open>open\<close> and \<open>fork\<close>
  never panic over a reference count, and return or give up the CPU in a state of the same kind.\<close>

theorem descriptors_stay_typed:
  fixes s :: "'z kproc_scheme"
  assumes "well_typed s" "\<forall>p fd. p_state (ptable s p) = UNUSED \<longrightarrow> p_ofile (ptable s p) fd = None"
    "\<forall>p. cproc s = Some p \<longrightarrow> p_state (ptable s p) \<noteq> UNUSED" "call \<in> {sys_dup, sys_close, sys_pipe, sys_open, fork}"
  shows "call s \<noteq> Panic ''filedup'' \<and> call s \<noteq> Panic ''fileclose''
    \<and> (\<forall>t. (\<exists>x. call s = Ok x t) \<or> call s = Swtch t \<longrightarrow> well_typed t)"
proof -
  have "fd_post (\<lambda>_. 0) {} (call s)"
    using assms sys_dup_typed [OF assms(1)] sys_close_typed [OF assms(1)] sys_pipe_typed [OF assms(1)] sys_open_typed [OF assms(1)]
      fork_typed [OF assms(1)] by auto
  then show ?thesis by (cases "call s") auto
qed

text \<open>One process with one descriptor.\<close>

definition one_fd :: kproc where
  "one_fd = upd_file 0 (\<lambda>x. x\<lparr>f_type := FD_INODE, f_ref := 1\<rparr>)
     (upd_proc 0 (\<lambda>q. q\<lparr>p_state := RUNNING, p_pid := 1, p_ofile := [0 \<mapsto> 0], p_tf := zero_trapframe\<rparr>) boot_proc)"

lemma one_fd_typed: "well_typed one_fd"
proof -
  have "fd_uses one_fd f = (if f = 0 then {(0, 0)} else {})" for f
    by (auto simp: fd_uses_def one_fd_def upd_proc_def NPROC_def NOFILE_def split: if_splits)
  then show ?thesis by (auto simp: fds_ok_def one_fd_def NFILE_def NPROC_def upd_proc_def)
qed

theorem descriptors_stay_typed_witness:
  "\<exists>t. sys_dup one_fd = Ok 1 t \<and> f_ref (ftable t 0) = 2 \<and> well_typed t"
proof -
  have f: "p_ofile (ptable one_fd 0) = [0 \<mapsto> 0]" "cproc one_fd = Some 0" "f_ref (ftable one_fd 0) = 1" "p_state (ptable one_fd 0) = RUNNING"
    "p_state (ptable one_fd (Suc q)) = UNUSED" "p_ofile (ptable one_fd (Suc q)) = (\<lambda>_. None)" "ncli one_fd = 0" for q
    by (simp_all add: one_fd_def upd_proc_def upd_file_def)
  have a: "argfd 0 one_fd = Ok (Some (0, 0)) one_fd"
    by (simp add: argfd_def argint_def cur_def f) (simp add: one_fd_def upd_proc_def zero_trapframe_def NOFILE_def)
  have "[0..<NOFILE] = 0 # 1 # [2..<16]" by (simp add: NOFILE_def upt_rec)
  then have "sys_dup one_fd = andthen (filedup 0 (upd_proc 0 (\<lambda>q. q\<lparr>p_ofile := (p_ofile q)(1 := Some 0)\<rparr>) one_fd)) (\<lambda>_ t. Ok 1 t)"
    by (simp add: sys_dup_def a fdalloc_def cur_def f)
  also have "\<exists>t. \<dots> = Ok 1 t \<and> f_ref (ftable t 0) = 2"
    by (simp add: filedup_def lock_simps upd_proc_def upd_file_def f one_fd_def)
  finally obtain t where t: "sys_dup one_fd = Ok 1 t" "f_ref (ftable t 0) = 2" by blast
  moreover have "well_typed t"
    using descriptors_stay_typed [OF one_fd_typed, of sys_dup] f t(1) by (metis insertI1 not0_implies_Suc option.inject procstate.distinct(7))
  ultimately show ?thesis by blast
qed

end
