(* ===== verification/Mkfs.thy ===== *)
theory Mkfs
  imports Layout
begin

text \<open>
  The image builder (\<^verbatim>\<open>tools/mkfs.c\<close>): the image file as an array of sectors, the allocation counters, and the program
  that writes the super block, the inodes, the files and the bitmap. A failed \<open>assert\<close>, and \<open>exit(1)\<close> after an error
  message, end in \<open>Panic\<close>. The usage message, the opening of the image file and the messages to the terminal are left out. The
  files named on the command line are given by their contents.
\<close>

section \<open>State\<close>

definition mkfs_nblocks :: nat where "mkfs_nblocks = 985"
definition mkfs_nlog :: nat where "mkfs_nlog = 10"
definition mkfs_ninodes :: nat where "mkfs_ninodes = 200"
definition mkfs_size :: nat where "mkfs_size = 1024"

record mkfs =
  img :: "nat \<Rightarrow> bytes"
  img_len :: nat
  freeblock :: uint
  usedblocks :: uint
  bitblocks :: uint
  freeinode :: uint

text \<open>\<open>xshort\<close> and \<open>xint\<close> store the bytes of a number from the least significant on, and read them back in the byte order
  of the host, which is little endian.\<close>

definition xshort :: "uint16 \<Rightarrow> uint16" where
  "xshort x = get16 (put16 0 x (\<lambda>_. 0)) 0"

definition xint :: "uint \<Rightarrow> uint" where
  "xint x = get32 (put32 0 x (\<lambda>_. 0)) 0"

section \<open>Sectors and inodes\<close>

definition wsect :: "uint \<Rightarrow> bytes \<Rightarrow> mkfs \<Rightarrow> mkfs" where
  "wsect sec buf s = s\<lparr>img := (img s)(unat sec := buf), img_len := max (img_len s) (unat sec + 1)\<rparr>"

definition rsect :: "uint \<Rightarrow> mkfs \<Rightarrow> (mkfs, bytes) outcome" where
  "rsect sec s = (if unat sec < img_len s then Ok (img s (unat sec)) s else Panic ''read'')"

definition i2b :: "uint \<Rightarrow> uint" where
  "i2b inum = inum div of_nat IPB + 2"

definition dip_off :: "uint \<Rightarrow> nat" where
  "dip_off inum = sizeof_dinode * (unat inum mod IPB)"

definition winode :: "uint \<Rightarrow> dinode \<Rightarrow> mkfs \<Rightarrow> (mkfs, unit) outcome" where
  "winode inum ip s = andthen (rsect (i2b inum) s) (\<lambda>buf s. Ok () (wsect (i2b inum) (put_dinode (dip_off inum) ip buf) s))"

definition rinode :: "uint \<Rightarrow> mkfs \<Rightarrow> (mkfs, dinode) outcome" where
  "rinode inum s = andthen (rsect (i2b inum) s) (\<lambda>buf s. Ok (get_dinode (dip_off inum) buf) s)"

definition mk_ialloc :: "uint16 \<Rightarrow> mkfs \<Rightarrow> (mkfs, uint) outcome" where
  "mk_ialloc type s =
     (let inum = freeinode s;
          din = \<lparr>di_type = xshort type, di_major = 0, di_minor = 0, di_nlink = xshort 1, di_size = xint 0, di_addrs = (\<lambda>_. 0)\<rparr>
      in andthen (winode inum din (s\<lparr>freeinode := freeinode s + 1\<rparr>)) (\<lambda>_ s. Ok inum s))"

definition used_bits :: "nat \<Rightarrow> bytes" where
  "used_bits used = fold (\<lambda>i buf. buf(i div 8 := buf (i div 8) OR push_bit (i mod 8) 1)) [0..<used] (\<lambda>_. 0)"

definition mk_balloc :: "nat \<Rightarrow> mkfs \<Rightarrow> (mkfs, unit) outcome" where
  "mk_balloc used s =
     (if \<not> used < 512 * 8 then Panic ''assert''
      else Ok () (wsect (of_nat (mkfs_ninodes div IPB + 3)) (used_bits used) s))"

section \<open>Appending to a file\<close>

definition take_block :: "mkfs \<Rightarrow> uint \<times> mkfs" where
  "take_block s = (freeblock s, s\<lparr>freeblock := freeblock s + 1, usedblocks := usedblocks s + 1\<rparr>)"

text \<open>The block of part \<open>fbn\<close> of the file, allocated on demand.\<close>

definition iappend_block :: "nat \<Rightarrow> dinode \<Rightarrow> mkfs \<Rightarrow> (mkfs, uint \<times> dinode) outcome" where
  "iappend_block fbn din s =
     (if fbn < NDIRECT
      then (if xint (di_addrs din fbn) = 0
            then (let (b, s1) = take_block s; din1 = din\<lparr>di_addrs := (di_addrs din)(fbn := xint b)\<rparr> in Ok (xint (di_addrs din1 fbn), din1) s1)
            else Ok (xint (di_addrs din fbn), din) s)
      else (let (din1, s1) = (if xint (di_addrs din NDIRECT) = 0
                              then (let (b, s1) = take_block s in (din\<lparr>di_addrs := (di_addrs din)(NDIRECT := xint b)\<rparr>, s1))
                              else (din, s))
            in andthen (rsect (xint (di_addrs din1 NDIRECT)) s1) (\<lambda>indirect s2.
                 if get32 indirect (4 * (fbn - NDIRECT)) = 0
                 then (let (b, s3) = take_block s2; indirect1 = put32 (4 * (fbn - NDIRECT)) (xint b) indirect;
                           s4 = wsect (xint (di_addrs din1 NDIRECT)) indirect1 s3
                       in Ok (xint (get32 indirect1 (4 * (fbn - NDIRECT))), din1) s4)
                 else Ok (xint (get32 indirect (4 * (fbn - NDIRECT))), din1) s2)))"

function iappend_loop :: "uint8 list \<Rightarrow> nat \<Rightarrow> dinode \<Rightarrow> mkfs \<Rightarrow> (mkfs, nat \<times> dinode) outcome" where
  "iappend_loop p off din s =
     (if p = [] then Ok (off, din) s
      else (let fbn = off div 512
            in if \<not> fbn < MAXFILE then Panic ''assert''
               else andthen (iappend_block fbn din s) (\<lambda>(x, din1) s1.
                      let n1 = min (length p) ((fbn + 1) * 512 - off); o1 = off - fbn * 512
                      in andthen (rsect x s1) (\<lambda>buf s2.
                           iappend_loop (drop n1 p) (off + n1) din1
                             (wsect x (\<lambda>i. if o1 \<le> i \<and> i < o1 + n1 then p ! (i - o1) else buf i) s2)))))"
  by auto

termination
proof (relation "measure (\<lambda>(p, off, din, s). length p)", simp, goal_cases)
  case (1 p off din s fbn r s1 x din1 n1 o1 buf s2)
  have "off < (off div 512 + 1) * 512" using div_mult_mod_eq [of off 512] mod_less_divisor [of 512 off] by simp
  then show ?case using 1 by (auto simp: min_def)
qed

definition iappend :: "uint \<Rightarrow> uint8 list \<Rightarrow> mkfs \<Rightarrow> (mkfs, unit) outcome" where
  "iappend inum p s =
     andthen (rinode inum s) (\<lambda>din s1.
     andthen (iappend_loop p (unat (xint (di_size din))) din s1) (\<lambda>(off, din) s2.
       winode inum (din\<lparr>di_size := xint (of_nat off)\<rparr>) s2))"

section \<open>The program\<close>

definition list_field :: "uint8 list \<Rightarrow> bytes" where
  "list_field name = (\<lambda>i. if i < length name \<and> i < DIRSIZ then name ! i else 0)"

definition append_dirent :: "uint \<Rightarrow> uint \<Rightarrow> uint8 list \<Rightarrow> mkfs \<Rightarrow> (mkfs, unit) outcome" where
  "append_dirent dir inum name s =
     iappend dir (map (put_dirent \<lparr>de_inum = xshort (ucast inum), de_name = list_field name\<rparr>) [0..<sizeof_dirent]) s"

text \<open>The loop that reads a file in pieces of 512 bytes and appends them.\<close>

function append_file :: "uint \<Rightarrow> uint8 list \<Rightarrow> mkfs \<Rightarrow> (mkfs, unit) outcome" where
  "append_file inum data s =
     (if data = [] then Ok () s
      else andthen (iappend inum (take 512 data) s) (\<lambda>_ s1. append_file inum (drop 512 data) s1))"
  by auto

termination
  by (relation "measure (\<lambda>(inum, data, s). length data)") auto

text \<open>A file of the command line: its name and its contents, or none if it cannot be opened.\<close>

fun mkfs_files :: "uint \<Rightarrow> (uint8 list \<times> uint8 list option) list \<Rightarrow> mkfs \<Rightarrow> (mkfs, unit) outcome" where
  "mkfs_files rootino [] s = Ok () s"
| "mkfs_files rootino ((name, contents) # fs) s =
     (if 47 \<in> set name then Panic ''assert''
      else (case contents of None \<Rightarrow> Panic ''open''
            | Some data \<Rightarrow>
                (let name1 = (if name \<noteq> [] \<and> hd name = 95 then tl name else name)
                 in andthen (mk_ialloc 2 s) (\<lambda>inum s1.
                    andthen (append_dirent rootino inum name1 s1) (\<lambda>_ s2.
                    andthen (append_file inum data s2) (\<lambda>_ s3. mkfs_files rootino fs s3))))))"

definition super_bytes :: bytes where
  "super_bytes = put32 0 (xint (of_nat mkfs_size)) (put32 4 (xint (of_nat mkfs_nblocks))
     (put32 8 (xint (of_nat mkfs_ninodes)) (put32 12 (xint (of_nat mkfs_nlog)) (\<lambda>_. 0))))"

definition mkfs_start :: mkfs where
  "mkfs_start =
     (let bits = of_nat (mkfs_size div (512 * 8) + 1); used = of_nat (mkfs_ninodes div IPB) + 3 + bits
      in \<lparr>img = (\<lambda>_ _. 0), img_len = 0, freeblock = used, usedblocks = used, bitblocks = bits, freeinode = 1\<rparr>)"

definition fix_root :: "uint \<Rightarrow> mkfs \<Rightarrow> (mkfs, unit) outcome" where
  "fix_root rootino s =
     andthen (rinode rootino s) (\<lambda>din s.
       winode rootino (din\<lparr>di_size := xint (of_nat ((unat (xint (di_size din)) div BSIZE + 1) * BSIZE))\<rparr>) s)"

definition mkfs_main :: "(uint8 list \<times> uint8 list option) list \<Rightarrow> (mkfs, unit) outcome" where
  "mkfs_main files =
     (let s = mkfs_start; total = mkfs_nblocks + unat (usedblocks s) + mkfs_nlog
      in if total \<noteq> mkfs_size then Panic ''assert''
         else (let s1 = wsect 1 super_bytes (fold (\<lambda>i. wsect (of_nat i) (\<lambda>_. 0)) [0..<total] s)
               in andthen (mk_ialloc 1 s1) (\<lambda>rootino s2.
                  if rootino \<noteq> ROOTINO then Panic ''assert''
                  else andthen (append_dirent rootino rootino [46] s2) (\<lambda>_ s3.
                       andthen (append_dirent rootino rootino [46, 46] s3) (\<lambda>_ s4.
                       andthen (mkfs_files rootino files s4) (\<lambda>_ s5.
                       andthen (fix_root rootino s5) (\<lambda>_ s6.
                         mk_balloc (unat (usedblocks s6)) s6)))))))"

end
