(* ===== verification/Mkfs_Props.thy ===== *)
theory Mkfs_Props
  imports Mkfs
begin

text \<open>The image that \<^verbatim>\<open>mkfs\<close> builds is a file system with the given files: the allocation of blocks is exact, no block
  serves two purposes, and every file can be read back from the image.\<close>

section \<open>Files in an image\<close>

lemma xint_id [simp]: "xint x = x" "xshort y = y"
  by (simp_all add: xint_def xshort_def)

text \<open>The address slots of a file: 0 to 11 the direct blocks, 12 the indirect block, from 13 on the entries of the indirect
  block. Part \<open>k\<close> of the contents is in slot \<open>data_slot k\<close>.\<close>

definition data_slot :: "nat \<Rightarrow> nat" where
  "data_slot k = (if k < 12 then k else Suc k)"

definition din_addr :: "(nat \<Rightarrow> bytes) \<Rightarrow> dinode \<Rightarrow> nat \<Rightarrow> nat" where
  "din_addr D din m = (if m < 13 then unat (di_addrs din m)
     else if di_addrs din 12 = 0 then 0 else unat (get32 (D (unat (di_addrs din 12))) (4 * (m - 13))))"

definition fbyte :: "(nat \<Rightarrow> bytes) \<Rightarrow> dinode \<Rightarrow> nat \<Rightarrow> uint8" where
  "fbyte D din p = (let a = din_addr D din (data_slot (p div 512)) in if a = 0 then 0 else D a (p mod 512))"

text \<open>The slots in use for a file of \<open>n\<close> bytes, and their number.\<close>

definition slots :: "nat \<Rightarrow> nat set" where
  "slots n = {m. m < 141 \<and> (if m = 12 then 12 * 512 < n else (if m < 12 then m else m - 1) * 512 < n)}"

definition nblk :: "nat \<Rightarrow> nat" where
  "nblk n = (n + 511) div 512 + (if 12 * 512 < n then 1 else 0)"

text \<open>The invariant: \<open>F i\<close> is the inode of each file \<open>i\<close> in \<open>I\<close> and \<open>U i\<close> its slots in use. A slot holds an address
  exactly if it is in use, the addresses lie between the metadata and \<open>fb\<close>, and no two slots share one. The blocks from
  \<open>fb\<close> on are still zero.\<close>

definition owned :: "(nat \<Rightarrow> bytes) \<Rightarrow> nat \<Rightarrow> ('i \<Rightarrow> dinode) \<Rightarrow> ('i \<Rightarrow> nat set) \<Rightarrow> 'i set \<Rightarrow> bool" where
  "owned D fb F U I \<longleftrightarrow> 29 \<le> fb \<and> fb \<le> 1024 \<and> (\<forall>b\<ge>fb. D b = (\<lambda>_. 0))
     \<and> (\<forall>i\<in>I. \<forall>m<141. (din_addr D (F i) m \<noteq> 0 \<longleftrightarrow> m \<in> U i) \<and> (m \<in> U i \<longrightarrow> 29 \<le> din_addr D (F i) m \<and> din_addr D (F i) m < fb))
     \<and> (\<forall>i\<in>I. U i \<subseteq> {..<141})
     \<and> (\<forall>i\<in>I. \<forall>j\<in>I. \<forall>m\<in>U i. \<forall>m'\<in>U j. din_addr D (F i) m = din_addr D (F j) m' \<longrightarrow> i = j \<and> m = m')"

lemma data_slot_less: "k < 140 \<Longrightarrow> data_slot k < 141" "data_slot k \<noteq> 12" "data_slot j = data_slot k \<longleftrightarrow> j = k"
  by (auto simp: data_slot_def split: if_splits)

lemma data_slot_slots: "k < 140 \<Longrightarrow> data_slot k \<in> slots n \<longleftrightarrow> k * 512 < n"
  by (auto simp: slots_def data_slot_def)

lemma ownedD:
  assumes "owned D fb F U I" "i \<in> I"
  shows "m < 141 \<Longrightarrow> din_addr D (F i) m \<noteq> 0 \<longleftrightarrow> m \<in> U i" "m \<in> U i \<Longrightarrow> 29 \<le> din_addr D (F i) m \<and> din_addr D (F i) m < fb \<and> m < 141"
    "j \<in> I \<Longrightarrow> m \<in> U i \<Longrightarrow> m' \<in> U j \<Longrightarrow> din_addr D (F i) m = din_addr D (F j) m' \<Longrightarrow> i = j \<and> m = m'"
proof -
  show "m < 141 \<Longrightarrow> din_addr D (F i) m \<noteq> 0 \<longleftrightarrow> m \<in> U i" using assms unfolding owned_def by blast
  have "U i \<subseteq> {..<141}" using assms unfolding owned_def by blast
  then show "m \<in> U i \<Longrightarrow> 29 \<le> din_addr D (F i) m \<and> din_addr D (F i) m < fb \<and> m < 141" using assms unfolding owned_def by blast
  show "j \<in> I \<Longrightarrow> m \<in> U i \<Longrightarrow> m' \<in> U j \<Longrightarrow> din_addr D (F i) m = din_addr D (F j) m' \<Longrightarrow> i = j \<and> m = m'"
    using assms unfolding owned_def by blast
qed

text \<open>Giving a fresh block to a slot.\<close>

lemma owned_alloc:
  assumes o: "owned D fb F U I" and i: "i \<in> I" and m: "m < 141" "m \<notin> U i" and fb: "fb < 1024"
    and a: "\<And>m'. m' < 141 \<Longrightarrow> din_addr D' din m' = (if m' = m then fb else din_addr D (F i) m')"
    and b: "\<And>j m'. j \<in> I \<Longrightarrow> j \<noteq> i \<Longrightarrow> m' < 141 \<Longrightarrow> din_addr D' (F j) m' = din_addr D (F j) m'"
    and z: "\<And>b. fb < b \<Longrightarrow> D' b = D b"
  shows "owned D' (Suc fb) (F(i := din)) (U(i := insert m (U i))) I"
proof -
  have U: "U j \<subseteq> {..<141}" if "j \<in> I" for j using o that by (auto simp: owned_def)
  have ad: "din_addr D' ((F(i := din)) j) m' = (if j = i \<and> m' = m then fb else din_addr D (F j) m')" if "j \<in> I" "m' < 141" for j m'
    using a b that by auto
  have lt: "din_addr D (F j) m' < fb" "29 \<le> din_addr D (F j) m'" if "j \<in> I" "m' \<in> U j" for j m' using ownedD(2) [OF o that(1)] that by auto
  have "29 \<le> fb" "\<forall>b\<ge>Suc fb. D' b = (\<lambda>_. 0)" using o z by (auto simp: owned_def)
  moreover have "(din_addr D' ((F(i := din)) j) m' \<noteq> 0 \<longleftrightarrow> m' \<in> (U(i := insert m (U i))) j)
      \<and> (m' \<in> (U(i := insert m (U i))) j \<longrightarrow> 29 \<le> din_addr D' ((F(i := din)) j) m' \<and> din_addr D' ((F(i := din)) j) m' < Suc fb)"
    if "j \<in> I" "m' < 141" for j m'
    using ad [OF that] ownedD(1) [OF o that] lt [OF that(1)] \<open>29 \<le> fb\<close> by (auto simp: less_Suc_eq)
  moreover have "j = j' \<and> n = n'" if "j \<in> I" "j' \<in> I" "n \<in> (U(i := insert m (U i))) j" "n' \<in> (U(i := insert m (U i))) j'"
    "din_addr D' ((F(i := din)) j) n = din_addr D' ((F(i := din)) j') n'" for j j' n n'
  proof -
    have n: "n < 141" "n' < 141" using that U m by (auto split: if_splits)
    have s: "n \<in> U j \<or> j = i \<and> n = m" "n' \<in> U j' \<or> j' = i \<and> n' = m" using that(3,4) by (auto split: if_splits)
    have e: "(if j = i \<and> n = m then fb else din_addr D (F j) n) = (if j' = i \<and> n' = m then fb else din_addr D (F j') n')"
      using that(5) unfolding ad [OF that(1) n(1)] ad [OF that(2) n(2)] .
    show ?thesis
    proof (cases "j = i \<and> n = m \<or> j' = i \<and> n' = m")
      case True
      then show ?thesis using e s lt(1) [OF that(1), of n] lt(1) [OF that(2), of n'] by (metis less_irrefl)
    next
      case False
      then show ?thesis using e s ownedD(3) [OF o that(1,2), of n n'] by metis
    qed
  qed
  moreover have "\<forall>j\<in>I. (U(i := insert m (U i))) j \<subseteq> {..<141}" using U m by auto
  ultimately show ?thesis using fb unfolding owned_def by (intro conjI ballI allI impI) (simp_all only: Suc_le_eq; blast)+
qed

section \<open>Allocation\<close>

text \<open>What an allocation step may change: slots are added, the blocks in use for data stay as they are.\<close>

definition alloc_ok :: "mkfs \<Rightarrow> ('i \<Rightarrow> dinode) \<Rightarrow> ('i \<Rightarrow> nat set) \<Rightarrow> 'i set \<Rightarrow> mkfs \<Rightarrow> ('i \<Rightarrow> dinode) \<Rightarrow> ('i \<Rightarrow> nat set) \<Rightarrow> bool" where
  "alloc_ok s F U I s' F' U' \<longleftrightarrow> owned (img s') (unat (freeblock s')) F' U' I
     \<and> (\<forall>j\<in>I. U j \<subseteq> U' j \<and> F' j = (F j)\<lparr>di_addrs := di_addrs (F' j)\<rparr>)
     \<and> (\<forall>j\<in>I. \<forall>m\<in>U j. m \<noteq> 12 \<longrightarrow> din_addr (img s') (F' j) m = din_addr (img s) (F j) m
          \<and> img s' (din_addr (img s) (F j) m) = img s (din_addr (img s) (F j) m))
     \<and> (\<forall>b<29. img s' b = img s b) \<and> img_len s' = img_len s \<and> freeinode s' = freeinode s \<and> bitblocks s' = bitblocks s
     \<and> usedblocks s' - freeblock s' = usedblocks s - freeblock s"

lemma alloc_ok_refl: "owned (img s) (unat (freeblock s)) F U I \<Longrightarrow> alloc_ok s F U I s F U"
  by (simp add: alloc_ok_def)

lemma alloc_ok_trans:
  assumes "alloc_ok s F U I s1 F1 U1" "alloc_ok s1 F1 U1 I s2 F2 U2"
  shows "alloc_ok s F U I s2 F2 U2"
proof -
  have "U j \<subseteq> U2 j \<and> F2 j = (F j)\<lparr>di_addrs := di_addrs (F2 j)\<rparr>" if "j \<in> I" for j
  proof -
    have "F1 j = (F j)\<lparr>di_addrs := di_addrs (F1 j)\<rparr>" "F2 j = (F1 j)\<lparr>di_addrs := di_addrs (F2 j)\<rparr>" "U j \<subseteq> U2 j"
      using assms that unfolding alloc_ok_def by blast+
    then show ?thesis by (metis dinode.surjective dinode.update_convs(6) dinode.ext_inject)
  qed
  moreover have "din_addr (img s2) (F2 j) m = din_addr (img s) (F j) m
      \<and> img s2 (din_addr (img s) (F j) m) = img s (din_addr (img s) (F j) m)" if "j \<in> I" "m \<in> U j" "m \<noteq> 12" for j m
  proof -
    have 1: "din_addr (img s1) (F1 j) m = din_addr (img s) (F j) m" "img s1 (din_addr (img s) (F j) m) = img s (din_addr (img s) (F j) m)" "m \<in> U1 j"
      using assms(1) that unfolding alloc_ok_def by blast+
    have "din_addr (img s2) (F2 j) m = din_addr (img s1) (F1 j) m
      \<and> img s2 (din_addr (img s1) (F1 j) m) = img s1 (din_addr (img s1) (F1 j) m)"
      using assms(2) that 1(3) unfolding alloc_ok_def by blast
    then show ?thesis using 1 by simp
  qed
  ultimately show ?thesis using assms unfolding alloc_ok_def by simp
qed

lemma unat_Suc_uint: "unat (a :: uint) < 1024 \<Longrightarrow> unat (a + 1) = Suc (unat a)"
  by (simp add: unat_word_ariths)

text \<open>A fresh block for one of the addresses in the inode, the indirect block included.\<close>

lemma take_direct:
  assumes o: "owned (img s) (unat (freeblock s)) F U I" and i: "i \<in> I" and m: "m \<le> 12" "m \<notin> U i" and fb: "unat (freeblock s) < 1024"
  shows "alloc_ok s F U I (snd (take_block s)) (F(i := (F i)\<lparr>di_addrs := (di_addrs (F i))(m := freeblock s)\<rparr>)) (U(i := insert m (U i)))"
    "unat (freeblock (snd (take_block s))) = Suc (unat (freeblock s))"
proof -
  let ?din = "(F i)\<lparr>di_addrs := (di_addrs (F i))(m := freeblock s)\<rparr>"
  have a: "din_addr (img s) ?din m' = (if m' = m then unat (freeblock s) else din_addr (img s) (F i) m')" if "m' < 141" for m'
  proof (cases "m = 12 \<and> m' \<ge> 13")
    case True
    have "din_addr (img s) (F i) 12 = 0" using ownedD(1) [OF o i, of 12] m True by auto
    then have "di_addrs (F i) 12 = 0" by (simp add: din_addr_def unat_eq_zero)
    moreover have "img s (unat (freeblock s)) = (\<lambda>_. 0)" using o by (auto simp: owned_def)
    ultimately show ?thesis using True by (simp add: din_addr_def get32_def)
  qed (use m that in \<open>auto simp: din_addr_def\<close>)
  show 2: "unat (freeblock (snd (take_block s))) = Suc (unat (freeblock s))" using unat_Suc_uint [OF fb] by (simp add: take_block_def)
  have "owned (img s) (Suc (unat (freeblock s))) (F(i := ?din)) (U(i := insert m (U i))) I"
    by (rule owned_alloc [OF o i _ m(2) fb a]) (use m in auto)
  moreover have "din_addr (img s) ((F(i := ?din)) j) m' = din_addr (img s) (F j) m'" if "j \<in> I" "m' \<in> U j" for j m'
    using ownedD(2) [OF o that] a [of m'] m that by auto
  ultimately show "alloc_ok s F U I (snd (take_block s)) (F(i := ?din)) (U(i := insert m (U i)))"
    unfolding alloc_ok_def 2 by (auto simp: take_block_def)
qed

text \<open>A fresh block for an entry of the indirect block.\<close>

lemma take_indirect:
  assumes o: "owned (img s) (unat (freeblock s)) F U I" and i: "i \<in> I" and m: "12 \<in> U i" "13 \<le> m" "m < 141" "m \<notin> U i"
    and fb: "unat (freeblock s) < 1024" and len: "img_len s = 1024"
  defines "ind \<equiv> unat (di_addrs (F i) 12)"
  defines "s' \<equiv> wsect (di_addrs (F i) 12) (put32 (4 * (m - 13)) (freeblock s) (img s ind)) (snd (take_block s))"
  shows "alloc_ok s F U I s' F (U(i := insert m (U i)))" "unat (freeblock s') = Suc (unat (freeblock s))"
    "img s' ind = put32 (4 * (m - 13)) (freeblock s) (img s ind)"
proof -
  let ?D = "img s" and ?fb = "unat (freeblock s)"
  have ind: "din_addr ?D (F i) 12 = ind" by (simp add: din_addr_def ind_def)
  have r: "29 \<le> ind" "ind < ?fb" using ownedD(2) [OF o i m(1)] ind by auto
  have D': "img s' = ?D(ind := put32 (4 * (m - 13)) (freeblock s) (?D ind))"
    by (simp add: s'_def wsect_def take_block_def ind_def)
  then show "img s' ind = put32 (4 * (m - 13)) (freeblock s) (?D ind)" by simp
  show 2: "unat (freeblock s') = Suc ?fb" using unat_Suc_uint [OF fb] by (simp add: s'_def wsect_def take_block_def)
  have ne: "din_addr ?D (F j) m' \<noteq> ind" if "j \<in> I" "m' \<in> U j" "j \<noteq> i \<or> m' \<noteq> 12" for j m'
    using ownedD(3) [OF o that(1) i that(2) m(1)] ind that(3) by auto
  have a: "din_addr (img s') (F i) m' = (if m' = m then ?fb else din_addr ?D (F i) m')" if "m' < 141" for m'
  proof -
    have "get32 (put32 (4 * (m - 13)) v d) (4 * (m' - 13)) = get32 d (4 * (m' - 13))" if "13 \<le> m'" "m' \<noteq> m" for v d
      by (rule get_other(4)) (use m that in linarith)
    then show ?thesis using m r unfolding din_addr_def D' ind_def [symmetric] by (auto simp: unat_eq_zero ind_def)
  qed
  have b: "din_addr (img s') (F j) m' = din_addr ?D (F j) m'" if "j \<in> I" "j \<noteq> i" "m' < 141" for j m'
  proof (cases "di_addrs (F j) 12 = 0")
    case False
    then have "12 \<in> U j" using ownedD(1) [OF o that(1), of 12] by (simp add: din_addr_def unat_eq_zero)
    then have "unat (di_addrs (F j) 12) \<noteq> ind" using ne [OF that(1), of 12] that(2) by (simp add: din_addr_def)
    then show ?thesis by (simp add: din_addr_def D')
  qed (simp add: din_addr_def)
  have "owned (img s') (Suc ?fb) (F(i := F i)) (U(i := insert m (U i))) I"
    by (rule owned_alloc [OF o i m(3,4) fb a b]) (use r D' in auto)
  moreover have "din_addr (img s') (F j) m' = din_addr ?D (F j) m'" if "j \<in> I" "m' \<in> U j" for j m'
    using ownedD(2) [OF o that] a [of m'] b [of j m'] m that by (cases "j = i") auto
  moreover have "img_len s' = img_len s" using len r fb by (simp add: s'_def wsect_def take_block_def ind_def)
  moreover have "freeinode s' = freeinode s" "bitblocks s' = bitblocks s" "usedblocks s' - freeblock s' = usedblocks s - freeblock s"
    by (simp_all add: s'_def wsect_def take_block_def)
  moreover have "img s' (din_addr ?D (F j) m') = ?D (din_addr ?D (F j) m')" if "j \<in> I" "m' \<in> U j" "m' \<noteq> 12" for j m'
    using ne [OF that(1,2)] that(3) by (simp add: D')
  moreover have "\<forall>b<29. img s' b = ?D b" using r by (simp add: D')
  ultimately show "alloc_ok s F U I s' F (U(i := insert m (U i)))" unfolding alloc_ok_def 2 by auto
qed

text \<open>The slots that part \<open>fbn\<close> of a file needs.\<close>

definition part_slots :: "nat \<Rightarrow> nat set" where
  "part_slots fbn = (if fbn < 12 then {fbn} else {12, Suc fbn})"

lemma iappend_block_spec:
  assumes o: "owned (img s) (unat (freeblock s)) F U I" and i: "i \<in> I" and fbn: "fbn < 140"
    and fb: "unat (freeblock s) + card (part_slots fbn - U i) \<le> 1024" and len: "img_len s = 1024"
  shows "\<exists>x din1 s1. iappend_block fbn (F i) s = Ok (x, din1) s1 \<and> alloc_ok s F U I s1 (F(i := din1)) (U(i := U i \<union> part_slots fbn))
     \<and> unat (freeblock s1) = unat (freeblock s) + card (part_slots fbn - U i) \<and> unat x = din_addr (img s1) din1 (data_slot fbn)"
proof (cases "fbn < 12")
  case dir: True
  have u: "di_addrs (F i) fbn = 0 \<longleftrightarrow> fbn \<notin> U i"
    using ownedD(1) [OF o i, of fbn] dir by (auto simp: din_addr_def unat_eq_zero)
  show ?thesis
  proof (cases "fbn \<in> U i")
    case True
    then show ?thesis using dir u alloc_ok_refl [OF o]
      by (simp add: iappend_block_def NDIRECT_def part_slots_def insert_absorb data_slot_def din_addr_def)
  next
    case False
    have p: "part_slots fbn - U i = {fbn}" using False dir by (auto simp: part_slots_def)
    show ?thesis using dir u False take_direct [OF o i _ False] fb unfolding p
      by (auto simp: iappend_block_def NDIRECT_def part_slots_def data_slot_def din_addr_def take_block_def)
  qed
next
  case False
  let ?din1 = "if 12 \<in> U i then F i else (F i)\<lparr>di_addrs := (di_addrs (F i))(12 := freeblock s)\<rparr>"
  let ?s1 = "if 12 \<in> U i then s else snd (take_block s)"
  let ?U1 = "U(i := insert 12 (U i))" and ?F1 = "F(i := ?din1)" and ?ind = "di_addrs ?din1 12"
  have u: "di_addrs (F i) 12 = 0 \<longleftrightarrow> 12 \<notin> U i"
    using ownedD(1) [OF o i, of 12] by (auto simp: din_addr_def unat_eq_zero)
  have p: "card (part_slots fbn - U i) = (if 12 \<in> U i then 0 else 1) + (if Suc fbn \<in> U i then 0 else 1)"
    using False by (auto simp: part_slots_def insert_Diff_if)
  have 1: "alloc_ok s F U I ?s1 ?F1 ?U1" "unat (freeblock ?s1) = unat (freeblock s) + (if 12 \<in> U i then 0 else 1)"
    using alloc_ok_refl [OF o] take_direct [OF o i, of 12] fb unfolding p by (auto simp: insert_absorb)
  have o1: "owned (img ?s1) (unat (freeblock ?s1)) ?F1 ?U1 I" and len1: "img_len ?s1 = 1024" using 1(1) len by (auto simp: alloc_ok_def)
  have r: "unat ?ind < 1024" "29 \<le> unat ?ind" using ownedD(2) [OF o1 i, of 12] fb 1(2) unfolding p by (auto simp: din_addr_def)
  have e: "get32 (img ?s1 (unat ?ind)) (4 * (fbn - 12)) = 0 \<longleftrightarrow> Suc fbn \<notin> U i"
    using ownedD(1) [OF o1 i, of "Suc fbn"] fbn False r by (auto simp: din_addr_def unat_eq_zero split: if_splits)
  have bk: "iappend_block fbn (F i) s = andthen (rsect ?ind ?s1) (\<lambda>indirect s2.
      if get32 indirect (4 * (fbn - 12)) = 0
      then (let (b, s3) = take_block s2; indirect1 = put32 (4 * (fbn - 12)) b indirect; s4 = wsect ?ind indirect1 s3
            in Ok (get32 indirect1 (4 * (fbn - 12)), ?din1) s4)
      else Ok (get32 indirect (4 * (fbn - 12)), ?din1) s2)"
    using False u by (simp add: iappend_block_def NDIRECT_def take_block_def cong: if_cong)
  have x: "rsect ?ind ?s1 = Ok (img ?s1 (unat ?ind)) ?s1" using r len1 by (simp add: rsect_def)
  show ?thesis
  proof (cases "Suc fbn \<in> U i")
    case True
    have "U i \<union> part_slots fbn = insert 12 (U i)" using True False by (auto simp: part_slots_def)
    then show ?thesis unfolding bk x p using e True False 1 r by (auto simp: data_slot_def din_addr_def)
  next
    case n: False
    let ?s2 = "wsect ?ind (put32 (4 * (fbn - 12)) (freeblock ?s1) (img ?s1 (unat ?ind))) (snd (take_block ?s1))"
    have 2: "alloc_ok ?s1 ?F1 ?U1 I ?s2 ?F1 (?U1(i := insert (Suc fbn) (?U1 i)))" "unat (freeblock ?s2) = Suc (unat (freeblock ?s1))"
      "img ?s2 (unat ?ind) = put32 (4 * (fbn - 12)) (freeblock ?s1) (img ?s1 (unat ?ind))"
      using take_indirect [OF o1 i, of "Suc fbn"] False fbn n fb p 1(2) len1 by auto
    have U2: "?U1(i := insert (Suc fbn) (?U1 i)) = U(i := U i \<union> part_slots fbn)" using False by (simp add: part_slots_def insert_commute)
    have "iappend_block fbn (F i) s = Ok (freeblock ?s1, ?din1) ?s2"
      unfolding bk x using e n by (simp add: take_block_def)
    moreover have "alloc_ok s F U I ?s2 ?F1 (U(i := U i \<union> part_slots fbn))" using alloc_ok_trans [OF 1(1) 2(1)] unfolding U2 .
    moreover have "unat (freeblock ?s1) = din_addr (img ?s2) ?din1 (data_slot fbn)"
      using False r unfolding din_addr_def 2(3) by (auto simp: data_slot_def)
    moreover have "unat (freeblock ?s2) = unat (freeblock s) + card (part_slots fbn - U i)" unfolding p 2(2) 1(2) using n by simp
    ultimately show ?thesis by blast
  qed
qed

section \<open>Appending\<close>

text \<open>The files \<open>I\<close> hold the contents \<open>fc\<close>.\<close>

definition holds :: "(nat \<Rightarrow> bytes) \<Rightarrow> nat \<Rightarrow> ('i \<Rightarrow> dinode) \<Rightarrow> ('i \<Rightarrow> uint8 list) \<Rightarrow> 'i set \<Rightarrow> bool" where
  "holds D fb F fc I \<longleftrightarrow> owned D fb F (\<lambda>i. slots (length (fc i))) I
     \<and> (\<forall>i\<in>I. length (fc i) \<le> 140 * 512 \<and> (\<forall>p < length (fc i). fbyte D (F i) p = fc i ! p))"

lemma slots_part:
  assumes "off < n" "n \<le> (off div 512 + 1) * 512" "n \<le> 140 * 512"
  shows "slots n = slots off \<union> part_slots (off div 512)" "nblk n = nblk off + card (part_slots (off div 512) - slots off)"
proof -
  define q where "q = off div 512"
  have q: "q * 512 \<le> off" "off < q * 512 + 512" "q < 140" using assms(1,3) unfolding q_def by linarith+
  have k: "k * 512 < n \<longleftrightarrow> k * 512 < off \<or> k = q" for k
    using assms(1,2) q unfolding q_def [symmetric] by (cases k q rule: linorder_cases) auto
  have "m \<in> slots n \<longleftrightarrow> m \<in> slots off \<union> part_slots q" for m
  proof -
    consider "m < 12" | "m = 12" | "12 < m" by linarith
    then show ?thesis
    proof cases
      case 1
      then show ?thesis using k [of m] by (auto simp: slots_def part_slots_def)
    next
      case 2
      have "12 < q \<Longrightarrow> 12 * 512 < off" using q(1) by linarith
      then show ?thesis using 2 k [of 12] by (auto simp: slots_def part_slots_def)
    next
      case 3
      then show ?thesis using k [of "m - 1"] q(3) by (auto simp: slots_def part_slots_def)
    qed
  qed
  then show "slots n = slots off \<union> part_slots (off div 512)" unfolding q_def [symmetric] by (rule set_eqI)
  have 1: "q < 12 \<Longrightarrow> q \<in> slots off \<longleftrightarrow> q * 512 < off" "12 \<in> slots off \<longleftrightarrow> 12 * 512 < off"
    "12 \<le> q \<Longrightarrow> Suc q \<in> slots off \<longleftrightarrow> q * 512 < off" using q(3) by (auto simp: slots_def)
  have "(n + 511) div 512 = Suc q" using assms(1,2) q unfolding q_def [symmetric] by (intro div_nat_eqI) auto
  moreover have "(off + 511) div 512 = (if q * 512 < off then Suc q else q)" using q by (intro div_nat_eqI) auto
  moreover have "card (part_slots q - slots off) =
      (if q * 512 < off then 0 else 1) + (if q < 12 \<or> 12 * 512 < off then 0 else 1)"
    using 1 by (auto simp: part_slots_def insert_Diff_if)
  ultimately show "nblk n = nblk off + card (part_slots (off div 512) - slots off)" unfolding q_def [symmetric]
    using k [of 12] q(1,2) by (auto simp: nblk_def)
qed

text \<open>Writing a data block of a file changes that part of that file only.\<close>

lemma write_part:
  fixes b :: bytes
  assumes o: "owned D fb F U I" and i: "i \<in> I" and k: "k < 140" "data_slot k \<in> U i"
  defines "D' \<equiv> D(din_addr D (F i) (data_slot k) := b)"
  shows "owned D' fb F U I" "\<lbrakk>j \<in> I; p < 140 * 512\<rbrakk> \<Longrightarrow> fbyte D' (F j) p = (if j = i \<and> p div 512 = k then b (p mod 512) else fbyte D (F j) p)"
proof -
  let ?x = "din_addr D (F i) (data_slot k)"
  have x: "29 \<le> ?x" "?x < fb" using ownedD(2) [OF o i k(2)] by auto
  have ad: "din_addr D' (F j) m = din_addr D (F j) m" if "j \<in> I" "m < 141" for j m
  proof (cases "di_addrs (F j) 12 = 0")
    case False
    then have "12 \<in> U j" using ownedD(1) [OF o that(1), of 12] by (simp add: din_addr_def unat_eq_zero)
    then have "din_addr D (F j) 12 \<noteq> ?x" using ownedD(3) [OF o that(1) i _ k(2), of 12] data_slot_less(2) [of k] by metis
    then show ?thesis by (simp add: din_addr_def [of _ "F j"] D'_def)
  qed (simp add: din_addr_def [of _ "F j"])
  show "owned D' fb F U I" unfolding owned_def
  proof (intro conjI ballI allI impI)
    fix j and m :: nat assume "j \<in> I" "m < 141"
    then show "din_addr D' (F j) m \<noteq> 0 \<longleftrightarrow> m \<in> U j" "m \<in> U j \<Longrightarrow> 29 \<le> din_addr D' (F j) m" "m \<in> U j \<Longrightarrow> din_addr D' (F j) m < fb"
      using ad ownedD(1,2) [OF o \<open>j \<in> I\<close>] by auto
  next
    fix j j' m m' assume "j \<in> I" "j' \<in> I" "m \<in> U j" "m' \<in> U j'" and e: "din_addr D' (F j) m = din_addr D' (F j') m'"
    moreover then have "m < 141" "m' < 141" using ownedD(2) [OF o] by blast+
    ultimately show "j = j'" "m = m'" using ownedD(3) [OF o] ad by metis+
  next
    fix c assume "fb \<le> c"
    then show "D' c = (\<lambda>_. 0)" using o x by (simp add: D'_def owned_def)
  qed (use o in \<open>auto simp: owned_def\<close>)
  assume p: "j \<in> I" "p < 140 * 512"
  let ?m = "data_slot (p div 512)"
  have m: "?m < 141" using p(2) by (intro data_slot_less) linarith
  show "fbyte D' (F j) p = (if j = i \<and> p div 512 = k then b (p mod 512) else fbyte D (F j) p)"
  proof (cases "din_addr D (F j) ?m = ?x")
    case True
    then have "?m \<in> U j" using ownedD(1) [OF o p(1) m] x by simp
    then have "j = i \<and> p div 512 = k" using ownedD(3) [OF o p(1) i _ k(2) True] data_slot_less(3) by blast
    then show ?thesis using True x unfolding fbyte_def Let_def ad [OF p(1) m] by (simp add: D'_def)
  next
    case False
    then show ?thesis unfolding fbyte_def Let_def ad [OF p(1) m] by (auto simp: D'_def)
  qed
qed

lemma part_div: "k * 512 \<le> r \<Longrightarrow> r < k * 512 + 512 \<Longrightarrow> r div 512 = k \<and> r mod 512 = r - k * (512::nat)"
  using div_nat_eqI [of 512 k r] by (simp add: modulo_nat_def mult.commute)

text \<open>What an append keeps apart from the files: the blocks of the metadata and the other counters.\<close>

definition kept :: "mkfs \<Rightarrow> mkfs \<Rightarrow> bool" where
  "kept s s' \<longleftrightarrow> (\<forall>b<29. img s' b = img s b) \<and> img_len s' = img_len s \<and> freeinode s' = freeinode s \<and> bitblocks s' = bitblocks s
     \<and> usedblocks s' - freeblock s' = usedblocks s - freeblock s"

lemma iappend_step:
  assumes h: "holds (img s) (unat (freeblock s)) F fc I" and i: "i \<in> I" and len: "img_len s = 1024"
    and p: "p \<noteq> []" "length p \<le> (length (fc i) div 512 + 1) * 512 - length (fc i)" "length (fc i) + length p \<le> 140 * 512"
    and fb: "unat (freeblock s) + nblk (length (fc i) + length p) \<le> 1024 + nblk (length (fc i))"
  defines "fbn \<equiv> length (fc i) div 512" and "o1 \<equiv> length (fc i) - length (fc i) div 512 * 512"
  shows "\<exists>x din1 s1 buf. iappend_block fbn (F i) s = Ok (x, din1) s1 \<and> rsect x s1 = Ok buf s1
     \<and> (let s2 = wsect x (\<lambda>k. if o1 \<le> k \<and> k < o1 + length p then p ! (k - o1) else buf k) s1
        in holds (img s2) (unat (freeblock s2)) (F(i := din1)) (fc(i := fc i @ p)) I \<and> kept s s2
           \<and> unat (freeblock s2) + nblk (length (fc i)) = unat (freeblock s) + nblk (length (fc i) + length p)
           \<and> din1 = (F i)\<lparr>di_addrs := di_addrs din1\<rparr>)"
proof -
  let ?n = "length (fc i)" and ?U = "\<lambda>i. slots (length (fc i))" and ?fc = "fc(i := fc i @ p)"
  have o: "owned (img s) (unat (freeblock s)) F ?U I" using h by (simp add: holds_def)
  have q0: "fbn * 512 \<le> ?n" "?n < fbn * 512 + 512" unfolding fbn_def by linarith+
  then have q: "?n < (fbn + 1) * 512" "?n = fbn * 512 + o1" "o1 < 512" by (simp_all add: o1_def fbn_def [symmetric])
  have lp: "0 < length p" using p(1) by simp
  have fbn: "fbn < 140" using lp p(3) unfolding fbn_def by linarith
  have sl: "slots (?n + length p) = slots ?n \<union> part_slots fbn" "nblk (?n + length p) = nblk ?n + card (part_slots fbn - slots ?n)"
    using slots_part [of ?n "?n + length p"] p(2,3) lp q(1) unfolding fbn_def by auto
  obtain x din1 s1 where b: "iappend_block fbn (F i) s = Ok (x, din1) s1"
    and al: "alloc_ok s F ?U I s1 (F(i := din1)) (?U(i := ?U i \<union> part_slots fbn))"
    and f1: "unat (freeblock s1) = unat (freeblock s) + card (part_slots fbn - ?U i)" and x: "unat x = din_addr (img s1) din1 (data_slot fbn)"
    using iappend_block_spec [OF o i fbn _ len] fb sl by auto
  have U: "?U(i := ?U i \<union> part_slots fbn) = (\<lambda>j. slots (length (?fc j)))" using sl(1) by (simp add: fun_eq_iff)
  let ?F = "F(i := din1)"
  have ow: "owned (img s1) (unat (freeblock s1)) ?F (\<lambda>j. slots (length (?fc j))) I" using al unfolding U alloc_ok_def by blast
  have ds: "data_slot fbn \<in> slots (length (?fc i))" using data_slot_slots [OF fbn] q lp by simp
  have x': "unat x = din_addr (img s1) (?F i) (data_slot fbn)" using x by simp
  have xr: "29 \<le> unat x" "unat x < 1024" using ownedD(2) [OF ow i ds] x ow by (auto simp: owned_def)
  have len1: "img_len s1 = 1024" using al len by (simp add: alloc_ok_def)
  define buf where "buf = img s1 (unat x)"
  define bk where "bk = (\<lambda>k. if o1 \<le> k \<and> k < o1 + length p then p ! (k - o1) else buf k)"
  have fby: "fbyte (img s1) (?F j) r = fbyte (img s) (F j) r" if "j \<in> I" "r < length (fc j)" for j r
  proof -
    have "r < 140 * 512" using h that by (fastforce simp: holds_def)
    then have "r div 512 < 140" "r div 512 * 512 < length (fc j)" using that by linarith+
    then have "data_slot (r div 512) \<in> slots (length (fc j))" using data_slot_slots by simp
    then show ?thesis using al that(1) data_slot_less(2) unfolding alloc_ok_def fbyte_def by metis
  qed
  note wp = write_part [OF ow i fbn ds, where b = bk, folded x']
  have "holds ((img s1)(unat x := bk)) (unat (freeblock s1)) ?F ?fc I"
  proof -
    have "fbyte ((img s1)(unat x := bk)) (?F j) r = ?fc j ! r" if j: "j \<in> I" and r: "r < length (?fc j)" for j r
    proof (cases "j = i \<and> length (fc i) \<le> r")
      case True
      then have "r div 512 = fbn" "r mod 512 = r - fbn * 512" using r p(2) q part_div [of fbn r] by (auto simp: fbn_def [symmetric])
      then show ?thesis using wp(2) [OF j] True r p(3) q(2) by (auto simp: bk_def nth_append)
    next
      case False
      then have r': "r < length (fc j)" using r by (auto split: if_splits)
      have "r < 140 * 512" using r' h j by (fastforce simp: holds_def)
      moreover have "fc j ! r = fbyte (img s1) (?F j) r" using fby [OF j r'] h j r' by (simp add: holds_def)
      moreover have "bk (r mod 512) = fbyte (img s1) (?F j) r" if "j = i" "r div 512 = fbn"
      proof -
        have "r mod 512 < o1" using that r' q(2) div_mult_mod_eq [of r 512] by simp
        then show ?thesis using that x xr(1) by (simp add: bk_def fbyte_def buf_def)
      qed
      ultimately show ?thesis using wp(2) [OF j] r' by (auto simp: nth_append)
    qed
    then show ?thesis using wp(1) h p(3) unfolding holds_def by auto
  qed
  moreover have "rsect x s1 = Ok buf s1" using xr len1 by (simp add: rsect_def buf_def)
  moreover have "kept s (wsect x bk s1)" using al xr len1 by (auto simp: alloc_ok_def kept_def wsect_def)
  moreover have "din1 = (F i)\<lparr>di_addrs := di_addrs din1\<rparr>" using al i unfolding alloc_ok_def by (metis fun_upd_same)
  ultimately show ?thesis using b f1 sl(2) by (auto simp: bk_def [symmetric] Let_def wsect_def)
qed

lemma kept_trans: "kept s s1 \<Longrightarrow> kept s1 s2 \<Longrightarrow> kept s s2"
  by (simp add: kept_def)

declare iappend_loop.simps [simp del]

lemma iappend_loop_spec:
  assumes "holds (img s) (unat (freeblock s)) F fc I" "i \<in> I" "img_len s = 1024" "length (fc i) + length p \<le> 140 * 512"
    "unat (freeblock s) + nblk (length (fc i) + length p) \<le> 1024 + nblk (length (fc i))"
  shows "\<exists>din1 s1. iappend_loop p (length (fc i)) (F i) s = Ok (length (fc i) + length p, din1) s1
     \<and> holds (img s1) (unat (freeblock s1)) (F(i := din1)) (fc(i := fc i @ p)) I \<and> kept s s1
     \<and> unat (freeblock s1) + nblk (length (fc i)) = unat (freeblock s) + nblk (length (fc i) + length p)
     \<and> din1 = (F i)\<lparr>di_addrs := di_addrs din1\<rparr>"
  using assms
proof (induction "length p" arbitrary: p F fc s rule: less_induct)
  case less
  let ?n = "length (fc i)" and ?o = "length (fc i) - length (fc i) div 512 * 512"
  define n1 where "n1 = min (length p) ((?n div 512 + 1) * 512 - ?n)"
  show ?case
  proof (cases "p = []")
    case True
    then show ?thesis using less(2) by (simp add: iappend_loop.simps kept_def)
  next
    case False
    have "?n < (?n div 512 + 1) * 512" using div_mult_mod_eq [of ?n 512] mod_less_divisor [of 512 ?n] by simp
    then have n1: "0 < n1" "n1 \<le> length p" "n1 \<le> (?n div 512 + 1) * 512 - ?n" using False by (auto simp: n1_def)
    have le: "nblk (?n + n1) \<le> nblk (?n + length p)" unfolding nblk_def using n1(2) by (intro add_mono div_le_mono) auto
    have fbn: "?n div 512 < 140" using less(5) False by (intro less_mult_imp_div_less) (cases p; simp)
    have tk: "length (take n1 p) = n1" "(\<lambda>k. if ?o \<le> k \<and> k < ?o + n1 then take n1 p ! (k - ?o) else buf k)
        = (\<lambda>k. if ?o \<le> k \<and> k < ?o + n1 then p ! (k - ?o) else buf k)" for buf using n1(2) by (auto simp: fun_eq_iff)
    obtain x din1 s1 buf s2 where b: "iappend_block (?n div 512) (F i) s = Ok (x, din1) s1" "rsect x s1 = Ok buf s1"
      and s2: "s2 = wsect x (\<lambda>k. if ?o \<le> k \<and> k < ?o + n1 then p ! (k - ?o) else buf k) s1"
      and h: "holds (img s2) (unat (freeblock s2)) (F(i := din1)) (fc(i := fc i @ take n1 p)) I" and k: "kept s s2"
      and f: "unat (freeblock s2) + nblk ?n = unat (freeblock s) + nblk (?n + n1)" and d: "din1 = (F i)\<lparr>di_addrs := di_addrs din1\<rparr>"
      using iappend_step [OF less(2,3,4), of "take n1 p", unfolded tk Let_def] n1 le less(5,6) by (cases "take n1 p = []") (simp, auto)
    have lp: "iappend_loop p ?n (F i) s = iappend_loop (drop n1 p) (?n + n1) din1 s2"
      using False fbn b unfolding s2 n1_def by (subst iappend_loop.simps) (simp add: Let_def MAXFILE_def NDIRECT_def NINDIRECT_def BSIZE_def)
    have dr: "length (drop n1 p) < length p" "?n + n1 + length (drop n1 p) = ?n + length p" "fc i @ take n1 p @ drop n1 p = fc i @ p"
      using n1 by auto
    have l2: "length ((fc(i := fc i @ take n1 p)) i) = ?n + n1" using tk by simp
    have "img_len s2 = 1024" using k less(4) by (simp add: kept_def)
    moreover have "unat (freeblock s2) + nblk (?n + length p) \<le> 1024 + nblk (?n + n1)" using f less(6) by linarith
    ultimately obtain din2 s3 where L: "iappend_loop (drop n1 p) (?n + n1) din1 s2 = Ok (?n + length p, din2) s3"
     "holds (img s3) (unat (freeblock s3)) (F(i := din2)) (fc(i := fc i @ p)) I" "kept s2 s3"
     "unat (freeblock s3) + nblk (?n + n1) = unat (freeblock s2) + nblk (?n + length p)" "din2 = din1\<lparr>di_addrs := di_addrs din2\<rparr>"
      using less(1) [OF dr(1) h less(3), unfolded l2 dr(2)] less(5) by (auto simp: dr(3))
    have "din2 = (F i)\<lparr>di_addrs := di_addrs din2\<rparr>" using d L(5)
      by (metis dinode.surjective dinode.update_convs(6) dinode.ext_inject)
    then show ?thesis unfolding lp using L kept_trans [OF k L(3)] f by auto
  qed
qed

section \<open>Inodes of the image\<close>

definition node :: "mkfs \<Rightarrow> nat \<Rightarrow> dinode" where
  "node s k = get_dinode (64 * (k mod 8)) (img s (k div 8 + 2))"

lemma inode_place: "k < 208 \<Longrightarrow> unat (i2b (of_nat k)) = k div 8 + 2" "k < 208 \<Longrightarrow> dip_off (of_nat k) = 64 * (k mod 8)"
proof -
  assume k: "k < 208"
  then have u: "unat (of_nat k :: uint) = k" by (simp add: unat_of_nat_uint)
  then have d: "unat (of_nat k div 8 :: uint) = k div 8" by (simp add: unat_div)
  then show "unat (i2b (of_nat k)) = k div 8 + 2" using k by (simp add: i2b_def layout_numbers unat_word_ariths)
  show "dip_off (of_nat k) = 64 * (k mod 8)" using u by (simp add: dip_off_def layout_numbers)
qed

lemma rinode_node: "k < 208 \<Longrightarrow> img_len s = 1024 \<Longrightarrow> rinode (of_nat k) s = Ok (node s k) s"
  by (simp add: rinode_def rsect_def inode_place node_def less_mult_imp_div_less)

lemma winode_node:
  assumes k: "k < 208" and len: "img_len s = 1024"
  obtains s' where "winode (of_nat k) d s = Ok () s'" "\<And>b. b \<noteq> k div 8 + 2 \<Longrightarrow> img s' b = img s b"
    "node s' k = d\<lparr>di_addrs := \<lambda>m. if m < 13 then di_addrs d m else 0\<rparr>" "\<And>j. j \<noteq> k \<Longrightarrow> node s' j = node s j"
    "img_len s' = 1024" "freeblock s' = freeblock s" "usedblocks s' = usedblocks s" "bitblocks s' = bitblocks s" "freeinode s' = freeinode s"
proof -
  let ?b = "k div 8 + 2"
  define s' where "s' = s\<lparr>img := (img s)(?b := put_dinode (64 * (k mod 8)) d (img s ?b))\<rparr>"
  have b: "?b < 1024" using k by linarith
  then have "winode (of_nat k) d s = Ok () s'"
    using k len by (cases s) (simp add: winode_def rsect_def wsect_def inode_place s'_def)
  moreover have "node s' k = d\<lparr>di_addrs := \<lambda>m. if m < 13 then di_addrs d m else 0\<rparr>"
    using dinode_roundtrip by (simp add: node_def s'_def NDIRECT_def)
  moreover have "node s' j = node s j" if "j \<noteq> k" for j
  proof (cases "j div 8 = k div 8")
    case True
    then have "k mod 8 \<noteq> j mod 8" using that by (metis div_mult_mod_eq)
    then show ?thesis using True dinode_roundtrip by (simp add: node_def s'_def)
  qed (simp add: node_def s'_def)
  ultimately show thesis by (intro that [of s']) (use len in \<open>simp_all add: s'_def\<close>)
qed

text \<open>The data is all from block 29 on, and of an inode only the addresses matter.\<close>

lemma holds_cong:
  assumes h: "holds D fb F fc I" and D: "\<And>b. 29 \<le> b \<Longrightarrow> D' b = D b" and F: "\<And>j m. j \<in> I \<Longrightarrow> m < 13 \<Longrightarrow> di_addrs (F' j) m = di_addrs (F j) m"
  shows "holds D' fb F' fc I"
proof -
  let ?U = "\<lambda>i. slots (length (fc i))"
  have o: "owned D fb F ?U I" using h by (simp add: holds_def)
  have ad: "din_addr D' (F' j) m = din_addr D (F j) m" if "j \<in> I" for j m
  proof (cases "di_addrs (F j) 12 = 0")
    case False
    then have "12 \<in> ?U j" using ownedD(1) [OF o that, of 12] by (simp add: din_addr_def unat_eq_zero)
    then show ?thesis using ownedD(2) [OF o that, of 12] F [OF that] D by (simp add: din_addr_def)
  qed (use F that in \<open>simp add: din_addr_def\<close>)
  have "owned D' fb F' ?U I" using o D unfolding owned_def by (simp add: ad)
  moreover have "fbyte D' (F' j) p = fbyte D (F j) p" if "j \<in> I" "p < length (fc j)" for j p
  proof -
    have "p < 140 * 512" using h that by (fastforce simp: holds_def)
    then have "p div 512 < 140" "p div 512 * 512 < length (fc j)" using that by linarith+
    then have "data_slot (p div 512) \<in> ?U j" using data_slot_slots by simp
    then show ?thesis using ownedD(2) [OF o that(1)] ad [OF that(1)] D by (simp add: fbyte_def Let_def)
  qed
  ultimately show ?thesis using h unfolding holds_def by auto
qed

text \<open>The state of the builder between two files: the inodes \<open>1\<close> to \<open>n - 1\<close> are in use, with types \<open>ty\<close> and contents \<open>fc\<close>.\<close>

definition fs_inv :: "mkfs \<Rightarrow> (nat \<Rightarrow> uint16) \<Rightarrow> (nat \<Rightarrow> uint8 list) \<Rightarrow> nat \<Rightarrow> bool" where
  "fs_inv s ty fc n \<longleftrightarrow> holds (img s) (unat (freeblock s)) (node s) fc {1..<n} \<and> 1 \<le> n \<and> n \<le> 208 \<and> freeinode s = of_nat n
     \<and> img_len s = 1024 \<and> usedblocks s = freeblock s \<and> img s 1 = super_bytes
     \<and> (\<forall>k\<in>{1..<n}. di_size (node s k) = of_nat (length (fc k)) \<and> di_type (node s k) = ty k \<and> di_nlink (node s k) = 1)
     \<and> unat (freeblock s) = 29 + (\<Sum>k\<in>{1..<n}. nblk (length (fc k)))"

lemma iappend_spec:
  assumes f: "fs_inv s ty fc n" and k: "1 \<le> k" "k < n" and p: "length (fc k) + length p \<le> 140 * 512"
    and fb: "unat (freeblock s) + nblk (length (fc k) + length p) \<le> 1024 + nblk (length (fc k))"
  shows "\<exists>s'. iappend (of_nat k) p s = Ok () s' \<and> fs_inv s' ty (fc(k := fc k @ p)) n"
proof -
  let ?I = "{1..<n}"
  have h: "holds (img s) (unat (freeblock s)) (node s) fc ?I" and len: "img_len s = 1024" and n: "n \<le> 208" using f by (auto simp: fs_inv_def)
  have kI: "k \<in> ?I" and k8: "k < 208" using k n by auto
  have sz: "unat (di_size (node s k)) = length (fc k)" using f kI p by (auto simp: fs_inv_def unat_of_nat_uint)
  obtain din1 s1 where L: "iappend_loop p (length (fc k)) (node s k) s = Ok (length (fc k) + length p, din1) s1"
    and h1: "holds (img s1) (unat (freeblock s1)) ((node s)(k := din1)) (fc(k := fc k @ p)) ?I" and kp: "kept s s1"
    and fb1: "unat (freeblock s1) + nblk (length (fc k)) = unat (freeblock s) + nblk (length (fc k) + length p)"
    and d: "din1 = (node s k)\<lparr>di_addrs := di_addrs din1\<rparr>"
    using iappend_loop_spec [OF h kI len p fb] by blast
  have nd: "node s1 j = node s j" if "j < 208" for j using kp that by (simp add: node_def kept_def less_mult_imp_div_less)
  have len1: "img_len s1 = 1024" using kp len by (simp add: kept_def)
  let ?d = "din1\<lparr>di_size := of_nat (length (fc k) + length p)\<rparr>"
  obtain s2 where w: "winode (of_nat k) ?d s1 = Ok () s2" and w2: "\<And>b. b \<noteq> k div 8 + 2 \<Longrightarrow> img s2 b = img s1 b"
    "node s2 k = ?d\<lparr>di_addrs := \<lambda>m. if m < 13 then di_addrs ?d m else 0\<rparr>" "\<And>j. j \<noteq> k \<Longrightarrow> node s2 j = node s1 j"
    "img_len s2 = 1024" "freeblock s2 = freeblock s1" "usedblocks s2 = usedblocks s1" "freeinode s2 = freeinode s1"
    by (rule winode_node [OF k8 len1, where d = ?d]) (rule that; assumption)
  have "iappend (of_nat k) p s = Ok () s2"
    using rinode_node [OF k8 len] sz L w by (simp add: iappend_def)
  moreover have "holds (img s2) (unat (freeblock s2)) (node s2) (fc(k := fc k @ p)) ?I" unfolding w2(5)
    by (rule holds_cong [OF h1]) (use k8 w2(1-3) nd n in auto)
  moreover have "di_size (node s2 j) = of_nat (length ((fc(k := fc k @ p)) j)) \<and> di_type (node s2 j) = ty j \<and> di_nlink (node s2 j) = 1"
    if "j \<in> ?I" for j
  proof (cases "j = k")
    case True
    have "di_type din1 = di_type (node s k)" "di_nlink din1 = di_nlink (node s k)" by (subst d, simp)+
    then show ?thesis using True f kI w2(2) by (simp add: fs_inv_def)
  next
    case False
    then show ?thesis using f that w2(3) nd n by (auto simp: fs_inv_def)
  qed
  moreover have "unat (freeblock s2) = 29 + (\<Sum>j\<in>?I. nblk (length ((fc(k := fc k @ p)) j)))"
  proof -
    have "(\<Sum>j\<in>?I - {k}. nblk (length ((fc(k := fc k @ p)) j))) = (\<Sum>j\<in>?I - {k}. nblk (length (fc j)))" by (rule sum.cong) auto
    then show ?thesis using f fb1 w2(5) kI sum.remove [of ?I k "\<lambda>j. nblk (length (fc j))"]
      sum.remove [of ?I k "\<lambda>j. nblk (length ((fc(k := fc k @ p)) j))"] by (simp add: fs_inv_def)
  qed
  moreover have "img s2 1 = super_bytes" "usedblocks s2 = freeblock s2" "freeinode s2 = of_nat n"
    using f kp w2 by (auto simp: fs_inv_def kept_def)
  ultimately show ?thesis using f w2(4) by (auto simp: fs_inv_def)
qed

end
