(* ===== verification/Mkfs_Image.thy ===== *)
theory Mkfs_Image
  imports Mkfs_Props
begin

text \<open>The whole run of \<^verbatim>\<open>mkfs\<close>: the image has the super block, every file of the command line with its contents, a root
  directory that names them, and a bitmap that marks exactly the blocks handed out.\<close>

section \<open>New inodes and whole files\<close>

lemma holds_new:
  assumes h: "holds D fb F fc I" and n: "n \<notin> I" and z: "\<And>m. di_addrs (F n) m = 0"
  shows "holds D fb F (fc(n := [])) (insert n I)"
proof -
  let ?U = "\<lambda>i. slots (length ((fc(n := [])) i))"
  have o: "owned D fb F (\<lambda>i. slots (length (fc i))) I" using h by (simp add: holds_def)
  have U: "?U n = {}" "\<And>j. j \<in> I \<Longrightarrow> ?U j = slots (length (fc j))" using n by (auto simp: slots_def)
  have b: "29 \<le> fb" "fb \<le> 1024" "\<And>b. fb \<le> b \<Longrightarrow> D b = (\<lambda>_. 0)" using o unfolding owned_def by blast+
  have zn: "din_addr D (F n) m = 0" for m by (simp add: din_addr_def z)
  have "owned D fb F ?U (insert n I)" unfolding owned_def
  proof (intro conjI ballI allI impI)
    fix j and m :: nat assume "j \<in> insert n I" "m < 141"
    then show "din_addr D (F j) m \<noteq> 0 \<longleftrightarrow> m \<in> ?U j" "m \<in> ?U j \<Longrightarrow> 29 \<le> din_addr D (F j) m" "m \<in> ?U j \<Longrightarrow> din_addr D (F j) m < fb"
      using U zn ownedD(1,2) [OF o, of j m] by auto
  next
    fix j j' m m' assume "j \<in> insert n I" "j' \<in> insert n I" "m \<in> ?U j" "m' \<in> ?U j'" "din_addr D (F j) m = din_addr D (F j') m'"
    moreover have "j \<noteq> n" "j' \<noteq> n" using calculation U(1) by auto
    ultimately show "j = j'" "m = m'" using U(2) ownedD(3) [OF o, of j j' m m'] by auto
  qed (use b in \<open>auto simp: slots_def\<close>)
  then show ?thesis using h n by (auto simp: holds_def)
qed

lemma mk_ialloc_spec:
  assumes f: "fs_inv s ty fc n" and n: "n < 208"
  shows "\<exists>s'. mk_ialloc t s = Ok (of_nat n) s' \<and> fs_inv s' (ty(n := t)) (fc(n := [])) (Suc n)"
proof -
  let ?s = "s\<lparr>freeinode := freeinode s + 1\<rparr>"
  let ?d = "\<lparr>di_type = t, di_major = 0, di_minor = 0, di_nlink = 1, di_size = 0, di_addrs = (\<lambda>_. 0)\<rparr>"
  have len: "img_len ?s = 1024" and h: "holds (img s) (unat (freeblock s)) (node s) fc {1..<n}" and n1: "1 \<le> n"
    using f by (auto simp: fs_inv_def)
  obtain s2 where w: "winode (of_nat n) ?d ?s = Ok () s2" and w2: "\<And>b. b \<noteq> n div 8 + 2 \<Longrightarrow> img s2 b = img ?s b"
    "node s2 n = ?d\<lparr>di_addrs := \<lambda>m. if m < 13 then di_addrs ?d m else 0\<rparr>" "\<And>j. j \<noteq> n \<Longrightarrow> node s2 j = node ?s j"
    "img_len s2 = 1024" "freeblock s2 = freeblock ?s" "usedblocks s2 = usedblocks ?s" "freeinode s2 = freeinode ?s"
    by (rule winode_node [OF n len, where d = ?d]) (rule that; assumption)
  have nd: "node ?s j = node s j" for j by (simp add: node_def)
  have "mk_ialloc t s = Ok (of_nat n) s2" using f w by (simp add: mk_ialloc_def fs_inv_def)
  moreover have "holds (img s2) (unat (freeblock s)) (node s2) fc {1..<n}"
    by (rule holds_cong [OF h]) (use w2(1,3) nd n in auto)
  then have "holds (img s2) (unat (freeblock s2)) (node s2) (fc(n := [])) {1..<Suc n}"
    using holds_new [of "img s2" "unat (freeblock s2)" "node s2" fc "{1..<n}" n] w2(2,5) n1
    by (auto simp: atLeastLessThanSuc)
  moreover have "(\<Sum>k\<in>{1..<Suc n}. nblk (length ((fc(n := [])) k))) = (\<Sum>k\<in>{1..<n}. nblk (length (fc k)))"
  proof -
    have "(\<Sum>k\<in>{1..<n}. nblk (length ((fc(n := [])) k))) = (\<Sum>k\<in>{1..<n}. nblk (length (fc k)))" by (rule sum.cong) auto
    then show ?thesis using n1 by (simp add: nblk_def)
  qed
  ultimately show ?thesis using f w2 nd n by (auto simp: fs_inv_def less_Suc_eq)
qed

text \<open>The blocks in use when the files up to inode \<open>n - 1\<close> have the contents \<open>fc\<close>.\<close>

definition blocks_of :: "(nat \<Rightarrow> uint8 list) \<Rightarrow> nat \<Rightarrow> nat" where
  "blocks_of fc n = 29 + (\<Sum>k\<in>{1..<n}. nblk (length (fc k)))"

lemma nblk_mono: "a \<le> b \<Longrightarrow> nblk a \<le> nblk b"
  unfolding nblk_def by (intro add_mono div_le_mono) auto

lemma blocks_of_mono:
  assumes "n \<le> n'" "\<And>k. 1 \<le> k \<Longrightarrow> k < n \<Longrightarrow> length (fc k) \<le> length (fc' k)"
  shows "blocks_of fc n \<le> blocks_of fc' n'"
proof -
  have "(\<Sum>k\<in>{1..<n}. nblk (length (fc k))) \<le> (\<Sum>k\<in>{1..<n}. nblk (length (fc' k)))" by (rule sum_mono) (use assms(2) nblk_mono in auto)
  also have "\<dots> \<le> (\<Sum>k\<in>{1..<n'}. nblk (length (fc' k)))" by (rule sum_mono2) (use assms(1) in auto)
  finally show ?thesis by (simp add: blocks_of_def)
qed

lemma blocks_of_upd:
  assumes "1 \<le> k" "k < n"
  shows "blocks_of (fc(k := x)) n + nblk (length (fc k)) = blocks_of fc n + nblk (length x)"
proof -
  have "(\<Sum>j\<in>{1..<n} - {k}. nblk (length ((fc(k := x)) j))) = (\<Sum>j\<in>{1..<n} - {k}. nblk (length (fc j)))" by (rule sum.cong) auto
  then show ?thesis using assms sum.remove [of "{1..<n}" k "\<lambda>j. nblk (length (fc j))"]
    sum.remove [of "{1..<n}" k "\<lambda>j. nblk (length ((fc(k := x)) j))"] by (simp add: blocks_of_def)
qed

lemma iappend_fits:
  assumes f: "fs_inv s ty fc n" and k: "1 \<le> k" "k < n" and p: "length (fc k) + length p \<le> 140 * 512"
    and fb: "blocks_of (fc(k := fc k @ p)) n \<le> 1024"
  shows "\<exists>s'. iappend (of_nat k) p s = Ok () s' \<and> fs_inv s' ty (fc(k := fc k @ p)) n"
  by (rule iappend_spec [OF f k p]) (use f fb blocks_of_upd [OF k, of fc "fc k @ p"] in \<open>simp add: fs_inv_def blocks_of_def\<close>)

declare append_file.simps [simp del]

lemma append_file_spec:
  assumes "fs_inv s ty fc n" "1 \<le> k" "k < n" "length (fc k) + length data \<le> 140 * 512" "blocks_of (fc(k := fc k @ data)) n \<le> 1024"
  shows "\<exists>s'. append_file (of_nat k) data s = Ok () s' \<and> fs_inv s' ty (fc(k := fc k @ data)) n"
  using assms
proof (induction "length data" arbitrary: data fc s rule: less_induct)
  case less
  show ?case
  proof (cases "data = []")
    case True
    then show ?thesis using less(2) by (simp add: append_file.simps)
  next
    case False
    let ?fc = "fc(k := fc k @ take 512 data)"
    have "blocks_of ?fc n \<le> blocks_of (fc(k := fc k @ data)) n" by (rule blocks_of_mono) auto
    moreover have "length (fc k) + length (take 512 data) \<le> 140 * 512" using less(5) by (simp add: min_def)
    ultimately obtain s1 where s1: "iappend (of_nat k) (take 512 data) s = Ok () s1" "fs_inv s1 ty ?fc n"
      using iappend_fits [OF less(2,3,4), of "take 512 data"] less(5,6) by auto
    have "length (drop 512 data) < length data" using False by simp
    then have "\<exists>s'. append_file (of_nat k) (drop 512 data) s1 = Ok () s' \<and> fs_inv s' ty (?fc(k := ?fc k @ drop 512 data)) n"
      by (rule less(1) [OF _ s1(2) less(3,4)]) (use less(5,6) in \<open>auto simp: append_assoc [symmetric]\<close>)
    then show ?thesis using False s1(1) by (simp add: append_file.simps [of _ data])
  qed
qed

section \<open>The files of the command line\<close>

definition dirent_bytes :: "nat \<Rightarrow> uint8 list \<Rightarrow> uint8 list" where
  "dirent_bytes inum name = map (put_dirent \<lparr>de_inum = of_nat inum, de_name = list_field name\<rparr>) [0..<16]"

text \<open>The name under which a file is stored: without a leading underscore.\<close>

definition stored_name :: "uint8 list \<Rightarrow> uint8 list" where
  "stored_name name = (if name \<noteq> [] \<and> hd name = 95 then tl name else name)"

fun entries :: "nat \<Rightarrow> (uint8 list \<times> uint8 list option) list \<Rightarrow> uint8 list" where
  "entries n [] = []"
| "entries n (f # fs) = dirent_bytes n (stored_name (fst f)) @ entries (Suc n) fs"

definition with_files :: "nat \<Rightarrow> (uint8 list \<times> uint8 list option) list \<Rightarrow> (nat \<Rightarrow> uint8 list) \<Rightarrow> nat \<Rightarrow> uint8 list" where
  "with_files n fs fc = (\<lambda>k. if k = 1 then fc 1 @ entries n fs
     else if n \<le> k \<and> k < n + length fs then the (snd (fs ! (k - n))) else fc k)"

definition file_ok :: "uint8 list \<times> uint8 list option \<Rightarrow> bool" where
  "file_ok f \<longleftrightarrow> 47 \<notin> set (fst f) \<and> (case snd f of None \<Rightarrow> False | Some data \<Rightarrow> length data \<le> MAXFILE * BSIZE)"

lemma dirent_length [simp]: "length (dirent_bytes n name) = 16" "length (entries n fs) = 16 * length fs"
  by (simp add: dirent_bytes_def, induction fs arbitrary: n) (auto simp: dirent_bytes_def)

lemma append_dirent_spec:
  assumes "fs_inv s ty fc n" "1 < n" "length (fc 1) + 16 \<le> 140 * 512" "blocks_of (fc(1 := fc 1 @ dirent_bytes k name)) n \<le> 1024" "k < 208"
  shows "\<exists>s'. append_dirent 1 (of_nat k) name s = Ok () s' \<and> fs_inv s' ty (fc(1 := fc 1 @ dirent_bytes k name)) n"
proof -
  have "(ucast (of_nat k :: uint) :: uint16) = of_nat k" using assms(5) by (simp add: unsigned_of_nat take_bit_nat_eq_self)
  then have "append_dirent 1 (of_nat k) name s = iappend (of_nat 1) (dirent_bytes k name) s"
    by (simp add: append_dirent_def dirent_bytes_def layout_numbers)
  then show ?thesis using iappend_fits [OF assms(1) le_refl assms(2), of "dirent_bytes k name"] assms(3,4) by simp
qed

lemma with_files_step:
  assumes "2 \<le> n"
  shows "with_files (Suc n) fs (fc(n := the (snd f), 1 := fc 1 @ dirent_bytes n (stored_name (fst f)))) = with_files n (f # fs) fc"
  using assms by (auto simp: with_files_def fun_eq_iff nth_Cons' Suc_le_eq)

lemma with_files_ge: "k < n \<Longrightarrow> length (fc k) \<le> length (with_files n fs fc k)"
  by (simp add: with_files_def)

lemma mkfs_files_spec:
  assumes "fs_inv s ty fc n" "2 \<le> n" "n + length fs \<le> 208" "\<forall>f\<in>set fs. file_ok f" "length (fc 1) + 16 * length fs \<le> 140 * 512"
    "blocks_of (with_files n fs fc) (n + length fs) \<le> 1024"
  shows "\<exists>s'. mkfs_files 1 fs s = Ok () s' \<and> fs_inv s' (\<lambda>k. if n \<le> k then 2 else ty k) (with_files n fs fc) (n + length fs)"
  using assms
proof (induction fs arbitrary: s ty fc n)
  case Nil
  have "with_files n [] fc = fc" by (auto simp: with_files_def fun_eq_iff)
  then have "fs_inv s (\<lambda>k. if n \<le> k then 2 else ty k) (with_files n [] fc) n" using Nil(1) by (auto simp: fs_inv_def)
  then show ?case by simp
next
  case (Cons f fs)
  obtain name contents where f: "f = (name, contents)" by fastforce
  obtain data where d: "contents = Some data" "47 \<notin> set name" "length data \<le> 140 * 512"
    using Cons(5) f by (auto simp: file_ok_def layout_numbers BSIZE_def split: option.splits)
  let ?nm = "stored_name name"
  let ?fc1 = "fc(n := [])" let ?fc2 = "?fc1(1 := ?fc1 1 @ dirent_bytes n ?nm)" let ?fc3 = "?fc2(n := ?fc2 n @ data)"
  have w: "with_files n (f # fs) fc = with_files (Suc n) fs ?fc3"
    using with_files_step [OF Cons(3), of fs fc f] Cons(3) f d by (simp add: fun_upd_twist)
  have b: "blocks_of fc' (Suc n) \<le> 1024" if "\<And>k. 1 \<le> k \<Longrightarrow> k < Suc n \<Longrightarrow> length (fc' k) \<le> length (?fc3 k)" for fc'
  proof (rule order_trans [OF blocks_of_mono Cons(7)])
    fix k assume k: "1 \<le> k" "k < Suc n"
    show "length (fc' k) \<le> length (with_files n (f # fs) fc k)"
      unfolding w using order_trans [OF that [OF k] with_files_ge [OF k(2), of ?fc3 fs]] .
  qed simp
  obtain s1 where s1: "mk_ialloc 2 s = Ok (of_nat n) s1" "fs_inv s1 (ty(n := 2)) ?fc1 (Suc n)"
    using mk_ialloc_spec [OF Cons(2), of 2] Cons(4) by auto
  obtain s2 where s2: "append_dirent 1 (of_nat n) ?nm s1 = Ok () s2" "fs_inv s2 (ty(n := 2)) ?fc2 (Suc n)"
    using append_dirent_spec [OF s1(2), of n ?nm] b [of ?fc2] Cons(3,4,6) by auto
  obtain s3 where s3: "append_file (of_nat n) data s2 = Ok () s3" "fs_inv s3 (ty(n := 2)) ?fc3 (Suc n)"
    using append_file_spec [OF s2(2), of n data] b [of ?fc3] Cons(3) d by auto
  have b3: "blocks_of (with_files (Suc n) fs ?fc3) (Suc n + length fs) \<le> 1024" using Cons(7) unfolding w by simp
  have t: "(\<lambda>k. if Suc n \<le> k then 2 else (ty(n := 2)) k) = (\<lambda>k. if n \<le> k then 2 else ty k)" by (auto simp: fun_eq_iff)
  have "\<exists>s'. mkfs_files 1 fs s3 = Ok () s' \<and> fs_inv s' (\<lambda>k. if Suc n \<le> k then 2 else (ty(n := 2)) k) (with_files (Suc n) fs ?fc3) (Suc n + length fs)"
    by (rule Cons(1) [OF s3(2) _ _ _ _ b3]) (use Cons(3-6) in simp_all)
  then show ?case unfolding t w using f d s1(1) s2(1) s3(1) by (simp add: stored_name_def Let_def)
qed

section \<open>The run\<close>

lemma zero_blocks:
  assumes "img s = (\<lambda>_ _. 0)" "img_len s = 0" "n \<le> 1024"
  shows "fold (\<lambda>i. wsect (of_nat i) (\<lambda>_. 0)) [0..<n] s = s\<lparr>img_len := n\<rparr>"
  using assms(3)
proof (induction n)
  case 0
  then show ?case using assms(2) by (cases s) simp
next
  case (Suc n)
  then show ?case using assms(1) by (cases s) (simp add: wsect_def unat_of_nat_uint fun_upd_idem)
qed

lemma mkfs_start_inv:
  "fs_inv (wsect 1 super_bytes (mkfs_start\<lparr>img_len := 1024\<rparr>)) ty fc 1"
  by (simp add: fs_inv_def holds_def owned_def wsect_def mkfs_start_def Let_def layout_numbers mkfs_ninodes_def mkfs_size_def)

lemma used_bits_bit:
  assumes "b < 4096"
  shows "bit (used_bits n (b div 8)) (b mod 8) \<longleftrightarrow> b < n"
proof (induction n)
  case (Suc n)
  have e: "used_bits (Suc n) = (used_bits n)(n div 8 := used_bits n (n div 8) OR push_bit (n mod 8) 1)" by (simp add: used_bits_def)
  have "bit (push_bit (n mod 8) (1::uint8)) (b mod 8) \<longleftrightarrow> n mod 8 = b mod 8" by (auto simp: bit_exp_iff)
  moreover have "n = b \<longleftrightarrow> n div 8 = b div 8 \<and> n mod 8 = b mod 8" by (metis div_mult_mod_eq)
  ultimately show ?case using Suc unfolding e by (auto simp: bit_or_iff less_Suc_eq)
qed (simp add: used_bits_def)

text \<open>What the kernel finds in an image: a file with its type and contents, and that no block serves two purposes.\<close>

definition has_file :: "mkfs \<Rightarrow> nat \<Rightarrow> uint16 \<Rightarrow> uint8 list \<Rightarrow> bool" where
  "has_file s k t data \<longleftrightarrow> di_type (node s k) = t \<and> di_nlink (node s k) = 1 \<and> unat (di_size (node s k)) = length data
     \<and> (\<forall>p < length data. fbyte (img s) (node s k) p = data ! p)"

definition disjoint_blocks :: "mkfs \<Rightarrow> nat \<Rightarrow> nat \<Rightarrow> bool" where
  "disjoint_blocks s n fb \<longleftrightarrow> (\<forall>i\<in>{1..<n}. \<forall>m<141. din_addr (img s) (node s i) m \<noteq> 0 \<longrightarrow>
     29 \<le> din_addr (img s) (node s i) m \<and> din_addr (img s) (node s i) m < fb
     \<and> (\<forall>j\<in>{1..<n}. \<forall>m'<141. din_addr (img s) (node s i) m = din_addr (img s) (node s j) m' \<longrightarrow> i = j \<and> m = m'))"

lemma holds_disjoint: "holds (img s) fb (node s) fc {1..<n} \<Longrightarrow> disjoint_blocks s n fb"
proof -
  assume "holds (img s) fb (node s) fc {1..<n}"
  then have o: "owned (img s) fb (node s) (\<lambda>i. slots (length (fc i))) {1..<n}" by (simp add: holds_def)
  have "m \<in> slots (length (fc i))" if "i \<in> {1..<n}" "m < 141" "din_addr (img s) (node s i) m \<noteq> 0" for i m
    using ownedD(1) [OF o that(1,2)] that(3) by blast
  then show ?thesis using ownedD(2,3) [OF o] unfolding disjoint_blocks_def by metis
qed

lemma entries_nth:
  "j < length fs \<Longrightarrow> q < 16 \<Longrightarrow> entries n fs ! (16 * j + q) = put_dirent \<lparr>de_inum = of_nat (n + j), de_name = list_field (stored_name (fst (fs ! j)))\<rparr> q"
proof (induction fs arbitrary: n j)
  case (Cons f fs)
  show ?case
  proof (cases j)
    case 0
    then show ?thesis using Cons(3) by (simp add: nth_append dirent_bytes_def)
  next
    case (Suc i)
    then show ?thesis using Cons by (simp add: nth_append add.assoc)
  qed
qed simp

definition dots :: "uint8 list" where
  "dots = dirent_bytes 1 [46] @ dirent_bytes 1 [46, 46]"

text \<open>The number of blocks in use at the end: metadata, root directory and files.\<close>

definition used_by :: "(uint8 list \<times> uint8 list option) list \<Rightarrow> nat" where
  "used_by files = 29 + nblk (16 * (2 + length files)) + (\<Sum>f\<leftarrow>files. nblk (length (the (snd f))))"

abbreviation image_files :: "(uint8 list \<times> uint8 list option) list \<Rightarrow> nat \<Rightarrow> uint8 list" where
  "image_files files \<equiv> with_files 2 files ((\<lambda>_. [])(1 := dots))"

lemma used_by_blocks: "blocks_of (image_files files) (2 + length files) = used_by files"
proof -
  have "(\<Sum>k\<in>{2..<2 + length files}. nblk (length (image_files files k))) = (\<Sum>k\<in>{0..<length files}. nblk (length (the (snd (files ! k)))))"
    by (rule sum.reindex_bij_witness [of _ "\<lambda>k. k + 2" "\<lambda>k. k - 2"]) (auto simp: with_files_def)
  then have "(\<Sum>k\<in>{2..<2 + length files}. nblk (length (image_files files k))) = (\<Sum>f\<leftarrow>files. nblk (length (the (snd f))))"
    by (simp add: sum_list_sum_nth)
  moreover have "{1..<2 + length files} = insert 1 {2..<2 + length files}" by auto
  ultimately show ?thesis by (simp add: blocks_of_def used_by_def with_files_def dots_def)
qed

text \<open>The state before the size of the root directory is rounded.\<close>

lemma mkfs_before_fix:
  assumes "\<forall>f\<in>set files. file_ok f" "length files \<le> 198" "used_by files \<le> 1024"
  shows "\<exists>s. fs_inv s (\<lambda>k. if 2 \<le> k then 2 else 1) (image_files files) (2 + length files)
     \<and> mkfs_main files = andthen (fix_root 1 s) (\<lambda>_ s6. mk_balloc (unat (usedblocks s6)) s6)"
proof -
  let ?s1 = "wsect 1 super_bytes (mkfs_start\<lparr>img_len := 1024\<rparr>)" and ?f0 = "\<lambda>_::nat. [] :: uint8 list"
  have st: "fold (\<lambda>i. wsect (of_nat i) (\<lambda>_. 0)) [0..<1024] mkfs_start = mkfs_start\<lparr>img_len := 1024\<rparr>"
    by (rule zero_blocks) (simp_all add: mkfs_start_def Let_def)
  have tot: "mkfs_nblocks + unat (usedblocks mkfs_start) + mkfs_nlog = 1024"
    by (simp add: mkfs_start_def Let_def layout_numbers mkfs_nblocks_def mkfs_nlog_def mkfs_ninodes_def mkfs_size_def)
  have b: "blocks_of fc 2 \<le> 1024" if "length (fc 1) \<le> 32" for fc
    by (rule order_trans [OF blocks_of_mono, of 2 "2 + length files" fc "image_files files"])
      (use that assms(3) used_by_blocks [of files] in \<open>auto simp: with_files_def dots_def less_2_cases_iff\<close>)
  obtain s2 where s2: "mk_ialloc 1 ?s1 = Ok 1 s2" "fs_inv s2 (\<lambda>_. 1) ?f0 2"
    using mk_ialloc_spec [OF mkfs_start_inv, of 1 "\<lambda>_. 1" ?f0] by (auto simp: fun_upd_idem numeral_2_eq_2)
  obtain s3 where s3: "append_dirent 1 1 [46] s2 = Ok () s3" "fs_inv s3 (\<lambda>_. 1) (?f0(1 := dirent_bytes 1 [46])) 2"
    using append_dirent_spec [OF s2(2), of 1 "[46]"] b by auto
  obtain s4 where s4: "append_dirent 1 1 [46, 46] s3 = Ok () s4" "fs_inv s4 (\<lambda>_. 1) (?f0(1 := dots)) 2"
    using append_dirent_spec [OF s3(2), of 1 "[46, 46]"] b by (auto simp: dots_def)
  obtain s5 where s5: "mkfs_files 1 files s4 = Ok () s5" "fs_inv s5 (\<lambda>k. if 2 \<le> k then 2 else 1) (image_files files) (2 + length files)"
    using mkfs_files_spec [OF s4(2), of files] assms used_by_blocks [of files] by (auto simp: dots_def)
  have "mkfs_main files = andthen (fix_root 1 s5) (\<lambda>_ s6. mk_balloc (unat (usedblocks s6)) s6)"
    unfolding mkfs_main_def Let_def tot st using s2(1) s3(1) s4(1) s5(1) by (simp add: mkfs_size_def ROOTINO_def)
  then show ?thesis using s5(2) by blast
qed

lemma mkfs_end:
  assumes f: "fs_inv s ty fc n" and n: "1 < n" "n \<le> 200"
  shows "\<exists>s'. andthen (fix_root 1 s) (\<lambda>_ s6. mk_balloc (unat (usedblocks s6)) s6) = Ok () s'
     \<and> holds (img s') (unat (freeblock s)) (node s') fc {1..<n} \<and> img s' 1 = super_bytes \<and> img s' 28 = used_bits (unat (freeblock s))
     \<and> (\<forall>k\<in>{2..<n}. node s' k = node s k) \<and> di_type (node s' 1) = ty 1 \<and> di_nlink (node s' 1) = 1
     \<and> unat (di_size (node s' 1)) = (length (fc 1) div 512 + 1) * 512"
proof -
  let ?sz = "(length (fc 1) div 512 + 1) * 512" let ?d = "(node s 1)\<lparr>di_size := of_nat ?sz\<rparr>"
  have h: "holds (img s) (unat (freeblock s)) (node s) fc {1..<n}" and len: "img_len s = 1024" and u: "usedblocks s = freeblock s"
    and i1: "di_size (node s 1) = of_nat (length (fc 1))" "di_type (node s 1) = ty 1" "di_nlink (node s 1) = 1"
    using f n by (auto simp: fs_inv_def)
  have l1: "length (fc 1) \<le> 140 * 512" and fb: "unat (freeblock s) \<le> 1024" using h n by (auto simp: holds_def owned_def)
  have k8: "(1::nat) < 208" by simp
  have sz: "unat (di_size (node s 1)) = length (fc 1)" using i1(1) l1 by (simp add: unat_of_nat_uint)
  obtain s2 where w: "winode (of_nat 1) ?d s = Ok () s2" and w2: "\<And>b. b \<noteq> 1 div 8 + 2 \<Longrightarrow> img s2 b = img s b"
    "node s2 1 = ?d\<lparr>di_addrs := \<lambda>m. if m < 13 then di_addrs ?d m else 0\<rparr>" "\<And>j. j \<noteq> 1 \<Longrightarrow> node s2 j = node s j"
    "img_len s2 = 1024" "freeblock s2 = freeblock s" "usedblocks s2 = usedblocks s"
    by (rule winode_node [OF k8 len, where d = ?d]) (rule that; assumption)
  let ?s3 = "wsect 28 (used_bits (unat (freeblock s))) s2"
  have "fix_root 1 s = Ok () s2" using rinode_node [of 1 s] len sz w by (simp add: fix_root_def BSIZE_def)
  then have "andthen (fix_root 1 s) (\<lambda>_ s6. mk_balloc (unat (usedblocks s6)) s6) = Ok () ?s3"
    using fb u w2(6) by (simp add: mk_balloc_def layout_numbers mkfs_ninodes_def)
  moreover have nd: "node ?s3 j = node s2 j" if "j < 200" for j
  proof -
    have "j div 8 + 2 \<noteq> 28" using that by linarith
    then show ?thesis by (simp add: node_def wsect_def)
  qed
  moreover have "holds (img ?s3) (unat (freeblock s)) (node ?s3) fc {1..<n}"
  proof (rule holds_cong [OF h])
    fix j m :: nat assume "j \<in> {1..<n}" "m < 13"
    then show "di_addrs (node ?s3 j) m = di_addrs (node s j) m" using nd [of j] n w2(2,3) by (cases "j = 1") auto
  qed (use w2(1) in \<open>simp add: wsect_def\<close>)
  moreover have "img ?s3 1 = super_bytes" "img ?s3 28 = used_bits (unat (freeblock s))"
    using f w2(1) by (simp_all add: fs_inv_def wsect_def)
  moreover have "unat (of_nat ?sz :: uint) = ?sz" by (rule unat_of_nat_uint) (use l1 div_le_mono [of "length (fc 1)" "140 * 512" 512] in simp)
  ultimately show ?thesis using n w2(2,3) i1(2,3) by auto
qed

text \<open>The entries of the root directory.\<close>

definition root_entry :: "(uint8 list \<times> uint8 list option) list \<Rightarrow> nat \<Rightarrow> dirent" where
  "root_entry files j = \<lparr>de_inum = of_nat (if j < 2 then 1 else j),
     de_name = list_field (if j = 0 then [46] else if j = 1 then [46, 46] else stored_name (fst (files ! (j - 2))))\<rparr>"

lemma root_bytes:
  assumes "j < 2 + length files" "q < 16"
  shows "image_files files 1 ! (16 * j + q) = put_dirent (root_entry files j) q"
proof -
  note defs = with_files_def dots_def nth_append dirent_bytes_def root_entry_def
  show ?thesis
  proof (cases "2 \<le> j")
    case True
    then obtain i where i: "j = i + 2" "i < length files" using assms(1) by (metis add.commute le_Suc_ex nat_add_left_cancel_less)
    then show ?thesis using entries_nth [of i files q 2] assms(2) by (simp add: defs add.commute)
  next
    case False
    then have "j = 0 \<or> j = 1" by linarith
    then show ?thesis using assms(2) by (auto simp: defs)
  qed
qed

lemma list_field_cut: "(\<lambda>i. if i < DIRSIZ then list_field name i else 0) = list_field name"
  by (auto simp: list_field_def fun_eq_iff)

lemma root_dirent:
  assumes "\<And>p. p < 16 * (2 + length files) \<Longrightarrow> d p = image_files files 1 ! p" "j < 2 + length files"
  shows "get_dirent (\<lambda>q. d (16 * j + q)) = root_entry files j"
proof -
  have "d (16 * j + q) = put_dirent (root_entry files j) q" if "q < 16" for q
    using assms(1) [of "16 * j + q"] root_bytes [OF assms(2) that] assms(2) that by simp
  then have "get_dirent (\<lambda>q. d (16 * j + q)) = get_dirent (put_dirent (root_entry files j))"
    by (intro get_dirent_cong) (simp add: layout_numbers)
  then show ?thesis by (simp add: dirent_roundtrip root_entry_def list_field_cut cong: if_cong)
qed

lemma mkfs_image:
  assumes "\<forall>f\<in>set files. file_ok f" "length files \<le> 198" "used_by files \<le> 1024"
  shows "\<exists>s. mkfs_main files = Ok () s
     \<and> get_superblock (img s 1) = \<lparr>sb_size = 1024, sb_nblocks = 985, sb_ninodes = 200, sb_nlog = 10\<rparr>
     \<and> (\<forall>k < length files. has_file s (k + 2) 2 (the (snd (files ! k))))
     \<and> di_type (node s 1) = 1 \<and> unat (di_size (node s 1)) = (16 * (2 + length files) div 512 + 1) * 512
     \<and> (\<forall>j < 2 + length files. get_dirent (\<lambda>q. fbyte (img s) (node s 1) (16 * j + q)) = root_entry files j)
     \<and> disjoint_blocks s (2 + length files) (used_by files)
     \<and> (\<forall>b < 4096. bit (img s 28 (b div 8)) (b mod 8) \<longleftrightarrow> b < used_by files)
     \<and> (\<forall>b\<ge>used_by files. img s b = (\<lambda>_. 0))"
proof -
  let ?n = "2 + length files" let ?fc = "image_files files"
  obtain s1 where f: "fs_inv s1 (\<lambda>k. if 2 \<le> k then 2 else 1) ?fc ?n"
    and m: "mkfs_main files = andthen (fix_root 1 s1) (\<lambda>_ s6. mk_balloc (unat (usedblocks s6)) s6)"
    using mkfs_before_fix [OF assms] by blast
  have fb: "unat (freeblock s1) = used_by files" using f used_by_blocks [of files] by (simp add: fs_inv_def blocks_of_def)
  obtain s where s: "mkfs_main files = Ok () s" and h: "holds (img s) (used_by files) (node s) ?fc {1..<?n}"
    and sb: "img s 1 = super_bytes" and bm: "img s 28 = used_bits (used_by files)" and nd: "\<forall>k\<in>{2..<?n}. node s k = node s1 k"
    and root: "di_type (node s 1) = 1" "unat (di_size (node s 1)) = (length (?fc 1) div 512 + 1) * 512"
    using mkfs_end [OF f] assms(2) unfolding m fb by auto
  have l1: "length (?fc 1) = 16 * ?n" by (simp add: with_files_def dots_def)
  have fby: "fbyte (img s) (node s i) p = ?fc i ! p" "length (?fc i) \<le> 140 * 512" if "i \<in> {1..<?n}" "p < length (?fc i)" for i p
    using h that by (auto simp: holds_def)
  have "get_superblock (img s 1) = \<lparr>sb_size = 1024, sb_nblocks = 985, sb_ninodes = 200, sb_nlog = 10\<rparr>"
    unfolding sb by (simp add: super_bytes_def get_superblock_def get_other mkfs_size_def mkfs_nblocks_def mkfs_ninodes_def mkfs_nlog_def)
  moreover have "has_file s (k + 2) 2 (the (snd (files ! k)))" if "k < length files" for k
  proof -
    have e: "?fc (k + 2) = the (snd (files ! k))" using that by (simp add: with_files_def)
    have i: "k + 2 \<in> {1..<?n}" "node s (k + 2) = node s1 (k + 2)" using that nd by auto
    have "length (?fc (k + 2)) \<le> 140 * 512" using h i(1) by (simp add: holds_def)
    then have "unat (di_size (node s1 (k + 2))) = length (?fc (k + 2))"
      using f i(1) by (auto simp: fs_inv_def unat_of_nat_uint)
    moreover have "di_type (node s1 (k + 2)) = 2 \<and> di_nlink (node s1 (k + 2)) = 1" using f i(1) unfolding fs_inv_def by auto
    ultimately show ?thesis using fby(1) [OF i(1)] unfolding has_file_def e [symmetric] i(2) by simp
  qed
  moreover have "get_dirent (\<lambda>q. fbyte (img s) (node s 1) (16 * j + q)) = root_entry files j" if "j < ?n" for j
    by (rule root_dirent [OF _ that]) (use fby(1) [of 1] l1 in auto)
  moreover have "bit (img s 28 (b div 8)) (b mod 8) \<longleftrightarrow> b < used_by files" if "b < 4096" for b
    unfolding bm using used_bits_bit [OF that] .
  moreover have "\<forall>b\<ge>used_by files. img s b = (\<lambda>_. 0)" using h by (simp add: holds_def owned_def)
  ultimately show ?thesis using s root holds_disjoint [OF h] unfolding l1 by blast
qed

text \<open>The log is the last 10 of the 1024 sectors. \<^verbatim>\<open>mkfs\<close> does not keep its files out of it: files that need more than the
  1014 sectors before the log are accepted and get the header block of the log.\<close>

definition mkfs_logstart :: nat where "mkfs_logstart = mkfs_size - mkfs_nlog"

lemma mkfs_log_overlap:
  assumes "\<forall>f\<in>set files. file_ok f" "length files \<le> 198" "mkfs_logstart < used_by files" "used_by files \<le> 1024"
  shows "\<exists>s. mkfs_main files = Ok () s \<and> bit (img s 28 (mkfs_logstart div 8)) (mkfs_logstart mod 8)"
proof -
  have "mkfs_logstart < 4096" by (simp add: mkfs_logstart_def mkfs_size_def)
  then show ?thesis using mkfs_image [OF assms(1,2,4)] assms(3) by blast
qed

text \<open>C4: \<^verbatim>\<open>mkfs\<close> builds the file system it is asked for. For at most 198 files, without \<open>/\<close> in their names and each within the
  size limit, that together fit in the sectors before the log, the program ends without a failed assertion. The image has the
  super block the kernel expects; inode \<open>k + 2\<close> is a file with the size and the contents of file \<open>k\<close>; the root directory is
  inode 1 and its entries are \<open>.\<close>, \<open>..\<close> and the names of the files; no block is used twice and none of them is a sector of the log,
  which is empty; and the bitmap marks exactly the blocks up to the last one in use.\<close>

theorem mkfs_builds_image:
  assumes "\<forall>f\<in>set files. file_ok f" "length files \<le> 198" "used_by files \<le> mkfs_logstart"
  shows "\<exists>s. mkfs_main files = Ok () s
     \<and> get_superblock (img s 1) = \<lparr>sb_size = 1024, sb_nblocks = 985, sb_ninodes = 200, sb_nlog = 10\<rparr>
     \<and> (\<forall>k < length files. has_file s (k + 2) 2 (the (snd (files ! k))))
     \<and> di_type (node s 1) = 1 \<and> unat (di_size (node s 1)) = (16 * (2 + length files) div 512 + 1) * 512
     \<and> (\<forall>j < 2 + length files. get_dirent (\<lambda>q. fbyte (img s) (node s 1) (16 * j + q)) = root_entry files j)
     \<and> disjoint_blocks s (2 + length files) (used_by files)
     \<and> (\<forall>b < 4096. bit (img s 28 (b div 8)) (b mod 8) \<longleftrightarrow> b < used_by files)
     \<and> (\<forall>i\<in>{1..<2 + length files}. \<forall>m<141. din_addr (img s) (node s i) m < mkfs_logstart)
     \<and> (\<forall>b\<in>{mkfs_logstart..<mkfs_size}. img s b = (\<lambda>_. 0))"
proof -
  have "used_by files \<le> 1024" using assms(3) by (simp add: mkfs_logstart_def mkfs_size_def)
  from mkfs_image [OF assms(1,2) this] obtain s where s: "mkfs_main files = Ok () s
     \<and> get_superblock (img s 1) = \<lparr>sb_size = 1024, sb_nblocks = 985, sb_ninodes = 200, sb_nlog = 10\<rparr>
     \<and> (\<forall>k < length files. has_file s (k + 2) 2 (the (snd (files ! k))))
     \<and> di_type (node s 1) = 1 \<and> unat (di_size (node s 1)) = (16 * (2 + length files) div 512 + 1) * 512
     \<and> (\<forall>j < 2 + length files. get_dirent (\<lambda>q. fbyte (img s) (node s 1) (16 * j + q)) = root_entry files j)
     \<and> disjoint_blocks s (2 + length files) (used_by files)
     \<and> (\<forall>b < 4096. bit (img s 28 (b div 8)) (b mod 8) \<longleftrightarrow> b < used_by files)
     \<and> (\<forall>b\<ge>used_by files. img s b = (\<lambda>_. 0))"
    by blast
  then have "disjoint_blocks s (2 + length files) (used_by files)" by blast
  then have "din_addr (img s) (node s i) m < mkfs_logstart" if "i \<in> {1..<2 + length files}" "m < 141" for i m
    using that assms(3) unfolding disjoint_blocks_def by (cases "din_addr (img s) (node s i) m = 0") (fastforce simp: mkfs_logstart_def mkfs_size_def mkfs_nlog_def)+
  moreover have "img s b = (\<lambda>_. 0)" if "b \<in> {mkfs_logstart..<mkfs_size}" for b using s that assms(3) by auto
  ultimately show ?thesis using s by (intro exI [of _ s]) blast
qed

text \<open>A run with one file, \<open>_a\<close>, of two bytes.\<close>

theorem mkfs_builds_image_witness:
  "\<exists>s. mkfs_main [([95, 97], Some [104, 105])] = Ok () s \<and> has_file s 2 2 [104, 105]
     \<and> get_dirent (\<lambda>q. fbyte (img s) (node s 1) (32 + q)) = \<lparr>de_inum = 2, de_name = list_field [97]\<rparr>
     \<and> disjoint_blocks s 3 31 \<and> bit (img s 28 3) 6 \<and> \<not> bit (img s 28 3) 7 \<and> img s 1014 = (\<lambda>_. 0)"
proof -
  let ?files = "[([95, 97], Some [104, 105])] :: (uint8 list \<times> uint8 list option) list"
  have u: "used_by ?files = 31" by (simp add: used_by_def nblk_def)
  have "file_ok ([95, 97], Some [104, 105])" by (simp add: file_ok_def layout_numbers BSIZE_def)
  then obtain s where s: "mkfs_main ?files = Ok () s" "\<forall>k < length ?files. has_file s (k + 2) 2 (the (snd (?files ! k)))"
    "\<forall>j < 2 + length ?files. get_dirent (\<lambda>q. fbyte (img s) (node s 1) (16 * j + q)) = root_entry ?files j"
    "disjoint_blocks s (2 + length ?files) 31" "\<forall>b < 4096. bit (img s 28 (b div 8)) (b mod 8) \<longleftrightarrow> b < 31"
    "\<forall>b\<in>{mkfs_logstart..<mkfs_size}. img s b = (\<lambda>_. 0)"
    using mkfs_builds_image [of ?files] unfolding u by (auto simp: mkfs_logstart_def mkfs_size_def mkfs_nlog_def)
  have "bit (img s 28 3) 6" "\<not> bit (img s 28 3) 7" using s(5) [rule_format, of 30] s(5) [rule_format, of 31] by simp_all
  moreover have "img s 1014 = (\<lambda>_. 0)" using s(6) by (simp add: mkfs_logstart_def mkfs_size_def mkfs_nlog_def)
  ultimately show ?thesis using s(1) s(2) [rule_format, of 0] s(3) [rule_format, of 2] s(4)
    by (intro exI [of _ s]) (simp add: root_entry_def stored_name_def numeral_2_eq_2 numeral_3_eq_3)
qed

end
