(* ===== verification/Start.thy ===== *)
theory Start
  imports Vm
begin

text \<open>
  Early boot (\<^verbatim>\<open>start.c\<close>): from the entry of \<open>start\<close> with the MMU off to the call of \<open>kmain\<close>. Physical memory is
  byte memory, the system registers the code writes are fields of the state, and the UART is the list of the
  bytes written to it. The addresses that the linker script chooses are arguments: \<open>kp\<close> is \<open>_kernel_pgtbl\<close>, and
  \<^verbatim>\<open>kernel.ld\<close> puts the other tables right behind it. \<open>jump_stack\<close> only moves the stack pointer and
  is left out, like the cache and TLB maintenance instructions.
\<close>

section \<open>State\<close>

record boot =
  pmem :: "uint64 \<Rightarrow> uint8"
  uart_out :: string
  midr_el1 :: uint
  current_el :: uint
  cpacr_el1 :: uint
  mdscr_el1 :: uint64
  mair_el1 :: uint64
  vbar_el1 :: uint64
  tcr_el1 :: uint64
  ttbr1_el1 :: uint64
  ttbr0_el1 :: uint64
  sctlr_el1 :: uint

definition INIT_KERN_SZ :: uint where "INIT_KERN_SZ = 0x200000"
definition DEVBASE1 :: uint64 where "DEVBASE1 = 0x08000000"
definition DEVBASE2 :: uint64 where "DEVBASE2 = 0x09000000"
definition DEVBASE3 :: uint64 where "DEVBASE3 = 0x0a000000"
definition DEV_MEM_SZ :: uint where "DEV_MEM_SZ = 0x01000000"
definition PMD_MASK :: uint64 where "PMD_MASK = NOT (0x200000 - 1)"

text \<open>The attributes of \<^verbatim>\<open>mmu.h\<close> that occur in the boot tables.\<close>

definition ENTRY_VALID :: uint64 where "ENTRY_VALID = 1"
definition ENTRY_BLOCK :: uint64 where "ENTRY_BLOCK = 0"
definition ENTRY_TABLE :: uint64 where "ENTRY_TABLE = 2"
definition MEM_ATTR_IDX_0 :: uint64 where "MEM_ATTR_IDX_0 = 0"
definition MEM_ATTR_IDX_4 :: uint64 where "MEM_ATTR_IDX_4 = push_bit 2 4"
definition NON_SECURE_PA :: uint64 where "NON_SECURE_PA = push_bit 5 1"
definition SH_IN_SH :: uint64 where "SH_IN_SH = push_bit 8 3"
definition ACCESS_FLAG :: uint64 where "ACCESS_FLAG = push_bit 10 1"
definition UXN :: uint64 where "UXN = 0x40000000000000"

section \<open>Messages\<close>

definition boot_putc :: "char \<Rightarrow> boot \<Rightarrow> boot" where
  "boot_putc c b = b\<lparr>uart_out := uart_out b @ [c]\<rparr>"

abbreviation nl :: string where "nl \<equiv> [CHR 0x0A]"

fun boot_puts :: "string \<Rightarrow> boot \<Rightarrow> boot" where
  "boot_puts [] b = b"
| "boot_puts (c # cs) b = boot_puts cs (boot_putc c b)"

text \<open>\<open>idx\<close> runs over 28, 24, ..., 0; a null pointer is \<open>None\<close>.\<close>

definition boot_putint :: "string option \<Rightarrow> uint \<Rightarrow> string option \<Rightarrow> boot \<Rightarrow> boot" where
  "boot_putint prefix val suffix b =
     (let b1 = (case prefix of None \<Rightarrow> b | Some p \<Rightarrow> boot_puts p b);
          b2 = fold (\<lambda>i. boot_putc (''0123456789ABCDEF'' ! unat (drop_bit (4 * i) val AND 0x0F))) [7, 6, 5, 4, 3, 2, 1, 0] b1
      in case suffix of None \<Rightarrow> b2 | Some p \<Rightarrow> boot_puts p b2)"

definition do_exception :: "boot \<Rightarrow> (boot, unit) outcome" where
  "do_exception b = (let b = boot_puts (''Exception Raised'' @ nl) b in Diverge)"

section \<open>The boot page table\<close>

definition set_boot_entry :: "uint64 \<Rightarrow> uint64 \<Rightarrow> uint64 \<Rightarrow> bool \<Rightarrow> (uint64 \<Rightarrow> uint8) \<Rightarrow> uint64 \<Rightarrow> uint8" where
  "set_boot_entry kp virt phy dev_mem m =
     (let pgdidx = PGD_IDX virt; pmdidx = PMD_IDX virt;
          pde = (phy AND PMD_MASK) OR
            (if \<not> dev_mem
             then ACCESS_FLAG OR SH_IN_SH OR AP_RW_1 OR NON_SECURE_PA OR MEM_ATTR_IDX_4 OR ENTRY_BLOCK OR ENTRY_VALID OR UXN
             else ACCESS_FLAG OR AP_RW_1 OR MEM_ATTR_IDX_0 OR ENTRY_BLOCK OR ENTRY_VALID);
          m1 = st64 ((ld64 m (kp + 8 * pgdidx) AND PG_ADDR_MASK) + 8 * pmdidx) pde m
      in st64 ((ld64 m1 (kp + 0x1000 + 8 * pgdidx) AND PG_ADDR_MASK) + 8 * pmdidx) pde m1)"

text \<open>The loop over \<open>idx\<close>. For the lengths it is called with, \<open>idx\<close> stays below \<open>2 ^ 31\<close>.\<close>

function set_bootpgtbl_loop :: "uint64 \<Rightarrow> nat \<Rightarrow> uint64 \<Rightarrow> uint64 \<Rightarrow> nat \<Rightarrow> bool \<Rightarrow> (uint64 \<Rightarrow> uint8) \<Rightarrow> uint64 \<Rightarrow> uint8" where
  "set_bootpgtbl_loop kp idx virt phy len dev_mem m =
     (if idx < len
      then set_bootpgtbl_loop kp (idx + 0x200000) (virt + 0x200000) (phy + 0x200000) len dev_mem (set_boot_entry kp virt phy dev_mem m)
      else m)"
  by auto

termination
  by (relation "measure (\<lambda>(kp, idx, virt, phy, len, dev_mem, m). len - idx)") auto

definition set_bootpgtbl :: "uint64 \<Rightarrow> uint64 \<Rightarrow> uint64 \<Rightarrow> uint \<Rightarrow> bool \<Rightarrow> boot \<Rightarrow> boot" where
  "set_bootpgtbl kp virt phy len dev_mem b = b\<lparr>pmem := set_bootpgtbl_loop kp 0 virt phy (unat len) dev_mem (pmem b)\<rparr>"

section \<open>Turning the MMU on\<close>

definition el_message :: "uint \<Rightarrow> string" where
  "el_message val32 = (if val32 = 0 then ''Current EL: EL0'' else if val32 = 1 then ''Current EL: EL1'' else if val32 = 2
     then ''Current EL: EL2'' else if val32 = 3 then ''Current EL: EL3'' else ''Current EL: Unknown'')"

definition load_pgtlb :: "uint64 \<Rightarrow> uint64 \<Rightarrow> boot \<Rightarrow> boot" where
  "load_pgtlb vectors kp b =
     (let b = (if drop_bit 24 (midr_el1 b) = 0x41 then boot_puts (''Implementer: ARM Limited'' @ nl) b else b);
          arch = drop_bit 16 (midr_el1 b) AND 0x0F;
          b = (if arch \<noteq> 7 \<and> arch \<noteq> 0xF then boot_puts (''Need AARM v6 or higher'' @ nl) b else b);
          b = boot_puts (el_message (drop_bit 2 (current_el b AND 0x0C)) @ nl) b;
          b = boot_puts (''Flushing TLB and Instr Cache'' @ nl) b;
          b = b\<lparr>cpacr_el1 := push_bit 20 3, mdscr_el1 := 0\<rparr>;
          b = boot_puts (''Setting Memory Attribute Indirection Register (MAIR_EL1)'' @ nl) b;
          b = b\<lparr>mair_el1 := 0xFF440C0400\<rparr>;
          b = boot_puts (''Setting Vector Base Address Register (VBAR_EL1)'' @ nl) b;
          b = b\<lparr>vbar_el1 := vectors\<rparr>;
          b = boot_puts (''Setting Translation Control Register (TCR_EL1)'' @ nl) b;
          b = b\<lparr>tcr_el1 := 0x34B5203520\<rparr>;
          b = boot_puts (''Setting Translation Table Base Register 1 (TTBR1_EL1)'' @ nl) b;
          b = b\<lparr>ttbr1_el1 := kp\<rparr>;
          b = boot_puts (''Setting Translation Table Base Register 0 (TTBR0_EL1)'' @ nl) b;
          b = b\<lparr>ttbr0_el1 := kp + 0x1000\<rparr>;
          b = boot_puts (''Setting System Control Register (SCTLR_EL1)'' @ nl) b;
          b = b\<lparr>sctlr_el1 := sctlr_el1 b OR 1\<rparr>
      in boot_puts (''System Configure Completed...'' @ nl @ nl) b)"

text \<open>The translation the hardware does with these registers. The control register gives each half an address
  space of 32 bits with 4K granules, so the walk starts at level 1 with four entries; the boot tables have
  blocks of 2 MB at level 2.\<close>

definition boot_walk :: "boot \<Rightarrow> uint64 \<Rightarrow> uint64 option" where
  "boot_walk b va =
     (if \<not> bit (sctlr_el1 b) 0 then Some va
      else (let hi = drop_bit 32 va
            in if hi \<noteq> 0 \<and> hi \<noteq> 0xFFFFFFFF then None
               else (let e1 = ld64 (pmem b) ((if hi = 0 then ttbr0_el1 b else ttbr1_el1 b) + 8 * PGD_IDX va)
                     in if e1 AND 3 \<noteq> 3 then None
                        else (let e2 = ld64 (pmem b) ((e1 AND PG_ADDR_MASK) + 8 * PMD_IDX va)
                              in if e2 AND 3 \<noteq> 1 then None
                                 else Some ((e2 AND 0xFFFFFFE00000) OR (va AND 0x1FFFFF))))))"

section \<open>The start of the kernel\<close>

text \<open>\<open>memset\<close> with zero through the translation.\<close>

fun boot_zero :: "uint64 \<Rightarrow> nat \<Rightarrow> boot \<Rightarrow> (boot, unit) outcome" where
  "boot_zero va 0 b = Ok () b"
| "boot_zero va (Suc n) b =
     (case boot_walk b va of None \<Rightarrow> Fault | Some pa \<Rightarrow> boot_zero (va + 1) n (b\<lparr>pmem := (pmem b)(pa := 0)\<rparr>))"

text \<open>\<open>edata\<close> and \<open>end\<close> are declared as pointers, so the difference of their addresses counts units of eight bytes.\<close>

definition clear_bss :: "uint64 \<Rightarrow> uint64 \<Rightarrow> boot \<Rightarrow> (boot, unit) outcome" where
  "clear_bss edata ebss b =
     (let b = boot_puts (''clearing BSS section for the main kernel'' @ nl) b in boot_zero edata (unat (ebss - edata) div 8) b)"

definition set_pgd_entries :: "uint64 \<Rightarrow> uint64 \<Rightarrow> boot \<Rightarrow> boot" where
  "set_pgd_entries pgtbl l2 b =
     b\<lparr>pmem := fold (\<lambda>index. st64 (pgtbl + 8 * of_nat index) ((l2 + of_nat index * 4096) OR ENTRY_TABLE OR ENTRY_VALID)) [0..<4] (pmem b)\<rparr>"

definition start :: "uint64 \<Rightarrow> uint64 \<Rightarrow> uint64 \<Rightarrow> uint64 \<Rightarrow> boot \<Rightarrow> (boot, unit) outcome" where
  "start vectors kp edata ebss b =
     (let b = boot_puts (''starting xv6 for ARMv8...'' @ nl) b;
          b = set_pgd_entries kp (kp + 0x2000) b;
          b = set_pgd_entries (kp + 0x1000) (kp + 0x6000) b;
          b = set_bootpgtbl kp PHY_START PHY_START INIT_KERN_SZ False b;
          b = set_bootpgtbl kp (KERNBASE + PHY_START) PHY_START INIT_KERN_SZ False b;
          b = set_bootpgtbl kp DEVBASE2 DEVBASE2 DEV_MEM_SZ True b;
          b = set_bootpgtbl kp (KERNBASE + DEVBASE1) DEVBASE1 DEV_MEM_SZ True b;
          b = set_bootpgtbl kp (KERNBASE + DEVBASE2) DEVBASE2 DEV_MEM_SZ True b;
          b = set_bootpgtbl kp (KERNBASE + DEVBASE3) DEVBASE2 DEV_MEM_SZ True b;
          b = load_pgtlb vectors kp b
      in andthen (clear_bss edata ebss b) (\<lambda>_ b. Ok () (boot_puts (''Starting Kernel'' @ nl) b)))"

end
