(* ===== verification/Start_Props.thy ===== *)
theory Start_Props
  imports Start
begin

text \<open>The address space the boot code sets up: the translation of every address, and what is cleared.\<close>

section \<open>Words in byte memory\<close>

lemma bit_ld64:
  assumes "n < 64"
  shows "bit (ld64 m a) n \<longleftrightarrow> bit (m (a + of_nat (n div 8))) (n mod 8)"
proof -
  have u: "[0..<8] = [0, 1, 2, 3, 4, 5, 6, 7]" by (simp add: upt_rec)
  have q: "n div 8 \<in> {0, 1, 2, 3, 4, 5, 6, 7}" using assms by auto
  have n: "n = 8 * (n div 8) + n mod 8" "n mod 8 < 8" by simp_all
  obtain k r where k: "n = 8 * k + r" "r < 8" "n div 8 = k" "n mod 8 = r" "k \<in> {0, 1, 2, 3, 4, 5, 6, 7}" using n q by blast
  show ?thesis using k(5) unfolding k(3,4) unfolding k(1) ld64_def u
    by (elim insertE) (use k(2) in \<open>auto simp: bit_simps dest: bit_imp_le_length\<close>)
qed

lemma ld64_st64_same: "ld64 (st64 a v m) a = v"
proof (rule bit_word_eqI)
  fix n :: nat assume n: "n < LENGTH(64)"
  have q: "n div 8 < 8" using n by simp
  then have "unat (of_nat (n div 8) :: uint64) = n div 8" by (simp add: unat_of_nat_uint64)
  then show "bit (ld64 (st64 a v m) a) n = bit v n" using n q by (simp add: bit_ld64 st64_def bit_simps)
qed

lemma small_neg:
  assumes "0 < d" "d < 2 ^ 32"
  shows "\<not> unat (- (of_nat d :: uint64)) < 8"
proof
  let ?w = "- (of_nat d :: uint64)"
  assume w: "unat ?w < 8"
  have "unat (?w + of_nat d) = unat ?w + d"
    using w assms(2) by (subst unat_word_ariths) (simp add: unat_of_nat_uint64)
  then show False using assms(1) by simp
qed

lemma ld64_st64_other:
  assumes "p + 8 \<le> q \<or> q + 8 \<le> p" "p < 2 ^ 32" "q < 2 ^ 32"
  shows "ld64 (st64 (a + of_nat p) v m) (a + of_nat q) = ld64 m (a + of_nat q)"
proof (rule bit_word_eqI)
  fix n :: nat assume n: "n < LENGTH(64)"
  let ?k = "n div 8"
  have k: "?k < 8" using n by simp
  have d: "a + of_nat q + of_nat ?k - (a + of_nat p) = (of_nat (q + ?k) - of_nat p :: uint64)" by simp
  have "\<not> unat (of_nat (q + ?k) - of_nat p :: uint64) < 8"
  proof (cases "p \<le> q + ?k")
    case True
    then have "of_nat (q + ?k) - of_nat p = (of_nat (q + ?k - p) :: uint64)" by (simp add: of_nat_diff)
    moreover have "unat (of_nat (q + ?k - p) :: uint64) = q + ?k - p" by (rule unat_of_nat_uint64) (use assms k in simp)
    ultimately show ?thesis using assms(1) True k by (auto simp del: of_nat_add)
  next
    case False
    then have "of_nat (q + ?k) - of_nat p = - (of_nat (p - (q + ?k)) :: uint64)" by (simp add: of_nat_diff)
    then show ?thesis using small_neg [of "p - (q + ?k)"] False assms(2) by simp
  qed
  then show "bit (ld64 (st64 (a + of_nat p) v m) (a + of_nat q)) n = bit (ld64 m (a + of_nat q)) n"
    unfolding d [symmetric] using n by (simp add: bit_ld64 st64_def)
qed

definition slot :: "uint64 \<Rightarrow> nat \<Rightarrow> uint64" where
  "slot a n = a + of_nat (8 * n)"

definition page :: "uint64 \<Rightarrow> nat \<Rightarrow> uint64" where
  "page a n = a + of_nat (4096 * n)"

lemma ld64_slot:
  assumes "p < 2 ^ 29" "q < 2 ^ 29"
  shows "ld64 (st64 (slot a p) v m) (slot a q) = (if q = p then v else ld64 m (slot a q))"
proof (cases "q = p")
  case False
  then have "8 * p + 8 \<le> 8 * q \<or> 8 * q + 8 \<le> 8 * p" by linarith
  then show ?thesis using False ld64_st64_other [of "8 * p" "8 * q"] assms by (simp add: slot_def del: of_nat_mult)
qed (simp add: ld64_st64_same)

section \<open>The two tables\<close>

text \<open>Entry \<open>n\<close> of the four level 2 tables, taken as one array, maps the addresses from \<open>n * 2 MB\<close> on.\<close>

definition l2_index :: "uint64 \<Rightarrow> nat" where
  "l2_index va = unat (drop_bit 21 va AND 2047)"

definition tables :: "uint64 \<Rightarrow> (uint64 \<Rightarrow> uint8) \<Rightarrow> (nat \<Rightarrow> uint64) \<Rightarrow> bool" where
  "tables kp m f \<longleftrightarrow> (\<forall>i<4. ld64 m (slot kp i) = page kp (2 + i) OR 3
       \<and> ld64 m (slot kp (512 + i)) = page kp (6 + i) OR 3)
     \<and> (\<forall>n<2048. ld64 m (slot kp (1024 + n)) = f n \<and> ld64 m (slot kp (3072 + n)) = f n)"

lemma index_parts:
  obtains i j where "PGD_IDX va = of_nat i" "PMD_IDX va = of_nat j" "i < 4" "j < 512" "l2_index va = 512 * i + j"
proof
  let ?i = "unat (PGD_IDX va)" and ?j = "unat (PMD_IDX va)"
  show "PGD_IDX va = of_nat ?i" "PMD_IDX va = of_nat ?j" by simp_all
  let ?x = "unat va"
  have t: "drop_bit 30 va AND 3 = take_bit 2 (drop_bit 30 va)" "drop_bit 21 va AND 511 = take_bit 9 (drop_bit 21 va)"
    "drop_bit 21 va AND 2047 = take_bit 11 (drop_bit 21 va)" by (simp_all add: take_bit_eq_mask mask_eq_exp_minus_1)
  have i: "?i = ?x div 2 ^ 21 div 512 mod 4" "?j = ?x div 2 ^ 21 mod 512" "l2_index va = ?x div 2 ^ 21 mod (512 * 4)"
    unfolding PGD_IDX_def PMD_IDX_def l2_index_def t unat_take_bit
    by (simp_all add: unsigned_drop_bit_eq drop_bit_eq_div take_bit_eq_mod div_mult2_eq [symmetric] unat_div)
  show "?i < 4" "?j < 512" "l2_index va = 512 * ?i + ?j" using mod_mult2_eq [of "?x div 2 ^ 21" 512 4] unfolding i by simp_all
qed

text \<open>The tables lie within 64 KB and are aligned to pages.\<close>

lemma addr_bits:
  assumes "\<And>k. bit x k \<Longrightarrow> 12 \<le> k \<and> k < 48"
  shows "(x OR 3) AND PG_ADDR_MASK = x"
proof -
  have m: "PG_ADDR_MASK = push_bit 12 (mask 36)" by (simp add: PG_ADDR_MASK_def mask_eq_exp_minus_1)
  have "(3 :: uint64) = mask 2" by (simp add: mask_eq_exp_minus_1)
  then have "bit (3 :: uint64) k \<Longrightarrow> k < 2" for k by (metis bit_mask_iff)
  then show ?thesis unfolding m by (intro bit_word_eqI) (use assms in \<open>force simp: bit_simps\<close>)
qed

lemma page_mask:
  assumes kp: "kp AND 0xFFF = 0" "unat kp < 2 ^ 32" and n: "n < 2 ^ 20"
  shows "(page kp n OR 3) AND PG_ADDR_MASK = page kp n" "(page kp n OR 3) AND 3 = 3"
  unfolding page_def
proof -
  let ?w = "kp + of_nat (4096 * n)"
  have u: "unat ?w = unat kp + 4096 * n" using kp(2) n by (subst unat_word_ariths) (simp add: unat_of_nat_uint64 del: of_nat_mult)
  have "kp AND 0xFFF = take_bit 12 kp" by (simp add: take_bit_eq_mask mask_eq_exp_minus_1)
  then have "take_bit 12 (unat kp) = 0" using kp(1) by (metis unat_take_bit unat_0)
  then have "take_bit 12 (unat ?w) = 0" unfolding u by (simp add: take_bit_eq_mod)
  then have l: "take_bit 12 ?w = 0" by (metis unat_take_bit unat_eq_zero)
  have "unat ?w < 2 ^ 48" unfolding u using kp(2) n by simp
  then have h: "take_bit 48 ?w = ?w" by (metis unat_take_bit take_bit_nat_eq_self word_unat_eq_iff)
  have w: "bit ?w k \<Longrightarrow> 12 \<le> k \<and> k < 48" for k using l h by (metis bit_take_bit_iff bit_0_eq bot_apply bot_bool_def not_le)
  show "(?w OR 3) AND PG_ADDR_MASK = ?w" by (rule addr_bits) (use w in blast)
  show "(?w OR 3) AND 3 = 3" by (simp add: bit.conj_disj_distrib2)
qed

text \<open>Storing an entry in both tables.\<close>

definition boot_pde :: "uint64 \<Rightarrow> bool \<Rightarrow> uint64" where
  "boot_pde phy dev_mem = (phy AND PMD_MASK) OR (if dev_mem then 0x401 else 0x40000000000731)"

lemma l2_index_less: "l2_index va < 2048"
  by (rule index_parts [of va]) simp

lemma set_boot_entry_stores:
  assumes kp: "kp AND 0xFFF = 0" "unat kp < 2 ^ 32" and t: "tables kp m f"
  shows "set_boot_entry kp va phy dev m
     = st64 (slot kp (3072 + l2_index va)) (boot_pde phy dev) (st64 (slot kp (1024 + l2_index va)) (boot_pde phy dev) m)"
proof -
  obtain i j where ij: "PGD_IDX va = of_nat i" "PMD_IDX va = of_nat j" "i < 4" "j < 512" "l2_index va = 512 * i + j"
    by (rule index_parts)
  have fl: "(phy AND PMD_MASK) OR (if \<not> dev
       then ACCESS_FLAG OR SH_IN_SH OR AP_RW_1 OR NON_SECURE_PA OR MEM_ATTR_IDX_4 OR ENTRY_BLOCK OR ENTRY_VALID OR UXN
       else ACCESS_FLAG OR AP_RW_1 OR MEM_ATTR_IDX_0 OR ENTRY_BLOCK OR ENTRY_VALID) = boot_pde phy dev"
    by (simp add: boot_pde_def ACCESS_FLAG_def SH_IN_SH_def AP_RW_1_def NON_SECURE_PA_def MEM_ATTR_IDX_4_def MEM_ATTR_IDX_0_def
        ENTRY_BLOCK_def ENTRY_VALID_def UXN_def)
  let ?n = "512 * i + j" let ?v = "boot_pde phy dev"
  let ?m1 = "st64 (slot kp (1024 + ?n)) ?v m" let ?m2 = "st64 (slot kp (3072 + ?n)) ?v ?m1"
  have n: "?n < 2048" using ij by simp
  have 1: "kp + 8 * PGD_IDX va = slot kp i" "kp + 0x1000 + 8 * PGD_IDX va = slot kp (512 + i)"
    "page kp (2 + i) + 8 * PMD_IDX va = slot kp (1024 + ?n)"
    "page kp (6 + i) + 8 * PMD_IDX va = slot kp (3072 + ?n)" by (simp_all add: ij(1,2) slot_def page_def algebra_simps)
  have e: "ld64 m (slot kp i) = page kp (2 + i) OR 3"
    "ld64 ?m1 (slot kp (512 + i)) = page kp (6 + i) OR 3"
    using t ij(3) n unfolding tables_def by (simp_all add: ld64_slot)
  have p: "(page kp (2 + i) OR 3) AND PG_ADDR_MASK = page kp (2 + i)"
    "(page kp (6 + i) OR 3) AND PG_ADDR_MASK = page kp (6 + i)"
    using page_mask(1) [OF kp] ij(3) by simp_all
  have "set_boot_entry kp va phy dev m = ?m2"
    unfolding set_boot_entry_def Let_def fl 1(1,2) e(1) p(1) 1(3) unfolding e(2) p(2) 1(4) ..
  then show ?thesis unfolding ij(5) .
qed

lemma set_boot_entry_tables:
  assumes kp: "kp AND 0xFFF = 0" "unat kp < 2 ^ 32" and t: "tables kp m f"
  shows "tables kp (set_boot_entry kp va phy dev m) (f(l2_index va := boot_pde phy dev))"
  unfolding set_boot_entry_stores [OF assms] using t l2_index_less [of va] unfolding tables_def by (simp add: ld64_slot)

section \<open>Memory outside the tables\<close>

definition off_tables :: "uint64 \<Rightarrow> uint64 \<Rightarrow> bool" where
  "off_tables kp x \<longleftrightarrow> 0xa000 \<le> unat (x - kp)"

lemma st64_off_tables:
  assumes "n < 5120" "off_tables kp x"
  shows "st64 (slot kp n) v m x = m x"
proof -
  have "\<not> unat (x - slot kp n) < 8"
  proof
    assume l: "unat (x - slot kp n) < 8"
    have u: "unat (of_nat (8 * n) :: uint64) = 8 * n" by (rule unat_of_nat_uint64) (use assms(1) in simp)
    have e: "x - kp = (x - slot kp n) + of_nat (8 * n)" by (simp add: slot_def)
    have "unat ((x - slot kp n) + of_nat (8 * n)) = unat (x - slot kp n) + 8 * n"
      using l u assms(1) by (subst unat_word_ariths) (simp del: of_nat_mult)
    then show False using l assms unfolding off_tables_def e by linarith
  qed
  then show ?thesis by (simp add: st64_def)
qed

lemma tables_cong:
  assumes "tables kp m f" "\<And>x. \<not> off_tables kp x \<Longrightarrow> m' x = m x"
  shows "tables kp m' f"
proof -
  have "ld64 m' (slot kp n) = ld64 m (slot kp n)" if n: "n < 5120" for n
  proof (rule bit_word_eqI)
    fix k :: nat assume k: "k < LENGTH(64)"
    let ?o = "8 * n + k div 8"
    have "unat (of_nat ?o :: uint64) = ?o" by (rule unat_of_nat_uint64) (use k n in simp)
    moreover have "slot kp n + of_nat (k div 8) - kp = of_nat ?o" by (simp add: slot_def)
    moreover have "?o < 0xa000" using k n by simp
    ultimately have "\<not> off_tables kp (slot kp n + of_nat (k div 8))" unfolding off_tables_def by (metis not_le)
    then show "bit (ld64 m' (slot kp n)) k = bit (ld64 m (slot kp n)) k" using k assms(2) by (simp add: bit_ld64)
  qed
  then show ?thesis using assms(1) unfolding tables_def by simp
qed

lemma set_boot_entry_off:
  assumes kp: "kp AND 0xFFF = 0" "unat kp < 2 ^ 32" and t: "tables kp m f" and x: "off_tables kp x"
  shows "set_boot_entry kp va phy dev m x = m x"
  unfolding set_boot_entry_stores [OF kp t] using x l2_index_less [of va] by (simp add: st64_off_tables)

section \<open>The loops\<close>

lemma l2_index_low: "l2_index va = unat va mod 2 ^ 32 div 2 ^ 21"
proof -
  have "drop_bit 21 va AND 2047 = take_bit 11 (drop_bit 21 va)" by (simp add: take_bit_eq_mask mask_eq_exp_minus_1)
  also have "\<dots> = drop_bit 21 (take_bit 32 va)" by (simp add: drop_bit_take_bit)
  finally show ?thesis by (simp add: l2_index_def unsigned_drop_bit_eq unat_take_bit drop_bit_eq_div take_bit_eq_mod unat_div unat_mod)
qed

lemma l2_index_next:
  assumes "l2_index va < 2047"
  shows "l2_index (va + 0x200000) = Suc (l2_index va)"
proof -
  let ?y = "unat va mod 2 ^ 32"
  have "unat (va + 0x200000) mod 2 ^ 32 = (unat va + 2 ^ 21) mod 2 ^ 32" by (simp add: unat_word_ariths mod_mod_cancel)
  also have "\<dots> = (?y + 2 ^ 21) mod 2 ^ 32" by presburger
  also have "\<dots> = ?y + 2 ^ 21" using assms unfolding l2_index_low by (intro mod_less) (simp add: div_less_iff_less_mult)
  finally show ?thesis unfolding l2_index_low by simp
qed

declare set_bootpgtbl_loop.simps [simp del]

lemma set_bootpgtbl_off:
  assumes kp: "kp AND 0xFFF = 0" "unat kp < 2 ^ 32" and "tables kp m f" "off_tables kp x"
  shows "set_bootpgtbl_loop kp idx va phy len dev m x = m x"
  using assms(3)
proof (induction "len - idx" arbitrary: idx va phy m f rule: less_induct)
  case less
  show ?case
  proof (cases "idx < len")
    case True
    have "len - (idx + 0x200000) < len - idx" using True by simp
    then show ?thesis using less(1) [OF _ set_boot_entry_tables [OF kp less(2)]] set_boot_entry_off [OF kp less(2) assms(4)] True
      by (simp add: set_bootpgtbl_loop.simps [of _ idx])
  qed (simp add: set_bootpgtbl_loop.simps [of _ idx])
qed

lemma set_bootpgtbl_tables:
  assumes kp: "kp AND 0xFFF = 0" "unat kp < 2 ^ 32" and "tables kp m f" "l2_index va + k \<le> 2048" "len = idx + k * 0x200000"
  shows "tables kp (set_bootpgtbl_loop kp idx va phy len dev m)
     (\<lambda>n. if l2_index va \<le> n \<and> n < l2_index va + k then boot_pde (phy + of_nat (n - l2_index va) * 0x200000) dev else f n)"
  using assms(3-5)
proof (induction k arbitrary: idx va phy m f)
  case 0
  have "(\<lambda>n. if l2_index va \<le> n \<and> n < l2_index va + 0 then boot_pde (phy + of_nat (n - l2_index va) * 0x200000) dev else f n) = f" by (auto simp: fun_eq_iff)
  then show ?case using 0 by (simp add: set_bootpgtbl_loop.simps)
next
  case (Suc k)
  let ?s = "l2_index va" and ?f = "f(l2_index va := boot_pde phy dev)"
  have t: "tables kp (set_boot_entry kp va phy dev m) ?f" by (rule set_boot_entry_tables [OF kp Suc(2)])
  show ?case
  proof (cases "k = 0")
    case True
    have "(\<lambda>n. if ?s \<le> n \<and> n < ?s + Suc k then boot_pde (phy + of_nat (n - ?s) * 0x200000) dev else f n) = ?f"
      using True by (auto simp: fun_eq_iff)
    then show ?thesis using t True Suc(4) by (simp add: set_bootpgtbl_loop.simps)
  next
    case False
    then have n: "l2_index (va + 0x200000) = Suc ?s" using Suc(3) by (intro l2_index_next) linarith
    have f: "(\<lambda>n. if Suc ?s \<le> n \<and> n < Suc ?s + k then boot_pde (phy + 0x200000 + of_nat (n - Suc ?s) * 0x200000) dev else ?f n)
        = (\<lambda>n. if ?s \<le> n \<and> n < ?s + Suc k then boot_pde (phy + of_nat (n - ?s) * 0x200000) dev else f n)" (is "?l = ?r")
    proof
      fix i
      have "of_nat (i - ?s) = (of_nat (i - Suc ?s) + 1 :: uint64)" if "Suc ?s \<le> i" using that by (metis Suc_diff_le diff_Suc_Suc of_nat_Suc add.commute)
      then show "?l i = ?r i" by (auto simp: algebra_simps)
    qed
    have l: "set_bootpgtbl_loop kp idx va phy len dev m =
        set_bootpgtbl_loop kp (idx + 0x200000) (va + 0x200000) (phy + 0x200000) len dev (set_boot_entry kp va phy dev m)"
      using Suc(4) by (subst set_bootpgtbl_loop.simps) simp
    show ?thesis using Suc(1) [OF t, of "va + 0x200000" "idx + 0x200000" "phy + 0x200000"] Suc(3,4) unfolding l n f by simp
  qed
qed

section \<open>The translation\<close>

lemma boot_pde_block:
  assumes "q < 2 ^ 27"
  shows "boot_pde (of_nat (q * 0x200000)) dev AND 3 = 1"
    "(boot_pde (of_nat (q * 0x200000)) dev AND 0xFFFFFFE00000) OR (va AND 0x1FFFFF) = of_nat (q * 0x200000 + unat va mod 0x200000)"
proof -
  let ?x = "of_nat (q * 0x200000) :: uint64"
  have x: "?x = push_bit 21 (of_nat q)" by (simp add: push_bit_eq_mult mult.commute)
  have "(?x AND PMD_MASK) AND 3 = ?x AND (PMD_MASK AND 3)" by (rule and.assoc)
  then show "boot_pde ?x dev AND 3 = 1"
    unfolding boot_pde_def bit.conj_disj_distrib2 by (simp add: PMD_MASK_def)
  have "boot_pde ?x dev AND 0xFFFFFFE00000 = ?x AND (PMD_MASK AND 0xFFFFFFE00000)"
    unfolding boot_pde_def bit.conj_disj_distrib2 and.assoc by simp
  also have "PMD_MASK AND 0xFFFFFFE00000 = push_bit 21 (mask 27)" by (simp add: PMD_MASK_def mask_eq_exp_minus_1)
  also have "?x AND push_bit 21 (mask 27) = push_bit 21 (take_bit 27 (of_nat q))" unfolding x by (simp add: push_bit_and take_bit_eq_mask)
  also have "take_bit 27 (of_nat q :: uint64) = of_nat q" using assms by (simp add: take_bit_of_nat take_bit_nat_eq_self)
  finally have 1: "boot_pde ?x dev AND 0xFFFFFFE00000 = ?x" unfolding x .
  have 2: "va AND 0x1FFFFF = take_bit 21 va" by (simp add: take_bit_eq_mask mask_eq_exp_minus_1)
  have "?x OR take_bit 21 va = ?x + take_bit 21 va" unfolding x by (rule disjunctive_add [symmetric]) (auto simp: bit_simps)
  also have "\<dots> = of_nat (q * 0x200000 + unat (take_bit 21 va))" by simp
  also have "unat (take_bit 21 va) = unat va mod 0x200000" by (simp add: unat_take_bit take_bit_eq_mod unat_mod)
  finally show "(boot_pde ?x dev AND 0xFFFFFFE00000) OR (va AND 0x1FFFFF) = of_nat (q * 0x200000 + unat va mod 0x200000)" unfolding 1 2 .
qed

text \<open>The intended translation, and what start sets up: the third device window maps to the second device.\<close>

definition boot_map :: "uint64 \<Rightarrow> uint64 option" where
  "boot_map va =
     (let a = unat va mod 2 ^ 32
      in if drop_bit 32 va \<noteq> 0 \<and> drop_bit 32 va \<noteq> 0xFFFFFFFF then None
         else if 0x40000000 \<le> a \<and> a < 0x40200000 \<or> 0x08000000 \<le> a \<and> a < 0x0A000000 then Some (of_nat a)
         else if 0x0A000000 \<le> a \<and> a < 0x0B000000 then Some (of_nat (a - 0x01000000))
         else None)"

definition boot_entry :: "nat \<Rightarrow> uint64" where
  "boot_entry n = (if n = 512 then boot_pde (of_nat (n * 0x200000)) False
     else if 64 \<le> n \<and> n < 80 then boot_pde (of_nat (n * 0x200000)) True
     else if 80 \<le> n \<and> n < 88 then boot_pde (of_nat ((n - 8) * 0x200000)) True
     else 0)"

lemma block_of: "l * 0x200000 \<le> a \<and> a < h * 0x200000 \<longleftrightarrow> l \<le> a div 0x200000 \<and> a div 0x200000 < (h :: nat)"
  by (auto simp: div_less_iff_less_mult less_eq_div_iff_mult_less_eq)

lemma boot_entry_map:
  assumes a: "a = n * 0x200000 + unat va mod 0x200000" and n: "n < 2048"
  shows "(if boot_entry n AND 3 \<noteq> 1 then None else Some ((boot_entry n AND 0xFFFFFFE00000) OR (va AND 0x1FFFFF)))
     = (if n = 512 \<or> 64 \<le> n \<and> n < 80 then Some (of_nat a) else if 80 \<le> n \<and> n < 88 then Some (of_nat (a - 0x01000000)) else None)"
proof -
  have q: "n < 2 ^ 27" "n - 8 < 2 ^ 27" using n by simp_all
  consider "n = 512" | "64 \<le> n" "n < 80" | "80 \<le> n" "n < 88" | "n < 64 \<or> 88 \<le> n" "n \<noteq> 512" by linarith
  then show ?thesis
  proof cases
    case 1
    then show ?thesis using boot_pde_block(1) [OF q(1), of False] boot_pde_block(2) [OF q(1), of False va] a by (simp add: boot_entry_def del: of_nat_mult of_nat_add of_nat_numeral)
  next
    case 2
    then show ?thesis using boot_pde_block(1) [OF q(1), of True] boot_pde_block(2) [OF q(1), of True va] a by (simp add: boot_entry_def del: of_nat_mult of_nat_add)
  next
    case 3
    have e: "boot_entry n = boot_pde (of_nat ((n - 8) * 0x200000)) True" using 3 by (simp add: boot_entry_def)
    have "a - 0x01000000 = (n - 8) * 0x200000 + unat va mod 0x200000" using 3 a by (simp add: algebra_simps)
    then show ?thesis using boot_pde_block(1) [OF q(2), of True] boot_pde_block(2) [OF q(2), of True va] 3 unfolding e by (simp del: of_nat_mult of_nat_add of_nat_diff)
  qed (auto simp: boot_entry_def)
qed

lemma boot_walk_map:
  assumes kp: "kp AND 0xFFF = 0" "unat kp < 2 ^ 32" and t: "tables kp (pmem b) boot_entry"
    and r: "ttbr1_el1 b = kp" "ttbr0_el1 b = kp + 0x1000" "bit (sctlr_el1 b) 0"
  shows "boot_walk b va = boot_map va"
proof (cases "drop_bit 32 va \<noteq> 0 \<and> drop_bit 32 va \<noteq> 0xFFFFFFFF")
  case True
  then show ?thesis using r(3) by (simp add: boot_walk_def boot_map_def)
next
  case False
  let ?a = "unat va mod 2 ^ 32" let ?n = "?a div 0x200000"
  obtain i j where ij: "PGD_IDX va = of_nat i" "PMD_IDX va = of_nat j" "i < 4" "j < 512" "l2_index va = 512 * i + j"
    by (rule index_parts)
  have n: "512 * i + j = ?n" "?n < 2048" using ij unfolding l2_index_low by simp_all
  have s: "kp + 8 * PGD_IDX va = slot kp i" "kp + 0x1000 + 8 * PGD_IDX va = slot kp (512 + i)"
    "page kp (2 + i) + 8 * PMD_IDX va = slot kp (1024 + (512 * i + j))" "page kp (6 + i) + 8 * PMD_IDX va = slot kp (3072 + (512 * i + j))"
    by (simp_all add: ij(1,2) slot_def page_def algebra_simps)
  have e: "ld64 (pmem b) (slot kp i) = page kp (2 + i) OR 3" "ld64 (pmem b) (slot kp (512 + i)) = page kp (6 + i) OR 3"
    "ld64 (pmem b) (slot kp (1024 + ?n)) = boot_entry ?n" "ld64 (pmem b) (slot kp (3072 + ?n)) = boot_entry ?n"
    using t ij(3) n(2) unfolding tables_def by blast+
  have p: "(page kp (2 + i) OR 3) AND PG_ADDR_MASK = page kp (2 + i)" "(page kp (6 + i) OR 3) AND PG_ADDR_MASK = page kp (6 + i)"
     "(page kp (2 + i) OR 3) AND 3 = 3" "(page kp (6 + i) OR 3) AND 3 = 3" using page_mask [OF kp] ij(3) by simp_all
  define tt where "tt = (if drop_bit 32 va = 0 then ttbr0_el1 b else ttbr1_el1 b)"
  obtain E where E: "ld64 (pmem b) (tt + 8 * PGD_IDX va) = E" "E AND 3 = 3" "ld64 (pmem b) ((E AND PG_ADDR_MASK) + 8 * PMD_IDX va) = boot_entry ?n"
  proof (cases "drop_bit 32 va = 0")
    case True
    show ?thesis by (rule that [of "page kp (6 + i) OR 3"]) (use True in \<open>simp_all only: tt_def r s e p n if_True simp_thms\<close>)
  next
    case False
    show ?thesis by (rule that [of "page kp (2 + i) OR 3"]) (use False in \<open>simp_all only: tt_def r s e p n if_False simp_thms\<close>)
  qed
  have w: "boot_walk b va = (if boot_entry ?n AND 3 \<noteq> 1 then None else Some ((boot_entry ?n AND 0xFFFFFFE00000) OR (va AND 0x1FFFFF)))"
    using False r(3) unfolding boot_walk_def Let_def tt_def [symmetric] E by auto
  have a: "?a = ?n * 0x200000 + unat va mod 0x200000"
  proof -
    have "?a mod 0x200000 = unat va mod 0x200000" by (simp add: mod_mod_cancel)
    then show ?thesis using div_mult_mod_eq [of ?a "0x200000"] by presburger
  qed
  have m: "boot_map va = (if ?n = 512 \<or> 64 \<le> ?n \<and> ?n < 80 then Some (of_nat ?a)
      else if 80 \<le> ?n \<and> ?n < 88 then Some (of_nat (?a - 0x01000000)) else None)"
    using False block_of [of 512 ?a 513] block_of [of 64 ?a 80] block_of [of 80 ?a 88] unfolding boot_map_def Let_def by auto
  show ?thesis unfolding w m by (rule boot_entry_map [OF a n(2)])
qed

section \<open>The whole start\<close>

lemma boot_puts_out [simp]: "boot_puts t b = b\<lparr>uart_out := uart_out b @ t\<rparr>"
  by (induction t arbitrary: b) (simp_all add: boot_putc_def)

text \<open>The tables right after the level 1 entries are set.\<close>

lemma zero_slot:
  assumes "\<And>x. \<not> off_tables kp x \<Longrightarrow> m x = 0" "n < 5120"
  shows "ld64 m (slot kp n) = 0"
proof (rule bit_word_eqI)
  fix k :: nat assume k: "k < LENGTH(64)"
  let ?o = "8 * n + k div 8"
  have "unat (of_nat ?o :: uint64) = ?o" by (rule unat_of_nat_uint64) (use k assms(2) in simp)
  moreover have "slot kp n + of_nat (k div 8) - kp = of_nat ?o" by (simp add: slot_def)
  moreover have "?o < 0xa000" using k assms(2) by simp
  ultimately have "\<not> off_tables kp (slot kp n + of_nat (k div 8))" unfolding off_tables_def by (metis not_le)
  then show "bit (ld64 m (slot kp n)) k = bit (0 :: uint64) k" using k assms(1) by (simp add: bit_ld64)
qed

lemma first_tables:
  assumes z: "\<And>x. \<not> off_tables kp x \<Longrightarrow> pmem b x = 0"
  defines "b1 \<equiv> set_pgd_entries (kp + 0x1000) (kp + 0x6000) (set_pgd_entries kp (kp + 0x2000) b)"
  shows "tables kp (pmem b1) (\<lambda>_. 0)" "off_tables kp x \<Longrightarrow> pmem b1 x = pmem b x"
    "b1 = b\<lparr>pmem := pmem b1\<rparr>"
proof -
  have u: "[0..<4] = [0, 1, 2, 3 :: nat]" by (simp add: upt_rec)
  have o: "ENTRY_TABLE OR ENTRY_VALID = 3" by (simp add: ENTRY_TABLE_def ENTRY_VALID_def)
  have w: "kp + 8 * of_nat i = slot kp i" "kp + 0x1000 + 8 * of_nat i = slot kp (512 + i)"
    "kp + 0x2000 + of_nat i * 4096 = page kp (2 + i)" "kp + 0x6000 + of_nat i * 4096 = page kp (6 + i)" for i
    by (simp_all add: slot_def page_def algebra_simps)
  have b1: "pmem b1 = fold (\<lambda>i. st64 (slot kp (512 + i)) (page kp (6 + i) OR 3)) [0..<4]
      (fold (\<lambda>i. st64 (slot kp i) (page kp (2 + i) OR 3)) [0..<4] (pmem b))"
    unfolding b1_def set_pgd_entries_def w or.assoc o by simp
  have c: "(\<forall>i<4. P i) \<longleftrightarrow> P 0 \<and> P 1 \<and> P 2 \<and> P 3" for P :: "nat \<Rightarrow> bool"
    by (auto simp: numeral_eq_Suc All_less_Suc)
  show "tables kp (pmem b1) (\<lambda>_. 0)"
    unfolding tables_def b1 u c by (simp add: ld64_slot zero_slot [OF z] numeral_2_eq_2 [symmetric] numeral_3_eq_3 [symmetric])
  show "off_tables kp x \<Longrightarrow> pmem b1 x = pmem b x" unfolding b1 u by (simp add: st64_off_tables)
  show "b1 = b\<lparr>pmem := pmem b1\<rparr>" by (simp add: b1_def set_pgd_entries_def)
qed

text \<open>The state when paging is on.\<close>

definition paging_on :: "uint64 \<Rightarrow> uint64 \<Rightarrow> boot \<Rightarrow> boot" where
  "paging_on vectors kp b =
     (let b = set_pgd_entries (kp + 0x1000) (kp + 0x6000) (set_pgd_entries kp (kp + 0x2000) (boot_puts (''starting xv6 for ARMv8...'' @ nl) b));
          b = set_bootpgtbl kp PHY_START PHY_START INIT_KERN_SZ False b;
          b = set_bootpgtbl kp (KERNBASE + PHY_START) PHY_START INIT_KERN_SZ False b;
          b = set_bootpgtbl kp DEVBASE2 DEVBASE2 DEV_MEM_SZ True b;
          b = set_bootpgtbl kp (KERNBASE + DEVBASE1) DEVBASE1 DEV_MEM_SZ True b;
          b = set_bootpgtbl kp (KERNBASE + DEVBASE2) DEVBASE2 DEV_MEM_SZ True b;
          b = set_bootpgtbl kp (KERNBASE + DEVBASE3) DEVBASE2 DEV_MEM_SZ True b
      in load_pgtlb vectors kp b)"

lemma window_address:
  "of_nat (c * 0x200000) + of_nat k * 0x200000 = (of_nat ((c + k) * 0x200000) :: uint64)"
  by (simp add: algebra_simps)

lemma window:
  assumes kp: "kp AND 0xFFF = 0" "unat kp < 2 ^ 32" and t: "tables kp (pmem b) f"
    and k: "unat len = k * 0x200000" "l2_index va = i" "phy = of_nat (c * 0x200000)" "i + k \<le> 2048"
  shows "tables kp (pmem (set_bootpgtbl kp va phy len dev b))
     (\<lambda>n. if i \<le> n \<and> n < i + k then boot_pde (of_nat ((c + (n - i)) * 0x200000)) dev else f n)"
    "off_tables kp x \<Longrightarrow> pmem (set_bootpgtbl kp va phy len dev b) x = pmem b x"
proof -
  show "tables kp (pmem (set_bootpgtbl kp va phy len dev b))
     (\<lambda>n. if i \<le> n \<and> n < i + k then boot_pde (of_nat ((c + (n - i)) * 0x200000)) dev else f n)"
    using set_bootpgtbl_tables [OF kp t, of va k "unat len" 0 phy dev] k unfolding window_address [symmetric] k(3) [symmetric]
    by (simp add: set_bootpgtbl_def cong: if_cong)
  show "off_tables kp x \<Longrightarrow> pmem (set_bootpgtbl kp va phy len dev b) x = pmem b x"
    using set_bootpgtbl_off [OF kp t] by (simp add: set_bootpgtbl_def)
qed

lemma window_values:
  "l2_index PHY_START = 512" "l2_index (KERNBASE + PHY_START) = 512" "l2_index DEVBASE2 = 72" "l2_index (KERNBASE + DEVBASE1) = 64"
  "l2_index (KERNBASE + DEVBASE2) = 72" "l2_index (KERNBASE + DEVBASE3) = 80" "unat INIT_KERN_SZ = 1 * 0x200000" "unat DEV_MEM_SZ = 8 * 0x200000"
  "PHY_START = of_nat (512 * 0x200000)" "DEVBASE1 = of_nat (64 * 0x200000)" "DEVBASE2 = of_nat (72 * 0x200000)"
  by (simp_all add: l2_index_low PHY_START_def DEVBASE1_def DEVBASE2_def DEVBASE3_def KERNBASE_def INIT_KERN_SZ_def DEV_MEM_SZ_def)

lemma window_entries:
  "(\<lambda>n. if 80 \<le> n \<and> n < 80 + 8 then boot_pde (of_nat ((72 + (n - 80)) * 0x200000)) True
     else if 72 \<le> n \<and> n < 72 + 8 then boot_pde (of_nat ((72 + (n - 72)) * 0x200000)) True
     else if 64 \<le> n \<and> n < 64 + 8 then boot_pde (of_nat ((64 + (n - 64)) * 0x200000)) True
     else if 72 \<le> n \<and> n < 72 + 8 then boot_pde (of_nat ((72 + (n - 72)) * 0x200000)) True
     else if 512 \<le> n \<and> n < 512 + 1 then boot_pde (of_nat ((512 + (n - 512)) * 0x200000)) False
     else if 512 \<le> n \<and> n < 512 + 1 then boot_pde (of_nat ((512 + (n - 512)) * 0x200000)) False else 0) = boot_entry"
  (is "?l = ?r")
proof
  fix n :: nat
  consider "n = 512" | "64 \<le> n" "n < 72" | "72 \<le> n" "n < 80" | "80 \<le> n" "n < 88" | "n < 64 \<or> 88 \<le> n" "n \<noteq> 512" by linarith
  then show "?l n = ?r n"
  proof cases
    case 4
    then have "72 + (n - 80) = n - 8" by linarith
    then show ?thesis using 4 by (simp add: boot_entry_def del: of_nat_mult of_nat_add of_nat_diff)
  qed (auto simp: boot_entry_def)
qed

lemma load_pgtlb_regs:
  "pmem (load_pgtlb vectors kp b) = pmem b" "ttbr1_el1 (load_pgtlb vectors kp b) = kp" "ttbr0_el1 (load_pgtlb vectors kp b) = kp + 0x1000"
  "bit (sctlr_el1 (load_pgtlb vectors kp b)) 0"
  by (simp_all add: load_pgtlb_def Let_def bit_or_iff)

lemma paging_on_spec:
  assumes kp: "kp AND 0xFFF = 0" "unat kp < 2 ^ 32" and z: "\<And>x. \<not> off_tables kp x \<Longrightarrow> pmem b x = 0"
  shows "tables kp (pmem (paging_on vectors kp b)) boot_entry" "off_tables kp x \<Longrightarrow> pmem (paging_on vectors kp b) x = pmem b x"
proof -
  define b0 where "b0 = set_pgd_entries (kp + 0x1000) (kp + 0x6000) (set_pgd_entries kp (kp + 0x2000) (boot_puts (''starting xv6 for ARMv8...'' @ nl) b))"
  define b1 where "b1 = set_bootpgtbl kp PHY_START PHY_START INIT_KERN_SZ False b0"
  define b2 where "b2 = set_bootpgtbl kp (KERNBASE + PHY_START) PHY_START INIT_KERN_SZ False b1"
  define b3 where "b3 = set_bootpgtbl kp DEVBASE2 DEVBASE2 DEV_MEM_SZ True b2"
  define b4 where "b4 = set_bootpgtbl kp (KERNBASE + DEVBASE1) DEVBASE1 DEV_MEM_SZ True b3"
  define b5 where "b5 = set_bootpgtbl kp (KERNBASE + DEVBASE2) DEVBASE2 DEV_MEM_SZ True b4"
  define b6 where "b6 = set_bootpgtbl kp (KERNBASE + DEVBASE3) DEVBASE2 DEV_MEM_SZ True b5"
  have e: "paging_on vectors kp b = load_pgtlb vectors kp b6"
    unfolding paging_on_def Let_def b0_def b1_def b2_def b3_def b4_def b5_def b6_def ..
  have t0: "tables kp (pmem b0) (\<lambda>_. 0)" "off_tables kp x \<Longrightarrow> pmem b0 x = pmem b x"
    unfolding b0_def using first_tables(1,2) [of kp "boot_puts (''starting xv6 for ARMv8...'' @ nl) b"] z by auto
  note v = window_values
  have l: "512 + 1 \<le> (2048 :: nat)" "64 + 8 \<le> (2048 :: nat)" "72 + 8 \<le> (2048 :: nat)" "80 + 8 \<le> (2048 :: nat)" by simp_all
  note t1 = window [OF kp t0(1) v(7) v(1) v(9) l(1), where dev = False, folded b1_def]
  note t2 = window [OF kp t1(1) v(7) v(2) v(9) l(1), where dev = False, folded b2_def]
  note t3 = window [OF kp t2(1) v(8) v(3) v(11) l(3), where dev = True, folded b3_def]
  note t4 = window [OF kp t3(1) v(8) v(4) v(10) l(2), where dev = True, folded b4_def]
  note t5 = window [OF kp t4(1) v(8) v(5) v(11) l(3), where dev = True, folded b5_def]
  note t6 = window [OF kp t5(1) v(8) v(6) v(11) l(4), where dev = True, folded b6_def]
  show "tables kp (pmem (paging_on vectors kp b)) boot_entry" using t6(1) unfolding e load_pgtlb_regs window_entries .
  show "off_tables kp x \<Longrightarrow> pmem (paging_on vectors kp b) x = pmem b x"
    unfolding e load_pgtlb_regs using t0(2) t1(2) t2(2) t3(2) t4(2) t5(2) t6(2) by simp
qed

text \<open>A kernel address below the end of the first block.\<close>

lemma boot_map_kernel:
  assumes "0x40000000 \<le> c" "c < 0x40200000"
  shows "boot_map (KERNBASE + of_nat c) = Some (of_nat c)"
proof -
  have u: "unat (KERNBASE + of_nat c) = 0xFFFFFFFF00000000 + c"
    using assms by (subst unat_word_ariths) (simp add: KERNBASE_def unat_of_nat_uint64)
  have "0xFFFFFFFF00000000 + c = c + 0xFFFFFFFF * 2 ^ 32" by simp
  then have m: "unat (KERNBASE + of_nat c) mod 2 ^ 32 = c" unfolding u using assms by (simp only: mod_mult_self1) simp
  have dd: "(0xFFFFFFFF00000000 + c) div 2 ^ 32 = 0xFFFFFFFF" using assms by (intro div_nat_eqI) simp_all
  have "unat (drop_bit 32 (KERNBASE + of_nat c)) = unat (KERNBASE + of_nat c) div 2 ^ 32" by (simp add: drop_bit_eq_div unat_div)
  then have "unat (drop_bit 32 (KERNBASE + of_nat c)) = 0xFFFFFFFF" unfolding u dd .
  then have "drop_bit 32 (KERNBASE + of_nat c) = 0xFFFFFFFF" by (subst word_unat_eq_iff) simp
  then show ?thesis unfolding boot_map_def Let_def m using assms by simp
qed

lemma kfill_Suc: "kfill (of_nat (Suc c)) n v (pmem (b\<lparr>pmem := (pmem b)(of_nat c := v)\<rparr>)) = kfill (of_nat c) (Suc n) v (pmem b)"
proof
  fix x :: uint64
  have d: "x - of_nat (Suc c) = x - of_nat c - 1" by simp
  show "kfill (of_nat (Suc c)) n v (pmem (b\<lparr>pmem := (pmem b)(of_nat c := v)\<rparr>)) x = kfill (of_nat c) (Suc n) v (pmem b) x"
  proof (cases "x = of_nat c")
    case False
    then have "unat (x - of_nat c - 1) = unat (x - of_nat c) - 1" "unat (x - of_nat c) \<noteq> 0"
      using unat_minus_one [of "x - of_nat c"] by (simp_all add: unat_eq_zero)
    then show ?thesis using False unfolding kfill_def d by auto
  qed (simp add: kfill_def)
qed

lemma boot_zero_spec:
  assumes kp: "kp AND 0xFFF = 0" "0x40010000 \<le> unat kp" "unat kp \<le> 0x40026000"
    and "tables kp (pmem b) boot_entry" "ttbr1_el1 b = kp" "ttbr0_el1 b = kp + 0x1000" "bit (sctlr_el1 b) 0"
    and "0x40030000 \<le> c" "c + n \<le> 0x40200000"
  shows "boot_zero (KERNBASE + of_nat c) n b = Ok () (b\<lparr>pmem := kfill (of_nat c) n 0 (pmem b)\<rparr>)
     \<and> tables kp (kfill (of_nat c) n 0 (pmem b)) boot_entry"
  using assms(4-9)
proof (induction n arbitrary: c b)
  case 0
  have "kfill (of_nat c) 0 0 (pmem b) = pmem b" by (simp add: kfill_def)
  then show ?case using 0 by simp
next
  case (Suc n)
  have k32: "unat kp < 2 ^ 32" using kp by simp
  let ?b = "b\<lparr>pmem := (pmem b)(of_nat c := 0)\<rparr>"
  have w: "boot_walk b (KERNBASE + of_nat c) = Some (of_nat c)"
    using boot_walk_map [OF kp(1) k32 Suc(2-5)] boot_map_kernel [of c] Suc(6,7) by simp
  have off: "off_tables kp (of_nat c)"
  proof -
    have "of_nat c - kp = of_nat (c - unat kp)" using kp Suc(6) by (simp add: of_nat_diff)
    moreover have "unat (of_nat (c - unat kp) :: uint64) = c - unat kp" by (rule unat_of_nat_uint64) (use Suc(7) in simp)
    ultimately show ?thesis using kp(3) Suc(6) by (simp add: off_tables_def)
  qed
  have t: "tables kp (pmem ?b) boot_entry" by (rule tables_cong [OF Suc(2)]) (use off in auto)
  have k: "kfill (of_nat (Suc c)) n 0 (pmem ?b) = kfill (of_nat c) (Suc n) 0 (pmem b)"
    by (rule kfill_Suc)
  have a: "KERNBASE + of_nat c + 1 = KERNBASE + of_nat (Suc c)" by simp
  show ?case using Suc(1) [OF t, of "Suc c"] Suc(3-7) w unfolding k by (simp add: a del: of_nat_Suc)
qed

text \<open>C13: the boot code maps the kernel. With the tables where the linker script puts them and cleared by the entry code, the
  code reaches \<open>kmain\<close> without a fault; then every virtual address is translated by \<open>boot_map\<close>: the first 2 MB of
  memory, and the first two device windows, at their own address and at \<open>KERNBASE\<close> plus that address, the third window to
  the second device, and nothing else. Memory outside the tables is unchanged, apart from the first eighth of the BSS
  section, which is zero.\<close>

theorem boot_maps_kernel:
  assumes "kp AND 0xFFF = 0" "0x40010000 \<le> unat kp" "unat kp \<le> 0x40026000" "\<And>x. \<not> off_tables kp x \<Longrightarrow> pmem b x = 0"
    and "0x40030000 \<le> d" "d \<le> e" "e \<le> 0x40200000"
  shows "\<exists>b'. start vectors kp (KERNBASE + of_nat d) (KERNBASE + of_nat e) b = Ok () b' \<and> boot_walk b' = boot_map
     \<and> (\<forall>x. off_tables kp x \<longrightarrow> pmem b' x = (if unat (x - of_nat d) < (e - d) div 8 then 0 else pmem b x))"
proof -
  let ?b = "paging_on vectors kp b" let ?n = "(e - d) div 8"
  have k32: "unat kp < 2 ^ 32" using assms(3) by simp
  have p: "tables kp (pmem ?b) boot_entry" "off_tables kp x \<Longrightarrow> pmem ?b x = pmem b x" for x
    using paging_on_spec [OF assms(1) k32, of b] assms(4) by blast+
  have r: "ttbr1_el1 ?b = kp" "ttbr0_el1 ?b = kp + 0x1000" "bit (sctlr_el1 ?b) 0" by (simp_all add: paging_on_def Let_def load_pgtlb_regs)
  let ?c = "boot_puts (''clearing BSS section for the main kernel'' @ nl) ?b"
  have "KERNBASE + of_nat e - (KERNBASE + of_nat d) = (of_nat (e - d) :: uint64)" using assms(6) by (simp add: of_nat_diff)
  moreover have "unat (of_nat (e - d) :: uint64) = e - d" by (rule unat_of_nat_uint64) (use assms(7) in simp)
  ultimately have n: "unat (KERNBASE + of_nat e - (KERNBASE + of_nat d)) div 8 = ?n" by simp
  have z: "boot_zero (KERNBASE + of_nat d) ?n ?c = Ok () (?c\<lparr>pmem := kfill (of_nat d) ?n 0 (pmem ?c)\<rparr>) \<and> tables kp (kfill (of_nat d) ?n 0 (pmem ?c)) boot_entry"
    by (rule boot_zero_spec [OF assms(1-3)]) (use p(1) r assms(5-7) in auto)
  let ?b' = "boot_puts (''Starting Kernel'' @ nl) (?c\<lparr>pmem := kfill (of_nat d) ?n 0 (pmem ?c)\<rparr>)"
  have "start vectors kp (KERNBASE + of_nat d) (KERNBASE + of_nat e) b
      = andthen (clear_bss (KERNBASE + of_nat d) (KERNBASE + of_nat e) ?b) (\<lambda>_ b. Ok () (boot_puts (''Starting Kernel'' @ nl) b))"
    unfolding start_def paging_on_def Let_def ..
  then have "start vectors kp (KERNBASE + of_nat d) (KERNBASE + of_nat e) b = Ok () ?b'"
    unfolding clear_bss_def n Let_def using z by simp
  moreover have "boot_walk ?b' = boot_map"
    using boot_walk_map [OF assms(1) k32, of ?b'] z r by (auto simp: fun_eq_iff)
  moreover have "pmem ?b' x = (if unat (x - of_nat d) < ?n then 0 else pmem b x)" if "off_tables kp x" for x
    using p(2) [OF that] by (simp add: kfill_def)
  ultimately show ?thesis by blast
qed

text \<open>A boot with all memory but the tables set to 1, and a BSS section of 512 KB, of which 64 KB are cleared.\<close>

definition dirty_boot :: boot where
  "dirty_boot = \<lparr>pmem = (\<lambda>x. if off_tables 0x40020000 x then 1 else 0), uart_out = [], midr_el1 = 0x410FD034, current_el = 4, cpacr_el1 = 0,
     mdscr_el1 = 0, mair_el1 = 0, vbar_el1 = 0, tcr_el1 = 0, ttbr1_el1 = 0, ttbr0_el1 = 0, sctlr_el1 = 0xC50838\<rparr>"

theorem boot_maps_kernel_witness:
  "\<exists>b'. start 0x40010800 0x40020000 (KERNBASE + of_nat 0x40100000) (KERNBASE + of_nat 0x40180000) dirty_boot = Ok () b'
     \<and> boot_walk b' 0xFFFFFFFF40001234 = Some 0x40001234 \<and> boot_walk b' 0xFFFFFFFF0a000000 = Some 0x09000000 \<and> boot_walk b' 0x50000000 = None
     \<and> pmem b' 0x40100000 = 0 \<and> pmem b' 0x40110000 = 1"
proof -
  obtain b' where b: "start 0x40010800 0x40020000 (KERNBASE + of_nat 0x40100000) (KERNBASE + of_nat 0x40180000) dirty_boot = Ok () b'"
    "boot_walk b' = boot_map"
    "\<And>x. off_tables 0x40020000 x \<Longrightarrow> pmem b' x = (if unat (x - of_nat 0x40100000) < (0x40180000 - 0x40100000) div 8 then 0 else pmem dirty_boot x)"
    using boot_maps_kernel [of "0x40020000" dirty_boot "0x40100000" "0x40180000" "0x40010800"] by (auto simp: dirty_boot_def)
  have "off_tables 0x40020000 0x40100000" "off_tables 0x40020000 0x40110000" by (simp_all add: off_tables_def)
  then show ?thesis using b(1) b(3) [of "0x40100000"] b(3) [of "0x40110000"]
    by (intro exI [of _ b']) (simp add: b(2) boot_map_def dirty_boot_def)
qed

end
