(* ===== verification/User.thy ===== *)
theory User
  imports Prelude
begin

text \<open>
  User programs (\<^verbatim>\<open>usr\<close>). A program is a tree of system calls: each call is followed by the rest of the program for
  every possible answer. \<open>fork\<close> answers 0 in the child and the process id in the parent, so the two processes are two
  branches of the tree. A loop takes a bound on its number of iterations and ends in \<open>Unfinished\<close> when it is used up.
  Then the library that the programs are linked with (\<^verbatim>\<open>ulib.c\<close>, \<^verbatim>\<open>printf.c\<close>). Characters are of type
  \<^typ>\<open>char\<close>; a C string argument is the list of its characters.
\<close>

section \<open>Programs\<close>

datatype usyscall =
    Sys_fork | Sys_exit | Sys_wait | Sys_pipe
  | Sys_read int nat | Sys_write int string | Sys_close int | Sys_kill int
  | Sys_exec string "string list" | Sys_open string nat | Sys_mknod string nat nat | Sys_unlink string
  | Sys_fstat int | Sys_link string string | Sys_mkdir string | Sys_chdir string
  | Sys_dup int | Sys_getpid | Sys_sbrk int | Sys_sleep int | Sys_uptime

text \<open>An answer: the return value and, where the call stores through a pointer, what it stores.\<close>

record ustat =
  st_type :: int
  st_ino :: nat
  st_size :: nat

record answer =
  ret :: int
  data :: string
  pipe_fds :: "int \<times> int"
  stat_buf :: ustat

datatype 'a prog =
    Return 'a
  | Call usyscall "answer \<Rightarrow> 'a prog"
  | Exit
  | Unfinished

primrec bindp :: "'a prog \<Rightarrow> ('a \<Rightarrow> 'b prog) \<Rightarrow> 'b prog" where
  "bindp (Return x) f = f x"
| "bindp (Call c k) f = Call c (\<lambda>r. bindp (k r) f)"
| "bindp Exit f = Exit"
| "bindp Unfinished f = Unfinished"

text \<open>A call whose return value is all that matters, and one that is made for its effect.\<close>

definition sys :: "usyscall \<Rightarrow> (int \<Rightarrow> 'a prog) \<Rightarrow> 'a prog" where
  "sys c k = Call c (\<lambda>r. k (ret r))"

definition sys_then :: "usyscall \<Rightarrow> 'a prog \<Rightarrow> 'a prog" where
  "sys_then c k = Call c (\<lambda>_. k)"

text \<open>\<open>exit()\<close> does not return.\<close>

definition uexit :: "'a prog" where
  "uexit = Call Sys_exit (\<lambda>_. Exit)"

section \<open>The library\<close>

text \<open>Strings in memory end with a NUL; the loops run on if there is none.\<close>

type_synonym umem = "nat \<Rightarrow> char"

abbreviation NUL :: char where "NUL \<equiv> CHR 0x00"

partial_function (option) ustrcpy_loop :: "nat \<Rightarrow> nat \<Rightarrow> umem \<Rightarrow> umem option" where
  "ustrcpy_loop s t m = (let m1 = m(s := m t) in if m t \<noteq> NUL then ustrcpy_loop (s + 1) (t + 1) m1 else Some m1)"

definition ustrcpy :: "nat \<Rightarrow> nat \<Rightarrow> umem \<Rightarrow> umem option" where
  "ustrcpy s t m = ustrcpy_loop s t m"

partial_function (option) ustrcmp :: "umem \<Rightarrow> nat \<Rightarrow> nat \<Rightarrow> int option" where
  "ustrcmp m p q = (if m p \<noteq> NUL \<and> m p = m q then ustrcmp m (p + 1) (q + 1)
     else Some (int (of_char (m p) :: nat) - int (of_char (m q))))"

partial_function (option) ustrlen_loop :: "umem \<Rightarrow> nat \<Rightarrow> nat \<Rightarrow> nat option" where
  "ustrlen_loop m s n = (if m (s + n) \<noteq> NUL then ustrlen_loop m s (n + 1) else Some n)"

definition ustrlen :: "umem \<Rightarrow> nat \<Rightarrow> nat option" where
  "ustrlen m s = ustrlen_loop m s 0"

text \<open>The string at a position, up to its NUL.\<close>

definition cstr :: "umem \<Rightarrow> nat \<Rightarrow> string" where
  "cstr b s = (case ustrlen b s of None \<Rightarrow> [] | Some n \<Rightarrow> map b [s..<s + n])"

partial_function (option) ustrchr :: "umem \<Rightarrow> nat \<Rightarrow> char \<Rightarrow> nat option option" where
  "ustrchr m s c = (if m s = NUL then Some None else if m s = c then Some (Some s) else ustrchr m (s + 1) c)"

text \<open>\<open>strchr\<close> on a literal, for its truth value.\<close>

fun strchr_in :: "string \<Rightarrow> char \<Rightarrow> bool" where
  "strchr_in [] c = False"
| "strchr_in (d # ds) c = (d = c \<or> strchr_in ds c)"

text \<open>\<open>memset\<close> of the library: bytes up to a multiple of four, then words, then the rest.\<close>

function umemset_head :: "char \<Rightarrow> nat \<Rightarrow> nat \<Rightarrow> umem \<Rightarrow> nat \<times> nat \<times> umem" where
  "umemset_head c p n m = (if n > 0 \<and> p mod 4 \<noteq> 0 then umemset_head c (p + 1) (n - 1) (m(p := c)) else (p, n, m))"
  by auto

termination
  by (relation "measure (\<lambda>(c, p, n, m). n)") auto

function umemset_words :: "char \<Rightarrow> nat \<Rightarrow> nat \<Rightarrow> umem \<Rightarrow> nat \<times> nat \<times> umem" where
  "umemset_words c p n m =
     (if n \<ge> 4 then umemset_words c (p + 4) (n - 4) (m(p := c, p + 1 := c, p + 2 := c, p + 3 := c)) else (p, n, m))"
  by auto

termination
  by (relation "measure (\<lambda>(c, p, n, m). n)") auto

fun umemset_tail :: "char \<Rightarrow> nat \<Rightarrow> nat \<Rightarrow> umem \<Rightarrow> umem" where
  "umemset_tail c p 0 m = m"
| "umemset_tail c p (Suc n) m = umemset_tail c (p + 1) n (m(p := c))"

definition umemset :: "nat \<Rightarrow> char \<Rightarrow> nat \<Rightarrow> umem \<Rightarrow> umem" where
  "umemset dst c n m =
     (let (p, n, m) = umemset_head c dst n m; (p, n, m) = umemset_words c p n m in umemset_tail c p n m)"

fun umemmove :: "nat \<Rightarrow> nat \<Rightarrow> nat \<Rightarrow> umem \<Rightarrow> umem" where
  "umemmove dst src 0 m = m"
| "umemmove dst src (Suc n) m = umemmove (dst + 1) (src + 1) n (m(dst := m src))"

text \<open>\<open>gets\<close>: \<open>k\<close> more characters fit, and \<open>i\<close> have been stored in the buffer.\<close>

fun gets_loop :: "nat \<Rightarrow> nat \<Rightarrow> nat \<Rightarrow> umem \<Rightarrow> umem prog" where
  "gets_loop buf i 0 m = Return (m(buf + i := NUL))"
| "gets_loop buf i (Suc k) m =
     Call (Sys_read 0 1) (\<lambda>r.
       if ret r < 1 then Return (m(buf + i := NUL))
       else (let c = hd (data r); m1 = m(buf + i := c)
             in if c = CHR 0x0A \<or> c = CHR 0x0D then Return (m1(buf + (i + 1) := NUL)) else gets_loop buf (i + 1) k m1))"

definition gets :: "nat \<Rightarrow> nat \<Rightarrow> umem \<Rightarrow> umem prog" where
  "gets buf nmax m = gets_loop buf 0 (nmax - 1) m"

definition ustat_call :: "string \<Rightarrow> (int \<times> ustat) prog" where
  "ustat_call n =
     sys (Sys_open n 0) (\<lambda>fd.
       if fd < 0 then Return (- 1, \<lparr>st_type = 0, st_ino = 0, st_size = 0\<rparr>)
       else Call (Sys_fstat fd) (\<lambda>r. sys_then (Sys_close fd) (Return (ret r, stat_buf r))))"

fun atoi_loop :: "string \<Rightarrow> int \<Rightarrow> int" where
  "atoi_loop [] n = n"
| "atoi_loop (c # s) n =
     (if (48 :: nat) \<le> of_char c \<and> of_char c \<le> (57 :: nat) then atoi_loop s (n * 10 + int (of_char c) - 48) else n)"

definition atoi :: "string \<Rightarrow> int" where
  "atoi s = atoi_loop s 0"

section \<open>Formatted output\<close>

text \<open>The argument registers that \<open>printf\<close> walks through, as a list: numbers, and strings given by
  their characters (\<open>None\<close> for a null pointer). The callers pass an argument for every conversion.\<close>

datatype uarg = UNum "64 word" | UStr "string option"

fun putcs :: "int \<Rightarrow> string \<Rightarrow> 'a prog \<Rightarrow> 'a prog" where
  "putcs fd [] k = k"
| "putcs fd (c # cs) k = sys_then (Sys_write fd [c]) (putcs fd cs k)"

function uprintint_digits :: "nat \<Rightarrow> nat \<Rightarrow> string" where
  "uprintint_digits x base =
     ''0123456789ABCDEF'' ! (x mod base) # (if x div base \<noteq> 0 \<and> base > 1 then uprintint_digits (x div base) base else [])"
  by auto

termination
proof (relation "measure (\<lambda>(x, base). x)", simp, goal_cases)
  case (1 x base)
  then have "0 < x" by (cases "x = 0") auto
  then show ?case using 1 by (simp add: div_less_dividend)
qed

text \<open>The buffer \<open>buf\<close> in the order in which it is filled; it is printed from the end.\<close>

definition uprintint_buf :: "uint \<Rightarrow> nat \<Rightarrow> bool \<Rightarrow> string" where
  "uprintint_buf xx base sg =
     (let neg = sg \<and> sint xx < 0; x = (if neg then - xx else xx)
      in uprintint_digits (unat x) base @ (if neg then ''-'' else []))"

definition uprintint :: "int \<Rightarrow> uint \<Rightarrow> nat \<Rightarrow> bool \<Rightarrow> 'a prog \<Rightarrow> 'a prog" where
  "uprintint fd xx base sg k = putcs fd (rev (uprintint_buf xx base sg)) k"

definition arg_num :: "uarg \<Rightarrow> 64 word" where
  "arg_num a = (case a of UNum w \<Rightarrow> w | UStr _ \<Rightarrow> 0)"

definition arg_str :: "uarg \<Rightarrow> string" where
  "arg_str a = (case a of UStr (Some s) \<Rightarrow> s | _ \<Rightarrow> ''(null)'')"

text \<open>\<open>percent\<close> tells whether \<open>state\<close> is \<open>'%'\<close>.\<close>

fun uprintf_loop :: "int \<Rightarrow> string \<Rightarrow> bool \<Rightarrow> uarg list \<Rightarrow> 'a prog \<Rightarrow> 'a prog" where
  "uprintf_loop fd [] percent ap k = k"
| "uprintf_loop fd (c # fmt) False ap k =
     (if c = CHR 0x25 then uprintf_loop fd fmt True ap k else putcs fd [c] (uprintf_loop fd fmt False ap k))"
| "uprintf_loop fd (c # fmt) True ap k =
     (if c = CHR ''d'' then uprintint fd (ucast (arg_num (hd ap))) 10 True (uprintf_loop fd fmt False (tl ap) k)
      else if c = CHR ''x'' \<or> c = CHR ''p'' then uprintint fd (ucast (arg_num (hd ap))) 16 False (uprintf_loop fd fmt False (tl ap) k)
      else if c = CHR ''s'' then putcs fd (arg_str (hd ap)) (uprintf_loop fd fmt False (tl ap) k)
      else if c = CHR ''c'' then putcs fd [char_of (unat (arg_num (hd ap)))] (uprintf_loop fd fmt False (tl ap) k)
      else if c = CHR 0x25 then putcs fd [c] (uprintf_loop fd fmt False ap k)
      else putcs fd [CHR 0x25, c] (uprintf_loop fd fmt False ap k))"

definition uprintf :: "int \<Rightarrow> string \<Rightarrow> uarg list \<Rightarrow> 'a prog \<Rightarrow> 'a prog" where
  "uprintf fd fmt ap k = uprintf_loop fd fmt False ap k"

abbreviation "str s \<equiv> UStr (Some s)"
abbreviation "unl \<equiv> [CHR 0x0A]"

end
