(* ===== verification/Sh.thy ===== *)
theory Sh
  imports User
begin

text \<open>
  The shell (\<^verbatim>\<open>usr/sh.c\<close>): commands, the recursive-descent parser over the line buffer, and their execution as
  trees of system calls. Pointers into the line are positions; a word is the pair of its start and its end. The nodes of
  a command, which the code allocates with \<open>malloc\<close>, are values. A call of \<open>panic\<close> in the parser ends in
  \<open>Panic\<close>. The parser takes a bound on its recursion depth and ends in \<open>Diverge\<close> when it is exceeded.
\<close>

section \<open>Commands\<close>

definition MAXARGS :: nat where "MAXARGS = 10"
definition O_RDONLY_u :: nat where "O_RDONLY_u = 0"
definition O_WRONLY_u :: nat where "O_WRONLY_u = 1"
definition O_RDWR_u :: nat where "O_RDWR_u = 2"
definition O_CREATE_u :: nat where "O_CREATE_u = 0x200"

datatype 'w cmd =
    EXEC "'w list"
  | REDIR "'w cmd" 'w nat int
  | PIPE "'w cmd" "'w cmd"
  | LIST "'w cmd" "'w cmd"
  | BACK "'w cmd"

type_synonym word = "nat \<times> nat"

section \<open>Tokens\<close>

definition whitespace :: string where
  "whitespace = [CHR 0x20, CHR 0x09, CHR 0x0D, CHR 0x0A, CHR 0x0B]"

definition symbols :: string where
  "symbols = ''<|>&;()''"

function skip_white :: "umem \<Rightarrow> nat \<Rightarrow> nat \<Rightarrow> nat" where
  "skip_white b es s = (if s < es \<and> strchr_in whitespace (b s) then skip_white b es (s + 1) else s)"
  by auto

termination
  by (relation "measure (\<lambda>(b, es, s). es - s)") auto

function skip_word :: "umem \<Rightarrow> nat \<Rightarrow> nat \<Rightarrow> nat" where
  "skip_word b es s =
     (if s < es \<and> \<not> strchr_in whitespace (b s) \<and> \<not> strchr_in symbols (b s) then skip_word b es (s + 1) else s)"
  by auto

termination
  by (relation "measure (\<lambda>(b, es, s). es - s)") auto

text \<open>The token, its start and end, and the position after it and the white space that follows.\<close>

definition gettoken :: "umem \<Rightarrow> nat \<Rightarrow> nat \<Rightarrow> (char \<times> nat \<times> nat) \<times> nat" where
  "gettoken b es s =
     (let q = skip_white b es s; c = b q;
          (tok, eq) = (if c = NUL then (c, q)
                       else if c = CHR ''|'' \<or> c = CHR ''('' \<or> c = CHR '')'' \<or> c = CHR '';'' \<or> c = CHR ''&'' \<or> c = CHR ''<'' then (c, q + 1)
                       else if c = CHR ''>'' then (if b (q + 1) = CHR ''>'' then (CHR ''+'', q + 2) else (c, q + 1))
                       else (CHR ''a'', skip_word b es q))
      in ((tok, q, eq), skip_white b es eq))"

definition peek :: "umem \<Rightarrow> nat \<Rightarrow> string \<Rightarrow> nat \<Rightarrow> bool \<times> nat" where
  "peek b es toks s = (let s = skip_white b es s in (b s \<noteq> NUL \<and> strchr_in toks (b s), s))"

section \<open>The parser\<close>

fun parseredirs :: "nat \<Rightarrow> umem \<Rightarrow> nat \<Rightarrow> word cmd \<Rightarrow> nat \<Rightarrow> (nat, word cmd) outcome" where
  "parseredirs 0 b es cmd s = Diverge"
| "parseredirs (Suc n) b es cmd s =
     (let (more, s) = peek b es ''<>'' s
      in if \<not> more then Ok cmd s
         else (let ((tok, _), s) = gettoken b es s; ((tok2, q, eq), s) = gettoken b es s
               in if tok2 \<noteq> CHR ''a'' then Panic ''missing file for redirection''
                  else parseredirs n b es
                    (if tok = CHR ''<'' then REDIR cmd (q, eq) O_RDONLY_u 0
                     else if tok = CHR ''>'' then REDIR cmd (q, eq) (O_WRONLY_u + O_CREATE_u) 1
                     else if tok = CHR ''+'' then REDIR cmd (q, eq) (O_WRONLY_u + O_CREATE_u) 1
                     else cmd) s))"

text \<open>The node made by \<open>execcmd\<close> is at the bottom of the redirections made so far, and gets its arguments through the
  pointer \<open>cmd\<close>.\<close>

fun set_argv :: "word list \<Rightarrow> word cmd \<Rightarrow> word cmd" where
  "set_argv argv (EXEC _) = EXEC argv"
| "set_argv argv (REDIR c f mode fd) = REDIR (set_argv argv c) f mode fd"
| "set_argv argv c = c"

fun parseexec_args :: "nat \<Rightarrow> umem \<Rightarrow> nat \<Rightarrow> word list \<Rightarrow> word cmd \<Rightarrow> nat \<Rightarrow> (nat, word cmd) outcome" where
  "parseexec_args 0 b es argv cmd s = Diverge"
| "parseexec_args (Suc n) b es argv cmd s =
     (let (stop, s) = peek b es ''|)&;'' s
      in if stop then Ok cmd s
         else (let ((tok, q, eq), s) = gettoken b es s
               in if tok = NUL then Ok cmd s
                  else if tok \<noteq> CHR ''a'' then Panic ''syntax''
                  else (let argv = argv @ [(q, eq)]; cmd = set_argv argv cmd
                        in if length argv \<ge> MAXARGS then Panic ''too many args''
                           else andthen (parseredirs n b es cmd s) (\<lambda>cmd s. parseexec_args n b es argv cmd s))))"

fun parse_backs :: "nat \<Rightarrow> umem \<Rightarrow> nat \<Rightarrow> word cmd \<Rightarrow> nat \<Rightarrow> (nat, word cmd) outcome" where
  "parse_backs 0 b es cmd s = Diverge"
| "parse_backs (Suc n) b es cmd s =
     (let (more, s) = peek b es ''&'' s
      in if more then parse_backs n b es (BACK cmd) (snd (gettoken b es s)) else Ok cmd s)"

fun parseline :: "nat \<Rightarrow> umem \<Rightarrow> nat \<Rightarrow> nat \<Rightarrow> (nat, word cmd) outcome"
  and parsepipe :: "nat \<Rightarrow> umem \<Rightarrow> nat \<Rightarrow> nat \<Rightarrow> (nat, word cmd) outcome"
  and parseexec :: "nat \<Rightarrow> umem \<Rightarrow> nat \<Rightarrow> nat \<Rightarrow> (nat, word cmd) outcome"
  and parseblock :: "nat \<Rightarrow> umem \<Rightarrow> nat \<Rightarrow> nat \<Rightarrow> (nat, word cmd) outcome" where
  "parseline 0 b es s = Diverge"
| "parseline (Suc n) b es s =
     andthen (parsepipe n b es s) (\<lambda>cmd s.
     andthen (parse_backs n b es cmd s) (\<lambda>cmd s.
       let (more, s) = peek b es '';'' s
       in if more then andthen (parseline n b es (snd (gettoken b es s))) (\<lambda>rest s. Ok (LIST cmd rest) s) else Ok cmd s))"
| "parsepipe 0 b es s = Diverge"
| "parsepipe (Suc n) b es s =
     andthen (parseexec n b es s) (\<lambda>cmd s.
       let (more, s) = peek b es ''|'' s
       in if more then andthen (parsepipe n b es (snd (gettoken b es s))) (\<lambda>rest s. Ok (PIPE cmd rest) s) else Ok cmd s)"
| "parseexec 0 b es s = Diverge"
| "parseexec (Suc n) b es s =
     (let (block, s) = peek b es ''('' s
      in if block then parseblock n b es s
         else andthen (parseredirs n b es (EXEC []) s) (\<lambda>ret s. parseexec_args n b es [] ret s))"
| "parseblock 0 b es s = Diverge"
| "parseblock (Suc n) b es s =
     (let (start, s) = peek b es ''('' s
      in if \<not> start then Panic ''parseblock''
         else andthen (parseline n b es (snd (gettoken b es s))) (\<lambda>cmd s.
                let (stop, s) = peek b es '')'' s
                in if \<not> stop then Panic ''syntax - missing )'' else parseredirs n b es cmd (snd (gettoken b es s))))"

fun nulterminate :: "word cmd \<Rightarrow> umem \<Rightarrow> umem" where
  "nulterminate (EXEC argv) b = fold (\<lambda>(q, eq) b. b(eq := NUL)) argv b"
| "nulterminate (REDIR c f mode fd) b = (nulterminate c b)(snd f := NUL)"
| "nulterminate (PIPE l r) b = nulterminate r (nulterminate l b)"
| "nulterminate (LIST l r) b = nulterminate r (nulterminate l b)"
| "nulterminate (BACK c) b = nulterminate c b"

text \<open>\<open>parsecmd\<close>: every nested block takes four calls, so this bound is enough for a line of the given length. The message
  about what is left over is printed right before that of \<open>panic\<close>; the two are one string here.\<close>

definition parsecmd :: "umem \<Rightarrow> nat \<Rightarrow> (umem, word cmd) outcome" where
  "parsecmd b s =
     (case ustrlen b s of None \<Rightarrow> Diverge
      | Some len \<Rightarrow>
          (let es = s + len
           in case parseline (4 * len + 5) b es s of
                Ok cmd s1 \<Rightarrow>
                  (let s2 = snd (peek b es [] s1)
                   in if s2 \<noteq> es then Panic (''leftovers: '' @ cstr b s2 @ unl @ ''syntax'') else Ok cmd (nulterminate cmd b))
              | Panic m \<Rightarrow> Panic m | Swtch _ \<Rightarrow> Diverge | Fault \<Rightarrow> Fault | Diverge \<Rightarrow> Diverge))"

section \<open>Running a command\<close>

definition spanic :: "string \<Rightarrow> 'a prog" where
  "spanic s = uprintf 2 (CHR 0x25 # ''s'' @ unl) [str s] uexit"

definition fork1 :: "(int \<Rightarrow> 'a prog) \<Rightarrow> 'a prog" where
  "fork1 k = sys Sys_fork (\<lambda>pid. if pid = - 1 then spanic ''fork'' else k pid)"

text \<open>The words are strings here. None of the branches returns.\<close>

fun runcmd :: "string cmd \<Rightarrow> unit prog" where
  "runcmd (EXEC argv) =
     (if argv = [] then uexit
      else sys_then (Sys_exec (hd argv) argv) (uprintf 2 (''exec '' @ [CHR 0x25] @ ''s failed'' @ unl) [str (hd argv)] uexit))"
| "runcmd (REDIR c f mode fd) =
     sys_then (Sys_close fd) (sys (Sys_open f mode) (\<lambda>r.
       if r < 0 then uprintf 2 (''open '' @ [CHR 0x25] @ ''s failed'' @ unl) [str f] uexit else runcmd c))"
| "runcmd (LIST l r) =
     fork1 (\<lambda>pid. if pid = 0 then runcmd l else sys_then Sys_wait (runcmd r))"
| "runcmd (PIPE l r) =
     Call Sys_pipe (\<lambda>p.
       if ret p < 0 then spanic ''pipe''
       else (let (p0, p1) = pipe_fds p
             in fork1 (\<lambda>pid.
                  if pid = 0
                  then sys_then (Sys_close 1) (sys_then (Sys_dup p1) (sys_then (Sys_close p0) (sys_then (Sys_close p1) (runcmd l))))
                  else fork1 (\<lambda>pid.
                         if pid = 0
                         then sys_then (Sys_close 0) (sys_then (Sys_dup p0) (sys_then (Sys_close p0) (sys_then (Sys_close p1) (runcmd r))))
                         else sys_then (Sys_close p0) (sys_then (Sys_close p1) (sys_then Sys_wait (sys_then Sys_wait uexit)))))))"
| "runcmd (BACK c) = fork1 (\<lambda>pid. if pid = 0 then runcmd c else uexit)"

section \<open>The main loop\<close>

fun words_of :: "umem \<Rightarrow> word cmd \<Rightarrow> string cmd" where
  "words_of b (EXEC argv) = EXEC (map (\<lambda>(q, eq). cstr b q) argv)"
| "words_of b (REDIR c f mode fd) = REDIR (words_of b c) (cstr b (fst f)) mode fd"
| "words_of b (PIPE l r) = PIPE (words_of b l) (words_of b r)"
| "words_of b (LIST l r) = LIST (words_of b l) (words_of b r)"
| "words_of b (BACK c) = BACK (words_of b c)"

definition getcmd :: "(umem \<Rightarrow> 'a prog) \<Rightarrow> 'a prog \<Rightarrow> 'a prog" where
  "getcmd k eof = uprintf 2 ''$ '' [] (bindp (gets 0 100 (\<lambda>_. NUL)) (\<lambda>b. if b 0 = NUL then eof else k b))"

definition run_line :: "umem \<Rightarrow> unit prog" where
  "run_line b =
     (case parsecmd b 0 of Ok cmd b1 \<Rightarrow> runcmd (words_of b1 cmd) | Panic m \<Rightarrow> spanic m | _ \<Rightarrow> Unfinished)"

text \<open>The loop that opens the console until three descriptors are open: at most four times.\<close>

fun sh_open :: "nat \<Rightarrow> unit prog \<Rightarrow> unit prog" where
  "sh_open 0 k = Unfinished"
| "sh_open (Suc n) k =
     sys (Sys_open ''console'' O_RDWR_u) (\<lambda>fd. if fd < 0 then k else if fd \<ge> 3 then sys_then (Sys_close fd) k else sh_open n k)"

text \<open>At most \<open>n\<close> lines of input. The command \<open>cd\<close> runs in the shell itself.\<close>

fun sh_loop :: "nat \<Rightarrow> unit prog" where
  "sh_loop 0 = Unfinished"
| "sh_loop (Suc n) =
     getcmd (\<lambda>b.
       if b 0 = CHR ''c'' \<and> b 1 = CHR ''d'' \<and> b 2 = CHR 0x20
       then (case ustrlen b 0 of None \<Rightarrow> Unfinished
             | Some len \<Rightarrow>
                 (let b1 = b(len - 1 := NUL)
                  in sys (Sys_chdir (cstr b1 3)) (\<lambda>r.
                       if r < 0 then uprintf 2 (''cannot cd '' @ [CHR 0x25] @ ''s'' @ unl) [str (cstr b1 3)] (sh_loop n) else sh_loop n)))
       else fork1 (\<lambda>pid. if pid = 0 then run_line b else sys_then Sys_wait (sh_loop n))) uexit"

definition sh_main :: "nat \<Rightarrow> unit prog" where
  "sh_main n = sh_open 4 (sh_loop n)"

end
