(* ===== verification/Sh_Parse.thy ===== *)
theory Sh_Parse
  imports Sh
begin

text \<open>The recursive descent parser of the shell (\<open>usr/sh.c\<close>) on the text of a command, printed with the brackets its
  grammar needs: each of its routines reads the text of the command it is meant for and stops where it ends.\<close>

section \<open>Reading the line\<close>

lemma strchr_in_set [simp]: "strchr_in t c \<longleftrightarrow> c \<in> set t"
  by (induction t) auto

declare skip_white.simps [simp del] skip_word.simps [simp del]

text \<open>The rest of the line from a position on. A line has no NUL before its end.\<close>

definition line_rest :: "umem \<Rightarrow> nat \<Rightarrow> nat \<Rightarrow> string" where
  "line_rest b es s = map b [s..<es]"

definition is_line :: "umem \<Rightarrow> nat \<Rightarrow> bool" where
  "is_line b es \<longleftrightarrow> b es = NUL \<and> (\<forall>i<es. b i \<noteq> NUL)"

abbreviation white :: "char \<Rightarrow> bool" where "white c \<equiv> c \<in> set whitespace"

abbreviation word_char :: "char \<Rightarrow> bool" where "word_char c \<equiv> c \<noteq> NUL \<and> c \<notin> set whitespace \<and> c \<notin> set symbols"

lemma line_rest_Cons: "s < es \<Longrightarrow> line_rest b es s = b s # line_rest b es (Suc s)"
  by (simp add: line_rest_def upt_conv_Cons)

lemma line_rest_nil: "line_rest b es s = [] \<longleftrightarrow> es \<le> s"
  by (auto simp: line_rest_def)

lemma line_rest_end [simp]: "line_rest b es es = []"
  by (simp add: line_rest_def)

lemma line_rest_length: "length (line_rest b es s) = es - s"
  by (simp add: line_rest_def)

lemma line_rest_app:
  assumes "line_rest b es s = u @ t" "s \<le> es"
  shows "line_rest b es (s + length u) = t" "s + length u \<le> es" "map b [s..<s + length u] = u"
proof -
  have l: "es - s = length u + length t" using arg_cong [OF assms(1), of length] by (simp add: line_rest_length)
  show "s + length u \<le> es" using l assms(2) by linarith
  have "line_rest b es (s + length u) = drop (length u) (line_rest b es s)" by (simp add: line_rest_def drop_map drop_upt)
  then show "line_rest b es (s + length u) = t" using assms(1) by simp
  have "map b [s..<s + length u] = take (length u) (line_rest b es s)"
    using l assms(2) by (simp add: line_rest_def take_map take_upt)
  then show "map b [s..<s + length u] = u" using assms(1) by simp
qed

lemma at_rest: "is_line b es \<Longrightarrow> s \<le> es \<Longrightarrow> b s = hd (line_rest b es s @ [NUL])"
  by (cases "s = es") (simp_all add: line_rest_def is_line_def upt_conv_Cons)

lemma skip_white_rest:
  "s \<le> es \<Longrightarrow> s \<le> skip_white b es s \<and> skip_white b es s \<le> es \<and> line_rest b es (skip_white b es s) = dropWhile white (line_rest b es s)"
proof (induction b es s rule: skip_white.induct)
  case (1 b es s)
  show ?case
  proof (cases "s < es \<and> white (b s)")
    case True
    then show ?thesis using 1 by (simp add: skip_white.simps [of _ _ s] line_rest_Cons)
  next
    case False
    then have "skip_white b es s = s" by (subst skip_white.simps) auto
    then show ?thesis using 1(2) False by (cases "s = es") (auto simp: line_rest_Cons)
  qed
qed

lemma skip_word_rest:
  "s \<le> es \<Longrightarrow> line_rest b es s = w @ t \<Longrightarrow> (\<forall>c\<in>set w. word_char c) \<Longrightarrow> t = [] \<or> \<not> word_char (hd t) \<Longrightarrow> NUL \<notin> set t \<Longrightarrow> skip_word b es s = s + length w"
proof (induction w arbitrary: s)
  case Nil
  show ?case
  proof (cases t)
    case Nil
    then show ?thesis using Nil.prems by (simp add: skip_word.simps [of _ _ s] line_rest_nil)
  next
    case (Cons c r)
    then have "s < es" using Nil.prems line_rest_nil [of b es s] by (cases "s < es") auto
    moreover then have "b s = c" using Nil.prems Cons by (simp add: line_rest_Cons)
    ultimately show ?thesis using Nil Cons by (auto simp: skip_word.simps [of _ _ s])
  qed
next
  case (Cons c w)
  have s: "s < es" using Cons(3) line_rest_nil [of b es s] by (cases "s < es") auto
  then have "b s = c" "line_rest b es (Suc s) = w @ t" using Cons(3) by (simp_all add: line_rest_Cons)
  then show ?case using Cons s by (simp add: skip_word.simps [of _ _ s])
qed

section \<open>Tokens\<close>

text \<open>A state of the parser: at the position \<open>s\<close> the line goes on with \<open>t\<close>, and then only with white space; \<open>t\<close> does
  not start with white space.\<close>

definition rest_at :: "umem \<Rightarrow> nat \<Rightarrow> nat \<Rightarrow> string \<Rightarrow> bool" where
  "rest_at b es s t \<longleftrightarrow> is_line b es \<and> s \<le> es \<and> (\<exists>w. line_rest b es s = t @ w \<and> (\<forall>c\<in>set w. white c) \<and> (t = [] \<longrightarrow> w = []))
     \<and> (t = [] \<or> \<not> white (hd t))"

definition word_at :: "umem \<Rightarrow> word \<Rightarrow> string \<Rightarrow> bool" where
  "word_at b qe w \<longleftrightarrow> fst qe \<le> snd qe \<and> map b [fst qe..<snd qe] = w \<and> \<not> word_char (b (snd qe))"

definition word_ok :: "string \<Rightarrow> bool" where
  "word_ok w \<longleftrightarrow> w \<noteq> [] \<and> (\<forall>c\<in>set w. word_char c)"

lemma rest_atD:
  assumes "rest_at b es s t"
  shows "is_line b es" "s \<le> es" "skip_white b es s = s" "b s = hd (t @ [NUL])" "\<exists>w. line_rest b es s = t @ w \<and> (\<forall>c\<in>set w. white c)"
    "t = [] \<Longrightarrow> s = es" "NUL \<notin> set t"
proof -
  obtain w where w: "line_rest b es s = t @ w" "\<forall>c\<in>set w. white c" "t = [] \<longrightarrow> w = []" using assms by (auto simp: rest_at_def)
  show r: "is_line b es" "s \<le> es" using assms by (auto simp: rest_at_def)
  show h: "b s = hd (t @ [NUL])" using at_rest [OF r(1,2)] w by (cases t) auto
  show "\<exists>w. line_rest b es s = t @ w \<and> (\<forall>c\<in>set w. white c)" using w by blast
  have "NUL \<notin> set (line_rest b es s)" using r by (fastforce simp: line_rest_def is_line_def)
  then show "NUL \<notin> set t" using w(1) by simp
  show e: "t = [] \<Longrightarrow> s = es" using w r line_rest_nil [of b es s] by simp
  have "\<not> (s < es \<and> white (b s))"
  proof (cases t)
    case (Cons c r)
    then show ?thesis using assms h by (simp add: rest_at_def)
  qed (use e in auto)
  then show "skip_white b es s = s" by (subst skip_white.simps) auto
qed

lemma rest_at_skip:
  assumes "is_line b es" "s \<le> es" "line_rest b es s = t @ w" "\<forall>c\<in>set w. white c"
  shows "rest_at b es (skip_white b es s) (dropWhile white t)"
proof -
  have "dropWhile white t = [] \<or> \<not> white (hd (dropWhile white t))" using hd_dropWhile [of white t] by blast
  moreover have "\<exists>v. dropWhile white (t @ w) = dropWhile white t @ v \<and> (\<forall>c\<in>set v. white c) \<and> (dropWhile white t = [] \<longrightarrow> v = [])"
  proof (cases "dropWhile white t = []")
    case True
    then have "dropWhile white (t @ w) = []" using assms(4) by auto
    then show ?thesis using True by (intro exI [of _ "[]"]) (simp del: dropWhile_eq_Nil_conv)
  next
    case False
    then show ?thesis using assms(4) by (intro exI [of _ w]) (auto simp: dropWhile_append dropWhile_eq_Nil_conv)
  qed
  ultimately show ?thesis using skip_white_rest [OF assms(2), of b] assms(1,3) by (simp add: rest_at_def)
qed

lemma peek_at: "rest_at b es s t \<Longrightarrow> peek b es toks s = (t \<noteq> [] \<and> hd t \<in> set toks, s)"
  using rest_atD [of b es s t] by (cases t) (auto simp: peek_def Let_def)

text \<open>The token of one character, the redirection to the output, the end of the line, and a word.\<close>

lemma gettoken_symbol:
  assumes "rest_at b es s (c # t)" "c \<in> set ''|();&<''"
  obtains s' q eq where "gettoken b es s = ((c, q, eq), s')" "rest_at b es s' (dropWhile white t)"
proof -
  note r = rest_atD [OF assms(1)]
  obtain w where w: "line_rest b es s = (c # t) @ w" "\<forall>c\<in>set w. white c" using r(5) by blast
  have "line_rest b es (s + 1) = t @ w" "s + 1 \<le> es" using line_rest_app [of b es s "[c]" "t @ w"] r(2) w(1) by auto
  then have "rest_at b es (skip_white b es (s + 1)) (dropWhile white t)" using rest_at_skip r(1) w(2) by simp
  moreover have "gettoken b es s = ((c, s, s + 1), skip_white b es (s + 1))"
    using r(3,4) assms(2) by (auto simp: gettoken_def Let_def)
  ultimately show thesis by (rule that [rotated])
qed

lemma gettoken_output:
  assumes "rest_at b es s (CHR ''>'' # t)" "t \<noteq> []" "hd t \<noteq> CHR ''>''"
  obtains s' q eq where "gettoken b es s = ((CHR ''>'', q, eq), s')" "rest_at b es s' (dropWhile white t)"
proof -
  note r = rest_atD [OF assms(1)]
  obtain w where w: "line_rest b es s = (CHR ''>'' # t) @ w" "\<forall>c\<in>set w. white c" using r(5) by blast
  have t: "line_rest b es (s + 1) = t @ w" "s + 1 \<le> es" using line_rest_app [of b es s "[CHR ''>'']" "t @ w"] r(2) w(1) by auto
  then have "rest_at b es (skip_white b es (s + 1)) (dropWhile white t)" using rest_at_skip r(1) w(2) by simp
  moreover have "b (s + 1) = hd t" using at_rest [OF r(1) t(2)] t(1) assms(2) by simp
  then have "gettoken b es s = ((CHR ''>'', s, s + 1), skip_white b es (s + 1))"
    using r(3,4) assms(3) by (simp add: gettoken_def Let_def)
  ultimately show thesis by (rule that [rotated])
qed

lemma gettoken_end: "rest_at b es s [] \<Longrightarrow> gettoken b es s = ((NUL, s, s), s)"
  using rest_atD [of b es s "[]"] by (simp add: gettoken_def Let_def)

lemma gettoken_word:
  assumes "rest_at b es s (w @ CHR 0x20 # t)" "word_ok w"
  obtains s' q eq where "gettoken b es s = ((CHR ''a'', q, eq), s')" "rest_at b es s' (dropWhile white t)" "word_at b (q, eq) w"
proof -
  note r = rest_atD [OF assms(1)]
  let ?e = "s + length w"
  have sp: "white (CHR 0x20)" by (simp add: whitespace_def)
  obtain v where v: "line_rest b es s = w @ CHR 0x20 # t @ v" "\<forall>c\<in>set v. white c" using r(5) by auto
  have e: "line_rest b es ?e = (CHR 0x20 # t) @ v" "?e \<le> es" "map b [s..<?e] = w" using line_rest_app [OF v(1) r(2)] by auto
  have "NUL \<notin> set (line_rest b es s)" using r(1) by (fastforce simp: line_rest_def is_line_def)
  then have w: "skip_word b es s = ?e"
    by (intro skip_word_rest [OF r(2) v(1)]) (use assms(2) sp v(1) in \<open>auto simp: word_ok_def\<close>)
  have "rest_at b es (skip_white b es ?e) (dropWhile white t)"
    using rest_at_skip [OF r(1) e(2,1) v(2)] sp by simp
  moreover obtain c v where c: "w = c # v" "word_char c" using assms(2) by (cases w) (auto simp: word_ok_def)
  then have "gettoken b es s = ((CHR ''a'', s, ?e), skip_white b es ?e)"
    using r(3,4) w by (auto simp: gettoken_def Let_def symbols_def)
  moreover have "word_at b (s, ?e) w" using e at_rest [OF r(1) e(2)] sp by (simp add: word_at_def)
  ultimately show thesis using that by blast
qed

section \<open>Commands in writing\<close>

text \<open>A redirection, and the words of a simple command; every word is followed by a blank.\<close>

type_synonym redir = "string \<times> nat \<times> int"

definition redir_text :: "redir \<Rightarrow> string" where
  "redir_text rd = (case rd of (f, mode, fd) \<Rightarrow> (if fd = 0 then ''<'' else ''>'') @ f @ '' '')"

definition redir_ok :: "redir \<Rightarrow> bool" where
  "redir_ok rd \<longleftrightarrow> (case rd of (f, mode, fd) \<Rightarrow> word_ok f \<and> (mode, fd) \<in> {(O_RDONLY_u, 0), (O_WRONLY_u + O_CREATE_u, 1)})"

definition words_text :: "string list \<Rightarrow> string" where
  "words_text ws = concat (map (\<lambda>w. w @ '' '') ws)"

text \<open>The level says which part of the grammar is being written: 0 a simple command, 1 a pipeline, 2 a pipeline with
  \<open>&\<close>, 3 a line. A command above its level is put in brackets.\<close>

fun text_of :: "nat \<Rightarrow> string cmd \<Rightarrow> string" where
  "text_of lvl (EXEC ws) = words_text ws"
| "text_of lvl (REDIR c f mode fd) = text_of 0 c @ redir_text (f, mode, fd)"
| "text_of lvl (PIPE l r) = (let t = text_of 0 l @ ''|'' @ text_of 1 r in if lvl < 1 then ''('' @ t @ '')'' else t)"
| "text_of lvl (BACK c) = (let t = text_of 2 c @ ''&'' in if lvl < 2 then ''('' @ t @ '')'' else t)"
| "text_of lvl (LIST l r) = (let t = text_of 2 l @ '';'' @ text_of 3 r in if lvl < 3 then ''('' @ t @ '')'' else t)"

fun cmd_ok :: "string cmd \<Rightarrow> bool" where
  "cmd_ok (EXEC ws) \<longleftrightarrow> length ws < MAXARGS \<and> (\<forall>w\<in>set ws. word_ok w)"
| "cmd_ok (REDIR c f mode fd) \<longleftrightarrow> cmd_ok c \<and> redir_ok (f, mode, fd)"
| "cmd_ok (PIPE l r) \<longleftrightarrow> cmd_ok l \<and> cmd_ok r"
| "cmd_ok (BACK c) \<longleftrightarrow> cmd_ok c"
| "cmd_ok (LIST l r) \<longleftrightarrow> cmd_ok l \<and> cmd_ok r"

text \<open>What may follow a part of level \<open>lvl\<close>.\<close>

definition follow :: "nat \<Rightarrow> string \<Rightarrow> bool" where
  "follow lvl t \<longleftrightarrow> t = [] \<or> hd t = CHR '')'' \<or> (lvl < 3 \<and> hd t = CHR '';'') \<or> (lvl < 3 \<and> hd t = CHR ''&'') \<or> (lvl < 1 \<and> hd t = CHR ''|'')"

lemma word_ok_start: "word_ok w \<Longrightarrow> \<exists>c v. w = c # v \<and> word_char c"
  by (cases w) (auto simp: word_ok_def)

lemma follow_start: "follow lvl t \<Longrightarrow> t = [] \<or> \<not> white (hd t)"
  by (auto simp: follow_def whitespace_def)

lemma redirs_start: "\<forall>rd\<in>set rs. redir_ok rd \<Longrightarrow> follow lvl t \<Longrightarrow> concat (map redir_text rs) @ t = [] \<or> \<not> white (hd (concat (map redir_text rs) @ t))"
  using follow_start by (cases rs) (auto simp: redir_text_def whitespace_def split: prod.splits)

lemma text_start:
  "cmd_ok c \<Longrightarrow> t = [] \<or> \<not> white (hd t) \<Longrightarrow> text_of lvl c @ t = [] \<or> \<not> white (hd (text_of lvl c @ t))"
proof (induction c arbitrary: lvl t)
  case (EXEC ws)
  then show ?case using word_ok_start [of "hd ws"] by (cases ws) (auto simp: words_text_def)
next
  case (REDIR c f mode fd)
  have "redir_text (f, mode, fd) @ t = [] \<or> \<not> white (hd (redir_text (f, mode, fd) @ t))" by (auto simp: redir_text_def whitespace_def)
  then show ?case using REDIR(1) [of "redir_text (f, mode, fd) @ t" 0] REDIR(2) by simp
next
  case (PIPE l r)
  have "\<not> white (CHR ''('')" "\<not> white (CHR ''|'')" by (simp_all add: whitespace_def)
  then show ?case using PIPE(1) [of "''|'' @ text_of 1 r @ t" 0] PIPE(3) by (auto simp: Let_def hd_append split: if_splits)
next
  case (LIST l r)
  have "\<not> white (CHR ''('')" "\<not> white (CHR '';'')" by (simp_all add: whitespace_def)
  then show ?case using LIST(1) [of "'';'' @ text_of 3 r @ t" 2] LIST(3) by (auto simp: Let_def hd_append split: if_splits)
next
  case (BACK c)
  have "\<not> white (CHR ''('')" "\<not> white (CHR ''&'')" by (simp_all add: whitespace_def)
  then show ?case using BACK(1) [of "''&'' @ t" 2] BACK(2) by (auto simp: Let_def hd_append split: if_splits)
qed

lemma dropWhile_start: "t = [] \<or> \<not> P (hd t) \<Longrightarrow> dropWhile P t = t"
  by (cases t) auto

lemma gettoken_symbol_at:
  assumes "rest_at b es s (c # t)" "c \<in> set ''|();&<''" "t = [] \<or> \<not> white (hd t)"
  shows "\<exists>q e s'. gettoken b es s = ((c, q, e), s') \<and> rest_at b es s' t"
proof -
  have "dropWhile white t = t" by (rule dropWhile_start) (rule assms(3))
  then show ?thesis using gettoken_symbol [OF assms(1,2)] by metis
qed

section \<open>The loops of the parser\<close>

definition with_redirs :: "(word \<times> nat \<times> int) list \<Rightarrow> word cmd \<Rightarrow> word cmd" where
  "with_redirs rs c = fold (\<lambda>(f, mode, fd) c. REDIR c f mode fd) rs c"

definition redir_at :: "umem \<Rightarrow> word \<times> nat \<times> int \<Rightarrow> redir \<Rightarrow> bool" where
  "redir_at b r rd \<longleftrightarrow> word_at b (fst r) (fst rd) \<and> snd r = snd rd"

lemma parseredirs_spec:
  assumes "rest_at b es s (concat (map redir_text rs) @ t)" "\<forall>rd\<in>set rs. redir_ok rd" "follow lvl t" "length rs < n"
  shows "\<exists>rs' s'. parseredirs n b es c s = Ok (with_redirs rs' c) s' \<and> rest_at b es s' t \<and> list_all2 (redir_at b) rs' rs"
  using assms
proof (induction rs arbitrary: n s c)
  case Nil
  then obtain m where n: "n = Suc m" by (cases n) auto
  have "\<not> (t \<noteq> [] \<and> hd t \<in> set ''<>'')" using Nil(3) by (auto simp: follow_def)
  then have "parseredirs n b es c s = Ok c s" using peek_at [OF Nil(1), of "''<>''"] n by simp
  then show ?case using Nil(1) by (intro exI [of _ "[]"] exI [of _ s]) (simp add: with_redirs_def)
next
  case (Cons rd rs)
  obtain f mode fd where rd: "rd = (f, mode, fd)" by (cases rd)
  obtain m where n: "n = Suc m" using Cons(5) by (cases n) auto
  let ?u = "concat (map redir_text rs) @ t" let ?c = "if fd = 0 then CHR ''<'' else CHR ''>''"
  have ok: "word_ok f" "(mode, fd) \<in> {(O_RDONLY_u, 0), (O_WRONLY_u + O_CREATE_u, 1)}" using Cons(3) rd by (auto simp: redir_ok_def)
  have rt: "redir_text rd = ?c # f @ '' ''" using rd by (simp add: redir_text_def)
  have at: "rest_at b es s (?c # f @ CHR 0x20 # ?u)" using Cons(2) by (simp add: rt)
  have u: "dropWhile white ?u = ?u" by (rule dropWhile_start) (use redirs_start Cons(3,4) in simp)
  obtain d v where f: "f = d # v" "word_char d" using word_ok_start [OF ok(1)] by blast
  then have fs: "dropWhile white (f @ CHR 0x20 # ?u) = f @ CHR 0x20 # ?u" by simp
  have d: "hd (f @ CHR 0x20 # ?u) \<noteq> CHR ''>''" using f by (auto simp: symbols_def)
  obtain s1 q1 e1 where g1: "gettoken b es s = ((?c, q1, e1), s1)" "rest_at b es s1 (f @ CHR 0x20 # ?u)"
  proof (cases "fd = 0")
    case True
    then show ?thesis using gettoken_symbol [OF at] that fs by auto
  next
    case False
    then have "rest_at b es s (CHR ''>'' # f @ CHR 0x20 # ?u)" using at by simp
    then show ?thesis using gettoken_output [of b es s "f @ CHR 0x20 # ?u"] d that fs False by auto
  qed
  obtain s2 q e where g2: "gettoken b es s1 = ((CHR ''a'', q, e), s2)" "rest_at b es s2 ?u" "word_at b (q, e) f"
    using gettoken_word [OF g1(2) ok(1)] u by metis
  have "peek b es ''<>'' s = (True, s)" using peek_at [OF at] by simp
  then have "parseredirs n b es c s = parseredirs m b es (REDIR c (q, e) mode fd) s2"
    using g1(1) g2(1) ok(2) n by auto
  moreover obtain rs' s' where "parseredirs m b es (REDIR c (q, e) mode fd) s2 = Ok (with_redirs rs' (REDIR c (q, e) mode fd)) s'"
    "rest_at b es s' t" "list_all2 (redir_at b) rs' rs" using Cons(1) [OF g2(2) _ Cons(4), of m "REDIR c (q, e) mode fd"] Cons(3,5) n by auto
  moreover have "redir_at b ((q, e), mode, fd) rd" using g2(3) rd by (simp add: redir_at_def)
  ultimately show ?case by (intro exI [of _ "((q, e), mode, fd) # rs'"] exI [of _ s']) (simp add: with_redirs_def)
qed

lemma parseredirs_none:
  assumes "rest_at b es s t" "t = [] \<or> hd t \<notin> set ''<>''" "0 < n"
  shows "parseredirs n b es c s = Ok c s"
proof -
  obtain m where "n = Suc m" using assms(3) by (cases n) auto
  then show ?thesis using peek_at [OF assms(1), of "''<>''"] assms(2) by auto
qed

text \<open>The arguments: words first, then redirections. \<open>base\<close> is the node of the command before its arguments are known.\<close>

lemma set_argv_redirs: "set_argv ws (with_redirs rs (EXEC vs)) = with_redirs rs (EXEC ws)"
  unfolding with_redirs_def
proof (induction rs rule: rev_induct)
  case (snoc x xs)
  then show ?case by (cases x) simp
qed simp

lemma parseexec_args_stop:
  assumes "rest_at b es s t" "follow lvl t" "0 < n"
  shows "parseexec_args n b es argv c s = Ok c s"
proof -
  obtain m where n: "n = Suc m" using assms(3) by (cases n) auto
  have p: "peek b es ''|)&;'' s = (t \<noteq> [], s)" using peek_at [OF assms(1), of "''|)&;''"] assms(2) by (auto simp: follow_def)
  show ?thesis
  proof (cases "t = []")
    case True
    then show ?thesis using p n gettoken_end [of b es s] assms(1) by simp
  qed (use p n in simp)
qed

lemma parseexec_args_spec:
  assumes "rest_at b es s (words_text ws @ concat (map redir_text rs) @ t)" "\<forall>w\<in>set ws. word_ok w" "\<forall>rd\<in>set rs. redir_ok rd"
    "follow lvl t" "length ws + length rs + 1 < n" "length argv + length ws < MAXARGS" "ws \<noteq> []"
  shows "\<exists>vs rs' s'. parseexec_args n b es argv (EXEC argv) s = Ok (with_redirs rs' (EXEC (argv @ vs))) s' \<and> rest_at b es s' t
     \<and> list_all2 (word_at b) vs ws \<and> list_all2 (redir_at b) rs' rs"
  using assms
proof (induction ws arbitrary: n s argv)
  case (Cons w ws)
  obtain m where n: "n = Suc m" using Cons(6) by (cases n) auto
  let ?u = "words_text ws @ concat (map redir_text rs) @ t"
  have w: "word_ok w" using Cons(3) by simp
  have at: "rest_at b es s (w @ CHR 0x20 # ?u)" using Cons(2) by (simp add: words_text_def)
  have us: "?u = [] \<or> \<not> white (hd ?u)"
    using text_start [of "EXEC ws" "concat (map redir_text rs) @ t" 0] redirs_start [OF Cons(4,5)] Cons(3,7) by simp
  obtain s1 q e where g: "gettoken b es s = ((CHR ''a'', q, e), s1)" "rest_at b es s1 ?u" "word_at b (q, e) w"
    using gettoken_word [OF at w] dropWhile_start [where P = white, OF us] by metis
  obtain d v where d: "w = d # v" "word_char d" using word_ok_start [OF w] by blast
  then have "peek b es ''|)&;'' s = (False, s)" using peek_at [OF at, of "''|)&;''"] by (auto simp: symbols_def)
  then have step: "parseexec_args n b es argv (EXEC argv) s =
      andthen (parseredirs m b es (EXEC (argv @ [(q, e)])) s1) (\<lambda>cmd s. parseexec_args m b es (argv @ [(q, e)]) cmd s)"
    using g(1) n Cons(7) by (simp add: Let_def)
  show ?case
  proof (cases "ws = []")
    case True
    then have u: "rest_at b es s1 (concat (map redir_text rs) @ t)" using g(2) by (simp add: words_text_def)
    obtain rs' s' where r: "parseredirs m b es (EXEC (argv @ [(q, e)])) s1 = Ok (with_redirs rs' (EXEC (argv @ [(q, e)]))) s'"
      "rest_at b es s' t" "list_all2 (redir_at b) rs' rs" using parseredirs_spec [OF u Cons(4,5), of m "EXEC (argv @ [(q, e)])"] Cons(6) n by auto
    then show ?thesis using step parseexec_args_stop [OF r(2) Cons(5), of m] Cons(6) n True g(3)
      by (intro exI [of _ "[(q, e)]"] exI [of _ rs'] exI [of _ s']) simp
  next
    case False
    then obtain w2 ws2 where ws: "ws = w2 # ws2" by (cases ws) auto
    then obtain c2 v2 where "w2 = c2 # v2" "word_char c2" using Cons(3) word_ok_start [of w2] by auto
    then have "hd ?u \<notin> set ''<>''" using ws by (auto simp: words_text_def symbols_def)
    then have "parseredirs m b es (EXEC (argv @ [(q, e)])) s1 = Ok (EXEC (argv @ [(q, e)])) s1"
      using parseredirs_none [OF g(2)] Cons(6) n by simp
    moreover obtain vs rs' s' where "parseexec_args m b es (argv @ [(q, e)]) (EXEC (argv @ [(q, e)])) s1
        = Ok (with_redirs rs' (EXEC ((argv @ [(q, e)]) @ vs))) s'" "rest_at b es s' t" "list_all2 (word_at b) vs ws" "list_all2 (redir_at b) rs' rs"
      using Cons(1) [OF g(2) _ Cons(4,5), of m "argv @ [(q, e)]"] Cons(3,6,7) n False by auto
    ultimately show ?thesis using step g(3)
      by (intro exI [of _ "(q, e) # vs"] exI [of _ rs'] exI [of _ s']) simp
  qed
qed simp

section \<open>The levels of the grammar\<close>

text \<open>What the parser does with a written command at each level: a simple command with more redirections, a pipeline, a
  pipeline with the \<open>&\<close> that follow, and a line.\<close>

definition execs :: "string cmd \<Rightarrow> bool" where
  "execs c \<longleftrightarrow> (\<forall>b es s t rs n. rest_at b es s (text_of 0 c @ concat (map redir_text rs) @ t) \<longrightarrow> follow 0 t \<longrightarrow> (\<forall>rd\<in>set rs. redir_ok rd)
     \<longrightarrow> 4 * length (text_of 0 c @ concat (map redir_text rs) @ t) + 2 \<le> n
     \<longrightarrow> (\<exists>c' rs' s'. parseexec n b es s = Ok (with_redirs rs' c') s' \<and> rest_at b es s' t \<and> rel_cmd (word_at b) c' c \<and> list_all2 (redir_at b) rs' rs))"

definition pipes :: "string cmd \<Rightarrow> bool" where
  "pipes c \<longleftrightarrow> (\<forall>b es s t n. rest_at b es s (text_of 1 c @ t) \<longrightarrow> follow 1 t \<longrightarrow> 4 * length (text_of 1 c @ t) + 3 \<le> n
     \<longrightarrow> (\<exists>c' s'. parsepipe n b es s = Ok c' s' \<and> rest_at b es s' t \<and> rel_cmd (word_at b) c' c))"

definition backs :: "string cmd \<Rightarrow> bool" where
  "backs c \<longleftrightarrow> (\<forall>b es s t n. rest_at b es s (text_of 2 c @ t) \<longrightarrow> follow 2 t \<longrightarrow> 4 * length (text_of 2 c @ t) + 3 \<le> n
     \<longrightarrow> (\<exists>c' s' m. andthen (parsepipe n b es s) (\<lambda>c s. parse_backs n b es c s) = parse_backs m b es c' s' \<and> length t < m
        \<and> rest_at b es s' t \<and> rel_cmd (word_at b) c' c))"

definition lines :: "string cmd \<Rightarrow> bool" where
  "lines c \<longleftrightarrow> (\<forall>b es s t n. rest_at b es s (text_of 3 c @ t) \<longrightarrow> follow 3 t \<longrightarrow> 4 * length (text_of 3 c @ t) + 4 \<le> n
     \<longrightarrow> (\<exists>c' s'. parseline n b es s = Ok c' s' \<and> rest_at b es s' t \<and> rel_cmd (word_at b) c' c))"

lemma execs_pipes:
  assumes "execs c" "text_of 1 c = text_of 0 c"
  shows "pipes c"
  unfolding pipes_def
proof (intro allI impI)
  fix b es s t n
  assume a: "rest_at b es s (text_of 1 c @ t)" "follow 1 t" "4 * length (text_of 1 c @ t) + 3 \<le> n"
  obtain m where n: "n = Suc m" using a(3) by (cases n) auto
  have "follow 0 t" using a(2) by (auto simp: follow_def)
  then obtain c' s' where e: "parseexec m b es s = Ok c' s'" "rest_at b es s' t" "rel_cmd (word_at b) c' c"
    using assms(1) [unfolded execs_def, rule_format, of b es s "[]" t m] a n assms(2) by (auto simp: with_redirs_def)
  have "\<not> (t \<noteq> [] \<and> hd t \<in> set ''|'')" using a(2) by (auto simp: follow_def)
  then show "\<exists>c' s'. parsepipe n b es s = Ok c' s' \<and> rest_at b es s' t \<and> rel_cmd (word_at b) c' c"
    using e peek_at [OF e(2), of "''|''"] n by auto
qed

lemma pipes_backs:
  assumes "pipes c" "text_of 2 c = text_of 1 c"
  shows "backs c"
  unfolding backs_def
proof (intro allI impI)
  fix b es s t n
  assume a: "rest_at b es s (text_of 2 c @ t)" "follow 2 t" "4 * length (text_of 2 c @ t) + 3 \<le> n"
  have "follow 1 t" using a(2) by (auto simp: follow_def)
  then obtain c' s' where "parsepipe n b es s = Ok c' s'" "rest_at b es s' t" "rel_cmd (word_at b) c' c"
    using assms(1) [unfolded pipes_def, rule_format, of b es s t n] a assms(2) by auto
  then show "\<exists>c' s' m. andthen (parsepipe n b es s) (\<lambda>c s. parse_backs n b es c s) = parse_backs m b es c' s' \<and> length t < m
        \<and> rest_at b es s' t \<and> rel_cmd (word_at b) c' c" using a(3) by (intro exI [of _ c'] exI [of _ s'] exI [of _ n]) simp
qed

text \<open>No \<open>&\<close> follows any more.\<close>

lemma backs_done:
  assumes "backs c" "rest_at b es s (text_of 2 c @ t)" "follow 2 t" "t = [] \<or> hd t \<noteq> CHR ''&''" "4 * length (text_of 2 c @ t) + 3 \<le> n"
  obtains c' s' where "andthen (parsepipe n b es s) (\<lambda>c s. parse_backs n b es c s) = Ok c' s'" "rest_at b es s' t" "rel_cmd (word_at b) c' c"
proof -
  obtain c' s' m where e: "andthen (parsepipe n b es s) (\<lambda>c s. parse_backs n b es c s) = parse_backs m b es c' s'" "length t < m"
    "rest_at b es s' t" "rel_cmd (word_at b) c' c"
    using assms(1) [unfolded backs_def, rule_format, OF assms(2,3,5)] by blast
  obtain k where "m = Suc k" using e(2) by (cases m) auto
  then have "parse_backs m b es c' s' = Ok c' s'" using peek_at [OF e(3), of "''&''"] assms(4) by auto
  then show thesis using e that by simp
qed

lemma line_unfold:
  "parseline (Suc n) b es s = andthen (andthen (parsepipe n b es s) (\<lambda>c s. parse_backs n b es c s)) (\<lambda>cmd s.
       let (more, s) = peek b es '';'' s
       in if more then andthen (parseline n b es (snd (gettoken b es s))) (\<lambda>rest s. Ok (LIST cmd rest) s) else Ok cmd s)"
  by (simp add: andthen_assoc)

lemma backs_lines:
  assumes "backs c" "text_of 3 c = text_of 2 c"
  shows "lines c"
  unfolding lines_def
proof (intro allI impI)
  fix b es s t n
  assume a: "rest_at b es s (text_of 3 c @ t)" "follow 3 t" "4 * length (text_of 3 c @ t) + 4 \<le> n"
  obtain m where n: "n = Suc m" using a(3) by (cases n) auto
  have f: "follow 2 t" "t = [] \<or> hd t \<noteq> CHR ''&''" "\<not> (t \<noteq> [] \<and> hd t \<in> set '';'')" using a(2) by (auto simp: follow_def)
  obtain c' s' where e: "andthen (parsepipe m b es s) (\<lambda>c s. parse_backs m b es c s) = Ok c' s'" "rest_at b es s' t" "rel_cmd (word_at b) c' c"
    using backs_done [OF assms(1) _ f(1,2), of b es s m] a n assms(2) by auto
  then show "\<exists>c' s'. parseline n b es s = Ok c' s' \<and> rest_at b es s' t \<and> rel_cmd (word_at b) c' c"
    using peek_at [OF e(2), of "'';''"] f(3) unfolding n line_unfold by auto
qed

text \<open>The commands themselves.\<close>

lemma EXEC_execs:
  assumes ok: "cmd_ok (EXEC ws)"
  shows "execs (EXEC ws)"
  unfolding execs_def
proof (intro allI impI)
  fix b es s t rs n
  assume a: "rest_at b es s (text_of 0 (EXEC ws) @ concat (map redir_text rs) @ t)" "follow 0 t" "\<forall>rd\<in>set rs. redir_ok rd"
    "4 * length (text_of 0 (EXEC ws) @ concat (map redir_text rs) @ t) + 2 \<le> n"
  obtain m where n: "n = Suc m" using a(4) by (cases n) auto
  let ?u = "concat (map redir_text rs) @ t"
  have lr: "length rs \<le> length (concat (map redir_text rs))" by (induction rs) (auto simp: redir_text_def split: prod.splits)
  have lw: "length ws \<le> length (words_text ws)" by (induction ws) (auto simp: words_text_def)
  have fuel: "length ws + length rs + (if ws = [] then 0 else 1) < m"
    using a(4) lr lw n by (cases ws) auto
  show "\<exists>c' rs' s'. parseexec n b es s = Ok (with_redirs rs' c') s' \<and> rest_at b es s' t \<and> rel_cmd (word_at b) c' (EXEC ws) \<and> list_all2 (redir_at b) rs' rs"
  proof (cases "ws = []")
    case True
    have u: "rest_at b es s ?u" using a(1) True by (simp add: words_text_def)
    have "\<not> (?u \<noteq> [] \<and> hd ?u \<in> set ''('')" using a(2) by (cases rs) (auto simp: follow_def redir_text_def split: prod.splits)
    moreover obtain rs' s' where "parseredirs m b es (EXEC []) s = Ok (with_redirs rs' (EXEC [])) s'" "rest_at b es s' t" "list_all2 (redir_at b) rs' rs"
      using parseredirs_spec [OF u a(3,2), of m "EXEC []"] fuel by auto
    ultimately show ?thesis using peek_at [OF u, of "''(''"] parseexec_args_stop [of b es s' t 0 m] a(2) fuel n True
      by (intro exI [of _ "EXEC []"] exI [of _ rs'] exI [of _ s']) auto
  next
    case False
    then obtain c v ws' where w: "ws = (c # v) # ws'" "word_char c" using ok word_ok_start [of "hd ws"] by (cases ws) auto
    then have h: "hd (words_text ws @ ?u) = c" "words_text ws @ ?u \<noteq> []" by (simp_all add: words_text_def)
    have u: "rest_at b es s (words_text ws @ ?u)" using a(1) by simp
    have "c \<noteq> CHR ''(''" "c \<notin> set ''<>''" using w(2) by (auto simp: symbols_def)
    then have "parseexec n b es s = parseexec_args m b es [] (EXEC []) s"
      using peek_at [OF u, of "''(''"] h parseredirs_none [OF u, of m] fuel n by simp
    moreover obtain vs rs' s' where "parseexec_args m b es [] (EXEC []) s = Ok (with_redirs rs' (EXEC vs)) s'" "rest_at b es s' t"
      "list_all2 (word_at b) vs ws" "list_all2 (redir_at b) rs' rs"
      using parseexec_args_spec [OF u _ a(3,2), of m "[]"] ok fuel False by auto
    ultimately show ?thesis by (intro exI [of _ "EXEC vs"] exI [of _ rs'] exI [of _ s']) simp
  qed
qed

lemma REDIR_execs:
  assumes "execs c" "redir_ok (f, mode, fd)"
  shows "execs (REDIR c f mode fd)"
  unfolding execs_def
proof (intro allI impI)
  fix b es s t rs n
  let ?rd = "(f, mode, fd)"
  assume a: "rest_at b es s (text_of 0 (REDIR c f mode fd) @ concat (map redir_text rs) @ t)" "follow 0 t" "\<forall>rd\<in>set rs. redir_ok rd"
    "4 * length (text_of 0 (REDIR c f mode fd) @ concat (map redir_text rs) @ t) + 2 \<le> n"
  have a1: "rest_at b es s (text_of 0 c @ concat (map redir_text (?rd # rs)) @ t)" using a(1) by simp
  obtain c' rs' s' where e: "parseexec n b es s = Ok (with_redirs rs' c') s'" "rest_at b es s' t" "rel_cmd (word_at b) c' c"
    "list_all2 (redir_at b) rs' (?rd # rs)"
    using assms(1) [unfolded execs_def, rule_format, OF a1 a(2), of n] a(3,4) assms(2) by auto
  obtain q rs2 where q: "rs' = q # rs2" "redir_at b q ?rd" "list_all2 (redir_at b) rs2 rs" using e(4) by (cases rs') auto
  then have "with_redirs rs' c' = with_redirs rs2 (REDIR c' (fst q) mode fd)" by (cases q) (auto simp: with_redirs_def redir_at_def)
  moreover have "word_at b (fst q) f" using q(2) by (simp add: redir_at_def)
  ultimately show "\<exists>c' rs' s'. parseexec n b es s = Ok (with_redirs rs' c') s' \<and> rest_at b es s' t \<and> rel_cmd (word_at b) c' (REDIR c f mode fd)
      \<and> list_all2 (redir_at b) rs' rs"
    using e q(3) by (intro exI [of _ "REDIR c' (fst q) mode fd"] exI [of _ rs2] exI [of _ s']) simp
qed

lemma block_execs:
  assumes l: "lines c" and t0: "text_of 0 c = ''('' @ text_of 3 c @ '')''" and ok: "cmd_ok c"
  shows "execs c"
  unfolding execs_def
proof (intro allI impI)
  fix b es s t rs n
  let ?u = "concat (map redir_text rs) @ t"
  assume a: "rest_at b es s (text_of 0 c @ ?u)" "follow 0 t" "\<forall>rd\<in>set rs. redir_ok rd" "4 * length (text_of 0 c @ ?u) + 2 \<le> n"
  obtain m where n: "n = Suc (Suc m)" using a(4) t0 by (cases n; cases "n - 1") auto
  have a1: "rest_at b es s (CHR ''('' # text_of 3 c @ CHR '')'' # ?u)" using a(1) t0 by simp
  have nw: "\<not> white (CHR '')'')" by (simp add: whitespace_def)
  have d: "text_of 3 c @ CHR '')'' # ?u = [] \<or> \<not> white (hd (text_of 3 c @ CHR '')'' # ?u))"
    using text_start [OF ok, of "CHR '')'' # ?u" 3] nw by simp
  obtain s1 q1 e1 where g1: "gettoken b es s = ((CHR ''('', q1, e1), s1)" "rest_at b es s1 (text_of 3 c @ CHR '')'' # ?u)"
    using gettoken_symbol_at [OF a1 _ d] by auto
  obtain c' s2 where p: "parseline m b es s1 = Ok c' s2" "rest_at b es s2 (CHR '')'' # ?u)" "rel_cmd (word_at b) c' c"
    using l [unfolded lines_def, rule_format, OF g1(2), of m] a(4) t0 n by (auto simp: follow_def)
  obtain s3 q3 e3 where g3: "gettoken b es s2 = ((CHR '')'', q3, e3), s3)" "rest_at b es s3 ?u"
    using gettoken_symbol_at [OF p(2) _ redirs_start [OF a(3,2)]] by auto
  have "length rs \<le> length (concat (map redir_text rs))" by (induction rs) (auto simp: redir_text_def split: prod.splits)
  then have "length rs < m" using a(4) n t0 by simp
  then obtain rs' s' where r: "parseredirs m b es c' s3 = Ok (with_redirs rs' c') s'" "rest_at b es s' t" "list_all2 (redir_at b) rs' rs"
    using parseredirs_spec [OF g3(2) a(3,2), of m c'] by auto
  have "parseexec n b es s = Ok (with_redirs rs' c') s'"
    using peek_at [OF a1, of "''(''"] peek_at [OF p(2), of "'')''"] g1(1) g3(1) p(1) r(1) n by simp
  then show "\<exists>c' rs' s'. parseexec n b es s = Ok (with_redirs rs' c') s' \<and> rest_at b es s' t \<and> rel_cmd (word_at b) c' c \<and> list_all2 (redir_at b) rs' rs"
    using p(3) r(2,3) by blast
qed

lemma PIPE_pipes:
  assumes "execs l" "pipes r" "cmd_ok r"
  shows "pipes (PIPE l r)"
  unfolding pipes_def
proof (intro allI impI)
  fix b es s t n
  assume a: "rest_at b es s (text_of 1 (PIPE l r) @ t)" "follow 1 t" "4 * length (text_of 1 (PIPE l r) @ t) + 3 \<le> n"
  obtain m where n: "n = Suc m" using a(3) by (cases n) auto
  let ?u = "CHR ''|'' # text_of 1 r @ t"
  have a1: "rest_at b es s (text_of 0 l @ concat (map redir_text []) @ ?u)" using a(1) by simp
  obtain c' s1 where e: "parseexec m b es s = Ok c' s1" "rest_at b es s1 ?u" "rel_cmd (word_at b) c' l"
    using assms(1) [unfolded execs_def, rule_format, OF a1, of m] a(3) n by (auto simp: follow_def with_redirs_def)
  obtain s2 q2 e2 where g: "gettoken b es s1 = ((CHR ''|'', q2, e2), s2)" "rest_at b es s2 (text_of 1 r @ t)"
    using gettoken_symbol_at [OF e(2) _ text_start [OF assms(3) follow_start [OF a(2)]]] by auto
  obtain r' s' where "parsepipe m b es s2 = Ok r' s'" "rest_at b es s' t" "rel_cmd (word_at b) r' r"
    using assms(2) [unfolded pipes_def, rule_format, OF g(2) a(2), of m] a(3) n by auto
  then show "\<exists>c' s'. parsepipe n b es s = Ok c' s' \<and> rest_at b es s' t \<and> rel_cmd (word_at b) c' (PIPE l r)"
    using e g(1) peek_at [OF e(2), of "''|''"] n by simp
qed

lemma BACK_backs:
  assumes "backs c"
  shows "backs (BACK c)"
  unfolding backs_def
proof (intro allI impI)
  fix b es s t n
  assume a: "rest_at b es s (text_of 2 (BACK c) @ t)" "follow 2 t" "4 * length (text_of 2 (BACK c) @ t) + 3 \<le> n"
  have a1: "rest_at b es s (text_of 2 c @ CHR ''&'' # t)" using a(1) by simp
  obtain c' s1 m where e: "andthen (parsepipe n b es s) (\<lambda>c s. parse_backs n b es c s) = parse_backs m b es c' s1" "length (CHR ''&'' # t) < m"
    "rest_at b es s1 (CHR ''&'' # t)" "rel_cmd (word_at b) c' c"
    using assms [unfolded backs_def, rule_format, OF a1, of n] a(3) by (auto simp: follow_def)
  obtain s2 q2 e2 where g: "gettoken b es s1 = ((CHR ''&'', q2, e2), s2)" "rest_at b es s2 t"
    using gettoken_symbol_at [OF e(3) _ follow_start [OF a(2)]] by auto
  obtain k where k: "m = Suc k" using e(2) by (cases m) auto
  have "parse_backs m b es c' s1 = parse_backs k b es (BACK c') s2" using peek_at [OF e(3), of "''&''"] g(1) k by simp
  then show "\<exists>c' s' m. andthen (parsepipe n b es s) (\<lambda>c s. parse_backs n b es c s) = parse_backs m b es c' s' \<and> length t < m
        \<and> rest_at b es s' t \<and> rel_cmd (word_at b) c' (BACK c)"
    using e g(2) k by (intro exI [of _ "BACK c'"] exI [of _ s2] exI [of _ k]) simp
qed

lemma LIST_lines:
  assumes "backs l" "lines r" "cmd_ok r"
  shows "lines (LIST l r)"
  unfolding lines_def
proof (intro allI impI)
  fix b es s t n
  assume a: "rest_at b es s (text_of 3 (LIST l r) @ t)" "follow 3 t" "4 * length (text_of 3 (LIST l r) @ t) + 4 \<le> n"
  obtain m where n: "n = Suc m" using a(3) by (cases n) auto
  let ?u = "CHR '';'' # text_of 3 r @ t"
  have a1: "rest_at b es s (text_of 2 l @ ?u)" using a(1) by simp
  have u: "follow 2 ?u" "?u = [] \<or> hd ?u \<noteq> CHR ''&''" by (simp_all add: follow_def)
  obtain c' s1 where e: "andthen (parsepipe m b es s) (\<lambda>c s. parse_backs m b es c s) = Ok c' s1" "rest_at b es s1 ?u" "rel_cmd (word_at b) c' l"
    using backs_done [OF assms(1) a1 u, of m] a(3) n by auto
  obtain s2 q2 e2 where g: "gettoken b es s1 = ((CHR '';'', q2, e2), s2)" "rest_at b es s2 (text_of 3 r @ t)"
    using gettoken_symbol_at [OF e(2) _ text_start [OF assms(3) follow_start [OF a(2)]]] by auto
  obtain r' s' where "parseline m b es s2 = Ok r' s'" "rest_at b es s' t" "rel_cmd (word_at b) r' r"
    using assms(2) [unfolded lines_def, rule_format, OF g(2) a(2), of m] a(3) n by auto
  then show "\<exists>c' s'. parseline n b es s = Ok c' s' \<and> rest_at b es s' t \<and> rel_cmd (word_at b) c' (LIST l r)"
    using e g(1) peek_at [OF e(2), of "'';''"] unfolding n line_unfold by simp
qed

lemma parse_all: "cmd_ok c \<Longrightarrow> execs c \<and> pipes c \<and> backs c \<and> lines c"
proof (induction c)
  case (EXEC ws)
  have "execs (EXEC ws)" by (rule EXEC_execs [OF EXEC])
  then show ?case using execs_pipes pipes_backs backs_lines by simp
next
  case (REDIR c f mode fd)
  then have "execs (REDIR c f mode fd)" by (intro REDIR_execs) auto
  then show ?case using execs_pipes pipes_backs backs_lines by simp
next
  case (PIPE l r)
  then have p: "pipes (PIPE l r)" by (intro PIPE_pipes) auto
  then have "lines (PIPE l r)" "backs (PIPE l r)" using pipes_backs backs_lines by (simp_all add: Let_def)
  then show ?case using p block_execs [of "PIPE l r"] PIPE(3) by (simp add: Let_def)
next
  case (LIST l r)
  then have p: "lines (LIST l r)" by (intro LIST_lines) auto
  then have e: "execs (LIST l r)" using block_execs [of "LIST l r"] LIST(3) by (simp add: Let_def)
  then show ?case using p execs_pipes pipes_backs by (simp add: Let_def)
next
  case (BACK c)
  then have p: "backs (BACK c)" by (intro BACK_backs) auto
  then have l: "lines (BACK c)" using backs_lines by (simp add: Let_def)
  then have "execs (BACK c)" using block_execs [of "BACK c"] BACK(2) by (simp add: Let_def)
  then show ?case using p l execs_pipes by (simp add: Let_def)
qed

end
