(* ===== verification/Sh_Round.thy ===== *)
theory Sh_Round
  imports Sh_Parse
begin

text \<open>The parser of the shell understands what a command means when it is written out: every command that fits the limits
  of the shell, printed with the brackets it needs, is parsed back to itself.\<close>

section \<open>Strings in the line\<close>

lemma ustrlen_first:
  assumes "\<And>i. i < n \<Longrightarrow> b (s + i) \<noteq> NUL" "b (s + n) = NUL"
  shows "ustrlen b s = Some n"
proof -
  have "ustrlen_loop b s k = Some n" if "k \<le> n" for k
    using that
  proof (induction "n - k" arbitrary: k)
    case 0
    then show ?case using assms(2) by (subst ustrlen_loop.simps) simp
  next
    case (Suc d)
    then show ?case using assms(1) [of k] by (subst ustrlen_loop.simps) simp
  qed
  then show ?thesis by (simp add: ustrlen_def)
qed

lemma words_of_map: "words_of b c = map_cmd (\<lambda>qe. cstr b (fst qe)) c"
  by (induction c) (auto simp: case_prod_beta)

lemma nulterminate_ends: "nulterminate c b = (\<lambda>i. if i \<in> snd ` set_cmd c then NUL else b i)"
proof (induction c arbitrary: b)
  case (EXEC ws)
  have "fold (\<lambda>(q, eq) b. b(eq := NUL)) ws b = (\<lambda>i. if i \<in> snd ` set ws then NUL else b i)" for b
    by (induction ws arbitrary: b) (auto simp: fun_eq_iff)
  then show ?case by simp
qed (auto simp: fun_eq_iff)

lemma cmd_ok_words: "cmd_ok c \<Longrightarrow> w \<in> set_cmd c \<Longrightarrow> word_ok w"
  by (induction c) (auto simp: redir_ok_def)

text \<open>The ends of the words are not inside any word, so terminating them leaves every word in place.\<close>

lemma nulterminate_words:
  assumes r: "rel_cmd (word_at b) c' c" and ok: "cmd_ok c"
  shows "words_of (nulterminate c' b) c' = c"
proof -
  have e: "\<not> word_char (b i)" if "i \<in> snd ` set_cmd c'" for i
  proof -
    from that obtain x where x: "x \<in> set_cmd c'" "i = snd x" by blast
    then obtain w where "word_at b x w" using cmd.set_transfer [THEN rel_funD, OF r, THEN rel_setD1] by blast
    then show ?thesis using x(2) by (simp add: word_at_def)
  qed
  have "cstr (nulterminate c' b) (fst x) = w" if "x \<in> set_cmd c'" "w \<in> set_cmd c" "word_at b x w" for x w
  proof -
    let ?b = "nulterminate c' b" let ?n = "snd x - fst x"
    have w: "fst x \<le> snd x" "map b [fst x..<snd x] = w" "\<forall>c\<in>set w. word_char c"
      using that(3) cmd_ok_words [OF ok that(2)] by (auto simp: word_at_def word_ok_def)
    have in_w: "word_char (b i)" if "i \<in> {fst x..<snd x}" for i
    proof -
      have "b i \<in> set (map b [fst x..<snd x])" using that by simp
      then show ?thesis unfolding w(2) using w(3) by blast
    qed
    have b: "?b i = b i" if "i \<in> {fst x..<snd x}" for i
      using e [of i] in_w [OF that] by (simp only: nulterminate_ends) argo
    have "snd x \<in> snd ` set_cmd c'" using that(1) by simp
    then have z: "?b (snd x) = NUL" by (simp only: nulterminate_ends) simp
    have "ustrlen ?b (fst x) = Some ?n"
    proof (rule ustrlen_first)
      fix i assume "i < ?n"
      then have i: "fst x + i \<in> {fst x..<snd x}" by simp
      show "?b (fst x + i) \<noteq> NUL" unfolding b [OF i] using in_w [OF i] by blast
    next
      show "?b (fst x + ?n) = NUL" using w(1) z by simp
    qed
    then have "cstr ?b (fst x) = map ?b [fst x..<snd x]" using w(1) by (simp add: cstr_def)
    also have "\<dots> = map b [fst x..<snd x]" by (rule map_cong) (simp_all add: b)
    also have "\<dots> = w" by (rule w(2))
    finally show ?thesis .
  qed
  then have "rel_cmd (\<lambda>x w. cstr (nulterminate c' b) (fst x) = w) c' c" by (rule cmd.rel_mono_strong [OF r])
  then have "rel_cmd (=) (map_cmd (\<lambda>x. cstr (nulterminate c' b) (fst x)) c') c" by (simp add: cmd.rel_map)
  then show ?thesis by (simp add: words_of_map cmd.rel_eq)
qed

text \<open>Leading white space does not matter.\<close>

lemma skip_white_twice: "skip_white b es (skip_white b es s) = skip_white b es s"
proof (induction b es s rule: skip_white.induct)
  case (1 b es s)
  show ?case
  proof (cases "s < es \<and> white (b s)")
    case False
    then have "skip_white b es s = s" by (subst skip_white.simps) auto
    then show ?thesis by simp
  qed (use 1 in \<open>simp add: skip_white.simps [of _ _ s]\<close>)
qed

lemma parse_skip: "parseexec n b es (skip_white b es s) = parseexec n b es s" "parsepipe n b es (skip_white b es s) = parsepipe n b es s"
  "parseline n b es (skip_white b es s) = parseline n b es s"
proof -
  have p: "peek b es toks (skip_white b es s) = peek b es toks s" for toks by (simp add: peek_def skip_white_twice)
  have e: "parseexec n b es (skip_white b es s) = parseexec n b es s" for n by (cases n) (simp_all add: p)
  have q: "parsepipe n b es (skip_white b es s) = parsepipe n b es s" for n by (cases n) (simp_all add: e)
  show "parseexec n b es (skip_white b es s) = parseexec n b es s" "parsepipe n b es (skip_white b es s) = parsepipe n b es s"
    "parseline n b es (skip_white b es s) = parseline n b es s" by (rule e, rule q, cases n) (simp_all add: q)
qed

section \<open>Round trip\<close>

definition line_buf :: "string \<Rightarrow> umem" where
  "line_buf t = (\<lambda>i. if i < length t then t ! i else NUL)"

lemma lines_at:
  assumes "lines c" "rest_at b es s (text_of 3 c @ t)" "follow 3 t" "4 * length (text_of 3 c @ t) + 4 \<le> n"
  obtains c' s' where "parseline n b es s = Ok c' s'" "rest_at b es s' t" "rel_cmd (word_at b) c' c"
  using assms(1) [unfolded lines_def, rule_format, OF assms(2-4)] that by blast

lemma line_buf_is_line: "NUL \<notin> set t \<Longrightarrow> is_line (line_buf t) (length t)"
  by (auto simp: is_line_def line_buf_def in_set_conv_nth)

lemma line_buf_rest: "line_rest (line_buf t) (length t) 0 = t"
  unfolding line_rest_def line_buf_def by (intro nth_equalityI) auto

lemma text_no_nul: "cmd_ok c \<Longrightarrow> NUL \<notin> set (text_of lvl c)"
proof (induction c arbitrary: lvl)
  case (EXEC ws)
  then show ?case by (auto simp: words_text_def word_ok_def)
next
  case (REDIR c f mode fd)
  then show ?case by (auto simp: redir_text_def redir_ok_def word_ok_def)
qed (auto simp: Let_def)

text \<open>C5: the parser of the shell inverts the printing of commands. Any command whose words are made of ordinary characters, with
  fewer than ten arguments per program and redirections of input and output, is parsed back from its text, written with
  brackets where the grammar needs them and with any white space before and after it; the strings it is run with are
  the words of the command.\<close>

theorem parse_inverts_print:
  assumes ok: "cmd_ok c" and w: "\<forall>x\<in>set u. white x" "\<forall>x\<in>set v. white x"
  shows "\<exists>c' b'. parsecmd (line_buf (u @ text_of 3 c @ v)) 0 = Ok c' b' \<and> words_of b' c' = c"
proof -
  let ?t = "u @ text_of 3 c @ v"
  define es where "es = length ?t"
  obtain b where b: "b = line_buf ?t" by blast
  have "\<not> white NUL" by (simp add: whitespace_def)
  then have nn: "NUL \<notin> set ?t" using text_no_nul [OF ok, of 3] w by auto
  have l: "is_line b es" unfolding b es_def by (rule line_buf_is_line [OF nn])
  have "line_rest b es 0 = (u @ text_of 3 c) @ v" unfolding b es_def using line_buf_rest [of ?t] by simp
  then have "rest_at b es (skip_white b es 0) (dropWhile white (u @ text_of 3 c))" using rest_at_skip [OF l] w(2) by blast
  moreover have "dropWhile white (u @ text_of 3 c) = text_of 3 c @ []"
    using dropWhile_append2 [of u white "text_of 3 c"] w(1) dropWhile_start [of "text_of 3 c" white] text_start [OF ok, of "[]" 3] by simp
  ultimately have at: "rest_at b es (skip_white b es 0) (text_of 3 c @ [])" by argo
  have "follow 3 []" "4 * length (text_of 3 c @ []) + 4 \<le> 4 * es + 5" by (simp_all add: follow_def es_def)
  then obtain c' s' where p: "parseline (4 * es + 5) b es (skip_white b es 0) = Ok c' s'" "rest_at b es s' []" "rel_cmd (word_at b) c' c"
    using lines_at [OF _ at] parse_all [OF ok] by blast
  have "ustrlen b 0 = Some es" by (rule ustrlen_first) (use l in \<open>simp_all add: is_line_def\<close>)
  moreover have "snd (peek b es [] s') = es" using peek_at [OF p(2), of "[]"] rest_atD(6) [OF p(2)] by simp
  ultimately have "parsecmd b 0 = Ok c' (nulterminate c' b)" using p(1) unfolding parse_skip by (simp add: parsecmd_def)
  then show ?thesis using nulterminate_words [OF p(3) ok] unfolding b by blast
qed

theorem parse_inverts_print_witness:
  "text_of 3 (BACK (PIPE (EXEC [''ls'', ''-l'']) (LIST (REDIR (EXEC [''cat'']) ''f'' O_RDONLY_u 0) (EXEC [''wc''])))) = ''ls -l |(cat <f ;wc )&''
   \<and> (\<exists>c' b'. parsecmd (line_buf (''  '' @ text_of 3 (BACK (PIPE (EXEC [''ls'', ''-l'']) (LIST (REDIR (EXEC [''cat'']) ''f'' O_RDONLY_u 0) (EXEC [''wc''])))) @ [CHR 0x0A])) 0
        = Ok c' b'
      \<and> words_of b' c' = BACK (PIPE (EXEC [''ls'', ''-l'']) (LIST (REDIR (EXEC [''cat'']) ''f'' O_RDONLY_u 0) (EXEC [''wc'']))))"
proof
  let ?c = "BACK (PIPE (EXEC [''ls'', ''-l'']) (LIST (REDIR (EXEC [''cat'']) ''f'' O_RDONLY_u 0) (EXEC [''wc''])))"
  show "text_of 3 ?c = ''ls -l |(cat <f ;wc )&''" by (simp add: words_text_def redir_text_def Let_def)
  have "cmd_ok ?c" by (simp add: redir_ok_def word_ok_def whitespace_def symbols_def MAXARGS_def)
  then show "\<exists>c' b'. parsecmd (line_buf (''  '' @ text_of 3 ?c @ [CHR 0x0A])) 0 = Ok c' b' \<and> words_of b' c' = ?c"
    by (rule parse_inverts_print) (simp_all add: whitespace_def)
qed

end
