(* ===== verification/Grep.thy ===== *)
theory Grep
  imports User
begin

text \<open>
  The program \<^verbatim>\<open>usr/grep.c\<close>: the matcher for patterns with \<open>^ . * $\<close>, the filter over a buffer of 1024 bytes, and the main
  program. Patterns and lines are lists of the characters before the NUL. The buffer is at address 0 of the memory of the
  program. The matcher is shown to decide the language of its pattern.
\<close>

section \<open>The matcher\<close>

function matchhere :: "string \<Rightarrow> string \<Rightarrow> bool" and matchstar :: "char \<Rightarrow> string \<Rightarrow> string \<Rightarrow> bool" where
  "matchhere re tx =
     (case re of [] \<Rightarrow> True
      | r0 # re1 \<Rightarrow>
          if re1 \<noteq> [] \<and> hd re1 = CHR ''*'' then matchstar r0 (tl re1) tx
          else if r0 = CHR ''$'' \<and> re1 = [] then tx = []
          else if tx \<noteq> [] \<and> (r0 = CHR ''.'' \<or> r0 = hd tx) then matchhere re1 (tl tx)
          else False)"
| "matchstar c re tx =
     (if matchhere re tx then True
      else if tx \<noteq> [] \<and> (hd tx = c \<or> c = CHR ''.'') then matchstar c re (tl tx)
      else False)"
  by pat_completeness auto

termination
proof (relation "measures [\<lambda>x. case x of Inl (re, t) \<Rightarrow> length re | Inr (c, re, t) \<Rightarrow> Suc (length re),
    \<lambda>x. case x of Inl (re, t) \<Rightarrow> length t | Inr (c, re, t) \<Rightarrow> length t]", goal_cases)
  case (2 re tx r0 re1)
  then show ?case by (cases re1) auto
qed (auto simp: neq_Nil_conv)

declare matchhere.simps [simp del] matchstar.simps [simp del]

text \<open>The loop of \<open>match\<close>, which looks at the empty rest of the text as well.\<close>

fun match_from :: "string \<Rightarrow> string \<Rightarrow> bool" where
  "match_from re [] = matchhere re []"
| "match_from re (c # tx) = (if matchhere re (c # tx) then True else match_from re tx)"

definition match :: "string \<Rightarrow> string \<Rightarrow> bool" where
  "match re tx = (if re \<noteq> [] \<and> hd re = CHR ''^'' then matchhere (tl re) tx else match_from re tx)"

section \<open>The filter\<close>

text \<open>The lines from position \<open>p\<close> on, at most \<open>n\<close>: \<open>k\<close> goes on with the position behind the last newline and the buffer.\<close>

fun grep_lines :: "nat \<Rightarrow> string \<Rightarrow> nat \<Rightarrow> umem \<Rightarrow> (nat \<Rightarrow> umem \<Rightarrow> 'a prog) \<Rightarrow> 'a prog" where
  "grep_lines 0 pattern p b k = Unfinished"
| "grep_lines (Suc n) pattern p b k =
     (case ustrchr b p (CHR 0x0A) of None \<Rightarrow> Unfinished
      | Some None \<Rightarrow> k p b
      | Some (Some q) \<Rightarrow>
          (let b1 = b(q := NUL)
           in if match pattern (cstr b1 p)
              then (let b2 = b1(q := CHR 0x0A) in sys_then (Sys_write 1 (map b2 [p..<q + 1])) (grep_lines n pattern (q + 1) b2 k))
              else grep_lines n pattern (q + 1) b1 k))"

text \<open>The bytes that a read stores.\<close>

definition store :: "nat \<Rightarrow> string \<Rightarrow> umem \<Rightarrow> umem" where
  "store p d b = (\<lambda>i. if p \<le> i \<and> i < p + length d then d ! (i - p) else b i)"

text \<open>At most \<open>n\<close> reads. No more than 1024 lines fit into the buffer.\<close>

fun grep :: "nat \<Rightarrow> string \<Rightarrow> int \<Rightarrow> nat \<Rightarrow> umem \<Rightarrow> (umem \<Rightarrow> 'a prog) \<Rightarrow> 'a prog" where
  "grep 0 pattern fd m b k = Unfinished"
| "grep (Suc n) pattern fd m b k =
     Call (Sys_read fd (1024 - m)) (\<lambda>r.
       if ret r \<le> 0 then k b
       else (let m1 = m + nat (ret r)
             in grep_lines 1025 pattern 0 (store m (data r) b) (\<lambda>p b1.
                  let m2 = (if p = 0 then 0 else m1)
                  in if m2 > 0 then grep n pattern fd (m2 - p) (umemmove 0 p (m2 - p) b1) k else grep n pattern fd m2 b1 k)))"

fun grep_files :: "nat \<Rightarrow> string \<Rightarrow> string list \<Rightarrow> umem \<Rightarrow> unit prog" where
  "grep_files n pattern [] b = uexit"
| "grep_files n pattern (f # fs) b =
     sys (Sys_open f 0) (\<lambda>fd.
       if fd < 0 then uprintf 1 (''grep: cannot open '' @ [CHR 0x25] @ ''s'' @ unl) [str f] uexit
       else grep n pattern fd 0 b (\<lambda>b1. sys_then (Sys_close fd) (grep_files n pattern fs b1)))"

text \<open>The main program; \<open>argv\<close> starts with the name of the program, and the buffer is zero at first.\<close>

definition grep_main :: "nat \<Rightarrow> string list \<Rightarrow> unit prog" where
  "grep_main n argv =
     (if length argv \<le> 1 then uprintf 2 (''usage: grep pattern [file ...]'' @ unl) [] uexit
      else if length argv \<le> 2 then grep n (argv ! 1) 0 0 (\<lambda>_. NUL) (\<lambda>_. uexit)
      else grep_files n (argv ! 1) (drop 2 argv) (\<lambda>_. NUL))"

section \<open>The language of a pattern\<close>

text \<open>A pattern is a sequence of characters, each alone or repeated, where a dot stands for any character. It may be tied to
  the beginning and to the end of the line.\<close>

definition fits :: "char \<Rightarrow> char \<Rightarrow> bool" where
  "fits c x \<longleftrightarrow> c = CHR ''.'' \<or> x = c"

fun atoms :: "string \<Rightarrow> (char \<times> bool) list" where
  "atoms [] = []"
| "atoms [c] = (if c = CHR ''$'' then [] else [(c, False)])"
| "atoms (c # d # re) = (if d = CHR ''*'' then (c, True) # atoms re else (c, False) # atoms (d # re))"

fun to_end :: "string \<Rightarrow> bool" where
  "to_end [] = False"
| "to_end [c] = (c = CHR ''$'')"
| "to_end (c # d # re) = (if d = CHR ''*'' then to_end re else to_end (d # re))"

fun lang :: "(char \<times> bool) list \<Rightarrow> string set" where
  "lang [] = {[]}"
| "lang ((c, False) # as) = {x # w |x w. fits c x \<and> w \<in> lang as}"
| "lang ((c, True) # as) = {v @ w |v w. list_all (fits c) v \<and> w \<in> lang as}"

definition from_start :: "string \<Rightarrow> bool" where
  "from_start re \<longleftrightarrow> re \<noteq> [] \<and> hd re = CHR ''^''"

definition body :: "string \<Rightarrow> string" where
  "body re = (if from_start re then tl re else re)"

definition here :: "string \<Rightarrow> string \<Rightarrow> bool" where
  "here re tx \<longleftrightarrow> (\<exists>w v. tx = w @ v \<and> w \<in> lang (atoms re) \<and> (to_end re \<longrightarrow> v = []))"

lemma ex_split_Cons: "(\<exists>u v. x # t = u @ v \<and> R u v) \<longleftrightarrow> R [] (x # t) \<or> (\<exists>u v. t = u @ v \<and> R (x # u) v)"
  by (auto simp: Cons_eq_append_conv)

text \<open>What matches from here on matches behind a repeated character, whose repetitions are the shortest that do.\<close>

lemma matchstar_iff: "matchstar c re tx \<longleftrightarrow> (\<exists>u v. tx = u @ v \<and> list_all (fits c) u \<and> matchhere re v)"
proof (induction tx)
  case Nil
  then show ?case by (subst matchstar.simps) simp
next
  case (Cons x t)
  moreover have "x = c \<or> c = CHR ''.'' \<longleftrightarrow> fits c x" by (auto simp: fits_def)
  ultimately show ?case by (subst matchstar.simps) (simp add: ex_split_Cons; blast)
qed

lemma here_star: "here (c # CHR ''*'' # re) tx \<longleftrightarrow> (\<exists>u v. tx = u @ v \<and> list_all (fits c) u \<and> here re v)"
proof
  assume "here (c # CHR ''*'' # re) tx"
  then obtain x v where x: "tx = x @ v" "x \<in> lang (atoms (c # CHR ''*'' # re))" "to_end re \<longrightarrow> v = []" unfolding here_def by auto
  then obtain u w where "x = u @ w" "list_all (fits c) u" "w \<in> lang (atoms re)" by auto
  then have "tx = u @ (w @ v)" "list_all (fits c) u" "w \<in> lang (atoms re)" "to_end re \<longrightarrow> v = []" using x by simp_all
  then show "\<exists>u v. tx = u @ v \<and> list_all (fits c) u \<and> here re v" unfolding here_def by blast
next
  assume "\<exists>u v. tx = u @ v \<and> list_all (fits c) u \<and> here re v"
  then obtain u w v where t: "tx = u @ w @ v" "list_all (fits c) u" "w \<in> lang (atoms re)" "to_end re \<longrightarrow> v = []" unfolding here_def by blast
  then have "u @ w \<in> lang (atoms (c # CHR ''*'' # re))" by auto
  then show "here (c # CHR ''*'' # re) tx" unfolding here_def using t by (intro exI [of _ "u @ w"] exI [of _ v]) simp
qed

lemma here_one:
  assumes "re = [] \<longrightarrow> c \<noteq> CHR ''$''" "re \<noteq> [] \<longrightarrow> hd re \<noteq> CHR ''*''"
  shows "here (c # re) tx \<longleftrightarrow> tx \<noteq> [] \<and> fits c (hd tx) \<and> here re (tl tx)"
proof -
  have "atoms (c # re) = (c, False) # atoms re" "to_end (c # re) = to_end re" using assms by (cases re; simp)+
  then show ?thesis by (cases tx) (simp_all add: here_def ex_split_Cons, blast)
qed

lemma matchhere_iff: "matchhere re tx \<longleftrightarrow> here re tx"
proof (induction "length re" arbitrary: re tx rule: less_induct)
  case less
  show ?case
  proof (cases re)
    case Nil
    then show ?thesis by (subst matchhere.simps) (simp add: here_def)
  next
    case (Cons c re1)
    consider re2 where "re1 = CHR ''*'' # re2" | "re1 = []" "c = CHR ''$''"
      | "re1 = [] \<longrightarrow> c \<noteq> CHR ''$''" "re1 \<noteq> [] \<longrightarrow> hd re1 \<noteq> CHR ''*''" by (cases re1) auto
    then show ?thesis
    proof cases
      case 1
      then have "matchhere re2 v \<longleftrightarrow> here re2 v" for v using less Cons by simp
      then show ?thesis using 1 Cons by (subst matchhere.simps) (simp add: here_star matchstar_iff)
    next
      case 2
      then show ?thesis using Cons by (subst matchhere.simps) (simp add: here_def)
    next
      case 3
      then have "matchhere re1 v \<longleftrightarrow> here re1 v" for v using less Cons by simp
      then show ?thesis using 3 Cons by (cases tx; subst matchhere.simps) (auto simp: here_one fits_def)
    qed
  qed
qed

lemma match_from_iff: "match_from re tx \<longleftrightarrow> (\<exists>u v. tx = u @ v \<and> here re v)"
proof (induction tx)
  case (Cons x t)
  then show ?case by (simp add: matchhere_iff ex_split_Cons)
qed (simp add: matchhere_iff)

text \<open>C29: \<open>match\<close> decides the language of its pattern: it answers yes exactly if the line has a part in the language, which starts
  the line if the pattern starts with \<open>^\<close> and ends it if the pattern ends with a \<open>$\<close> that is not repeated.\<close>

theorem match_decides:
  "match re tx \<longleftrightarrow> (\<exists>u w v. tx = u @ w @ v \<and> w \<in> lang (atoms (body re)) \<and> (from_start re \<longrightarrow> u = []) \<and> (to_end (body re) \<longrightarrow> v = []))"
proof (cases "from_start re")
  case True
  then show ?thesis by (simp add: match_def from_start_def body_def matchhere_iff here_def)
next
  case False
  then have "match re tx \<longleftrightarrow> (\<exists>u v. tx = u @ v \<and> here (body re) v)"
    by (auto simp: match_def from_start_def body_def match_from_iff)
  then show ?thesis using False by (auto simp: here_def)
qed

theorem match_decides_witness:
  "match ''^ab*.c$'' ''abbxc'' \<and> (\<exists>u w v. ''abbxc'' = u @ w @ v \<and> w \<in> lang (atoms (body ''^ab*.c$'')) \<and> (from_start ''^ab*.c$'' \<longrightarrow> u = [])
     \<and> (to_end (body ''^ab*.c$'') \<longrightarrow> v = []))"
proof
  show "match ''^ab*.c$'' ''abbxc''" by (simp add: match_def matchhere.simps matchstar.simps)
  then show "\<exists>u w v. ''abbxc'' = u @ w @ v \<and> w \<in> lang (atoms (body ''^ab*.c$'')) \<and> (from_start ''^ab*.c$'' \<longrightarrow> u = [])
     \<and> (to_end (body ''^ab*.c$'') \<longrightarrow> v = [])" by (rule match_decides [THEN iffD1])
qed

end
