(* ===== verification/Spec2Isabelle.thy ===== *)
theory Spec2Isabelle
  imports KString Sched_Steps Buddy_Props Log_Trans Pipe_Props Sys_Props Dir_Props Fd_Typing Mkfs_Image Start_Props Sh_Round Grep
begin

text \<open>
  A verification development for the xv6 port to ARMv8 under \<^verbatim>\<open>src/xv6-armv8\<close>: the kernel, the program that builds its
  disk image, the shell and \<^verbatim>\<open>grep\<close> with the library they are linked with.

  \<^bold>\<open>The program.\<close> \<^verbatim>\<open>start.c\<close> turns on the MMU and calls \<open>kmain\<close> of \<^verbatim>\<open>main.c\<close>, which initialises every part of the
  kernel and enters the scheduler of \<^verbatim>\<open>proc.c\<close>. Interrupts, faults and system calls come in through \<^verbatim>\<open>trap.c\<close>;
  \<^verbatim>\<open>syscall.c\<close> fetches arguments from user memory and dispatches to \<^verbatim>\<open>sysproc.c\<close> and \<^verbatim>\<open>sysfile.c\<close>. Memory comes from
  \<^verbatim>\<open>buddy.c\<close> and is mapped by \<^verbatim>\<open>vm.c\<close>. The file system is a stack: \<^verbatim>\<open>memide.c\<close> holds the sectors, \<^verbatim>\<open>bio.c\<close>
  caches them, \<^verbatim>\<open>log.c\<close> makes groups of writes atomic, \<^verbatim>\<open>fs.c\<close> builds inodes, files and directories on it, and
  \<^verbatim>\<open>file.c\<close> and \<^verbatim>\<open>pipe.c\<close> the open files. \<^verbatim>\<open>tools/mkfs.c\<close> writes the image that \<^verbatim>\<open>memide.c\<close> serves. \<^verbatim>\<open>usr/sh.c\<close>
  and \<^verbatim>\<open>usr/grep.c\<close> run on top of the system calls.

  \<^bold>\<open>How code is modelled.\<close> A kernel routine is a function from its arguments and the kernel state to an \<open>outcome\<close>
  (\<open>Prelude\<close>): \<open>Ok\<close> with the result and the new state; \<open>Panic\<close> with the message; \<open>Fault\<close> for an access outside an
  array, through a null pointer or to a variable that is not set; \<open>Diverge\<close> for a loop that does not end; and \<open>Swtch\<close>
  with the state in which the routine gave up the CPU in \<open>sched\<close>. A routine that can sleep has a companion named
  \<open>_resume\<close> with what it does when it is scheduled again; the steps of other processes lie in between. The state is a
  chain of records, one per layer, each extending the one below; a routine is polymorphic in what the layers above add.
  Machine integers are words of their width; pointers into arrays are indices, and pointers into memory are 64-bit words.

  \<^bold>\<open>Theories and sources.\<close>
  \<^item> \<open>Prelude\<close>, \<open>Links\<close>, \<open>Ring\<close>: outcomes, words and arrays; doubly linked lists; ring buffers with free-running counters.
  \<^item> \<open>KString\<close>: \<^verbatim>\<open>lib/string.c\<close>.
  \<^item> \<open>Sched\<close>: \<^verbatim>\<open>arm.c\<close>, \<^verbatim>\<open>spinlock.c\<close> and the scheduling half of \<^verbatim>\<open>proc.c\<close>. \<open>sleep_with\<close> has the points at which an interrupt
    can be taken in \<open>sleep\<close>; \<open>sleep\<close> is the run without one. \<open>Lock_Discipline\<close>: every routine of the kernel, up to \<open>syscall\<close>,
    \<open>irq_handler\<close> and \<open>kmain\<close>, gives back the locks it takes and gives up the CPU as \<open>sched\<close> demands. \<open>Sched_Steps\<close>: the
    transition system of scheduler, processes and interrupts.
  \<^item> \<open>Buddy\<close>: \<^verbatim>\<open>buddy.c\<close>; \<open>Buddy_Spec\<close> its abstract view as a set of free blocks, \<open>Buddy_Marks\<close>, \<open>Buddy_Alloc\<close> and
    \<open>Buddy_Props\<close> the refinement and the properties of whole histories.
  \<^item> \<open>Bio\<close>: \<^verbatim>\<open>bio.c\<close>, \<^verbatim>\<open>memide.c\<close>; \<open>Bio_Cache\<close> its invariant. \<open>Log\<close>: \<^verbatim>\<open>log.c\<close>; \<open>Log_Blocks\<close>, \<open>Log_Crash\<close>, \<open>Log_Trans\<close>
    its transactions and what a crash leaves of them. \<open>Layout\<close>: the on-disk structures of \<^verbatim>\<open>fs.h\<close>.
  \<^item> \<open>Inode\<close>, \<open>Fs\<close>: \<^verbatim>\<open>fs.c\<close>; \<open>Fs_Blocks\<close>, \<open>Inode_Props\<close>, \<open>File_Content\<close>, \<open>Dir_Props\<close> the block allocator, the inode cache,
    the contents of files and directories as maps. \<open>Boot_State\<close>: a small kernel state for the witnesses.
  \<^item> \<open>Console\<close>: \<^verbatim>\<open>console.c\<close>; \<open>Console_Props\<close>. \<open>File\<close>: \<^verbatim>\<open>file.c\<close>, \<^verbatim>\<open>pipe.c\<close>; \<open>Pipe_Props\<close>, \<open>Fd_Frame\<close>, \<open>Fd_Typing\<close>.
  \<^item> \<open>Vm\<close>: \<^verbatim>\<open>vm.c\<close>. \<open>Proc\<close>: the life cycle half of \<^verbatim>\<open>proc.c\<close>. \<open>Exec\<close>: \<^verbatim>\<open>exec.c\<close>. \<open>Syscall\<close>: \<^verbatim>\<open>syscall.c\<close>,
    \<^verbatim>\<open>sysproc.c\<close>. \<open>Sysfile\<close>: \<^verbatim>\<open>sysfile.c\<close>; \<open>Sys_Props\<close>. \<open>Gic\<close>: \<^verbatim>\<open>device\<close>. \<open>Trap\<close>: \<^verbatim>\<open>trap.c\<close>, \<^verbatim>\<open>main.c\<close>.
  \<^item> \<open>Start\<close>: \<^verbatim>\<open>start.c\<close>; \<open>Start_Props\<close> the address space it sets up.
  \<^item> \<open>Mkfs\<close>: \<^verbatim>\<open>tools/mkfs.c\<close>; \<open>Mkfs_Props\<close>, \<open>Mkfs_Image\<close> the image it builds.
  \<^item> \<open>User\<close>: \<^verbatim>\<open>usr/ulib.c\<close>, \<^verbatim>\<open>usr/printf.c\<close>, and user programs as trees of system calls. \<open>Sh\<close>: \<^verbatim>\<open>usr/sh.c\<close>; \<open>Sh_Parse\<close>,
    \<open>Sh_Round\<close> its parser. \<open>Grep\<close>: \<^verbatim>\<open>usr/grep.c\<close>.

  \<^bold>\<open>What is shown.\<close> Memory: blocks handed out by the allocator never overlap, an allocation fails only if no free block is
  large enough, and no panic is reachable for clients that free what they got. Storage: the cache is coherent with the
  disk, a transaction is all or nothing under a crash between any two disk writes, blocks are allocated once, inodes and
  file contents are read back as they were written, directories behave like maps from names to inodes, and \<^verbatim>\<open>mkfs\<close>
  builds an image with exactly the given files, clear of the log. Concurrency: at most one process runs, whatever
  the system calls and interrupts do, the checks of \<open>sched\<close> never fail, no interrupt comes between a sleeper and its wakeup,
  nested sections restore the interrupt mask, pipes are bounded queues, descriptors stay typed and counted. Interfaces: user
  buffers lie inside the process, the console edits its line as specified, the boot code maps what it should, the
  parser of the shell inverts printing, and the matcher of \<^verbatim>\<open>grep\<close> decides the language of its pattern. Where the code
  falls short of what it means to do, the theorem states what it does: the tenth block of a transaction, files that reach into the log, negative sizes in \<open>argptr\<close>, the last system call number, the decimal printing
  of negative numbers, the cleared part of the BSS section.

  \<^bold>\<open>Bounds.\<close> The theorems on the log hold for any number of sectors; their witnesses use the ten sectors from 1014 on of the image
  of \<^verbatim>\<open>mkfs\<close>. In \<open>Sched_Steps\<close> a routine is one step up to its return or its \<open>sched\<close>, and interrupts are taken between steps. Loops with a decreasing argument are total functions. Searches through the LRU list are bounded by the number
  of buffers, as a longer list is a cycle. The parser of the shell gets four calls per character of the line and five
  more, which \<open>Sh_Round\<close> shows to be enough. Loops over user input take a number of iterations. The string routines are
  partial functions that give \<open>None\<close> when there is no end of the string.

  \<^bold>\<open>Not modelled.\<close> Assembly (\<^verbatim>\<open>entry.S\<close>, \<^verbatim>\<open>swtch.S\<close>, \<^verbatim>\<open>trap_asm.S\<close>, \<^verbatim>\<open>initcode.S\<close>), caches and the TLB, the delay loop of the
  timer, and the other user programs, among them the tests and the user heap of \<^verbatim>\<open>umalloc.c\<close>. There is one CPU, as in
  the code. Devices are their registers.
\<close>

end
